(* ===== verification/Prelude.thy ===== *)
theory Prelude
  imports Main
begin

text \<open>
  Shared vocabulary of the development.

  \<^item> \<open>time\<close> and \<open>dur\<close>: the code's \<^verbatim>\<open>DateTime<Utc>\<close> and \<^verbatim>\<open>Duration\<close>, as
    whole nanoseconds (chrono's resolution) on an unbounded line; the overflow panics at the
    ends of chrono's range are outside the model, and the two end points the code names,
    \<^verbatim>\<open>MIN_UTC\<close> and \<^verbatim>\<open>MAX_UTC\<close>, are arguments of the definitions that use them.
  \<^item> \<open>panic\<close> and \<open>'a res\<close>: a Rust panic (\<^verbatim>\<open>expect\<close>, \<^verbatim>\<open>unwrap\<close>, \<^verbatim>\<open>assert!\<close>,
    \<^verbatim>\<open>panic!\<close>) or a raised Python exception is the left value of a sum, so every
    failing branch of the code is a branch of the model; \<open>ebind\<close> sequences them and
    \<open>efold\<close> is a loop that stops at the first failure.
  \<^item> lemma collections used as simp sets by the component theories, and generic facts on
    lists, folds and integer division.
\<close>

section \<open>Types shared by the components\<close>

type_synonym time = int
type_synonym dur = int
type_synonym epoch = nat

text \<open>Why a computation stopped: the kind of panic, with the code's message kind.\<close>

datatype panic =
    Expect string      \<comment> \<open>\<^verbatim>\<open>Option::expect\<close> or \<^verbatim>\<open>unwrap\<close> on \<^verbatim>\<open>None\<close>\<close>
  | AssertFail string  \<comment> \<open>\<^verbatim>\<open>assert!\<close>\<close>
  | PanicMsg string    \<comment> \<open>\<^verbatim>\<open>panic!\<close>\<close>
  | PyErr string       \<comment> \<open>a raised Python exception, by its type\<close>

type_synonym 'a res = "panic + 'a"

section \<open>Sequencing failing computations\<close>

definition ebind :: "'e + 'a \<Rightarrow> ('a \<Rightarrow> 'e + 'b) \<Rightarrow> 'e + 'b" where
  "ebind m f = (case m of Inl e \<Rightarrow> Inl e | Inr x \<Rightarrow> f x)"

definition emap :: "('a \<Rightarrow> 'b) \<Rightarrow> 'e + 'a \<Rightarrow> 'e + 'b" where
  "emap f m = ebind m (\<lambda>x. Inr (f x))"

definition eguard :: "bool \<Rightarrow> 'e \<Rightarrow> 'e + unit" where
  "eguard b e = (if b then Inr () else Inl e)"

fun efold :: "('s \<Rightarrow> 'a \<Rightarrow> 'e + 's) \<Rightarrow> 's \<Rightarrow> 'a list \<Rightarrow> 'e + 's" where
  "efold f s [] = Inr s"
| "efold f s (x # xs) = ebind (f s x) (\<lambda>s'. efold f s' xs)"

fun emapM :: "('a \<Rightarrow> 'e + 'b) \<Rightarrow> 'a list \<Rightarrow> 'e + 'b list" where
  "emapM f [] = Inr []"
| "emapM f (x # xs) = ebind (f x) (\<lambda>y. ebind (emapM f xs) (\<lambda>ys. Inr (y # ys)))"

text \<open>\<^verbatim>\<open>opt.expect(msg)\<close>\<close>

definition expect :: "string \<Rightarrow> 'a option \<Rightarrow> 'a res" where
  "expect msg x = (case x of None \<Rightarrow> Inl (Expect msg) | Some y \<Rightarrow> Inr y)"

named_theorems res_simps \<open>computation rules of the failing computations\<close>
named_theorems res_elims \<open>inversion of a computation that succeeded\<close>

lemma ebind_Inl [simp, res_simps]: "ebind (Inl e) f = Inl e"
  by (simp add: ebind_def)

lemma ebind_Inr [simp, res_simps]: "ebind (Inr x) f = f x"
  by (simp add: ebind_def)

lemma ebind_assoc: "ebind (ebind m f) g = ebind m (\<lambda>x. ebind (f x) g)"
  by (cases m) simp_all

lemma ebind_eq_Inr_iff: "ebind m f = Inr y \<longleftrightarrow> (\<exists>x. m = Inr x \<and> f x = Inr y)"
  by (cases m) simp_all

lemma ebind_InrE [res_elims]:
  assumes "ebind m f = Inr y"
  obtains x where "m = Inr x" "f x = Inr y"
  using assms by (auto simp: ebind_eq_Inr_iff)

lemma emap_Inl [simp, res_simps]: "emap f (Inl e) = Inl e"
  by (simp add: emap_def)

lemma emap_Inr [simp, res_simps]: "emap f (Inr x) = Inr (f x)"
  by (simp add: emap_def)

lemma emap_eq_Inr_iff: "emap f m = Inr y \<longleftrightarrow> (\<exists>x. m = Inr x \<and> y = f x)"
  by (cases m) auto

lemma eguard_True [simp, res_simps]: "eguard True e = Inr ()"
  by (simp add: eguard_def)

lemma eguard_eq_Inr_iff [simp]: "eguard b e = Inr u \<longleftrightarrow> b"
  by (simp add: eguard_def)

lemma eguard_eq_Inl_iff [simp]: "eguard b e = Inl e' \<longleftrightarrow> \<not> b \<and> e' = e"
  by (auto simp: eguard_def)

lemma expect_Some [simp, res_simps]: "expect msg (Some x) = Inr x"
  by (simp add: expect_def)

lemma expect_None [simp, res_simps]: "expect msg None = Inl (Expect msg)"
  by (simp add: expect_def)

lemma expect_eq_Inr_iff [simp]: "expect msg x = Inr y \<longleftrightarrow> x = Some y"
  by (cases x) simp_all

lemma efold_append: "efold f s (xs @ ys) = ebind (efold f s xs) (\<lambda>s'. efold f s' ys)"
  by (induction xs arbitrary: s) (simp_all add: ebind_assoc)

text \<open>A loop that keeps an invariant and cannot fail under it.\<close>

lemma efold_total:
  assumes "P s" and "\<And>s x. P s \<Longrightarrow> x \<in> set xs \<Longrightarrow> \<exists>s'. f s x = Inr s' \<and> P s'"
  shows "\<exists>s'. efold f s xs = Inr s' \<and> P s'"
  using assms
proof (induction xs arbitrary: s)
  case Nil
  then show ?case by simp
next
  case (Cons x xs)
  from Cons.prems obtain s1 where "f s x = Inr s1" and "P s1" by fastforce
  with Cons.IH [of s1] Cons.prems(2) show ?case by simp
qed

text \<open>The invariant rule for a loop that did not fail.\<close>

lemma efold_invariant:
  assumes "efold f s xs = Inr t" and "P s"
    and "\<And>s x s'. P s \<Longrightarrow> x \<in> set xs \<Longrightarrow> f s x = Inr s' \<Longrightarrow> P s'"
  shows "P t"
  using assms
proof (induction xs arbitrary: s)
  case Nil
  then show ?case by simp
next
  case (Cons x xs)
  from Cons.prems(1) obtain s1 where s1: "f s x = Inr s1" and rest: "efold f s1 xs = Inr t"
    by (auto elim: ebind_InrE)
  from Cons.prems(2,3) s1 have "P s1" by auto
  with rest show ?case by (rule Cons.IH) (use Cons.prems(3) in auto)
qed

lemma efold_Inr [simp]: "efold (\<lambda>s x. Inr (g s x)) s xs = Inr (foldl g s xs)"
  by (induction xs arbitrary: s) simp_all

lemma emapM_eq_Inr_length: "emapM f xs = Inr ys \<Longrightarrow> length ys = length xs"
  by (induction xs arbitrary: ys) (auto elim!: ebind_InrE)

lemma emapM_total:
  assumes "\<And>x. x \<in> set xs \<Longrightarrow> f x = Inr (g x)"
  shows "emapM f xs = Inr (map g xs)"
  using assms by (induction xs) simp_all

lemma emapM_Inr_iff: "emapM f xs = Inr ys \<longleftrightarrow> list_all2 (\<lambda>x y. f x = Inr y) xs ys"
proof (induction xs arbitrary: ys)
  case Nil
  show ?case by auto
next
  case (Cons x xs)
  show ?case by (cases ys) (auto simp: ebind_eq_Inr_iff Cons)
qed

lemma emapM_Inr_set:
  assumes "emapM f xs = Inr ys"
  shows "y \<in> set ys \<longleftrightarrow> (\<exists>x \<in> set xs. f x = Inr y)"
  using assms by (induction xs arbitrary: ys) (auto elim!: ebind_InrE)

lemma emapM_Inr_all: "emapM f xs = Inr ys \<Longrightarrow> x \<in> set xs \<Longrightarrow> \<exists>y \<in> set ys. f x = Inr y"
  by (induction xs arbitrary: ys) (auto elim!: ebind_InrE)

section \<open>Lists\<close>

lemma concat_map_guard:
  "concat (map (\<lambda>x. if P x then [] else [f x]) xs) = map f (filter (\<lambda>x. \<not> P x) xs)"
  by (induction xs) auto

lemma map_shift_upto: "map (\<lambda>i. k + i) [0..m] = [k..k + m]" for k m :: int
  by (rule nth_equalityI) (auto simp: nth_upto)

lemma sorted_wrt_upto: "sorted_wrt (<) [i..j]" for i j :: int
  by (induction i j rule: upto.induct) (subst upto.simps, auto)

section \<open>Integer division as the code uses it\<close>

text \<open>
  Rust's \<^verbatim>\<open>/\<close> on signed integers, and chrono's \<^verbatim>\<open>num_milliseconds\<close>, truncate towards
  zero; HOL's \<open>div\<close> rounds down, as \<^verbatim>\<open>Integer::div_floor\<close> does.
\<close>

definition trunc_div :: "int \<Rightarrow> int \<Rightarrow> int" where
  "trunc_div x y = (if (x < 0) = (y < 0) then \<bar>x\<bar> div \<bar>y\<bar> else - (\<bar>x\<bar> div \<bar>y\<bar>))"

lemma trunc_div_mult [simp]: "y \<noteq> 0 \<Longrightarrow> trunc_div (q * y) y = q"
  by (auto simp: trunc_div_def abs_mult mult_less_0_iff zero_less_mult_iff split: if_splits)

lemma mult_le_iff_le_div: "0 < b \<Longrightarrow> b * k \<le> a \<longleftrightarrow> k \<le> a div b" for a b k :: int
proof
  assume b: "0 < b" and "b * k \<le> a"
  then have "b * k div b \<le> a div b" by (intro zdiv_mono1)
  with b show "k \<le> a div b" by simp
next
  assume b: "0 < b" and "k \<le> a div b"
  then have "b * k \<le> b * (a div b)" by simp
  also have "\<dots> \<le> a" using b by (metis mult.commute mult_div_mod_eq add.right_neutral
        add_le_cancel_left pos_mod_sign)
  finally show "b * k \<le> a" .
qed

lemma div_less_iff_less_mult: "0 < b \<Longrightarrow> a div b < k \<longleftrightarrow> a < b * k" for a b k :: int
  using mult_le_iff_le_div [of b k a] by linarith

lemma trunc_div_nonneg: "0 \<le> a \<Longrightarrow> 0 < b \<Longrightarrow> trunc_div a b = a div b"
  by (simp add: trunc_div_def)

end
