(* ===== verification/BTree.thy ===== *)
theory BTree
  imports Prelude
begin

text \<open>
  Rust's \<^verbatim>\<open>BTreeMap\<close> and \<^verbatim>\<open>BTreeSet\<close>, which the code iterates in key order.
  A map is its list of entries in ascending key order (\<open>bt_wf\<close>), a set its ascending list
  of elements (\<open>bs_wf\<close>): iteration is the list itself, so every loop over a map has the
  code's order, and all operations evaluate. The interface \<open>ordered_map\<close> states what the
  clients rely on; it is interpreted on these operations at the end of its section. The
  lookup laws hold without \<open>bt_wf\<close>; only the order of iteration needs it.
\<close>

section \<open>Ordered maps\<close>

type_synonym ('k, 'v) btree = "('k \<times> 'v) list"

definition bt_wf :: "('k::linorder, 'v) btree \<Rightarrow> bool" where
  "bt_wf m \<longleftrightarrow> sorted_wrt (<) (map fst m)"

fun bt_insert :: "'k::linorder \<Rightarrow> 'v \<Rightarrow> ('k, 'v) btree \<Rightarrow> ('k, 'v) btree" where
  "bt_insert k v [] = [(k, v)]"
| "bt_insert k v ((a, b) # m) =
     (if k < a then (k, v) # (a, b) # m
      else if k = a then (k, v) # m
      else (a, b) # bt_insert k v m)"

definition bt_remove :: "'k \<Rightarrow> ('k, 'v) btree \<Rightarrow> ('k, 'v) btree" where
  "bt_remove k m = filter (\<lambda>p. fst p \<noteq> k) m"

abbreviation bt_get :: "('k, 'v) btree \<Rightarrow> 'k \<Rightarrow> 'v option" where
  "bt_get \<equiv> map_of"

abbreviation bt_keys :: "('k, 'v) btree \<Rightarrow> 'k list" where
  "bt_keys m \<equiv> map fst m"

text \<open>\<^verbatim>\<open>entry(k).and_modify(f).or_insert(d)\<close>\<close>

definition bt_entry :: "'k::linorder \<Rightarrow> ('v \<Rightarrow> 'v) \<Rightarrow> 'v \<Rightarrow> ('k, 'v) btree \<Rightarrow> ('k, 'v) btree" where
  "bt_entry k f d m = bt_insert k (case bt_get m k of None \<Rightarrow> d | Some v \<Rightarrow> f v) m"

text \<open>\<^verbatim>\<open>map.extend(pairs)\<close> and \<^verbatim>\<open>collect()\<close>: later pairs overwrite earlier ones.\<close>

definition bt_extend :: "('k::linorder, 'v) btree \<Rightarrow> ('k \<times> 'v) list \<Rightarrow> ('k, 'v) btree" where
  "bt_extend m ps = foldl (\<lambda>acc (k, v). bt_insert k v acc) m ps"

named_theorems bt_simps \<open>lookup and key laws of the ordered maps and sets\<close>

lemma bt_wf_Nil [simp, bt_simps]: "bt_wf []"
  by (simp add: bt_wf_def)

lemma bt_wf_Cons [bt_simps]: "bt_wf ((a, b) # m) \<longleftrightarrow> (\<forall>k \<in> fst ` set m. a < k) \<and> bt_wf m"
  by (auto simp: bt_wf_def)

lemma bt_get_insert [simp, bt_simps]: "bt_get (bt_insert k v m) = (bt_get m)(k \<mapsto> v)"
  by (induction m) (auto simp: fun_eq_iff)

lemma bt_keys_insert [simp, bt_simps]: "fst ` set (bt_insert k v m) = insert k (fst ` set m)"
proof -
  have "dom (bt_get (bt_insert k v m)) = insert k (dom (bt_get m))"
    by simp
  then show ?thesis by (simp only: dom_map_of_conv_image_fst)
qed

lemma bt_wf_insert [simp, bt_simps]: "bt_wf m \<Longrightarrow> bt_wf (bt_insert k v m)"
  by (induction k v m rule: bt_insert.induct) (auto simp: bt_wf_Cons)

lemma bt_get_remove [simp, bt_simps]: "bt_get (bt_remove k m) = (bt_get m)(k := None)"
  by (induction m) (auto simp: bt_remove_def fun_eq_iff)

lemma bt_keys_remove [simp, bt_simps]: "fst ` set (bt_remove k m) = fst ` set m - {k}"
  by (auto simp: bt_remove_def)

lemma bt_wf_filter [simp, bt_simps]: "bt_wf m \<Longrightarrow> bt_wf (filter P m)"
  by (induction m) (auto simp: bt_wf_def)

lemma bt_wf_remove [simp, bt_simps]: "bt_wf m \<Longrightarrow> bt_wf (bt_remove k m)"
  by (simp add: bt_remove_def)

lemma bt_wf_map_snd [simp, bt_simps]: "bt_wf (map (\<lambda>(k, v). (k, f k v)) m) \<longleftrightarrow> bt_wf m"
  by (simp add: bt_wf_def comp_def case_prod_beta)

lemma bt_wf_distinct: "bt_wf m \<Longrightarrow> distinct (bt_keys m)"
  unfolding bt_wf_def using strict_sorted_iff by blast

lemma bt_get_eq_Some_iff: "bt_wf m \<Longrightarrow> bt_get m k = Some v \<longleftrightarrow> (k, v) \<in> set m"
  by (simp add: bt_wf_distinct)

lemma bt_get_filter:
  "bt_wf m \<Longrightarrow> bt_get (filter P m) k =
     (case bt_get m k of Some v \<Rightarrow> if P (k, v) then Some v else None | None \<Rightarrow> None)"
proof (induction m)
  case Nil
  then show ?case by simp
next
  case (Cons p m)
  obtain a b where p: "p = (a, b)" by force
  from Cons.prems p have "a \<notin> fst ` set m" and wf: "bt_wf m"
    by (auto simp: bt_wf_Cons)
  then have "bt_get m a = None" by (simp add: map_of_eq_None_iff)
  with Cons.IH [OF wf] show ?case
    by (auto simp: p split: option.splits)
qed

lemma bt_insert_get [simp]: "bt_insert k v m \<noteq> []"
  by (cases m) (auto split: if_splits)

lemma bt_get_map_snd [simp, bt_simps]:
  "bt_get (map (\<lambda>(k, v). (k, f k v)) m) k = map_option (f k) (bt_get m k)"
  by (induction m) auto

lemma bt_dom: "fst ` set m = dom (bt_get m)"
  by (simp add: dom_map_of_conv_image_fst)

text \<open>A map around one of its keys.\<close>

lemma bt_split:
  assumes "bt_wf m" and "bt_get m e = Some v"
  shows "\<exists>xs ys. m = xs @ (e, v) # ys \<and> bt_insert e u m = xs @ (e, u) # ys \<and> bt_remove e m = xs @ ys"
  using assms
proof (induction m)
  case Nil
  then show ?case by simp
next
  case (Cons p m)
  obtain k w where p: "p = (k, w)" by fastforce
  show ?case
  proof (cases "k = e")
    case True
    with Cons.prems have "e \<notin> fst ` set m" by (auto simp: p bt_wf_Cons)
    then have "bt_remove e m = m" by (auto simp: bt_remove_def filter_id_conv)
    then have "bt_remove e (p # m) = m" by (simp add: bt_remove_def p True)
    with Cons.prems True show ?thesis by (intro exI [of _ "[]"] exI [of _ m]) (simp add: p)
  next
    case False
    with Cons.prems have "bt_get m e = Some v" "bt_wf m" by (auto simp: p bt_wf_Cons)
    with Cons.IH obtain xs ys where i: "m = xs @ (e, v) # ys" "bt_insert e u m = xs @ (e, u) # ys"
      "bt_remove e m = xs @ ys" by auto
    from i(1) Cons.prems(1) have "k < e" by (auto simp: p bt_wf_Cons)
    then have "bt_insert e u (p # m) = p # bt_insert e u m" "bt_remove e (p # m) = p # bt_remove e m"
      by (auto simp: p bt_remove_def)
    with i show ?thesis by (intro exI [of _ "p # xs"] exI [of _ ys]) simp
  qed
qed

lemma bt_insert_new:
  "bt_get m e = None \<Longrightarrow> \<exists>xs ys. m = xs @ ys \<and> bt_insert e u m = xs @ (e, u) # ys"
proof (induction m)
  case Nil
  then show ?case by simp
next
  case (Cons p m)
  obtain k w where p: "p = (k, w)" by fastforce
  show ?case
  proof (cases "e < k")
    case True
    then show ?thesis by (intro exI [of _ "[]"] exI [of _ "p # m"]) (simp add: p)
  next
    case False
    with Cons obtain xs ys where "m = xs @ ys" "bt_insert e u m = xs @ (e, u) # ys" by (auto simp: p split: if_splits)
    with False Cons.prems show ?thesis by (intro exI [of _ "p # xs"] exI [of _ ys]) (auto simp: p)
  qed
qed

lemma bt_insert_same [simp]: "bt_wf m \<Longrightarrow> bt_get m k = Some v \<Longrightarrow> bt_insert k v m = m"
  by (drule (1) bt_split [where u = v]) auto

lemma bt_remove_new: "bt_get m k = None \<Longrightarrow> bt_remove k m = m"
  by (auto simp: bt_remove_def filter_id_conv map_of_eq_None_iff)

lemma bt_extend_Nil [simp, bt_simps]: "bt_extend m [] = m"
  by (simp add: bt_extend_def)

lemma bt_extend_Cons [simp, bt_simps]:
  "bt_extend m ((k, v) # ps) = bt_extend (bt_insert k v m) ps"
  by (simp add: bt_extend_def)

lemma bt_wf_extend [simp, bt_simps]: "bt_wf m \<Longrightarrow> bt_wf (bt_extend m ps)"
  by (induction ps arbitrary: m) auto

lemma bt_keys_extend [simp, bt_simps]:
  "fst ` set (bt_extend m ps) = fst ` set m \<union> fst ` set ps"
proof (induction ps arbitrary: m)
  case Nil
  then show ?case by simp
next
  case (Cons p ps)
  obtain a b where p: "p = (a, b)" by force
  show ?case by (simp add: p Cons)
qed

text \<open>Collecting pairs that are already in key order gives them back.\<close>

lemma bt_insert_last:
  "(\<And>a. a \<in> fst ` set m \<Longrightarrow> a < k) \<Longrightarrow> bt_insert k v m = m @ [(k, v)]"
  by (induction m) fastforce+

lemma bt_extend_sorted: "bt_wf (m @ ps) \<Longrightarrow> bt_extend m ps = m @ ps"
proof (induction ps arbitrary: m)
  case Nil
  then show ?case by simp
next
  case (Cons p ps)
  obtain a b where p: "p = (a, b)" by force
  from Cons.prems have "\<And>k. k \<in> fst ` set m \<Longrightarrow> k < a"
    by (auto simp: p bt_wf_def sorted_wrt_append)
  then have "bt_insert a b m = m @ [(a, b)]" by (rule bt_insert_last)
  then show ?case using Cons.IH [of "m @ [(a, b)]"] Cons.prems by (simp add: p)
qed

lemma bt_extend_id [simp]: "bt_wf m \<Longrightarrow> bt_extend [] m = m"
  using bt_extend_sorted [of "[]" m] by simp

subsection \<open>The interface\<close>

text \<open>What a client of an ordered map may use: \<open>ents\<close> is the iteration order.\<close>

locale ordered_map =
  fixes emp :: 'm
    and ins :: "'k::linorder \<Rightarrow> 'v \<Rightarrow> 'm \<Rightarrow> 'm"
    and del :: "'k \<Rightarrow> 'm \<Rightarrow> 'm"
    and look :: "'m \<Rightarrow> 'k \<Rightarrow> 'v option"
    and ents :: "'m \<Rightarrow> ('k \<times> 'v) list"
    and wf :: "'m \<Rightarrow> bool"
  assumes look_emp: "look emp = Map.empty"
    and look_ins: "look (ins k v m) = (look m)(k \<mapsto> v)"
    and look_del: "look (del k m) = (look m)(k := None)"
    and ents_look: "wf m \<Longrightarrow> (k, v) \<in> set (ents m) \<longleftrightarrow> look m k = Some v"
    and ents_sorted: "wf m \<Longrightarrow> sorted_wrt (<) (map fst (ents m))"
    and wf_emp: "wf emp"
    and wf_ins: "wf m \<Longrightarrow> wf (ins k v m)"
    and wf_del: "wf m \<Longrightarrow> wf (del k m)"
begin

lemma ents_keys: "wf m \<Longrightarrow> fst ` set (ents m) = dom (look m)"
  by (auto simp: image_iff Bex_def ents_look dom_def split_paired_Ex)

lemma ents_rebuild: "wf m \<Longrightarrow> map (\<lambda>k. (k, the (look m k))) (map fst (ents m)) = ents m"
  by (auto simp: comp_def ents_look intro!: map_idI)

text \<open>Two maps with the same lookups are iterated alike.\<close>

lemma ents_ext:
  assumes "wf m" and "wf m'" and "look m = look m'"
  shows "ents m = ents m'"
proof -
  have set: "set (ents m) = set (ents m')"
    using assms by (auto simp: ents_look)
  have "map fst (ents m) = map fst (ents m')"
    by (rule strict_sorted_equal)
       (use assms set in \<open>auto intro: ents_sorted\<close>)
  then show ?thesis
    using ents_rebuild [OF assms(1)] ents_rebuild [OF assms(2)] assms(3) by metis
qed

text \<open>Inserting twice under one key keeps the last value; removing undoes an insertion.\<close>

lemma ins_ins_ents: "wf m \<Longrightarrow> ents (ins k v (ins k u m)) = ents (ins k v m)"
  by (rule ents_ext) (simp_all add: wf_ins look_ins)

lemma del_ins_ents: "wf m \<Longrightarrow> look m k = None \<Longrightarrow> ents (del k (ins k v m)) = ents m"
  by (rule ents_ext) (auto simp: wf_ins wf_del look_ins look_del)

end

interpretation bt: ordered_map "[]" bt_insert bt_remove bt_get "\<lambda>m. m" bt_wf
  by unfold_locales (simp_all add: bt_get_eq_Some_iff, simp add: bt_wf_def)

section \<open>Ordered sets\<close>

type_synonym 'a bset = "'a list"

definition bs_wf :: "'a::linorder bset \<Rightarrow> bool" where
  "bs_wf s \<longleftrightarrow> sorted_wrt (<) s"

fun bs_insert :: "'a::linorder \<Rightarrow> 'a bset \<Rightarrow> 'a bset" where
  "bs_insert x [] = [x]"
| "bs_insert x (y # ys) =
     (if x < y then x # y # ys else if x = y then y # ys else y # bs_insert x ys)"

definition bs_extend :: "'a::linorder bset \<Rightarrow> 'a list \<Rightarrow> 'a bset" where
  "bs_extend s xs = foldl (\<lambda>acc x. bs_insert x acc) s xs"

text \<open>\<^verbatim>\<open>&a - &b\<close>\<close>

definition bs_diff :: "'a bset \<Rightarrow> 'a bset \<Rightarrow> 'a bset" where
  "bs_diff s t = filter (\<lambda>x. x \<notin> set t) s"

lemma bs_wf_Nil [simp, bt_simps]: "bs_wf []"
  by (simp add: bs_wf_def)

lemma bs_wf_Cons [bt_simps]: "bs_wf (x # s) \<longleftrightarrow> (\<forall>y \<in> set s. x < y) \<and> bs_wf s"
  by (simp add: bs_wf_def)

lemma set_bs_insert [simp, bt_simps]: "set (bs_insert x s) = insert x (set s)"
  by (induction s) auto

lemma bs_wf_insert [simp, bt_simps]: "bs_wf s \<Longrightarrow> bs_wf (bs_insert x s)"
  by (induction s) (auto simp: bs_wf_def)

lemma bs_extend_Nil [simp, bt_simps]: "bs_extend s [] = s"
  by (simp add: bs_extend_def)

lemma bs_extend_Cons [simp, bt_simps]: "bs_extend s (x # xs) = bs_extend (bs_insert x s) xs"
  by (simp add: bs_extend_def)

lemma set_bs_extend [simp, bt_simps]: "set (bs_extend s xs) = set s \<union> set xs"
  by (induction xs arbitrary: s) auto

lemma bs_wf_extend [simp, bt_simps]: "bs_wf s \<Longrightarrow> bs_wf (bs_extend s xs)"
  by (induction xs arbitrary: s) auto

lemma bs_wf_filter [simp, bt_simps]: "bs_wf s \<Longrightarrow> bs_wf (filter P s)"
  by (induction s) (auto simp: bs_wf_def)

lemma bs_wf_diff [simp, bt_simps]: "bs_wf s \<Longrightarrow> bs_wf (bs_diff s t)"
  by (simp add: bs_diff_def)

lemma bs_wf_distinct: "bs_wf s \<Longrightarrow> distinct s"
  unfolding bs_wf_def using strict_sorted_iff by blast

lemma bs_wf_sorted: "bs_wf s \<Longrightarrow> sorted s"
  unfolding bs_wf_def using strict_sorted_iff by blast

lemma bs_ext: "bs_wf s \<Longrightarrow> bs_wf t \<Longrightarrow> set s = set t \<Longrightarrow> s = t"
  unfolding bs_wf_def by (metis strict_sorted_equal)

lemma bs_insert_ne [simp]: "bs_insert x s \<noteq> []"
  by (cases s) auto

end
