(* ===== verification/Timely_Core.thy ===== *)
theory Timely_Core
  imports BTree
begin

text \<open>
  The generic operator machinery of \<^verbatim>\<open>src/src/timely.rs\<close>: \<^verbatim>\<open>InBuffer\<close>, frontiers collapsed to one
  epoch, capabilities, and \<^verbatim>\<open>EagerNotificator\<close>, which calls an operator's logic in epoch order.
  A capability is modelled by its time and a frontier by the list of its elements; Timely's own
  promises (messages are never behind the frontier, frontiers never go back) are the hypothesis
  \<open>timely_acts\<close>. The main result: however messages and frontiers interleave, the logic is called in
  epoch order, eagerly before each close, and each notified epoch is closed exactly once.
\<close>

section \<open>\<^verbatim>\<open>InBuffer\<close>\<close>

text \<open>The field \<^verbatim>\<open>tmp\<close> is only swap space, empty between calls.\<close>

type_synonym 'a in_buffer = "(epoch, 'a list) btree"

definition inbuf_new :: "'a in_buffer" where
  "inbuf_new = []"

definition inbuf_extend :: "'a in_buffer \<Rightarrow> epoch \<Rightarrow> 'a list \<Rightarrow> 'a in_buffer" where
  "inbuf_extend buf e incoming = bt_entry e (\<lambda>xs. xs @ incoming) incoming buf"

definition inbuf_remove :: "'a in_buffer \<Rightarrow> epoch \<Rightarrow> 'a in_buffer \<times> 'a list option" where
  "inbuf_remove buf e = (bt_remove e buf, bt_get buf e)"

definition inbuf_epochs :: "'a in_buffer \<Rightarrow> epoch list" where
  "inbuf_epochs buf = bt_keys buf"

definition inbuf_items :: "'a in_buffer \<Rightarrow> epoch \<Rightarrow> 'a list" where
  "inbuf_items buf e = (case bt_get buf e of None \<Rightarrow> [] | Some xs \<Rightarrow> xs)"

section \<open>Frontiers and capabilities\<close>

type_synonym frontier = "epoch list"

text \<open>\<^verbatim>\<open>FrontierEx\<close> for one antichain and for all inputs of an operator.\<close>

definition simplify_one :: "frontier \<Rightarrow> epoch option" where
  "simplify_one f = (if f = [] then None else Some (min_list f))"

definition simplify :: "frontier list \<Rightarrow> epoch option" where
  "simplify fs = simplify_one (List.map_filter simplify_one fs)"

definition is_closed :: "epoch option \<Rightarrow> epoch \<Rightarrow> bool" where
  "is_closed f e \<longleftrightarrow> (case f of None \<Rightarrow> True | Some fr \<Rightarrow> e < fr)"

definition is_eof :: "epoch option \<Rightarrow> bool" where
  "is_eof f \<longleftrightarrow> f = None"

text \<open>\<^verbatim>\<open>Capability::downgrade\<close> panics when the new time is not in its future.\<close>

definition cap_downgrade :: "epoch \<Rightarrow> epoch \<Rightarrow> epoch res" where
  "cap_downgrade cap e =
     (if cap \<le> e then Inr e else Inl (PanicMsg ''Attempted to downgrade to a time not in the future''))"

definition downgrade_all :: "epoch \<Rightarrow> epoch list \<Rightarrow> epoch list res" where
  "downgrade_all e caps = emapM (\<lambda>cap. cap_downgrade cap e) caps"

lemma downgrade_all_ok: "\<forall>c \<in> set caps. c \<le> e \<Longrightarrow> downgrade_all e caps = Inr (replicate (length caps) e)"
  unfolding downgrade_all_def
  by (subst emapM_total [where g = "\<lambda>_. e"]) (auto simp: cap_downgrade_def map_replicate_const)

section \<open>\<^verbatim>\<open>EagerNotificator\<close>\<close>

text \<open>
  \<open>'d\<close> is the state the notificator owns and drops at the end of input; \<open>'b\<close> is what the closures
  capture besides it; \<open>'o\<close> what they emit. Both closures see the capabilities.
\<close>

record 'd notificator =
  caps_state :: "(epoch list \<times> 'd) option"
  queue :: "epoch bset"

type_synonym ('d, 'b, 'o) epoch_logic = "epoch list \<Rightarrow> 'd \<times> 'b \<Rightarrow> (('d \<times> 'b) \<times> 'o list) res"

definition nc_new :: "epoch list \<Rightarrow> 'd \<Rightarrow> 'd notificator" where
  "nc_new init_caps init_state = \<lparr>caps_state = Some (init_caps, init_state), queue = []\<rparr>"

definition notify_at :: "'d notificator \<Rightarrow> epoch \<Rightarrow> 'd notificator res" where
  "notify_at nc e =
     (if caps_state nc = None then Inl (AssertFail ''Got items after EOF'')
      else Inr (nc\<lparr>queue := bs_insert e (queue nc)\<rparr>))"

text \<open>The body of the loop over the closed epochs.\<close>

fun close_epoch ::
  "('d, 'b, 'o) epoch_logic \<Rightarrow> ('d, 'b, 'o) epoch_logic \<Rightarrow>
    epoch list \<times> ('d \<times> 'b) \<times> 'o list \<Rightarrow> epoch \<Rightarrow> (epoch list \<times> ('d \<times> 'b) \<times> 'o list) res" where
  "close_epoch eager_logic close_logic (caps, s, out) e =
     ebind (downgrade_all e caps) (\<lambda>caps'.
     ebind (eager_logic caps' s) (\<lambda>(s', out').
     emap (\<lambda>(s'', out''). (caps', s'', out @ out' @ out'')) (close_logic caps' s')))"

definition for_each ::
  "('d, 'b, 'o) epoch_logic \<Rightarrow> ('d, 'b, 'o) epoch_logic \<Rightarrow> frontier list \<Rightarrow> 'd notificator \<Rightarrow> 'b \<Rightarrow>
    ('d notificator \<times> 'b \<times> 'o list) res" where
  "for_each eager_logic close_logic input_frontiers nc b = (case caps_state nc of
       None \<Rightarrow> Inr (nc, b, [])
     | Some (caps, state) \<Rightarrow>
         let fr = simplify input_frontiers;
             (closed_epochs, rest) = (case fr of
                 Some f \<Rightarrow> (filter (\<lambda>e. e < f) (queue nc), filter (\<lambda>e. f \<le> e) (queue nc))
               | None \<Rightarrow> (queue nc, []))
         in ebind (efold (close_epoch eager_logic close_logic) (caps, (state, b), []) closed_epochs)
              (\<lambda>(caps', (state', b'), out). case fr of
                 Some f \<Rightarrow> ebind (downgrade_all f caps') (\<lambda>caps''.
                   if f \<in> set rest
                   then emap (\<lambda>((st, b''), out'). (\<lparr>caps_state = Some (caps'', st), queue = rest\<rparr>, b'', out @ out'))
                          (eager_logic caps'' (state', b'))
                   else Inr (\<lparr>caps_state = Some (caps'', state'), queue = rest\<rparr>, b', out))
               | None \<Rightarrow> Inr (\<lparr>caps_state = None, queue = rest\<rparr>, b', out)))"

text \<open>\<^verbatim>\<open>OpInputHandleEx::buffer_notify\<close>: each incoming message is a batch with its epoch.\<close>

definition buffer_step ::
  "'a in_buffer \<times> 'd notificator \<Rightarrow> epoch \<times> 'a list \<Rightarrow> ('a in_buffer \<times> 'd notificator) res" where
  "buffer_step = (\<lambda>(buf, nc) (e, incoming).
     emap (\<lambda>nc'. (inbuf_extend buf e incoming, nc')) (notify_at nc e))"

definition buffer_notify ::
  "(epoch \<times> 'a list) list \<Rightarrow> 'a in_buffer \<Rightarrow> 'd notificator \<Rightarrow> ('a in_buffer \<times> 'd notificator) res" where
  "buffer_notify incoming buf nc = efold buffer_step (buf, nc) incoming"

section \<open>Streams built from iterators\<close>

text \<open>
  \<^verbatim>\<open>into_stream_at\<close>: the first activation emits all items at \<open>epoch\<close>, later ones nothing;
  \<^verbatim>\<open>into_stream_once_at\<close> does so on worker 0 only, \<^verbatim>\<open>into_broadcast\<close> labels the items with the
  worker (Timely's \<^verbatim>\<open>broadcast\<close> then gives them to every worker).
\<close>

definition into_stream_at :: "epoch \<Rightarrow> 'a list option \<Rightarrow> 'a list option \<times> (epoch \<times> 'a) list" where
  "into_stream_at epoch state = (case state of
       Some xs \<Rightarrow> (None, map (\<lambda>x. (epoch, x)) xs)
     | None \<Rightarrow> (None, []))"

type_synonym worker = nat

definition w_iter :: "nat \<Rightarrow> worker list" where
  "w_iter count = [0..<count]"

definition into_stream_once_at ::
  "worker \<Rightarrow> epoch \<Rightarrow> 'a list option \<Rightarrow> 'a list option \<times> (epoch \<times> 'a) list" where
  "into_stream_once_at this_worker epoch state =
     (if this_worker = 0 then into_stream_at epoch state else (state, []))"

definition into_broadcast ::
  "worker \<Rightarrow> epoch \<Rightarrow> 'a list option \<Rightarrow> ('a \<times> worker) list option \<times> (epoch \<times> 'a \<times> worker) list" where
  "into_broadcast this_worker epoch state =
     into_stream_at epoch (map_option (map (\<lambda>part. (part, this_worker))) state)"

section \<open>The notificator as a schedule of calls\<close>

datatype call = Eager epoch | Close epoch

fun call_epoch :: "call \<Rightarrow> epoch" where
  "call_epoch (Eager e) = e"
| "call_epoch (Close e) = e"

definition schedule :: "epoch option \<Rightarrow> epoch bset \<Rightarrow> call list" where
  "schedule fr q = concat (map (\<lambda>e. [Eager e, Close e]) (filter (is_closed fr) q)) @
     (case fr of Some f \<Rightarrow> if f \<in> set q then [Eager f] else [] | None \<Rightarrow> [])"

text \<open>Calling an operator's logic as scheduled; \<open>n\<close> is the number of its outputs.\<close>

fun run_call ::
  "('d, 'b, 'o) epoch_logic \<Rightarrow> ('d, 'b, 'o) epoch_logic \<Rightarrow> nat \<Rightarrow> ('d \<times> 'b) \<times> 'o list \<Rightarrow> call \<Rightarrow>
    (('d \<times> 'b) \<times> 'o list) res" where
  "run_call E C n (s, out) (Eager e) = emap (\<lambda>(s', o'). (s', out @ o')) (E (replicate n e) s)"
| "run_call E C n (s, out) (Close e) = emap (\<lambda>(s', o'). (s', out @ o')) (C (replicate n e) s)"

definition run_calls where
  "run_calls E C n s calls = efold (run_call E C n) s calls"

text \<open>What is left of the notificator after an activation.\<close>

definition nc_after :: "epoch option \<Rightarrow> nat \<Rightarrow> epoch bset \<Rightarrow> 'd \<Rightarrow> 'd notificator" where
  "nc_after fr n q d =
     \<lparr>caps_state = map_option (\<lambda>f. (replicate n f, d)) fr, queue = filter (\<lambda>e. \<not> is_closed fr e) q\<rparr>"

lemma is_closed_simps [simp]: "is_closed None = (\<lambda>_. True)" "is_closed (Some f) = (\<lambda>e. e < f)"
  by (simp_all add: is_closed_def fun_eq_iff)

lemma close_epochs_calls:
  assumes "sorted es" and "\<forall>c \<in> set caps. \<forall>e \<in> set es. c \<le> e"
  shows "efold (close_epoch E C) (caps, s, out) es =
    emap (\<lambda>(s', out'). (if es = [] then caps else replicate (length caps) (last es), s', out'))
      (run_calls E C (length caps) (s, out) (concat (map (\<lambda>e. [Eager e, Close e]) es)))"
  using assms
proof (induction es arbitrary: caps s out)
  case Nil
  then show ?case by (simp add: run_calls_def)
next
  case (Cons e es)
  let ?c = "replicate (length caps) e"
  have d: "downgrade_all e caps = Inr ?c" using Cons.prems(2) by (simp add: downgrade_all_ok)
  have IH: "efold (close_epoch E C) (?c, s', out') es =
    emap (\<lambda>(s', out'). (if es = [] then ?c else replicate (length caps) (last es), s', out'))
      (run_calls E C (length caps) (s', out') (concat (map (\<lambda>e. [Eager e, Close e]) es)))" for s' out'
    using Cons.IH [of ?c s' out'] Cons.prems(1) by simp
  show ?case
  proof (cases "E ?c s")
    case (Inl x)
    with d show ?thesis by (simp add: run_calls_def)
  next
    case (Inr r)
    obtain s1 o1 where r: "r = (s1, o1)" by fastforce
    show ?thesis
    proof (cases "C ?c s1")
      case (Inl x)
      with Inr r d show ?thesis by (simp add: run_calls_def)
    next
      case c: (Inr r')
      obtain s2 o2 where r': "r' = (s2, o2)" by fastforce
      have same: "(\<lambda>(s', out'). (if es = [] then ?c else replicate (length caps) (last es), s', out')) =
        (\<lambda>(s', out'). (if e # es = [] then caps else replicate (length caps) (last (e # es)), s', out'))"
        by auto
      show ?thesis using Inr r d c r' IH [of s2 "out @ o1 @ o2"] unfolding same
        by (simp add: run_calls_def)
    qed
  qed
qed

text \<open>The notificator calls exactly the schedule, and no capability panics.\<close>

lemma for_each_calls:
  assumes "caps_state nc = Some (caps, d)" and "bs_wf (queue nc)"
    and "\<forall>c \<in> set caps. (\<forall>e \<in> set (queue nc). c \<le> e) \<and> (\<forall>f. simplify fs = Some f \<longrightarrow> c \<le> f)"
  shows "for_each E C fs nc b =
    emap (\<lambda>((d', b'), out). (nc_after (simplify fs) (length caps) (queue nc) d', b', out))
      (run_calls E C (length caps) ((d, b), []) (schedule (simplify fs) (queue nc)))"
proof (cases "simplify fs")
  case None
  have "efold (close_epoch E C) (caps, (d, b), []) (queue nc) =
    emap (\<lambda>(s', out'). (if queue nc = [] then caps else replicate (length caps) (last (queue nc)), s', out'))
      (run_calls E C (length caps) ((d, b), []) (concat (map (\<lambda>e. [Eager e, Close e]) (queue nc))))"
    using assms by (intro close_epochs_calls bs_wf_sorted) auto
  then show ?thesis using assms(1) None
    by (cases "run_calls E C (length caps) ((d, b), []) (concat (map (\<lambda>e. [Eager e, Close e]) (queue nc)))")
      (auto simp: for_each_def schedule_def nc_after_def Let_def)
next
  case (Some f)
  let ?cl = "filter (\<lambda>e. e < f) (queue nc)"
  let ?run = "run_calls E C (length caps) ((d, b), []) (concat (map (\<lambda>e. [Eager e, Close e]) ?cl))"
  let ?caps = "if ?cl = [] then caps else replicate (length caps) (last ?cl)"
  have loop: "efold (close_epoch E C) (caps, (d, b), []) ?cl = emap (\<lambda>(s', out'). (?caps, s', out')) ?run"
    using assms by (intro close_epochs_calls bs_wf_sorted bs_wf_filter) auto
  have "\<forall>c \<in> set ?caps. c \<le> f"
  proof (cases "?cl = []")
    case True
    with assms(3) Some show ?thesis by simp
  next
    case False
    then have "last ?cl \<in> set ?cl" by (rule last_in_set)
    with False show ?thesis by auto
  qed
  then have down: "downgrade_all f ?caps = Inr (replicate (length caps) f)"
    by (auto simp: downgrade_all_ok)
  have sched: "schedule (Some f) (queue nc) = concat (map (\<lambda>e. [Eager e, Close e]) ?cl) @
      (if f \<in> set (queue nc) then [Eager f] else [])"
    by (simp add: schedule_def)
  have rest: "filter (\<lambda>e. \<not> e < f) (queue nc) = filter (\<lambda>e. f \<le> e) (queue nc)"
    by (rule filter_cong) auto
  show ?thesis
  proof (cases ?run)
    case (Inl x)
    then show ?thesis using assms(1) loop
      by (simp add: for_each_def Some Let_def sched run_calls_def efold_append)
  next
    case (Inr r)
    obtain d1 b1 out1 where r: "r = ((d1, b1), out1)" by (metis prod.exhaust)
    have runs: "run_calls E C (length caps) ((d, b), []) (schedule (Some f) (queue nc)) =
      (if f \<in> set (queue nc) then run_call E C (length caps) ((d1, b1), out1) (Eager f) else Inr r)"
      using Inr r unfolding sched run_calls_def by (simp add: efold_append ebind_def split: sum.splits)
    show ?thesis
    proof (cases "f \<in> set (queue nc)")
      case True
      then show ?thesis using assms(1) loop Inr r down
        by (cases "E (replicate (length caps) f) (d1, b1)")
          (auto simp: for_each_def Some Let_def runs nc_after_def rest)
    next
      case False
      then show ?thesis using assms(1) loop Inr r down
        by (simp add: for_each_def Some Let_def runs nc_after_def rest)
    qed
  qed
qed

section \<open>Any number of activations\<close>

text \<open>
  An activation brings the epochs of the messages that arrived and the frontiers of the inputs.
  \<open>nc_run\<close> is an operator that is nothing but a notificator around its logic.
\<close>

definition nc_activate ::
  "('d, 'b, 'o) epoch_logic \<Rightarrow> ('d, 'b, 'o) epoch_logic \<Rightarrow> ('d notificator \<times> 'b) \<times> 'o list \<Rightarrow>
    epoch list \<times> frontier list \<Rightarrow> (('d notificator \<times> 'b) \<times> 'o list) res" where
  "nc_activate E C = (\<lambda>((nc, b), out) (es, fs).
     ebind (efold notify_at nc es) (\<lambda>nc'.
     emap (\<lambda>(nc'', b', out'). ((nc'', b'), out @ out')) (for_each E C fs nc' b)))"

definition nc_run where
  "nc_run E C nc b acts = efold (nc_activate E C) ((nc, b), []) acts"

text \<open>
  What Timely promises: a message is not behind the frontier of the activation before, frontiers
  do not go back, and nothing arrives once all inputs are at their end.
\<close>

fun timely_acts :: "epoch \<Rightarrow> (epoch list \<times> frontier list) list \<Rightarrow> bool" where
  "timely_acts lo [] = True"
| "timely_acts lo ((es, fs) # acts) =
     ((\<forall>e \<in> set es. lo \<le> e) \<and>
      (case simplify fs of
         Some f \<Rightarrow> lo \<le> f \<and> timely_acts f acts
       | None \<Rightarrow> \<forall>a \<in> set acts. fst a = [] \<and> simplify (snd a) = None))"

fun final_frontier :: "epoch option \<Rightarrow> (epoch list \<times> frontier list) list \<Rightarrow> epoch option" where
  "final_frontier fr [] = fr"
| "final_frontier fr ((es, fs) # acts) = final_frontier (simplify fs) acts"

definition notified :: "(epoch list \<times> frontier list) list \<Rightarrow> epoch set" where
  "notified acts = (\<Union>(es, fs) \<in> set acts. set es)"

lemma notify_all:
  assumes "caps_state nc \<noteq> None"
  shows "efold notify_at nc es = Inr (nc\<lparr>queue := bs_extend (queue nc) es\<rparr>)"
  using assms by (induction es arbitrary: nc) (auto simp: notify_at_def)

lemma final_frontier_ge:
  "timely_acts lo acts \<Longrightarrow> is_closed (final_frontier (Some lo) acts) e \<or> lo \<le> e"
proof (induction acts arbitrary: lo)
  case Nil
  show ?case by (cases "e < lo") auto
next
  case (Cons a acts)
  obtain es fs where a: "a = (es, fs)" by fastforce
  show ?case
  proof (cases "simplify fs")
    case None
    with Cons.prems have "\<forall>a \<in> set acts. simplify (snd a) = None" by (simp add: a)
    then have "final_frontier None acts = None" by (induction acts) auto
    with None show ?thesis by (simp add: a)
  next
    case (Some f)
    with Cons show ?thesis by (fastforce simp: a)
  qed
qed

text \<open>The logic that records its calls.\<close>

abbreviation log_eager :: "(unit, unit, call) epoch_logic" where
  "log_eager caps s \<equiv> Inr (s, [Eager (caps ! 0)])"

abbreviation log_close :: "(unit, unit, call) epoch_logic" where
  "log_close caps s \<equiv> Inr (s, [Close (caps ! 0)])"

lemma run_calls_log:
  "0 < n \<Longrightarrow> run_calls log_eager log_close n (s, out) calls = Inr (s, out @ calls)"
proof (induction calls arbitrary: out)
  case Nil
  then show ?case by (simp add: run_calls_def)
next
  case (Cons c calls)
  from Cons.IH [OF Cons.prems, of "out @ [c]"] Cons.prems show ?case
    by (cases c) (simp_all add: run_calls_def)
qed

definition closes :: "call list \<Rightarrow> epoch list" where
  "closes cs = List.map_filter (\<lambda>c. case c of Close e \<Rightarrow> Some e | _ \<Rightarrow> None) cs"

text \<open>Every close comes right after an eager call for the same epoch.\<close>

fun eager_first :: "call list \<Rightarrow> bool" where
  "eager_first [] \<longleftrightarrow> True"
| "eager_first (Close e # cs) \<longleftrightarrow> False"
| "eager_first (Eager e # Close e' # cs) \<longleftrightarrow> e = e' \<and> eager_first cs"
| "eager_first (Eager e # cs) \<longleftrightarrow> eager_first cs"

lemma closes_simps [simp]:
  "closes [] = []" "closes (Eager e # cs) = closes cs" "closes (Close e # cs) = e # closes cs"
  "closes (cs @ cs') = closes cs @ closes cs'"
  by (simp_all add: closes_def List.map_filter_def)

lemma closes_loop [simp]: "closes (concat (map (\<lambda>e. [Eager e, Close e]) es)) = es"
  by (induction es) simp_all

lemma epochs_loop [simp]:
  "sorted es \<Longrightarrow> sorted (map call_epoch (concat (map (\<lambda>e. [Eager e, Close e]) es)))"
  by (induction es) auto

lemma eager_first_loop: "eager_first cs \<Longrightarrow> eager_first (concat (map (\<lambda>e. [Eager e, Close e]) es) @ cs)"
  by (induction es) simp_all

lemma eager_first_Eager: "eager_first cs \<Longrightarrow> eager_first (Eager e # cs)"
  by (cases cs rule: eager_first.cases) auto

lemma eager_first_append:
  "eager_first cs \<Longrightarrow> eager_first cs' \<Longrightarrow> eager_first (cs @ cs')"
  by (induction cs rule: eager_first.induct) (auto intro: eager_first_Eager)

lemma closes_schedule: "closes (schedule fr q) = filter (is_closed fr) q"
  by (cases fr) (simp_all add: schedule_def)

lemma sorted_schedule: "bs_wf q \<Longrightarrow> sorted (map call_epoch (schedule fr q))"
proof -
  assume q: "bs_wf q"
  have "sorted (filter (is_closed fr) q)" by (rule bs_wf_sorted [OF bs_wf_filter [OF q]])
  then show ?thesis by (cases fr) (auto simp: schedule_def sorted_append)
qed

lemma eager_first_schedule: "eager_first (schedule fr q)"
  unfolding schedule_def by (rule eager_first_loop) (cases fr, simp_all)

lemma schedule_bounds:
  "c \<in> set (schedule fr q) \<Longrightarrow> call_epoch c \<in> set q \<and> (\<forall>f. fr = Some f \<longrightarrow> call_epoch c \<le> f)"
  by (cases fr) (auto simp: schedule_def split: if_splits)

lemma activate_log:
  assumes "caps \<noteq> []" and "bs_wf q" and "\<forall>c \<in> set caps. c \<le> lo" and "\<forall>e \<in> set q. lo \<le> e"
    and "\<forall>e \<in> set es. lo \<le> e" and "\<forall>f. simplify fs = Some f \<longrightarrow> lo \<le> f"
  shows "nc_activate log_eager log_close ((\<lparr>caps_state = Some (caps, ()), queue = q\<rparr>, ()), out) (es, fs) =
    Inr ((nc_after (simplify fs) (length caps) (bs_extend q es) (), ()),
      out @ schedule (simplify fs) (bs_extend q es))"
proof -
  let ?nc = "\<lparr>caps_state = Some (caps, ()), queue = bs_extend q es\<rparr>"
  have n: "efold notify_at \<lparr>caps_state = Some (caps, ()), queue = q\<rparr> es = Inr ?nc"
    by (subst notify_all) simp_all
  have "for_each log_eager log_close fs ?nc () =
    emap (\<lambda>((d', b'), out). (nc_after (simplify fs) (length caps) (queue ?nc) d', b', out))
      (run_calls log_eager log_close (length caps) (((), ()), []) (schedule (simplify fs) (queue ?nc)))"
  proof (rule for_each_calls)
    show "\<forall>c \<in> set caps. (\<forall>e \<in> set (queue ?nc). c \<le> e) \<and> (\<forall>f. simplify fs = Some f \<longrightarrow> c \<le> f)"
    proof (intro ballI conjI allI impI)
      fix c e assume "c \<in> set caps" "e \<in> set (queue ?nc)"
      with assms(3-5) have "c \<le> lo" "lo \<le> e" by auto
      then show "c \<le> e" by simp
    next
      fix c f assume "c \<in> set caps" "simplify fs = Some f"
      with assms(3,6) have "c \<le> lo" "lo \<le> f" by auto
      then show "c \<le> f" by simp
    qed
  qed (use assms(2) in simp_all)
  then have f: "for_each log_eager log_close fs ?nc () =
    Inr (nc_after (simplify fs) (length caps) (bs_extend q es) (), (), schedule (simplify fs) (bs_extend q es))"
    using assms(1) run_calls_log [of "length caps" "((), ())" "[]"] by simp
  show ?thesis unfolding nc_activate_def by (simp add: n f)
qed

lemma run_dead:
  "caps_state nc = None \<Longrightarrow> \<forall>a \<in> set acts. fst a = [] \<Longrightarrow>
    efold (nc_activate E C) ((nc, b), out) acts = Inr ((nc, b), out)"
  by (induction acts) (auto simp: nc_activate_def for_each_def split: prod.splits)

lemma notified_ge: "timely_acts lo acts \<Longrightarrow> \<forall>e \<in> notified acts. lo \<le> e"
proof (induction acts arbitrary: lo)
  case Nil
  then show ?case by (simp add: notified_def)
next
  case (Cons a acts)
  obtain es fs where a: "a = (es, fs)" by fastforce
  show ?case
  proof (cases "simplify fs")
    case None
    with Cons.prems show ?thesis by (auto simp: a notified_def)
  next
    case (Some f)
    with Cons show ?thesis by (fastforce simp: a notified_def)
  qed
qed

text \<open>What the calls of a run satisfy, from any state the notificator can be in.\<close>

definition good_calls :: "epoch \<Rightarrow> epoch set \<Rightarrow> epoch option \<Rightarrow> call list \<Rightarrow> bool" where
  "good_calls lo N fr cs \<longleftrightarrow> sorted (map call_epoch cs) \<and> (\<forall>c \<in> set cs. lo \<le> call_epoch c \<and> call_epoch c \<in> N) \<and>
     bs_wf (closes cs) \<and> set (closes cs) = {e \<in> N. is_closed fr e} \<and> eager_first cs"

lemma final_None: "\<forall>a \<in> set acts. simplify (snd a) = None \<Longrightarrow> final_frontier None acts = None"
  by (induction acts) auto

lemma notified_simps [simp]: "notified [] = {}" "notified ((es, fs) # acts) = set es \<union> notified acts"
  by (auto simp: notified_def)

lemma good_calls_append:
  assumes cs: "cs = schedule (Some f) q" and q: "bs_wf q" "\<forall>e \<in> set q. lo \<le> e"
    and ds: "good_calls f ({e \<in> set q. f \<le> e} \<union> M) fr ds" and fr: "\<And>e. is_closed fr e \<or> f \<le> e"
    and M: "\<forall>e \<in> M. f \<le> e" and lo: "lo \<le> f"
  shows "good_calls lo (set q \<union> M) fr (cs @ ds)"
proof -
  have le: "call_epoch c \<le> f \<and> call_epoch c \<in> set q" if "c \<in> set cs" for c
    using schedule_bounds [of c "Some f" q] that by (simp add: cs)
  have ge: "f \<le> call_epoch c \<and> call_epoch c \<in> set q \<union> M" if "c \<in> set ds" for c
    using ds that by (auto simp: good_calls_def)
  have "sorted (map call_epoch (cs @ ds))"
    using sorted_schedule [OF q(1), of "Some f"] ds le ge
    by (fastforce simp: cs sorted_append good_calls_def intro: order_trans)
  moreover have "\<forall>c \<in> set (cs @ ds). lo \<le> call_epoch c \<and> call_epoch c \<in> set q \<union> M"
    using le ge q(2) lo by (auto intro: order_trans)
  moreover have "bs_wf (closes (cs @ ds))"
    using ds q(1) M by (fastforce simp: cs closes_schedule good_calls_def bs_wf_def sorted_wrt_append
        sorted_wrt_filter)
  moreover have "set (closes (cs @ ds)) = {e \<in> set q \<union> M. is_closed fr e}"
    using ds fr M by (auto simp: cs closes_schedule good_calls_def not_le) (metis not_less)
  moreover have "eager_first (cs @ ds)"
    using ds by (auto simp: cs good_calls_def intro: eager_first_append eager_first_schedule)
  ultimately show ?thesis by (simp add: good_calls_def)
qed

lemma nc_run_calls:
  assumes "caps \<noteq> []" and "bs_wf q" and "\<forall>c \<in> set caps. c \<le> lo" and "\<forall>e \<in> set q. lo \<le> e"
    and "timely_acts lo acts"
  shows "\<exists>nc cs. efold (nc_activate log_eager log_close)
      ((\<lparr>caps_state = Some (caps, ()), queue = q\<rparr>, ()), out) acts = Inr ((nc, ()), out @ cs) \<and>
    good_calls lo (set q \<union> notified acts) (final_frontier (Some lo) acts) cs"
  using assms
proof (induction acts arbitrary: caps q lo out)
  case Nil
  then have "good_calls lo (set q) (Some lo) []" by (auto simp: good_calls_def)
  then show ?case by (intro exI conjI [OF refl]) simp_all
next
  case (Cons a acts)
  obtain es fs where a: "a = (es, fs)" by fastforce
  let ?q = "bs_extend q es" and ?fr = "simplify fs"
  have es: "\<forall>e \<in> set es. lo \<le> e" and lof: "\<forall>f. ?fr = Some f \<longrightarrow> lo \<le> f"
    using Cons.prems(5) by (auto simp: a split: option.splits)
  have q: "bs_wf ?q" "\<forall>e \<in> set ?q. lo \<le> e" using Cons.prems(2,4) es by auto
  have act: "nc_activate log_eager log_close ((\<lparr>caps_state = Some (caps, ()), queue = q\<rparr>, ()), out) a =
      Inr ((nc_after ?fr (length caps) ?q (), ()), out @ schedule ?fr ?q)"
    unfolding a by (rule activate_log) (use Cons.prems es lof in auto)
  show ?case
  proof (cases ?fr)
    case None
    with Cons.prems(5) have rest: "\<forall>a \<in> set acts. fst a = [] \<and> simplify (snd a) = None" by (simp add: a)
    then have "notified acts = {}" "final_frontier None acts = None"
      by (auto simp: notified_def final_None)
    moreover have "good_calls lo (set ?q) None (schedule None ?q)"
      using q sorted_schedule [OF q(1), of None] eager_first_schedule [of None ?q] schedule_bounds [of _ None ?q]
      by (auto simp: good_calls_def closes_schedule)
    moreover have "efold (nc_activate log_eager log_close) ((nc_after None (length caps) ?q (), ()),
        out @ schedule None ?q) acts = Inr ((nc_after None (length caps) ?q (), ()), out @ schedule None ?q)"
      using rest by (intro run_dead) (auto simp: nc_after_def)
    ultimately show ?thesis using act None by (auto simp: a)
  next
    case (Some f)
    let ?q' = "filter (\<lambda>e. \<not> e < f) ?q"
    have acts: "timely_acts f acts" and lo: "lo \<le> f" using Cons.prems(5) Some by (simp_all add: a)
    have after: "nc_after (Some f) (length caps) ?q () =
        \<lparr>caps_state = Some (replicate (length caps) f, ()), queue = ?q'\<rparr>"
      by (simp add: nc_after_def)
    have "\<exists>nc cs. efold (nc_activate log_eager log_close) ((nc_after (Some f) (length caps) ?q (), ()),
          out @ schedule (Some f) ?q) acts = Inr ((nc, ()), (out @ schedule (Some f) ?q) @ cs) \<and>
        good_calls f (set ?q' \<union> notified acts) (final_frontier (Some f) acts) cs"
      unfolding after using Cons.prems(1) q(1) acts by (intro Cons.IH) auto
    then obtain nc cs where run: "efold (nc_activate log_eager log_close)
        ((nc_after (Some f) (length caps) ?q (), ()), out @ schedule (Some f) ?q) acts =
          Inr ((nc, ()), out @ schedule (Some f) ?q @ cs)"
      and good: "good_calls f ({e \<in> set ?q. f \<le> e} \<union> notified acts) (final_frontier (Some f) acts) cs"
      by (auto simp: not_less)
    have "good_calls lo (set ?q \<union> notified acts) (final_frontier (Some f) acts) (schedule (Some f) ?q @ cs)"
      by (rule good_calls_append [OF refl q good final_frontier_ge [OF acts] _ lo])
        (rule notified_ge [OF acts])
    with act run Some show ?thesis by (auto simp: a Un_assoc)
  qed
qed

section \<open>Properties\<close>

text \<open>Claim C11. The notificator calls an operator's logic in epoch order and exactly once per close:
  for any interleaving of messages and frontiers that Timely can produce, no capability panics, the
  epochs of the calls never decrease, the closed epochs are exactly the notified ones the final
  frontier has passed, each closed once and each right after an eager call for it.\<close>

theorem notificator_calls:
  assumes "timely_acts lo acts" and "caps \<noteq> []" and "\<forall>c \<in> set caps. c \<le> lo"
  shows "\<exists>nc cs. nc_run log_eager log_close (nc_new caps ()) () acts = Inr ((nc, ()), cs) \<and>
    sorted (map call_epoch cs) \<and> set (map call_epoch cs) \<subseteq> notified acts \<and>
    sorted_wrt (<) (closes cs) \<and>
    set (closes cs) = {e \<in> notified acts. is_closed (final_frontier (Some lo) acts) e} \<and>
    eager_first cs"
  using nc_run_calls [OF assms(2) bs_wf_Nil assms(3) _ assms(1), of "[]"]
  by (auto simp: nc_run_def nc_new_def good_calls_def bs_wf_def)

theorem notificator_calls_witness:
  "\<exists>nc cs. nc_run log_eager log_close (nc_new [0] ()) ()
      [([2, 1], [[1], [2]]), ([1], [[2]]), ([3], [[], []])] = Inr ((nc, ()), cs) \<and>
    sorted (map call_epoch cs) \<and>
    set (map call_epoch cs) \<subseteq> notified [([2, 1], [[1], [2]]), ([1], [[2]]), ([3], [[], []])] \<and>
    sorted_wrt (<) (closes cs) \<and>
    set (closes cs) = {e \<in> notified [([2, 1], [[1], [2]]), ([1], [[2]]), ([3], [[], []])].
      is_closed (final_frontier (Some 0) [([2, 1], [[1], [2]]), ([1], [[2]]), ([3], [[], []])]) e} \<and>
    eager_first cs"
  by (rule notificator_calls) (simp_all add: simplify_def simplify_one_def)

end
