(* ===== verification/Routing.thy ===== *)
theory Routing
  imports Timely_Core "HOL-Library.Multiset" "HOL-Library.AList"
begin

text \<open>
  The partitioning and routing operators of \<^verbatim>\<open>src/src/timely.rs\<close>: \<^verbatim>\<open>partition\<close> labels each
  keyed item with a partition, \<^verbatim>\<open>assign_primaries\<close> decides on worker 0 which worker owns each
  partition and emits what changed, \<^verbatim>\<open>route\<close> labels an item with the owner of its partition, and
  the closing logic of \<^verbatim>\<open>partd_write\<close> and \<^verbatim>\<open>partd_commit\<close> builds the partitions a worker owns. The
  hash (\<open>pf\<close>), the unstable sort (\<open>us\<close>) and the unstable selection (\<open>pick\<close>) of the standard
  library are parameters with their documented behaviour as hypotheses. Each operator is the pair
  of logics it hands to the notificator of theory \<open>Timely_Core\<close>.
\<close>

section \<open>\<^verbatim>\<open>partition\<close>\<close>

text \<open>State: the known partitions, owned by the notificator, and the two input buffers.\<close>

type_synonym ('k, 'v, 'p) partition_state = "'p bset \<times> ('k \<times> 'v) in_buffer \<times> 'p in_buffer"

text \<open>\<^verbatim>\<open>known.iter().nth(idx % len).expect(..)\<close> on a non-empty set.\<close>

definition assign_part :: "('k \<Rightarrow> nat) \<Rightarrow> 'p bset \<Rightarrow> 'k \<times> 'v \<Rightarrow> ('p \<times> 'k \<times> 'v) res" where
  "assign_part pf known = (\<lambda>(key, value).
     let wrapped_idx = pf key mod length known
     in emap (\<lambda>part. (part, key, value))
          (expect ''hash idx was not in len of known parts''
            (if wrapped_idx < length known then Some (known ! wrapped_idx) else None)))"

definition partition_eager ::
  "('k \<Rightarrow> nat) \<Rightarrow> epoch list \<Rightarrow> 'p bset \<times> ('k \<times> 'v) in_buffer \<times> 'p in_buffer \<Rightarrow>
    (('p bset \<times> ('k \<times> 'v) in_buffer \<times> 'p in_buffer) \<times> (epoch \<times> 'p \<times> 'k \<times> 'v) list) res" where
  "partition_eager pf caps = (\<lambda>(known, items_inbuf, known_inbuf).
     let epoch = caps ! 0; (items_inbuf', items) = inbuf_remove items_inbuf epoch
     in case items of
          None \<Rightarrow> Inr ((known, items_inbuf', known_inbuf), [])
        | Some items \<Rightarrow>
            ebind (eguard (known \<noteq> []) (AssertFail ''Known partitions is empty'')) (\<lambda>_.
            emap (\<lambda>os. ((known, items_inbuf', known_inbuf), map (\<lambda>o'. (epoch, o')) os))
              (emapM (assign_part pf known) items)))"

definition partition_close ::
  "epoch list \<Rightarrow> ('p::linorder) bset \<times> ('k \<times> 'v) in_buffer \<times> 'p in_buffer \<Rightarrow>
    (('p bset \<times> ('k \<times> 'v) in_buffer \<times> 'p in_buffer) \<times> (epoch \<times> 'p \<times> 'k \<times> 'v) list) res" where
  "partition_close caps = (\<lambda>(known, items_inbuf, known_inbuf).
     let (known_inbuf', parts) = inbuf_remove known_inbuf (caps ! 0)
     in Inr ((case parts of None \<Rightarrow> known | Some ps \<Rightarrow> bs_extend known ps, items_inbuf, known_inbuf'), []))"

text \<open>The whole activation: buffer both inputs, then call the logics.\<close>

definition partition_activate ::
  "('k \<Rightarrow> nat) \<Rightarrow> (epoch \<times> ('k \<times> 'v) list) list \<Rightarrow> (epoch \<times> 'p list) list \<Rightarrow> frontier list \<Rightarrow>
    ('p::linorder) bset notificator \<times> ('k \<times> 'v) in_buffer \<times> 'p in_buffer \<Rightarrow>
    (('p bset notificator \<times> ('k \<times> 'v) in_buffer \<times> 'p in_buffer) \<times> (epoch \<times> 'p \<times> 'k \<times> 'v) list) res" where
  "partition_activate pf items known fs = (\<lambda>(nc, items_inbuf, known_inbuf).
     ebind (buffer_notify items items_inbuf nc) (\<lambda>(items_inbuf', nc1).
     ebind (buffer_notify known known_inbuf nc1) (\<lambda>(known_inbuf', nc2).
     emap (\<lambda>(nc', b, out). ((nc', b), out))
       (for_each (partition_eager pf) partition_close fs nc2 (items_inbuf', known_inbuf')))))"

section \<open>\<^verbatim>\<open>assign_primaries\<close>\<close>

type_synonym 'p known_parts = "('p, worker bset) btree"

text \<open>How many partitions a worker already has.\<close>

definition assigned_count :: "('p, worker) btree \<Rightarrow> worker \<Rightarrow> nat" where
  "assigned_count primaries w1 = length (filter (\<lambda>w2. w1 = w2) (map snd primaries))"

definition primary_step ::
  "((worker \<Rightarrow> nat) \<Rightarrow> worker list \<Rightarrow> worker) \<Rightarrow> ('p::linorder) known_parts \<Rightarrow> ('p, worker) btree \<Rightarrow> 'p \<Rightarrow>
    ('p, worker) btree res" where
  "primary_step pick known primaries part =
     ebind (expect ''called `Option::unwrap()` on a `None` value'' (bt_get known part)) (\<lambda>candidates.
       if candidates = [] then Inl (PanicMsg ''partition_at_index index (is 0) should be < len (is 0)'')
       else Inr (bt_insert part (pick (assigned_count primaries) candidates) primaries))"

definition calc_primaries ::
  "(('p \<Rightarrow> nat) \<Rightarrow> 'p list \<Rightarrow> 'p list) \<Rightarrow> ((worker \<Rightarrow> nat) \<Rightarrow> worker list \<Rightarrow> worker) \<Rightarrow>
    ('p::linorder) known_parts \<Rightarrow> ('p, worker) btree res" where
  "calc_primaries us pick known =
     (let known_by_count = us (\<lambda>p. length (the (bt_get known p))) (bt_keys known)
      in ebind (efold (primary_step pick known) [] known_by_count) (\<lambda>primaries.
         ebind (eguard (bt_keys known = bt_keys primaries) (AssertFail ''known.keys().eq(primaries.keys())''))
           (\<lambda>_. Inr primaries)))"

text \<open>What the standard library documents of the two unstable algorithms.\<close>

definition sorts_by_key :: "(('a \<Rightarrow> nat) \<Rightarrow> 'a list \<Rightarrow> 'a list) \<Rightarrow> bool" where
  "sorts_by_key us \<longleftrightarrow> (\<forall>f xs. mset (us f xs) = mset xs \<and> sorted (map f (us f xs)))"

definition picks_least :: "(('a \<Rightarrow> nat) \<Rightarrow> 'a list \<Rightarrow> 'a) \<Rightarrow> bool" where
  "picks_least pick \<longleftrightarrow> (\<forall>f xs. xs \<noteq> [] \<longrightarrow> pick f xs \<in> set xs \<and> (\<forall>x \<in> set xs. f (pick f xs) \<le> f x))"

text \<open>State: known partitions and last assignment, in the notificator; one input buffer.\<close>

definition learn_part :: "('p::linorder) known_parts \<Rightarrow> 'p \<times> worker \<Rightarrow> 'p known_parts" where
  "learn_part known = (\<lambda>(part, w). bt_entry part (bs_insert w) (bs_insert w []) known)"

definition assign_eager ::
  "epoch list \<Rightarrow> (('p::linorder) known_parts \<times> ('p, worker) btree) \<times> ('p \<times> worker) in_buffer \<Rightarrow>
    ((('p known_parts \<times> ('p, worker) btree) \<times> ('p \<times> worker) in_buffer) \<times> (epoch \<times> 'p \<times> worker) list) res" where
  "assign_eager caps = (\<lambda>((known, primaries), inbuf).
     let (inbuf', routes) = inbuf_remove inbuf (caps ! 0);
         known' = foldl learn_part known (case routes of None \<Rightarrow> [] | Some rs \<Rightarrow> rs)
     in Inr (((known', primaries), inbuf'), []))"

text \<open>
  The assignments that differ from the old ones; \<^verbatim>\<open>old_primaries.remove(key)\<close> looks each key up
  once.
\<close>

definition changed_primaries :: "('p, worker) btree \<Rightarrow> ('p, worker) btree \<Rightarrow> ('p \<times> worker) list" where
  "changed_primaries old_primaries new_primaries =
     filter (\<lambda>(part, w). bt_get old_primaries part \<noteq> Some w) new_primaries"

definition assign_close ::
  "(('p \<Rightarrow> nat) \<Rightarrow> 'p list \<Rightarrow> 'p list) \<Rightarrow> ((worker \<Rightarrow> nat) \<Rightarrow> worker list \<Rightarrow> worker) \<Rightarrow> epoch list \<Rightarrow>
    (('p::linorder) known_parts \<times> ('p, worker) btree) \<times> ('p \<times> worker) in_buffer \<Rightarrow>
    ((('p known_parts \<times> ('p, worker) btree) \<times> ('p \<times> worker) in_buffer) \<times> (epoch \<times> 'p \<times> worker) list) res" where
  "assign_close us pick caps = (\<lambda>((known, old_primaries), inbuf).
     ebind (calc_primaries us pick known) (\<lambda>new_primaries.
       if new_primaries = []
       then Inl (PanicMsg ''No partitions found on any worker; did you forget to init them?'')
       else Inr (((known, new_primaries), inbuf),
              map (\<lambda>pw. (caps ! 0, pw)) (changed_primaries old_primaries new_primaries))))"

definition assign_activate where
  "assign_activate us pick routes fs = (\<lambda>(nc, inbuf).
     ebind (buffer_notify routes inbuf nc) (\<lambda>(inbuf', nc1).
     emap (\<lambda>(nc', b, out). ((nc', b), out)) (for_each assign_eager (assign_close us pick) fs nc1 inbuf')))"

section \<open>\<^verbatim>\<open>route\<close>\<close>

text \<open>The routing table is a hash map: an association list, updated in place.\<close>

type_synonym 'k routing_map = "('k \<times> worker) list"

definition route_item :: "'k routing_map \<Rightarrow> 'k \<times> 'v \<Rightarrow> (worker \<times> 'k \<times> 'v) res" where
  "route_item routing_map key_value = (case map_of routing_map (fst key_value) of
       None \<Rightarrow> Inl (PanicMsg ''Key is not in this worker's routing map'')
     | Some worker \<Rightarrow> Inr (worker, key_value))"

definition route_eager ::
  "epoch list \<Rightarrow> 'k routing_map \<times> ('k \<times> 'v) in_buffer \<times> ('k \<times> worker) in_buffer \<Rightarrow>
    (('k routing_map \<times> ('k \<times> 'v) in_buffer \<times> ('k \<times> worker) in_buffer) \<times> (epoch \<times> worker \<times> 'k \<times> 'v) list) res" where
  "route_eager caps = (\<lambda>(routing_map, items_inbuf, routing_inbuf).
     let epoch = caps ! 0; (items_inbuf', items) = inbuf_remove items_inbuf epoch
     in case items of
          None \<Rightarrow> Inr ((routing_map, items_inbuf', routing_inbuf), [])
        | Some items \<Rightarrow>
            ebind (eguard (routing_map \<noteq> []) (AssertFail ''Routing map is empty'')) (\<lambda>_.
            emap (\<lambda>os. ((routing_map, items_inbuf', routing_inbuf), map (\<lambda>o'. (epoch, o')) os))
              (emapM (route_item routing_map) items)))"

definition learn_route :: "'k routing_map \<Rightarrow> 'k \<times> worker \<Rightarrow> 'k routing_map" where
  "learn_route m = (\<lambda>(part, w). AList.update part w m)"

definition route_close ::
  "epoch list \<Rightarrow> 'k routing_map \<times> ('k \<times> 'v) in_buffer \<times> ('k \<times> worker) in_buffer \<Rightarrow>
    (('k routing_map \<times> ('k \<times> 'v) in_buffer \<times> ('k \<times> worker) in_buffer) \<times> (epoch \<times> worker \<times> 'k \<times> 'v) list) res" where
  "route_close caps = (\<lambda>(routing_map, items_inbuf, routing_inbuf).
     let (routing_inbuf', routes) = inbuf_remove routing_inbuf (caps ! 0)
     in Inr ((foldl learn_route routing_map (case routes of None \<Rightarrow> [] | Some rs \<Rightarrow> rs),
              items_inbuf, routing_inbuf'), []))"

definition route_activate where
  "route_activate items routes fs = (\<lambda>(nc, items_inbuf, routing_inbuf).
     ebind (buffer_notify items items_inbuf nc) (\<lambda>(items_inbuf', nc1).
     ebind (buffer_notify routes routing_inbuf nc1) (\<lambda>(routing_inbuf', nc2).
     emap (\<lambda>(nc', b, out). ((nc', b), out))
       (for_each route_eager route_close fs nc2 (items_inbuf', routing_inbuf')))))"

text \<open>\<^verbatim>\<open>routed_exchange\<close>: the worker in the tuple is the one the item is sent to.\<close>

definition routed_exchange :: "worker \<times> 'd \<Rightarrow> nat" where
  "routed_exchange = (\<lambda>(worker, _). worker)"

section \<open>Assigning primaries\<close>

lemma assigned_count_insert:
  "k \<notin> fst ` set m \<Longrightarrow>
    assigned_count (bt_insert k w m) w1 = assigned_count m w1 + (if w1 = w then 1 else 0)"
  by (induction m) (auto simp: assigned_count_def)

definition candidates_ok :: "('p::linorder) known_parts \<Rightarrow> bool" where
  "candidates_ok known \<longleftrightarrow> bt_wf known \<and> (\<forall>p ws. bt_get known p = Some ws \<longrightarrow> ws \<noteq> [])"

lemma primary_steps:
  assumes "candidates_ok known" and "picks_least pick" and "distinct ps" and "set ps \<subseteq> fst ` set known"
    and "bt_wf m" and "fst ` set m \<inter> set ps = {}"
    and "\<forall>p w. bt_get m p = Some w \<longrightarrow> w \<in> set (the (bt_get known p))"
  shows "\<exists>m'. efold (primary_step pick known) m ps = Inr m' \<and> bt_wf m' \<and>
    fst ` set m' = fst ` set m \<union> set ps \<and>
    (\<forall>p w. bt_get m' p = Some w \<longrightarrow> w \<in> set (the (bt_get known p)))"
  using assms(3-7)
proof (induction ps arbitrary: m)
  case Nil
  then show ?case by simp
next
  case (Cons p ps)
  from Cons.prems(2) have "p \<in> dom (bt_get known)" by (simp flip: bt_dom)
  then obtain ws where ws: "bt_get known p = Some ws" by blast
  with assms(1) have "ws \<noteq> []" by (auto simp: candidates_ok_def)
  let ?w = "pick (assigned_count m) ws" and ?m = "bt_insert p (pick (assigned_count m) ws) m"
  have w: "?w \<in> set ws" using assms(2) \<open>ws \<noteq> []\<close> by (simp add: picks_least_def)
  have step: "primary_step pick known m p = Inr ?m" using ws \<open>ws \<noteq> []\<close> by (simp add: primary_step_def)
  have "\<exists>m'. efold (primary_step pick known) ?m ps = Inr m' \<and> bt_wf m' \<and>
      fst ` set m' = fst ` set ?m \<union> set ps \<and>
      (\<forall>p w. bt_get m' p = Some w \<longrightarrow> w \<in> set (the (bt_get known p)))"
    using Cons.prems w ws by (intro Cons.IH) auto
  with step show ?case by auto
qed

lemma us_perm: "sorts_by_key us \<Longrightarrow> set (us f xs) = set xs \<and> (distinct (us f xs) \<longleftrightarrow> distinct xs)"
  unfolding sorts_by_key_def by (metis mset_eq_setD mset_eq_imp_distinct_iff)

text \<open>Every known partition gets a primary, and only a worker that has the partition.\<close>

lemma calc_primaries_ok:
  assumes "candidates_ok known" and "sorts_by_key us" and "picks_least pick"
  shows "\<exists>prim. calc_primaries us pick known = Inr prim \<and> bt_wf prim \<and> bt_keys prim = bt_keys known \<and>
    (\<forall>p w. bt_get prim p = Some w \<longrightarrow> w \<in> set (the (bt_get known p)))"
proof -
  let ?ps = "us (\<lambda>p. length (the (bt_get known p))) (bt_keys known)"
  have wf: "bt_wf known" using assms(1) by (simp add: candidates_ok_def)
  have ps: "set ?ps = fst ` set known" "distinct ?ps"
    using us_perm [OF assms(2)] bt_wf_distinct [OF wf] by auto
  from primary_steps [OF assms(1,3) ps(2), of "[]"] ps(1) obtain prim where
    prim: "efold (primary_step pick known) [] ?ps = Inr prim" "bt_wf prim" "fst ` set prim = fst ` set known"
      "\<forall>p w. bt_get prim p = Some w \<longrightarrow> w \<in> set (the (bt_get known p))" by auto
  have "bt_keys prim = bt_keys known"
    by (rule strict_sorted_equal) (use prim(2,3) wf in \<open>simp_all add: bt_wf_def\<close>)
  then have "calc_primaries us pick known = Inr prim"
    unfolding calc_primaries_def Let_def prim(1) by simp
  with prim \<open>bt_keys prim = bt_keys known\<close> show ?thesis by blast
qed

text \<open>One greedy step keeps the loads of the workers within one of each other.\<close>

definition balanced :: "worker set \<Rightarrow> ('p, worker) btree \<Rightarrow> bool" where
  "balanced C m \<longleftrightarrow> (\<forall>w \<in> C. \<forall>w' \<in> C. assigned_count m w \<le> assigned_count m w' + 1)"

lemma balanced_step:
  assumes "balanced (set ws) m" and "picks_least pick" and "ws \<noteq> []" and "p \<notin> fst ` set m"
  shows "balanced (set ws) (bt_insert p (pick (assigned_count m) ws) m)"
proof -
  let ?w = "pick (assigned_count m) ws"
  have least: "\<forall>x \<in> set ws. assigned_count m ?w \<le> assigned_count m x"
    using assms(2,3) by (simp add: picks_least_def)
  show ?thesis unfolding balanced_def assigned_count_insert [OF assms(4)]
    using assms(1) least by (auto simp: balanced_def le_SucI)
qed

lemma balanced_steps:
  assumes "\<forall>p \<in> set ps. bt_get known p = Some ws" and "ws \<noteq> []" and "picks_least pick"
    and "distinct ps" and "balanced (set ws) m" and "fst ` set m \<inter> set ps = {}"
    and "efold (primary_step pick known) m ps = Inr m'"
  shows "balanced (set ws) m'"
  using assms(1,4-7)
proof (induction ps arbitrary: m)
  case Nil
  then show ?case by simp
next
  case (Cons p ps)
  let ?m = "bt_insert p (pick (assigned_count m) ws) m"
  have step: "primary_step pick known m p = Inr ?m"
    using Cons.prems(1) assms(2) by (simp add: primary_step_def)
  have "balanced (set ws) ?m" using Cons.prems assms(2,3) by (intro balanced_step) auto
  then show ?case using Cons.prems step by (intro Cons.IH [of ?m]) auto
qed

text \<open>A sort and a selection with the documented behaviour.\<close>

lemma sorts_by_sort_key: "sorts_by_key (\<lambda>f. sort_key f)"
  by (simp add: sorts_by_key_def)

lemma picks_least_hd: "picks_least (\<lambda>f ws. hd (sort_key f ws))"
  unfolding picks_least_def
proof (intro allI impI conjI ballI)
  fix f :: "'a \<Rightarrow> nat" and xs :: "'a list" and x assume "xs \<noteq> []"
  then have ne: "sort_key f xs \<noteq> []" by (metis set_empty set_sort)
  then show "hd (sort_key f xs) \<in> set xs" using list.set_sel(1) by fastforce
  assume "x \<in> set xs"
  then have "x \<in> set (sort_key f xs)" by simp
  with ne sorted_sort_key [of f xs] show "f (hd (sort_key f xs)) \<le> f x"
    by (cases "sort_key f xs") auto
qed

text \<open>Claim C31. The assignment of primaries never panics and gives every known partition exactly
  one worker that announced it; and it spreads the load: if all workers announced the same
  partitions, no worker is primary for more than one partition more than another. This holds for
  every order the unstable sort and every minimum the unstable selection may produce.\<close>

theorem primaries_assigned_and_balanced:
  assumes "bt_wf known" and "\<forall>p ws. bt_get known p = Some ws \<longrightarrow> ws \<noteq> []"
    and "sorts_by_key us" and "picks_least pick"
  shows "\<exists>prim. calc_primaries us pick known = Inr prim \<and> bt_keys prim = bt_keys known \<and>
    (\<forall>p w. bt_get prim p = Some w \<longrightarrow> w \<in> set (the (bt_get known p))) \<and>
    (\<forall>ws. (\<forall>p \<in> fst ` set known. bt_get known p = Some ws) \<longrightarrow> known \<noteq> [] \<longrightarrow> balanced (set ws) prim)"
proof -
  have ok: "candidates_ok known" using assms(1,2) by (simp add: candidates_ok_def)
  from calc_primaries_ok [OF ok assms(3,4)] obtain prim where
    prim: "calc_primaries us pick known = Inr prim" "bt_keys prim = bt_keys known"
      "\<forall>p w. bt_get prim p = Some w \<longrightarrow> w \<in> set (the (bt_get known p))" by blast
  let ?ps = "us (\<lambda>p. length (the (bt_get known p))) (bt_keys known)"
  have ps: "set ?ps = fst ` set known" "distinct ?ps"
    using us_perm [OF assms(3)] bt_wf_distinct [OF assms(1)] by auto
  from prim(1) have run: "efold (primary_step pick known) [] ?ps = Inr prim"
    unfolding calc_primaries_def Let_def by (auto elim!: ebind_InrE)
  have "balanced (set ws) prim"
    if all: "\<forall>p \<in> fst ` set known. bt_get known p = Some ws" and "known \<noteq> []" for ws
  proof -
    from \<open>known \<noteq> []\<close> obtain p0 where "p0 \<in> fst ` set known" by (cases known) auto
    with all assms(2) have "ws \<noteq> []" by blast
    moreover have "balanced (set ws) []" by (simp add: balanced_def assigned_count_def)
    ultimately show ?thesis
      using all by (intro balanced_steps [OF _ _ assms(4) ps(2) _ _ run]) (simp_all add: ps(1))
  qed
  with prim show ?thesis by blast
qed

theorem primaries_assigned_and_balanced_witness:
  "\<exists>prim. calc_primaries (\<lambda>f. sort_key f) (\<lambda>f ws. hd (sort_key f ws)) [(1 :: nat, [0, 1]), (2, [0, 1]), (3, [0, 1])]
      = Inr prim \<and> bt_keys prim = [1, 2, 3] \<and> balanced {0, 1} prim"
proof -
  let ?known = "[(1 :: nat, [0, 1 :: nat]), (2, [0, 1]), (3, [0, 1])]"
  have wf: "bt_wf ?known" by (simp add: bt_wf_def)
  have ne: "\<forall>p ws. bt_get ?known p = Some ws \<longrightarrow> ws \<noteq> []" by (auto split: if_splits)
  from primaries_assigned_and_balanced [OF wf ne sorts_by_sort_key picks_least_hd] obtain prim where
    prim: "calc_primaries (\<lambda>f. sort_key f) (\<lambda>f ws. hd (sort_key f ws)) ?known = Inr prim"
      "bt_keys prim = bt_keys ?known" "balanced (set [0, 1]) prim" by fastforce
  then show ?thesis by auto
qed

end
