(* ===== verification/Partd_IO.thy ===== *)
theory Partd_IO
  imports Routing
begin

text \<open>
  Partitioned writing, loading and committing of \<^verbatim>\<open>src/src/timely.rs\<close>: \<^verbatim>\<open>partd_write\<close>,
  \<^verbatim>\<open>partd_load\<close> and \<^verbatim>\<open>partd_commit\<close>, over the traits \<^verbatim>\<open>Writer\<close>, \<^verbatim>\<open>BatchIterator\<close> and
  \<^verbatim>\<open>Committer\<close> as functions that return the changed component. The lemmas show that the
  partitions a worker has built are always those it is primary for, that an item written through
  partition, routing and exchange arrives at the worker holding its partition, and that loading
  emits each local partition's items exactly once.
\<close>

section \<open>Which partitions a worker holds\<close>

text \<open>The loop both \<^verbatim>\<open>partd_write\<close> and \<^verbatim>\<open>partd_commit\<close> run over new primaries.\<close>

definition update_part ::
  "worker \<Rightarrow> ('p \<Rightarrow> 'w res) \<Rightarrow> ('p::linorder, 'w) btree \<Rightarrow> 'p \<times> worker \<Rightarrow> ('p, 'w) btree res" where
  "update_part this_worker builder parts = (\<lambda>(part_key, w).
     if w = this_worker \<and> bt_get parts part_key = None
     then emap (\<lambda>part. bt_insert part_key part parts) (builder part_key)
     else Inr (bt_remove part_key parts))"

definition update_parts where
  "update_parts this_worker builder parts primaries = efold (update_part this_worker builder) parts primaries"

section \<open>\<^verbatim>\<open>partd_write\<close>\<close>

text \<open>Buffered items by epoch and partition; \<open>labelled\<close> are the partitions with metric labels.\<close>

type_synonym ('p, 'v) items_inbuf = "(epoch, ('p, 'v list) btree) btree"

definition write_buffer ::
  "('p::linorder, 'v) items_inbuf \<Rightarrow> epoch \<Rightarrow> (worker \<times> 'p \<times> 'k \<times> 'v) list \<Rightarrow> ('p, 'v) items_inbuf" where
  "write_buffer inbuf epoch incoming =
     foldl (\<lambda>buf (_, part, _, value).
       bt_entry epoch (bt_entry part (\<lambda>vs. vs @ [value]) [value]) (bt_entry part (\<lambda>vs. vs @ [value]) [value] []) buf)
       inbuf incoming"

text \<open>
  What a writer does to the outside \<open>world\<close> (the tables of its partition) it does through its handle:
  \<open>write_batch world part items\<close> is the new world and the writer after the batch.
\<close>

definition write_part ::
  "('s \<Rightarrow> 'w \<Rightarrow> 'v list \<Rightarrow> ('s \<times> 'w) res) \<Rightarrow> 'p list \<Rightarrow> ('p::linorder, 'w) btree \<times> 's \<Rightarrow> 'p \<times> 'v list \<Rightarrow>
    (('p, 'w) btree \<times> 's) res" where
  "write_part write_batch local_parts = (\<lambda>(parts, world) (part_key, items).
     case bt_get parts part_key of
       None \<Rightarrow> Inl (PanicMsg ''Items routed to partition but this worker does not have it'')
     | Some part \<Rightarrow>
         ebind (eguard (part_key \<in> set local_parts) (Expect ''No metric labels found for part key'')) (\<lambda>_.
         emap (\<lambda>(world', part'). (bt_insert part_key part' parts, world')) (write_batch world part items)))"

definition write_eager where
  "write_eager write_batch local_parts caps = (\<lambda>(parts, items_inbuf, primaries_inbuf, world).
     let epoch = caps ! 0 in case bt_get items_inbuf epoch of
       None \<Rightarrow> Inr ((parts, bt_remove epoch items_inbuf, primaries_inbuf, world), [])
     | Some part_to_items \<Rightarrow>
         emap (\<lambda>(parts', world'). ((parts', bt_remove epoch items_inbuf, primaries_inbuf, world'), []))
           (efold (write_part write_batch local_parts) (parts, world) part_to_items))"

definition write_close where
  "write_close this_worker builder caps = (\<lambda>(parts, items_inbuf, primaries_inbuf, world).
     let (primaries_inbuf', primaries) = inbuf_remove primaries_inbuf (caps ! 0)
     in emap (\<lambda>parts'. ((parts', items_inbuf, primaries_inbuf', world), [(caps ! 0, ())]))
          (update_parts this_worker builder parts (case primaries of None \<Rightarrow> [] | Some ps \<Rightarrow> ps)))"

definition write_buffer_step where
  "write_buffer_step = (\<lambda>(buf, nc) (e, incoming).
     emap (\<lambda>nc'. (write_buffer buf e incoming, nc')) (notify_at nc e))"

definition write_activate where
  "write_activate this_worker builder write_batch local_parts routed primaries fs =
    (\<lambda>(nc, items_inbuf, primaries_inbuf, world).
       ebind (efold write_buffer_step (items_inbuf, nc) routed) (\<lambda>(items_inbuf', nc1).
       ebind (buffer_notify primaries primaries_inbuf nc1) (\<lambda>(primaries_inbuf', nc2).
       emap (\<lambda>(nc', b, out). ((nc', b), out))
         (for_each (write_eager write_batch local_parts) (write_close this_worker builder) fs nc2
            (items_inbuf', primaries_inbuf', world)))))"

section \<open>\<^verbatim>\<open>partd_commit\<close>\<close>

text \<open>\<^verbatim>\<open>epoch.checked_sub(&delay)\<close>\<close>

definition checked_sub :: "epoch \<Rightarrow> epoch \<Rightarrow> epoch option" where
  "checked_sub a b = (if b \<le> a then Some (a - b) else None)"

definition commit_parts ::
  "('s \<Rightarrow> 'l \<Rightarrow> epoch \<Rightarrow> ('s \<times> 'l) res) \<Rightarrow> epoch \<Rightarrow> ('p, 'l) btree \<times> 's \<Rightarrow> (('p, 'l) btree \<times> 's) res" where
  "commit_parts commit delayed = (\<lambda>(parts, world).
     efold (\<lambda>(parts', world) (k, part). emap (\<lambda>(world', part'). (parts' @ [(k, part')], world')) (commit world part delayed))
       ([], world) parts)"

definition commit_eager :: "epoch list \<Rightarrow> 's \<Rightarrow> ('s \<times> 'o list) res" where
  "commit_eager caps s = Inr (s, [])"

definition commit_close where
  "commit_close this_worker builder commit delay caps = (\<lambda>(parts, clock_inbuf, primaries_inbuf, world).
     let epoch = caps ! 0;
         (clock_inbuf', _) = inbuf_remove clock_inbuf epoch;
         (primaries_inbuf', primaries) = inbuf_remove primaries_inbuf epoch
     in ebind (case checked_sub epoch delay of
            Some delayed \<Rightarrow> commit_parts commit delayed (parts, world)
          | None \<Rightarrow> Inr (parts, world)) (\<lambda>(parts', world').
        emap (\<lambda>parts''. ((parts'', clock_inbuf', primaries_inbuf', world'), [(epoch, ())]))
          (update_parts this_worker builder parts' (case primaries of None \<Rightarrow> [] | Some ps \<Rightarrow> ps))))"

definition commit_activate where
  "commit_activate this_worker builder commit delay ticks primaries fs =
    (\<lambda>(nc, clock_inbuf, primaries_inbuf, world).
       ebind (buffer_notify ticks clock_inbuf nc) (\<lambda>(clock_inbuf', nc1).
       ebind (buffer_notify primaries primaries_inbuf nc1) (\<lambda>(primaries_inbuf', nc2).
       emap (\<lambda>(nc', b, out). ((nc', b), out))
         (for_each commit_eager (commit_close this_worker builder commit delay) fs nc2
            (clock_inbuf', primaries_inbuf', world)))))"

section \<open>\<^verbatim>\<open>partd_load\<close>\<close>

text \<open>
  \<^verbatim>\<open>LoadPartEntry\<close>, compared by the time of its capability; the queue is a \<^verbatim>\<open>BinaryHeap\<close>, whose
  \<^verbatim>\<open>peek_mut\<close> is one of its greatest entries (\<open>peek\<close> is the position the heap has it at).
\<close>

record ('p, 'l) load_entry =
  le_cap :: epoch
  le_key :: 'p
  le_part :: 'l

definition le_less :: "('p, 'l) load_entry \<Rightarrow> ('p, 'l) load_entry \<Rightarrow> bool" where
  "le_less a b \<longleftrightarrow> le_cap a < le_cap b"

definition peeks_greatest :: "(('p, 'l) load_entry list \<Rightarrow> nat) \<Rightarrow> bool" where
  "peeks_greatest peek \<longleftrightarrow> (\<forall>q. q \<noteq> [] \<longrightarrow> peek q < length q \<and> (\<forall>x \<in> set q. \<not> le_less (q ! peek q) x))"

definition load_enqueue ::
  "worker \<Rightarrow> 'p list \<Rightarrow> ('p \<Rightarrow> 'l res) \<Rightarrow> ('p, 'l) load_entry list \<Rightarrow> epoch \<times> ('p \<times> worker) list \<Rightarrow>
    ('p, 'l) load_entry list res" where
  "load_enqueue this_worker local_parts builder entries = (\<lambda>(epoch, incoming).
     efold (\<lambda>q (part_key, w).
       if w = this_worker then
         ebind (eguard (part_key \<in> set local_parts) (Expect ''No metric labels found for part key'')) (\<lambda>_.
         emap (\<lambda>part. q @ [\<lparr>le_cap = epoch, le_key = part_key, le_part = part\<rparr>]) (builder part_key))
       else Inr q) entries incoming)"

definition remove_nth :: "nat \<Rightarrow> 'a list \<Rightarrow> 'a list" where
  "remove_nth i xs = take i xs @ drop (Suc i) xs"

text \<open>Reading one batch; the flag says whether something was emitted.\<close>

definition load_read ::
  "(('p, 'l) load_entry list \<Rightarrow> nat) \<Rightarrow> ('l \<Rightarrow> ('l \<times> 'i list option) res) \<Rightarrow> ('p, 'l) load_entry list \<Rightarrow>
    (('p, 'l) load_entry list \<times> (epoch \<times> 'i) list \<times> bool) res" where
  "load_read peek next_batch entries =
     (if entries = [] then Inr (entries, [], False)
      else let i = peek entries; entry = entries ! i
        in emap (\<lambda>(part', batch). case batch of
               Some items \<Rightarrow> (entries[i := entry\<lparr>le_part := part'\<rparr>], map (\<lambda>x. (le_cap entry, x)) items, items \<noteq> [])
             | None \<Rightarrow> (remove_nth i entries, [], False))
             (next_batch (le_part entry)))"

datatype activation = Now | After dur | NoActivation

text \<open>\<^verbatim>\<open>cooldown\<close> is a millisecond.\<close>

definition load_activate where
  "load_activate peek this_worker local_parts builder next_batch entries primaries =
     ebind (efold (load_enqueue this_worker local_parts builder) entries primaries) (\<lambda>queue'.
     emap (\<lambda>(queue'', out, just_emitted).
         (queue'', out, if queue'' = [] then NoActivation
            else if just_emitted then Now else After 1000000))
       (load_read peek next_batch queue'))"

section \<open>Held partitions are the primary ones\<close>

lemma bt_get_notin: "k \<notin> fst ` set m \<Longrightarrow> bt_get m k = None"
  by (simp add: map_of_eq_None_iff)

lemma update_parts_notin:
  "p \<notin> fst ` set us \<Longrightarrow> update_parts this builder parts us = Inr parts' \<Longrightarrow> bt_get parts' p = bt_get parts p"
proof (induction us arbitrary: parts)
  case Nil
  then show ?case by (simp add: update_parts_def)
next
  case (Cons u us)
  obtain q w where u: "u = (q, w)" by fastforce
  from Cons.prems(2) obtain parts1 where s: "update_part this builder parts (q, w) = Inr parts1"
    and r: "update_parts this builder parts1 us = Inr parts'"
    by (auto simp: update_parts_def u elim: ebind_InrE)
  have "bt_get parts1 p = bt_get parts p"
    using s Cons.prems(1) by (auto simp: update_part_def u emap_eq_Inr_iff split: if_splits)
  with Cons.IH [OF _ r] Cons.prems(1) show ?case by simp
qed

lemma update_parts_total:
  "\<forall>p. \<exists>l. builder p = Inr l \<Longrightarrow> \<exists>parts'. update_parts this builder parts us = Inr parts'"
proof (induction us arbitrary: parts)
  case Nil
  then show ?case by (simp add: update_parts_def)
next
  case (Cons u us)
  obtain q w where u: "u = (q, w)" by fastforce
  from Cons.prems obtain l where "builder q = Inr l" by blast
  then obtain parts1 where "update_part this builder parts (q, w) = Inr parts1"
    by (cases "w = this \<and> bt_get parts q = None") (auto simp: update_part_def)
  with Cons show ?case by (simp add: update_parts_def u)
qed

lemma update_parts_in:
  assumes "distinct (map fst us)" and "(p, w) \<in> set us" and "update_parts this builder parts us = Inr parts'"
    and "w = this \<Longrightarrow> bt_get parts p = None"
  shows "bt_get parts' p \<noteq> None \<longleftrightarrow> w = this"
  using assms
proof (induction us arbitrary: parts)
  case Nil
  then show ?case by simp
next
  case (Cons u us)
  obtain q v where u: "u = (q, v)" by fastforce
  from Cons.prems(3) obtain parts1 where s: "update_part this builder parts (q, v) = Inr parts1"
    and r: "update_parts this builder parts1 us = Inr parts'"
    by (auto simp: update_parts_def u elim: ebind_InrE)
  show ?case
  proof (cases "u = (p, w)")
    case True
    then have "p \<notin> fst ` set us" using Cons.prems(1) by auto
    note later = update_parts_notin [OF this r]
    have "bt_get parts1 p \<noteq> None \<longleftrightarrow> w = this"
      using s True Cons.prems(4) by (auto simp: u update_part_def emap_eq_Inr_iff split: if_splits)
    with later show ?thesis by simp
  next
    case False
    with Cons.prems(2) have inus: "(p, w) \<in> set us" by auto
    with Cons.prems(1) have "q \<noteq> p" by (force simp: u)
    then have "bt_get parts1 p = bt_get parts p"
      using s by (auto simp: update_part_def emap_eq_Inr_iff split: if_splits)
    with Cons.prems(1,4) inus show ?thesis by (intro Cons.IH [OF _ _ r]) simp_all
  qed
qed

definition holds :: "worker \<Rightarrow> ('p, worker) btree \<Rightarrow> ('p, 'w) btree \<Rightarrow> bool" where
  "holds this m parts \<longleftrightarrow> (\<forall>p. bt_get parts p \<noteq> None \<longleftrightarrow> bt_get m p = Some this)"

lemma update_parts_holds:
  assumes "holds this old parts" and "bt_wf new" and "fst ` set old \<subseteq> fst ` set new"
    and "update_parts this builder parts (changed_primaries old new) = Inr parts'"
  shows "holds this new parts'"
  unfolding holds_def
proof
  fix p
  let ?us = "changed_primaries old new"
  have d: "distinct (map fst ?us)"
    using bt_wf_distinct [OF bt_wf_filter [OF assms(2)]] by (simp add: changed_primaries_def)
  show "bt_get parts' p \<noteq> None \<longleftrightarrow> bt_get new p = Some this"
  proof (cases "bt_get new p")
    case None
    then have "p \<notin> fst ` set new" by (simp add: map_of_eq_None_iff)
    then have "p \<notin> fst ` set ?us" "bt_get old p = None"
      using assms(3) by (auto simp: changed_primaries_def map_of_eq_None_iff)
    with update_parts_notin [OF this(1) assms(4)] assms(1) None show ?thesis by (simp add: holds_def)
  next
    case (Some w)
    then have inn: "(p, w) \<in> set new" by (rule map_of_SomeD)
    show ?thesis
    proof (cases "bt_get old p = Some w")
      case True
      have "p \<notin> fst ` set ?us"
      proof
        assume "p \<in> fst ` set ?us"
        then obtain w' where "(p, w') \<in> set new" "bt_get old p \<noteq> Some w'"
          by (auto simp: changed_primaries_def)
        with inn True bt_wf_distinct [OF assms(2)] show False
          by (metis bt_get_eq_Some_iff [OF assms(2)] option.inject)
      qed
      with update_parts_notin [OF this assms(4)] assms(1) Some True show ?thesis by (simp add: holds_def)
    next
      case False
      with inn have "(p, w) \<in> set ?us" by (auto simp: changed_primaries_def)
      from update_parts_in [OF d this assms(4)] False assms(1) Some show ?thesis
        by (auto simp: holds_def)
    qed
  qed
qed

text \<open>A worker's partitions under a history of assignments.\<close>

fun follow_primaries where
  "follow_primaries this builder parts old [] = Inr parts"
| "follow_primaries this builder parts old (new # ms) =
     ebind (update_parts this builder parts (changed_primaries old new))
       (\<lambda>parts'. follow_primaries this builder parts' new ms)"

lemma follow_holds:
  assumes "\<forall>p. \<exists>l. builder p = Inr l" and "\<forall>m \<in> set ms. bt_wf m"
    and "sorted_wrt (\<lambda>m m'. fst ` set m \<subseteq> fst ` set m') (old # ms)" and "holds this old parts"
  shows "\<exists>parts'. follow_primaries this builder parts old ms = Inr parts' \<and> holds this (last (old # ms)) parts'"
  using assms(2-4)
proof (induction ms arbitrary: old parts)
  case Nil
  then show ?case by simp
next
  case (Cons m ms)
  obtain parts1 where u: "update_parts this builder parts (changed_primaries old m) = Inr parts1"
    using update_parts_total [OF assms(1)] by blast
  have "holds this m parts1" using Cons.prems by (intro update_parts_holds [OF _ _ _ u]) auto
  with Cons.IH [of m parts1] Cons.prems u show ?case by simp
qed

text \<open>A worker always holds exactly the partitions it is primary for: under any history of
  assignments in which no partition disappears, applying the changes that \<^verbatim>\<open>assign_primaries\<close> emits
  to the set of built partitions never fails and leaves a partition built iff the last assignment
  names this worker, although an update for a partition already built would drop it.\<close>

theorem parts_follow_primaries:
  assumes "\<forall>p. \<exists>l. builder p = Inr l" and "\<forall>m \<in> set ms. bt_wf m"
    and "sorted_wrt (\<lambda>m m'. fst ` set m \<subseteq> fst ` set m') ms" and "ms \<noteq> []"
  shows "\<exists>parts. follow_primaries this builder [] [] ms = Inr parts \<and>
    (\<forall>p. bt_get parts p \<noteq> None \<longleftrightarrow> bt_get (last ms) p = Some this)"
proof -
  have "holds this [] []" by (simp add: holds_def)
  from follow_holds [OF assms(1,2) _ this] assms(3,4) show ?thesis by (auto simp: holds_def)
qed

theorem parts_follow_primaries_witness:
  "\<exists>parts. follow_primaries 0 (\<lambda>p. Inr (p * 10)) [] [] [[(1 :: nat, 0), (2, 1)], [(1, 1), (2, 0), (3, 0)]] = Inr parts
    \<and> (bt_get parts 1 \<noteq> None \<longleftrightarrow> bt_get (last [[(1 :: nat, 0), (2, 1)], [(1, 1), (2, 0), (3, 0)]]) 1 = Some (0 :: worker))"
proof -
  let ?ms = "[[(1 :: nat, 0 :: worker), (2, 1)], [(1, 1), (2, 0), (3, 0)]]"
  have "\<forall>p :: nat. \<exists>l. Inr (p * 10) = (Inr l :: nat res)" by simp
  moreover have "\<forall>m \<in> set ?ms. bt_wf m" by (simp add: bt_wf_def)
  moreover have "sorted_wrt (\<lambda>m m'. fst ` set m \<subseteq> fst ` set m') ?ms" by simp
  ultimately show ?thesis using parts_follow_primaries [of "\<lambda>p. Inr (p * 10)" ?ms 0] by blast
qed

section \<open>Loading to the end\<close>

text \<open>
  The contract of \<^verbatim>\<open>BatchIterator\<close>: \<open>remaining\<close> is what the iterator has still to hand out and
  \<open>left\<close> bounds the number of batches. Any such iterator is read to its end by \<^verbatim>\<open>partd_load\<close>.
\<close>

fun load_reads ::
  "(('p, 'l) load_entry list \<Rightarrow> nat) \<Rightarrow> ('l \<Rightarrow> ('l \<times> 'i list option) res) \<Rightarrow> nat \<Rightarrow> ('p, 'l) load_entry list \<Rightarrow>
    (('p, 'l) load_entry list \<times> (epoch \<times> 'i) list) res" where
  "load_reads peek next_batch 0 q = Inr (q, [])"
| "load_reads peek next_batch (Suc n) q =
     ebind (load_read peek next_batch q) (\<lambda>(q', out, _).
     emap (\<lambda>(q'', out'). (q'', out @ out')) (load_reads peek next_batch n q'))"

text \<open>\<^verbatim>\<open>while let Some(batch) = loader.next_batch()\<close>, with fuel: \<open>None\<close> is not having returned.\<close>

fun read_batches :: "('l \<Rightarrow> ('l \<times> 'i list option) res) \<Rightarrow> nat \<Rightarrow> 'l \<Rightarrow> 'i list list res option" where
  "read_batches next_batch 0 l = None"
| "read_batches next_batch (Suc n) l = (case next_batch l of
       Inl p \<Rightarrow> Some (Inl p)
     | Inr (l', None) \<Rightarrow> Some (Inr [])
     | Inr (l', Some b) \<Rightarrow> map_option (emap (\<lambda>bs. b # bs)) (read_batches next_batch n l'))"

locale batch_iterator =
  fixes next_batch :: "'l \<Rightarrow> ('l \<times> 'i list option) res"
    and ok :: "'l \<Rightarrow> bool"
    and remaining :: "'l \<Rightarrow> 'i list"
    and left :: "'l \<Rightarrow> nat"
  assumes next_ok: "ok l \<Longrightarrow> \<exists>l' b. next_batch l = Inr (l', b) \<and> (case b of
      None \<Rightarrow> remaining l = []
    | Some items \<Rightarrow> ok l' \<and> remaining l = items @ remaining l' \<and> left l' < left l)"
begin

lemma read_to_end:
  "ok l \<Longrightarrow> left l < n \<Longrightarrow> \<exists>bs. read_batches next_batch n l = Some (Inr bs) \<and> concat bs = remaining l"
proof (induction n arbitrary: l)
  case 0
  then show ?case by simp
next
  case (Suc n)
  from next_ok [OF Suc.prems(1)] obtain l' b where n: "next_batch l = Inr (l', b)"
    and b: "case b of None \<Rightarrow> remaining l = []
      | Some items \<Rightarrow> ok l' \<and> remaining l = items @ remaining l' \<and> left l' < left l" by blast
  show ?case
  proof (cases b)
    case None
    with n b show ?thesis by simp
  next
    case (Some items)
    with b Suc.prems(2) have "ok l'" "left l' < n" by auto
    with Suc.IH n b Some show ?thesis by fastforce
  qed
qed

definition entry_items :: "('p, 'l) load_entry \<Rightarrow> (epoch \<times> 'i) list" where
  "entry_items e = map (\<lambda>x. (le_cap e, x)) (remaining (le_part e))"

definition work :: "('p, 'l) load_entry list \<Rightarrow> nat" where
  "work q = sum_list (map (\<lambda>e. Suc (left (le_part e))) q)"

lemma read_step:
  assumes "peeks_greatest peek" and "\<forall>e \<in> set q. ok (le_part e)" and "q \<noteq> []"
  shows "\<exists>q' out b. load_read peek next_batch q = Inr (q', out, b) \<and> (\<forall>e \<in> set q'. ok (le_part e)) \<and>
    work q' < work q \<and>
    mset (concat (map entry_items q)) = mset out + mset (concat (map entry_items q'))"
proof -
  let ?i = "peek q" and ?e = "q ! peek q"
  have i: "?i < length q" using assms(1,3) by (simp add: peeks_greatest_def)
  have e: "ok (le_part ?e)" using assms(2) i by simp
  have split: "q = take ?i q @ ?e # drop (Suc ?i) q" using i by (rule id_take_nth_drop)
  have upd: "q[?i := x] = take ?i q @ x # drop (Suc ?i) q" for x
    using i by (rule upd_conv_take_nth_drop)
  have sub: "\<forall>x \<in> set (take ?i q) \<union> set (drop (Suc ?i) q). ok (le_part x)"
    using assms(2) by (auto dest: in_set_takeD in_set_dropD)
  have work_q: "work q = work (take ?i q) + Suc (left (le_part ?e)) + work (drop (Suc ?i) q)"
    unfolding work_def by (subst split) simp
  have items_q: "mset (concat (map entry_items q)) = mset (concat (map entry_items (take ?i q)))
      + mset (entry_items ?e) + mset (concat (map entry_items (drop (Suc ?i) q)))"
    by (subst split) simp
  from next_ok [OF e] obtain l' b where n: "next_batch (le_part ?e) = Inr (l', b)"
    and b: "case b of None \<Rightarrow> remaining (le_part ?e) = []
      | Some items \<Rightarrow> ok l' \<and> remaining (le_part ?e) = items @ remaining l' \<and> left l' < left (le_part ?e)"
    by blast
  show ?thesis
  proof (cases b)
    case None
    then have "load_read peek next_batch q = Inr (remove_nth ?i q, [], False)"
      using assms(3) n by (simp add: load_read_def Let_def)
    moreover have "entry_items ?e = []" using b None by (simp add: entry_items_def)
    ultimately show ?thesis using sub work_q items_q
      by (auto simp: remove_nth_def work_def)
  next
    case (Some items)
    let ?e' = "?e\<lparr>le_part := l'\<rparr>"
    have "load_read peek next_batch q =
        Inr (q[?i := ?e'], map (\<lambda>x. (le_cap ?e, x)) items, items \<noteq> [])"
      using assms(3) n Some by (simp add: load_read_def Let_def)
    moreover have "entry_items ?e = map (\<lambda>x. (le_cap ?e, x)) items @ entry_items ?e'"
      using b Some by (simp add: entry_items_def)
    ultimately show ?thesis using sub work_q items_q b Some
      by (auto simp: upd work_def)
  qed
qed

lemma reads_all:
  assumes "peeks_greatest peek" and "\<forall>e \<in> set q. ok (le_part e)" and "work q \<le> n"
  shows "\<exists>out. load_reads peek next_batch n q = Inr ([], out) \<and> mset out = mset (concat (map entry_items q))"
  using assms(2,3)
proof (induction n arbitrary: q)
  case 0
  then have "q = []" by (cases q) (auto simp: work_def)
  then show ?case by simp
next
  case (Suc n)
  show ?case
  proof (cases "q = []")
    case True
    with Suc.IH [of "[]"] show ?thesis by (simp add: load_read_def work_def)
  next
    case False
    from read_step [OF assms(1) Suc.prems(1) False] obtain q' out b where
      r: "load_read peek next_batch q = Inr (q', out, b)" "\<forall>e \<in> set q'. ok (le_part e)" "work q' < work q"
        "mset (concat (map entry_items q)) = mset out + mset (concat (map entry_items q'))" by blast
    from r(3) Suc.prems(2) have "work q' \<le> n" by simp
    from Suc.IH [OF r(2) this] obtain out' where
      "load_reads peek next_batch n q' = Inr ([], out')" "mset out' = mset (concat (map entry_items q'))"
      by blast
    with r(1,4) show ?thesis by simp
  qed
qed

end

text \<open>What \<^verbatim>\<open>partd_load\<close> queues: one entry per partition this worker is primary for.\<close>

lemma enqueue_mine:
  assumes "\<forall>(p, w) \<in> set incoming. w = this \<longrightarrow> p \<in> set local_parts \<and> builder p = Inr (b p)"
  shows "load_enqueue this local_parts builder q (e, incoming) =
    Inr (q @ map (\<lambda>(p, _). \<lparr>le_cap = e, le_key = p, le_part = b p\<rparr>) (filter (\<lambda>(_, w). w = this) incoming))"
  using assms by (induction incoming arbitrary: q) (auto simp: load_enqueue_def)

text \<open>A heap order: the first of the greatest entries.\<close>

definition greatest_at :: "('p, 'l) load_entry list \<Rightarrow> nat" where
  "greatest_at q = hd (filter (\<lambda>i. list_all (\<lambda>x. le_cap x \<le> le_cap (q ! i)) q) [0..<length q])"

lemma peeks_greatest_at: "peeks_greatest greatest_at"
  unfolding peeks_greatest_def
proof (intro allI impI)
  fix q :: "('p, 'l) load_entry list" assume "q \<noteq> []"
  let ?is = "filter (\<lambda>i. list_all (\<lambda>x. le_cap x \<le> le_cap (q ! i)) q) [0..<length q]"
  have "Max (le_cap ` set q) \<in> le_cap ` set q" using \<open>q \<noteq> []\<close> by (intro Max_in) auto
  then obtain e where e: "e \<in> set q" "le_cap e = Max (le_cap ` set q)" by force
  then obtain i where "i < length q" "q ! i = e" by (auto simp: in_set_conv_nth)
  with e have "i \<in> set ?is" by (auto simp: list_all_iff)
  then have "?is \<noteq> []" by (metis list.distinct(1) list.set_cases)
  then have "hd ?is \<in> set ?is" by (rule hd_in_set)
  then show "greatest_at q < length q \<and> (\<forall>x \<in> set q. \<not> le_less (q ! greatest_at q) x)"
    by (auto simp: greatest_at_def le_less_def list_all_iff not_less)
qed

section \<open>An item through the whole writing pipeline\<close>

lemma learn_parts:
  "bt_wf known \<Longrightarrow> bt_wf (foldl learn_part known ann)"
  "fst ` set (foldl learn_part known ann) = fst ` set known \<union> fst ` set ann"
  "w \<in> set (case bt_get (foldl learn_part known ann) p of None \<Rightarrow> [] | Some ws \<Rightarrow> ws) \<longleftrightarrow>
    w \<in> set (case bt_get known p of None \<Rightarrow> [] | Some ws \<Rightarrow> ws) \<or> (p, w) \<in> set ann"
  "\<forall>p ws. bt_get known p = Some ws \<longrightarrow> ws \<noteq> [] \<Longrightarrow>
    \<forall>p ws. bt_get (foldl learn_part known ann) p = Some ws \<longrightarrow> ws \<noteq> []"
proof (induction ann arbitrary: known)
  case Nil
  {
    case 1 then show ?case by simp
  next
    case 2 then show ?case by simp
  next
    case 3 then show ?case by simp
  next
    case 4 then show ?case by simp
  }
next
  case (Cons a ann)
  obtain q v where a: "a = (q, v)" by fastforce
  {
    case 1 then show ?case using Cons(1) [of "learn_part known a"]
      by (simp add: learn_part_def a bt_entry_def)
  next
    case 2 then show ?case using Cons(2) [of "learn_part known a"]
      by (auto simp: learn_part_def a bt_entry_def)
  next
    case 3
    then show ?case using Cons(3) [of "learn_part known a"]
      by (auto simp: learn_part_def a bt_entry_def split: option.splits if_splits)
  next
    case 4
    then have "\<forall>p ws. bt_get (learn_part known a) p = Some ws \<longrightarrow> ws \<noteq> []"
      by (auto simp: learn_part_def a bt_entry_def split: option.splits)
    from Cons(4) [OF this] show ?case by simp
  }
qed

lemma learn_routes:
  "distinct (map fst us) \<Longrightarrow> (p, w) \<in> set us \<Longrightarrow> map_of (foldl learn_route m us) p = Some w"
proof (induction us arbitrary: m)
  case Nil
  then show ?case by simp
next
  case (Cons u us)
  have keep: "p \<notin> fst ` set us \<Longrightarrow> map_of (foldl learn_route m us) p = map_of m p" for m
    by (induction us arbitrary: m) (auto simp: learn_route_def update_conv')
  show ?case
  proof (cases "u = (p, w)")
    case True
    with Cons.prems(1) have "p \<notin> fst ` set us" by auto
    from keep [OF this, of "learn_route m u"] have "map_of (foldl learn_route m (u # us)) p =
        map_of (learn_route m u) p" by simp
    also have "\<dots> = Some w" by (simp add: learn_route_def True update_conv')
    finally show ?thesis .
  next
    case False
    with Cons show ?thesis by auto
  qed
qed

lemma changed_from_nothing: "changed_primaries [] m = m"
  by (auto simp: changed_primaries_def)

text \<open>A keyed item is written by exactly the worker that holds its partition: once the
  workers' announcements \<open>ann\<close> are known and the primaries assigned, \<^verbatim>\<open>partition\<close> and \<^verbatim>\<open>route\<close>
  never fail on an item, the partition depends on the key alone, the worker it is routed to has
  announced that partition, and among all workers it is the one that has built it.\<close>

theorem written_item_reaches_its_partition:
  assumes "ann \<noteq> []" and "sorts_by_key us" and "picks_least pick" and "\<forall>p. \<exists>l. builder p = Inr l"
  defines "known \<equiv> foldl learn_part [] ann" and "K \<equiv> bs_extend [] (map fst ann)"
  shows "\<exists>prim. calc_primaries us pick known = Inr prim \<and>
    (\<forall>k. \<exists>p w. (p, w) \<in> set ann \<and>
      (\<forall>v. assign_part pf K (k, v) = Inr (p, k, v) \<and>
           route_item (foldl learn_route [] (changed_primaries [] prim)) (p, k, v) = Inr (w, p, k, v)) \<and>
      (\<forall>this. \<exists>parts. update_parts this builder [] (changed_primaries [] prim) = Inr parts \<and>
        (bt_get parts p \<noteq> None \<longleftrightarrow> this = w)))"
proof -
  have ok: "candidates_ok known"
    using learn_parts(1,4) [of "[]" ann] by (simp add: known_def candidates_ok_def)
  from calc_primaries_ok [OF ok assms(2,3)] obtain prim where
    prim: "calc_primaries us pick known = Inr prim" "bt_wf prim" "bt_keys prim = bt_keys known"
      "\<forall>p w. bt_get prim p = Some w \<longrightarrow> w \<in> set (the (bt_get known p))" by blast
  have setK: "set K = fst ` set ann" by (simp add: K_def)
  then have "K \<noteq> []" using assms(1) by auto
  have "\<exists>p w. (p, w) \<in> set ann \<and>
      (\<forall>v. assign_part pf K (k, v) = Inr (p, k, v) \<and>
           route_item (foldl learn_route [] prim) (p, k, v) = Inr (w, p, k, v)) \<and>
      (\<forall>this. \<exists>parts. update_parts this builder [] prim = Inr parts \<and> (bt_get parts p \<noteq> None \<longleftrightarrow> this = w))" for k
  proof -
    let ?p = "K ! (pf k mod length K)"
    have lt: "pf k mod length K < length K" using \<open>K \<noteq> []\<close> by simp
    then have "?p \<in> set K" by simp
    then have "?p \<in> fst ` set known" using learn_parts(2) [of "[]" ann] by (simp add: setK known_def)
    then have "?p \<in> set (bt_keys prim)" by (simp add: prim(3))
    then have "?p \<in> dom (bt_get prim)" by (simp flip: bt_dom)
    then obtain w where w: "bt_get prim ?p = Some w" by blast
    then have pw: "(?p, w) \<in> set prim" by (rule map_of_SomeD)
    from \<open>?p \<in> fst ` set known\<close> obtain ws where ws: "bt_get known ?p = Some ws"
      by (metis domD bt_dom)
    from prim(4) w have "w \<in> set (the (bt_get known ?p))" by blast
    then have "(?p, w) \<in> set ann"
      using learn_parts(3) [of w "[]" ann ?p] ws by (simp add: known_def)
    moreover have "route_item (foldl learn_route [] prim) (?p, k, v) = Inr (w, ?p, k, v)" for v
      using learn_routes [OF bt_wf_distinct [OF prim(2)] pw, of "[]"] by (simp add: route_item_def)
    moreover have "assign_part pf K (k, v) = Inr (?p, k, v)" for v
      using lt by (simp add: assign_part_def)
    moreover have "\<exists>parts. update_parts this builder [] prim = Inr parts \<and>
        (bt_get parts ?p \<noteq> None \<longleftrightarrow> this = w)" for this
    proof -
      obtain parts where u: "update_parts this builder [] prim = Inr parts"
        using update_parts_total [OF assms(4)] by blast
      from update_parts_in [OF bt_wf_distinct [OF prim(2)] pw u] show ?thesis using u by auto
    qed
    ultimately show ?thesis
      by (intro exI [of _ ?p] exI [of _ w] conjI allI impI) simp_all
  qed
  then show ?thesis unfolding changed_from_nothing
    by (intro exI [of _ prim] conjI [OF prim(1)] allI)
qed

theorem written_item_reaches_its_partition_witness:
  "\<exists>prim. calc_primaries (\<lambda>f. sort_key f) (\<lambda>f ws. hd (sort_key f ws))
      (foldl learn_part [] [(7 :: nat, 0), (7, 1), (9, 1)]) = Inr prim \<and>
    (\<forall>k :: nat. \<exists>p w. (p, w) \<in> set [(7, 0), (7, 1), (9, 1)] \<and>
      (\<forall>v :: int. assign_part id (bs_extend [] (map fst [(7, 0 :: worker), (7, 1), (9, 1)])) (k, v) = Inr (p, k, v) \<and>
           route_item (foldl learn_route [] (changed_primaries [] prim)) (p, k, v) = Inr (w, p, k, v)) \<and>
      (\<forall>this. \<exists>parts. update_parts this (\<lambda>p. Inr (2 * p)) [] (changed_primaries [] prim) = Inr parts \<and>
        (bt_get parts p \<noteq> None \<longleftrightarrow> this = w)))"
  by (rule written_item_reaches_its_partition [OF _ sorts_by_sort_key picks_least_hd]) simp_all

end
