(* ===== verification/Partd_Write.thy ===== *)
theory Partd_Write
  imports Partd_IO
begin

text \<open>
  One worker's \<^verbatim>\<open>partd_write\<close> (\<^verbatim>\<open>src/src/timely.rs\<close>) with writers that add rows to one table of their
  partition's database. The contract of such a writer is the locale \<open>table_writer\<close>; under it an
  activation never panics, and every row that arrived is afterwards either in the table of its partition
  or still buffered in an epoch that is not closed. \<open>Recovery_Writers\<close> interprets the contract on the
  writers of the recovery partitions.
\<close>

section \<open>The contract of a writer\<close>

text \<open>A writer is its partition; the world has a database for each partition.\<close>

definition table_write :: "('v list \<Rightarrow> 'db \<Rightarrow> 'db res) \<Rightarrow> ('p \<Rightarrow> 'db) \<Rightarrow> 'p \<Rightarrow> 'v list \<Rightarrow> (('p \<Rightarrow> 'db) \<times> 'p) res" where
  "table_write W store p items = emap (\<lambda>db. (store(p := db), p)) (W items (store p))"

text \<open>
  \<open>get\<close> and \<open>put\<close> are the table of a database, \<open>after t xs\<close> is the table after writing \<open>xs\<close> and \<open>fits t M\<close>
  says that the rows \<open>M\<close> violate no constraint of it in whatever order they come.
\<close>

locale table_writer =
  fixes W :: "'v list \<Rightarrow> 'db \<Rightarrow> 'db res"
    and get :: "'db \<Rightarrow> 'r" and put :: "'r \<Rightarrow> 'db \<Rightarrow> 'db"
    and after :: "'r \<Rightarrow> 'v list \<Rightarrow> 'r" and fits :: "'r \<Rightarrow> 'v multiset \<Rightarrow> bool"
  assumes get_put: "get (put t db) = t" and put_put: "put t (put u db) = put t db"
    and put_get: "put (get db) db = db" and after_Nil: "after t [] = t"
    and fits_sub: "fits t (A + B) \<Longrightarrow> fits t A"
    and write_batch: "fits t (mset (xs @ ys)) \<Longrightarrow> get db = after t xs \<Longrightarrow> W ys db = Inr (put (after t (xs @ ys)) db)"

section \<open>Rows on their way\<close>

definition entries :: "epoch \<Rightarrow> ('p, 'v list) btree \<Rightarrow> ('p \<times> epoch \<times> 'v) list" where
  "entries e m = concat (map (\<lambda>(p, vs). map (\<lambda>v. (p, e, v)) vs) m)"

definition buffered :: "('p, 'v) items_inbuf \<Rightarrow> ('p \<times> epoch \<times> 'v) list" where
  "buffered buf = concat (map (\<lambda>(e, m). entries e m) buf)"

definition arrived :: "(epoch \<times> (worker \<times> 'p \<times> 'k \<times> 'v) list) list \<Rightarrow> ('p \<times> epoch \<times> 'v) list" where
  "arrived msgs = concat (map (\<lambda>(e, xs). map (\<lambda>(_, p, _, v). (p, e, v)) xs) msgs)"

abbreviation row_epoch :: "'p \<times> epoch \<times> 'v \<Rightarrow> epoch" where
  "row_epoch x \<equiv> fst (snd x)"

definition rows_of :: "'p \<Rightarrow> ('p \<times> epoch \<times> 'v) list \<Rightarrow> 'v list" where
  "rows_of p xs = map (\<lambda>(_, _, v). v) (filter (\<lambda>(q, _, _). q = p) xs)"

lemma entries_simps [simp]: "entries e [] = []" "entries e ((p, vs) # m) = map (\<lambda>v. (p, e, v)) vs @ entries e m"
  "entries e (m @ m') = entries e m @ entries e m'"
  by (simp_all add: entries_def)

lemma buffered_simps [simp]: "buffered [] = []" "buffered ((e, m) # b) = entries e m @ buffered b"
  "buffered (b @ b') = buffered b @ buffered b'"
  by (simp_all add: buffered_def)

lemma arrived_simps [simp]: "arrived [] = []" "arrived ((e, xs) # ms) = map (\<lambda>(_, p, _, v). (p, e, v)) xs @ arrived ms"
  by (simp_all add: arrived_def)

lemma rows_of_simps [simp]: "rows_of p [] = []" "rows_of p (xs @ ys) = rows_of p xs @ rows_of p ys"
  "rows_of p (map (\<lambda>v. (q, e, v)) vs) = (if q = p then vs else [])"
  by (simp_all add: rows_of_def filter_map comp_def)

lemma mset_rows_of: "mset (rows_of p xs) = image_mset (\<lambda>(_, _, v). v) (filter_mset (\<lambda>(q, _, _). q = p) (mset xs))"
  by (simp add: rows_of_def flip: mset_filter)

lemma entries_push:
  assumes "bt_wf m"
  shows "mset (entries e (bt_entry p (\<lambda>vs. vs @ [v]) [v] m)) = add_mset (p, e, v) (mset (entries e m))"
proof (cases "bt_get m p")
  case None
  from bt_insert_new [OF None, of "[v]"] obtain xs ys where s: "m = xs @ ys" "bt_insert p [v] m = xs @ (p, [v]) # ys" by blast
  have "bt_entry p (\<lambda>vs. vs @ [v]) [v] m = bt_insert p [v] m" using None by (simp add: bt_entry_def)
  then show ?thesis by (simp only: s(2)) (simp add: s(1))
next
  case (Some vs)
  from bt_split [OF assms Some, of "vs @ [v]"] obtain xs ys where
    s: "m = xs @ (p, vs) # ys" "bt_insert p (vs @ [v]) m = xs @ (p, vs @ [v]) # ys" by blast
  have "bt_entry p (\<lambda>vs. vs @ [v]) [v] m = bt_insert p (vs @ [v]) m" using Some by (simp add: bt_entry_def)
  then show ?thesis by (simp only: s(2)) (simp add: s(1))
qed

text \<open>A buffer whose epochs are from \<open>c\<close> on, have been notified, and whose rows are for \<open>P\<close>.\<close>

definition items_ok :: "'p set \<Rightarrow> epoch \<Rightarrow> epoch set \<Rightarrow> ('p::linorder, 'v) items_inbuf \<Rightarrow> bool" where
  "items_ok P c Q buf \<longleftrightarrow> bt_wf buf \<and>
     (\<forall>e m. bt_get buf e = Some m \<longrightarrow> c \<le> e \<and> e \<in> Q \<and> bt_wf m \<and> fst ` set m \<subseteq> P)"

lemma items_ok_Nil [simp]: "items_ok P c Q []"
  by (simp add: items_ok_def)

lemma items_push:
  assumes "items_ok P c Q buf" and "c \<le> e" and "p \<in> P"
  shows "items_ok P c (insert e Q) (bt_entry e (bt_entry p (\<lambda>vs. vs @ [v]) [v]) (bt_entry p (\<lambda>vs. vs @ [v]) [v] []) buf)"
    and "mset (buffered (bt_entry e (bt_entry p (\<lambda>vs. vs @ [v]) [v]) (bt_entry p (\<lambda>vs. vs @ [v]) [v] []) buf)) =
      add_mset (p, e, v) (mset (buffered buf))"
proof -
  have new: "bt_entry p (\<lambda>vs. vs @ [v]) [v] [] = [(p, [v])]" by (simp add: bt_entry_def)
  let ?f = "bt_entry p (\<lambda>vs. vs @ [v]) [v]"
  have wf: "bt_wf buf" using assms(1) by (simp add: items_ok_def)
  show "items_ok P c (insert e Q) (bt_entry e ?f (?f []) buf)"
  proof (cases "bt_get buf e")
    case None
    with assms show ?thesis by (auto simp: items_ok_def new bt_entry_def [of e] bt_wf_Cons split: if_splits)
  next
    case (Some m)
    then have m: "bt_wf m" "fst ` set m \<subseteq> P" using assms(1) by (auto simp: items_ok_def)
    then have "bt_wf (?f m)" "fst ` set (?f m) \<subseteq> P" using assms(3) by (auto simp: bt_entry_def)
    with Some assms show ?thesis by (auto simp: items_ok_def bt_entry_def [of e] split: if_splits)
  qed
  show "mset (buffered (bt_entry e ?f (?f []) buf)) = add_mset (p, e, v) (mset (buffered buf))"
  proof (cases "bt_get buf e")
    case None
    from bt_insert_new [OF None, of "[(p, [v])]"] obtain xs ys where
      s: "buf = xs @ ys" "bt_insert e [(p, [v])] buf = xs @ (e, [(p, [v])]) # ys" by blast
    have "bt_entry e ?f (?f []) buf = bt_insert e [(p, [v])] buf" using None by (simp add: bt_entry_def [of e] new)
    then show ?thesis by (simp only: s(2)) (simp add: s(1))
  next
    case (Some m)
    then have m: "bt_wf m" using assms(1) by (auto simp: items_ok_def)
    from bt_split [OF wf Some, of "?f m"] obtain xs ys where
      s: "buf = xs @ (e, m) # ys" "bt_insert e (?f m) buf = xs @ (e, ?f m) # ys" by blast
    have "bt_entry e ?f (?f []) buf = bt_insert e (?f m) buf" using Some by (simp add: bt_entry_def [of e])
    with entries_push [OF m, of e p v] show ?thesis by (simp only: s(2)) (simp add: s(1))
  qed
qed

lemma items_ok_mono: "items_ok P c Q buf \<Longrightarrow> Q \<subseteq> Q' \<Longrightarrow> items_ok P c Q' buf"
  by (auto simp: items_ok_def)

lemma write_buffer_ok:
  assumes "items_ok P c Q buf" and "c \<le> e" and "\<forall>(w, p, k, v) \<in> set xs. p \<in> P"
  shows "items_ok P c (insert e Q) (write_buffer buf e xs) \<and>
    mset (buffered (write_buffer buf e xs)) = mset (buffered buf) + mset (arrived [(e, xs)])"
  using assms(1,3)
proof (induction xs arbitrary: buf Q)
  case Nil
  then show ?case by (auto simp: write_buffer_def intro: items_ok_mono)
next
  case (Cons x xs)
  obtain w p k v where x: "x = (w, p, k, v)" by (cases x)
  have p: "p \<in> P" and xs: "\<forall>(w, p, k, v) \<in> set xs. p \<in> P" using Cons.prems(2) by (auto simp: x)
  note push = items_push [OF Cons.prems(1) assms(2) p, of v]
  from Cons.IH [OF push(1) xs] show ?case by (simp add: write_buffer_def x push(2))
qed

lemma write_receive_ok:
  assumes "items_ok P c (set (queue nc)) buf" and "caps_state nc \<noteq> None"
    and "\<forall>(e, xs) \<in> set msgs. c \<le> e \<and> (\<forall>(w, p, k, v) \<in> set xs. p \<in> P)"
  shows "\<exists>buf'. efold write_buffer_step (buf, nc) msgs = Inr (buf', nc\<lparr>queue := bs_extend (queue nc) (map fst msgs)\<rparr>) \<and>
    items_ok P c (set (bs_extend (queue nc) (map fst msgs))) buf' \<and>
    mset (buffered buf') = mset (buffered buf) + mset (arrived msgs)"
  using assms
proof (induction msgs arbitrary: buf nc)
  case Nil
  then show ?case by simp
next
  case (Cons m msgs)
  obtain e xs where m: "m = (e, xs)" by fastforce
  let ?nc = "nc\<lparr>queue := bs_insert e (queue nc)\<rparr>"
  have e: "c \<le> e" "\<forall>(w, p, k, v) \<in> set xs. p \<in> P" using Cons.prems(3) by (auto simp: m)
  from write_buffer_ok [OF Cons.prems(1) e] have b: "items_ok P c (set (queue ?nc)) (write_buffer buf e xs)"
    "mset (buffered (write_buffer buf e xs)) = mset (buffered buf) + mset (arrived [(e, xs)])" by simp_all
  have step: "write_buffer_step (buf, nc) m = Inr (write_buffer buf e xs, ?nc)"
    using Cons.prems(2) by (simp add: write_buffer_step_def m notify_at_def)
  have nc: "caps_state ?nc \<noteq> None" and ms: "\<forall>(e, xs) \<in> set msgs. c \<le> e \<and> (\<forall>(w, p, k, v) \<in> set xs. p \<in> P)"
    using Cons.prems(2,3) by auto
  from Cons.IH [OF b(1) nc ms] step b(2) show ?case by (auto simp: m)
qed

section \<open>Writing\<close>

text \<open>The partitions of a worker: each of \<open>P\<close> with its handle.\<close>

definition handles :: "'p::linorder set \<Rightarrow> ('p, 'p) btree \<Rightarrow> bool" where
  "handles P parts \<longleftrightarrow> bt_wf parts \<and> (\<forall>p. bt_get parts p = (if p \<in> P then Some p else None))"

lemma update_parts_handles:
  assumes "distinct (map fst us)" and "\<forall>(p, w) \<in> set us. w = this \<longrightarrow> builder p = Inr (p :: 'p::linorder)"
    and "bt_wf parts" and "\<forall>p \<in> fst ` set us. bt_get parts p = None"
  shows "\<exists>parts'. update_parts this builder parts us = Inr parts' \<and> bt_wf parts' \<and>
    (\<forall>p. bt_get parts' p = (if (p, this) \<in> set us then Some p else bt_get parts p))"
  using assms
proof (induction us arbitrary: parts)
  case Nil
  then show ?case by (simp add: update_parts_def)
next
  case (Cons u us)
  obtain q w where u: "u = (q, w)" by fastforce
  have g: "bt_get parts q = None" using Cons.prems(4) by (simp add: u)
  let ?parts = "if w = this then bt_insert q q parts else bt_remove q parts"
  have step: "update_part this builder parts u = Inr ?parts"
    using Cons.prems(2) g by (auto simp: update_part_def u)
  have wf: "bt_wf ?parts" using Cons.prems(3) by simp
  have q: "q \<notin> fst ` set us" using Cons.prems(1) by (simp add: u)
  then have none: "\<forall>p \<in> fst ` set us. bt_get ?parts p = None" using Cons.prems(4) by auto
  have "distinct (map fst us)" "\<forall>(p, w) \<in> set us. w = this \<longrightarrow> builder p = Inr p" using Cons.prems(1,2) by auto
  from Cons.IH [OF this wf none] obtain parts' where p: "update_parts this builder ?parts us = Inr parts'" "bt_wf parts'"
    "\<forall>p. bt_get parts' p = (if (p, this) \<in> set us then Some p else bt_get ?parts p)" by blast
  have "update_parts this builder parts (u # us) = Inr parts'" using p(1) step by (simp add: update_parts_def)
  moreover have "\<forall>p. bt_get parts' p = (if (p, this) \<in> set (u # us) then Some p else bt_get parts p)"
    using p(3) g q by (auto simp: u image_iff)
  ultimately show ?case using p(2) by blast
qed

text \<open>The rows of a buffer that the calls for \<open>E\<close> leave behind.\<close>

definition without :: "epoch set \<Rightarrow> ('p::linorder, 'v) items_inbuf \<Rightarrow> ('p, 'v) items_inbuf" where
  "without E buf = filter (\<lambda>(e, _). e \<notin> E) buf"

lemma without_simps [simp]: "without {} buf = buf" "without E (without F buf) = without (E \<union> F) buf"
  by (auto simp: without_def intro!: filter_cong)

lemma without_remove: "bt_remove e buf = without {e} buf"
  by (auto simp: without_def bt_remove_def intro!: filter_cong)

lemma get_without: "bt_get (without E buf) e = (if e \<in> E then None else bt_get buf e)"
  by (induction buf) (auto simp: without_def)

lemma items_ok_without: "items_ok P c Q buf \<Longrightarrow> items_ok P c Q (without E buf)"
  by (auto simp: items_ok_def get_without) (simp add: without_def)

definition ticks :: "epoch list \<Rightarrow> (epoch \<times> unit) list" where
  "ticks es = map (\<lambda>e. (e, ())) es"

definition eagers :: "call list \<Rightarrow> epoch set" where
  "eagers calls = {e. Eager e \<in> set calls}"

lemma eagers_schedule: "eagers (schedule fr q) = {e \<in> set q. is_closed fr e \<or> fr = Some e}"
  by (cases fr) (auto simp: eagers_def schedule_def)

context table_writer
begin

text \<open>The world after the rows \<open>log\<close> have been written to the partitions \<open>P\<close>.\<close>

definition refresh :: "('p \<Rightarrow> 'r) \<Rightarrow> 'p set \<Rightarrow> ('p \<times> epoch \<times> 'v) list \<Rightarrow> ('p \<Rightarrow> 'db) \<Rightarrow> 'p \<Rightarrow> 'db" where
  "refresh base P log s = (\<lambda>p. if p \<in> P then put (after (base p) (rows_of p log)) (s p) else s p)"

definition room :: "('p \<Rightarrow> 'r) \<Rightarrow> 'p set \<Rightarrow> ('p \<times> epoch \<times> 'v) multiset \<Rightarrow> bool" where
  "room base P M \<longleftrightarrow> (\<forall>p \<in> P. fits (base p) (image_mset (\<lambda>(_, _, v). v) (filter_mset (\<lambda>(q, _, _). q = p) M)))"

lemma room_sub: "room base P M \<Longrightarrow> N \<subseteq># M \<Longrightarrow> room base P N"
proof -
  assume r: "room base P M" and "N \<subseteq># M"
  then obtain A where "M = N + A" by (metis mset_subset_eq_exists_conv)
  with r show ?thesis by (auto simp: room_def intro: fits_sub)
qed

lemma write_part_ok:
  assumes "p \<in> P" and "P \<subseteq> set local" and "handles P parts" and "room base P (mset (log @ map (\<lambda>v. (p, e, v)) vs))"
  shows "write_part (table_write W) local (parts, refresh base P log s) (p, vs) =
    Inr (parts, refresh base P (log @ map (\<lambda>v. (p, e, v)) vs) s)"
proof -
  have "fits (base p) (mset (rows_of p (log @ map (\<lambda>v. (p, e, v)) vs)))"
    using assms(1,4) unfolding room_def mset_rows_of by blast
  then have "fits (base p) (mset (rows_of p log @ vs))" by simp
  then have W: "W vs (refresh base P log s p) = Inr (put (after (base p) (rows_of p log @ vs)) (refresh base P log s p))"
    using assms(1) by (intro write_batch) (simp_all add: refresh_def get_put)
  have s: "(refresh base P log s)(p := put (after (base p) (rows_of p log @ vs)) (refresh base P log s p)) =
      refresh base P (log @ map (\<lambda>v. (p, e, v)) vs) s"
    using assms(1) by (auto simp: refresh_def put_put)
  have "bt_get parts p = Some p" "bt_insert p p parts = parts" "p \<in> set local"
    using assms(1-3) by (auto simp: handles_def)
  then show ?thesis by (simp add: write_part_def table_write_def eguard_def W s)
qed

lemma write_parts_ok:
  assumes "fst ` set m \<subseteq> P" and "P \<subseteq> set local" and "handles P parts" and "room base P (mset (log @ entries e m))"
  shows "efold (write_part (table_write W) local) (parts, refresh base P log s) m =
    Inr (parts, refresh base P (log @ entries e m) s)"
  using assms(1,4)
proof (induction m arbitrary: log)
  case Nil
  then show ?case by simp
next
  case (Cons x m)
  obtain p vs where x: "x = (p, vs)" by fastforce
  let ?log = "log @ map (\<lambda>v. (p, e, v)) vs"
  have "room base P (mset ?log)" by (rule room_sub [OF Cons.prems(2)]) (simp add: x)
  moreover have "p \<in> P" "fst ` set m \<subseteq> P" using Cons.prems(1) by (auto simp: x)
  moreover have "room base P (mset (?log @ entries e m))" using Cons.prems(2) by (simp add: x)
  ultimately show ?case using Cons.IH [of ?log] write_part_ok [OF _ assms(2,3), of p base log e vs s] by (simp add: x)
qed

lemma write_eager_ok:
  fixes parts :: "('p::linorder, 'p) btree" and pbuf :: "('p \<times> worker) in_buffer"
  assumes "items_ok P c Q buf" and "P \<subseteq> set local" and "handles P parts" and "room base P (mset (log @ buffered buf))"
  shows "\<exists>l. write_eager (table_write W) local [e] (parts, buf, pbuf, refresh base P log s) =
      Inr ((parts, without {e} buf, pbuf, refresh base P (log @ l) s), [] :: (epoch \<times> unit) list) \<and>
    mset l + mset (buffered (without {e} buf)) = mset (buffered buf) \<and> (\<forall>x \<in> set l. row_epoch x = e)"
proof (cases "bt_get buf e")
  case None
  have "without {e} buf = buf" unfolding without_remove [symmetric] using None by (rule bt_remove_new)
  with None show ?thesis by (intro exI [of _ "[]"]) (simp add: write_eager_def without_remove)
next
  case (Some m)
  have wf: "bt_wf buf" and m: "fst ` set m \<subseteq> P" using assms(1) Some by (auto simp: items_ok_def)
  from bt_split [OF wf Some, of m] obtain xs ys where s: "buf = xs @ (e, m) # ys" "bt_remove e buf = xs @ ys" by blast
  have b: "mset (entries e m) + mset (buffered (without {e} buf)) = mset (buffered buf)"
    unfolding without_remove [symmetric] s(2) by (simp add: s(1))
  then have "mset (log @ entries e m) \<subseteq># mset (log @ buffered buf)" by (simp flip: b)
  then have "room base P (mset (log @ entries e m))" by (rule room_sub [OF assms(4)])
  from write_parts_ok [OF m assms(2,3) this] Some b show ?thesis
    by (intro exI [of _ "entries e m"]) (auto simp: write_eager_def without_remove entries_def)
qed

lemma write_calls_ok:
  fixes parts :: "('p::linorder, 'p) btree"
  assumes "items_ok P c Q buf" and "P \<subseteq> set local" and "handles P parts" and "room base P (mset (log @ buffered buf))"
    and "sorted (map call_epoch calls)"
  shows "\<exists>l. run_calls (write_eager (table_write W) local) (write_close this builder) 1
      ((parts, buf, [], refresh base P log s), out) calls =
      Inr ((parts, without (eagers calls) buf, [], refresh base P (log @ l) s), out @ ticks (closes calls)) \<and>
    mset l + mset (buffered (without (eagers calls) buf)) = mset (buffered buf) \<and>
    sorted (map row_epoch l) \<and> row_epoch ` set l \<subseteq> eagers calls"
  using assms(1,4,5)
proof (induction calls arbitrary: buf log out)
  case Nil
  then show ?case by (intro exI [of _ "[]"]) (simp add: run_calls_def eagers_def ticks_def)
next
  case (Cons call calls)
  have sorted: "sorted (map call_epoch calls)" using Cons.prems(3) by simp
  show ?case
  proof (cases call)
    case (Eager e)
    from write_eager_ok [OF Cons.prems(1) assms(2,3) Cons.prems(2), of e "[]" s] obtain l where
      l: "write_eager (table_write W) local [e] (parts, buf, [] :: ('p \<times> worker) in_buffer, refresh base P log s) =
        Inr ((parts, without {e} buf, [], refresh base P (log @ l) s), [] :: (epoch \<times> unit) list)"
      "mset l + mset (buffered (without {e} buf)) = mset (buffered buf)" "\<forall>x \<in> set l. row_epoch x = e"
      by (elim exE conjE) (rule that)
    have "mset ((log @ l) @ buffered (without {e} buf)) = mset (log @ buffered buf)"
      by (simp only: mset_append add.assoc l(2))
    with Cons.prems(2) have r: "room base P (mset ((log @ l) @ buffered (without {e} buf)))" by (simp only:)
    have e: "eagers (call # calls) = eagers calls \<union> {e}" by (auto simp: eagers_def Eager)
    from Cons.IH [OF items_ok_without [OF Cons.prems(1)] r sorted, of out] obtain l' where
      l': "run_calls (write_eager (table_write W) local) (write_close this builder) 1
        ((parts, without {e} buf, [], refresh base P (log @ l) s), out) calls =
        Inr ((parts, without (eagers calls) (without {e} buf), [], refresh base P ((log @ l) @ l') s), out @ ticks (closes calls))"
      "mset l' + mset (buffered (without (eagers calls) (without {e} buf))) = mset (buffered (without {e} buf))"
      "sorted (map row_epoch l')" "row_epoch ` set l' \<subseteq> eagers calls"
      by (elim exE conjE) (rule that)
    show ?thesis
    proof (intro exI conjI)
      show "run_calls (write_eager (table_write W) local) (write_close this builder) 1
        ((parts, buf, [], refresh base P log s), out) (call # calls) =
        Inr ((parts, without (eagers (call # calls)) buf, [], refresh base P (log @ (l @ l')) s), out @ ticks (closes (call # calls)))"
        using l(1) l'(1) by (simp add: run_calls_def e [unfolded Eager] Eager)
      show "mset (l @ l') + mset (buffered (without (eagers (call # calls)) buf)) = mset (buffered buf)"
        using l(2) l'(2) by (simp only: e without_simps mset_append add.assoc)
      have "e \<le> call_epoch c" if "c \<in> set calls" for c using Cons.prems(3) that by (simp add: Eager)
      then have "\<forall>x \<in> set l'. e \<le> row_epoch x" using l'(4) by (force simp: eagers_def)
      moreover have "map row_epoch l = replicate (length l) e" using l(3) by (intro replicate_eqI) auto
      ultimately show "sorted (map row_epoch (l @ l'))" using l'(3) by (auto simp: sorted_append)
      show "row_epoch ` set (l @ l') \<subseteq> eagers (call # calls)" using l(3) l'(4) by (auto simp: e)
    qed
  next
    case (Close e)
    have e: "eagers (call # calls) = eagers calls" by (auto simp: eagers_def Close)
    have c: "write_close this builder [e] (parts, buf, [], w) = Inr ((parts, buf, [], w), [(e, ())])" for w
      by (simp add: write_close_def inbuf_remove_def update_parts_def bt_remove_def)
    from Cons.IH [OF Cons.prems(1,2) sorted, of "out @ [(e, ())]"] obtain l where
      l: "run_calls (write_eager (table_write W) local) (write_close this builder) 1
        ((parts, buf, [], refresh base P log s), out @ [(e, ())]) calls =
        Inr ((parts, without (eagers calls) buf, [], refresh base P (log @ l) s), (out @ [(e, ())]) @ ticks (closes calls))"
      "mset l + mset (buffered (without (eagers calls) buf)) = mset (buffered buf)"
      "sorted (map row_epoch l)" "row_epoch ` set l \<subseteq> eagers calls" by (elim exE conjE) (rule that)
    show ?thesis
    proof (intro exI conjI)
      show "run_calls (write_eager (table_write W) local) (write_close this builder) 1
        ((parts, buf, [], refresh base P log s), out) (call # calls) =
        Inr ((parts, without (eagers (call # calls)) buf, [], refresh base P (log @ l) s), out @ ticks (closes (call # calls)))"
        using l(1) unfolding e by (simp add: run_calls_def Close c ticks_def)
    qed (use l(2-4) in \<open>simp_all only: e\<close>)
  qed
qed

text \<open>
  The worker's operator between activations: \<open>Some c\<close> is the capability it holds; at the end of input it
  has dropped it and its partitions.
\<close>

definition writer_ok :: "'p::linorder set \<Rightarrow> epoch option \<Rightarrow> ('p, 'p) btree notificator \<Rightarrow> ('p, 'v) items_inbuf \<Rightarrow> bool" where
  "writer_ok P cap nc buf \<longleftrightarrow> (case cap of
       Some c \<Rightarrow> (\<exists>parts. caps_state nc = Some ([c], parts) \<and> handles P parts) \<and> bs_wf (queue nc) \<and>
         (\<forall>e \<in> set (queue nc). c \<le> e) \<and> items_ok P c (set (queue nc)) buf
     | None \<Rightarrow> caps_state nc = None \<and> buf = [])"

lemma items_ok_after:
  assumes "items_ok P c Q buf" and "\<forall>e \<in> Q. f \<le> e \<longrightarrow> e \<in> Q'"
  shows "items_ok P f Q' (without (E \<union> {e \<in> Q. e < f}) buf)"
  using assms by (auto simp: items_ok_def get_without not_less split: if_splits) (simp add: without_def)

lemma write_activate_ok:
  assumes op: "writer_ok P (Some c) nc buf" and local: "P \<subseteq> set local"
    and msgs: "\<forall>(e, xs) \<in> set msgs. c \<le> e \<and> (\<forall>(w, p, k, v) \<in> set xs. p \<in> P)"
    and fs: "\<forall>f. simplify fs = Some f \<longrightarrow> c \<le> f"
    and fit: "room base P (mset (log @ buffered buf) + mset (arrived msgs))"
  shows "\<exists>nc' buf' l es. write_activate this builder (table_write W) local msgs [] fs (nc, buf, [], refresh base P log s) =
      Inr ((nc', buf', [], refresh base P (log @ l) s), ticks es) \<and>
    mset l + mset (buffered buf') = mset (buffered buf) + mset (arrived msgs) \<and>
    writer_ok P (simplify fs) nc' buf' \<and> (\<forall>e \<in> set es. c \<le> e) \<and>
    sorted (map row_epoch l) \<and> (\<forall>x \<in> set l. c \<le> row_epoch x \<and> (\<forall>f. simplify fs = Some f \<longrightarrow> row_epoch x \<le> f))"
proof -
  obtain parts where nc: "caps_state nc = Some ([c], parts)" "handles P parts" "bs_wf (queue nc)"
    "\<forall>e \<in> set (queue nc). c \<le> e" "items_ok P c (set (queue nc)) buf" using op by (auto simp: writer_ok_def)
  let ?q = "bs_extend (queue nc) (map fst msgs)" and ?fr = "simplify fs"
  have alive: "caps_state nc \<noteq> None" using nc(1) by simp
  from write_receive_ok [OF nc(5) alive msgs] obtain b where
    b: "efold write_buffer_step (buf, nc) msgs = Inr (b, nc\<lparr>queue := ?q\<rparr>)" "items_ok P c (set ?q) b"
      "mset (buffered b) = mset (buffered buf) + mset (arrived msgs)" by (elim exE conjE) (rule that)
  let ?nc = "nc\<lparr>queue := ?q\<rparr>" and ?calls = "schedule ?fr ?q"
  have q: "bs_wf ?q" "\<forall>e \<in> set ?q. c \<le> e" using nc(3,4) msgs by auto
  have room: "room base P (mset (log @ buffered b))" using fit by (simp add: b(3) add.assoc)
  from write_calls_ok [OF b(2) local nc(2) room sorted_schedule [OF q(1)], of this builder s "[]" ?fr] obtain l where
    l: "run_calls (write_eager (table_write W) local) (write_close this builder) 1
        ((parts, b, [], refresh base P log s), []) ?calls =
        Inr ((parts, without (eagers ?calls) b, [], refresh base P (log @ l) s), ticks (closes ?calls))"
      "mset l + mset (buffered (without (eagers ?calls) b)) = mset (buffered b)"
      "sorted (map row_epoch l)" "row_epoch ` set l \<subseteq> eagers ?calls"
    by (elim exE conjE) (rule that, simp_all)
  let ?b = "without (eagers ?calls) b" and ?nc' = "nc_after ?fr 1 ?q parts"
  have "for_each (write_eager (table_write W) local) (write_close this builder) fs ?nc (b, [], refresh base P log s) =
    emap (\<lambda>((d', b'), out). (nc_after ?fr (length [c]) (queue ?nc) d', b', out))
      (run_calls (write_eager (table_write W) local) (write_close this builder) (length [c])
        ((parts, b, [], refresh base P log s), []) (schedule ?fr (queue ?nc)))"
    by (rule for_each_calls) (use nc(1) q fs in auto)
  then have f: "for_each (write_eager (table_write W) local) (write_close this builder) fs ?nc (b, [], refresh base P log s) =
      Inr (?nc', (?b, [], refresh base P (log @ l) s), ticks (closes ?calls))" using l(1) by simp
  have "writer_ok P ?fr ?nc' ?b"
  proof (cases ?fr)
    case None
    have "eagers ?calls = set ?q" by (auto simp: eagers_schedule None)
    moreover have "fst ` set b \<subseteq> set ?q" using b(2) by (auto simp: items_ok_def bt_dom)
    ultimately have "?b = []" by (force simp: without_def filter_empty_conv)
    with None show ?thesis by (simp add: writer_ok_def nc_after_def)
  next
    case (Some f)
    have "eagers ?calls = {e. e = f \<and> e \<in> set ?q} \<union> {e \<in> set ?q. e < f}" by (auto simp: eagers_schedule Some)
    then have "items_ok P f (set (filter (\<lambda>e. \<not> e < f) ?q)) ?b"
      using items_ok_after [OF b(2), of f "set (filter (\<lambda>e. \<not> e < f) ?q)" "{e. e = f \<and> e \<in> set ?q}"] by auto
    with Some nc(2) q(1) show ?thesis by (auto simp: writer_ok_def nc_after_def)
  qed
  moreover have "\<forall>e \<in> set (closes ?calls). c \<le> e" using q(2) by (auto simp: closes_schedule)
  moreover have "write_activate this builder (table_write W) local msgs [] fs (nc, buf, [], refresh base P log s) =
      Inr ((?nc', ?b, [], refresh base P (log @ l) s), ticks (closes ?calls))"
    by (simp add: write_activate_def b(1) buffer_notify_def f)
  moreover have "c \<le> row_epoch x \<and> (\<forall>f. ?fr = Some f \<longrightarrow> row_epoch x \<le> f)" if "x \<in> set l" for x
  proof -
    have "row_epoch x \<in> eagers ?calls" using l(4) that by blast
    then show ?thesis using q(2) by (cases ?fr) (auto simp: eagers_schedule)
  qed
  ultimately show ?thesis using l(2,3) b(3) by (metis (no_types, lifting))
qed

lemma write_activate_ended:
  "writer_ok P None nc buf \<Longrightarrow> write_activate this builder (table_write W) local [] [] fs (nc, buf, [], s) = Inr ((nc, buf, [], s), [])"
  by (simp add: writer_ok_def write_activate_def buffer_notify_def for_each_def)

end

end
