(* ===== verification/Recovery_Store.thy ===== *)
theory Recovery_Store
  imports Partd_IO "HOL-Library.Product_Lexorder"
begin

text \<open>
  A recovery partition of \<^verbatim>\<open>src/src/recovery.rs\<close>: the SQLite tables with their constraints, the
  writers, the loaders and the committer. A table is the list of its rows in insertion order (the
  order of a \<^verbatim>\<open>SELECT\<close> without \<^verbatim>\<open>ORDER BY\<close> is left open by SQL; no theorem depends on it), the
  column \<^verbatim>\<open>created_at\<close> is left out, and each SQL statement is written out as the list operation it
  denotes. Step ids and state keys are strings in the code and any linearly ordered types here.
  A statement that violates a constraint fails, the \<^verbatim>\<open>unwrap\<close> panics and the transaction is rolled
  back: the result is an error and no new tables. The main results: the paginated snapshot loader
  hands out, for every batch size, exactly the latest snapshot of each key before the resume epoch,
  in order and once; writes of later epochs do not disturb it; and the garbage collection of the
  committer deletes nothing.
\<close>

section \<open>The rows\<close>

type_synonym part_index = nat
type_synonym part_count = nat
type_synonym ex_num = nat

text \<open>\<^verbatim>\<open>PartitionCount::iter\<close>\<close>

definition part_count_iter :: "part_count \<Rightarrow> part_index list" where
  "part_count_iter n = [0..<n]"

datatype partition_meta = PartitionMeta (pm_index: part_index) (pm_count: part_count)

datatype execution_meta = ExecutionMeta (em_ex: ex_num) (em_workers: nat) (em_resume: epoch)

datatype frontier_meta = FrontierMeta (fm_ex: ex_num) (fm_worker: worker) (fm_frontier: epoch)

datatype commit_meta = CommitMeta (cm_part: part_index) (cm_epoch: epoch)

datatype ('s, 'k) serialized_snapshot =
  SerializedSnapshot (ss_step: 's) (ss_key: 'k) (ss_epoch: epoch) (ss_change: "string option")

definition ss_id :: "('s, 'k) serialized_snapshot \<Rightarrow> 's \<times> 'k" where
  "ss_id r = (ss_step r, ss_key r)"

lemma ss_id_simp [simp]: "ss_id (SerializedSnapshot s k e c) = (s, k)"
  by (simp add: ss_id_def)

record ('s, 'k) recovery_part =
  parts :: "partition_meta list"
  exs :: "execution_meta list"
  fronts :: "frontier_meta list"
  commits :: "commit_meta list"
  snaps :: "('s, 'k) serialized_snapshot list"

text \<open>The tables right after the migrations of \<^verbatim>\<open>get_migrations\<close>.\<close>

definition empty_part :: "('s, 'k) recovery_part" where
  "empty_part = \<lparr>parts = [], exs = [], fronts = [], commits = [], snaps = []\<rparr>"

section \<open>The statements\<close>

abbreviation sql_error :: panic where
  "sql_error \<equiv> PanicMsg ''called `Result::unwrap()` on an `Err` value''"

text \<open>\<^verbatim>\<open>INSERT\<close> into a table with a primary key and a check.\<close>

definition insert_row :: "('r \<Rightarrow> 'p) \<Rightarrow> ('r \<Rightarrow> bool) \<Rightarrow> 'r list \<Rightarrow> 'r \<Rightarrow> 'r list res" where
  "insert_row pk chk rows r =
     emap (\<lambda>_. rows @ [r]) (eguard (chk r \<and> pk r \<notin> pk ` set rows) sql_error)"

text \<open>\<^verbatim>\<open>INSERT ... ON CONFLICT (pk) DO UPDATE\<close> of all other columns.\<close>

definition upsert_row :: "('r \<Rightarrow> 'p) \<Rightarrow> 'r list \<Rightarrow> 'r \<Rightarrow> 'r list" where
  "upsert_row pk rows r =
     (if pk r \<in> pk ` set rows then map (\<lambda>r'. if pk r' = pk r then r else r') rows else rows @ [r])"

section \<open>Writers\<close>

definition parts_pk_check :: "partition_meta \<Rightarrow> bool" where
  "parts_pk_check r \<longleftrightarrow> 0 < pm_count r \<and> pm_index r < pm_count r"

definition write_parts :: "partition_meta list \<Rightarrow> ('s, 'k) recovery_part \<Rightarrow> ('s, 'k) recovery_part res" where
  "write_parts items db =
     emap (\<lambda>rows. db\<lparr>parts := rows\<rparr>) (efold (insert_row pm_index parts_pk_check) (parts db) items)"

definition write_exs :: "execution_meta list \<Rightarrow> ('s, 'k) recovery_part \<Rightarrow> ('s, 'k) recovery_part res" where
  "write_exs items db =
     emap (\<lambda>rows. db\<lparr>exs := rows\<rparr>) (efold (insert_row em_ex (\<lambda>r. 0 < em_workers r)) (exs db) items)"

definition write_fronts :: "frontier_meta list \<Rightarrow> ('s, 'k) recovery_part \<Rightarrow> ('s, 'k) recovery_part res" where
  "write_fronts items db =
     Inr (db\<lparr>fronts := foldl (upsert_row (\<lambda>r. (fm_ex r, fm_worker r))) (fronts db) items\<rparr>)"

definition write_snaps ::
  "('s, 'k) serialized_snapshot list \<Rightarrow> ('s, 'k) recovery_part \<Rightarrow> ('s, 'k) recovery_part res" where
  "write_snaps items db =
     Inr (db\<lparr>snaps := foldl (upsert_row (\<lambda>r. (ss_id r, ss_epoch r))) (snaps db) items\<rparr>)"

definition write_commits :: "commit_meta list \<Rightarrow> ('s, 'k) recovery_part \<Rightarrow> ('s, 'k) recovery_part res" where
  "write_commits items db =
     emap (\<lambda>rows. db\<lparr>commits := rows\<rparr>) (efold (insert_row cm_part (\<lambda>_. True)) (commits db) items)"

section \<open>Loaders\<close>

text \<open>The four small tables are read in one batch; the state of a loader is its flag \<^verbatim>\<open>done\<close>.\<close>

definition part_loader_next :: "('s, 'k) recovery_part \<Rightarrow> bool \<Rightarrow> bool \<times> partition_meta list option" where
  "part_loader_next db done = (if \<not> done then (True, Some (parts db)) else (done, None))"

definition ex_loader_next :: "('s, 'k) recovery_part \<Rightarrow> bool \<Rightarrow> bool \<times> execution_meta list option" where
  "ex_loader_next db done = (if \<not> done then (True, Some (exs db)) else (done, None))"

definition front_loader_next :: "('s, 'k) recovery_part \<Rightarrow> bool \<Rightarrow> bool \<times> frontier_meta list option" where
  "front_loader_next db done = (if \<not> done then (True, Some (fronts db)) else (done, None))"

definition commit_loader_next :: "('s, 'k) recovery_part \<Rightarrow> bool \<Rightarrow> bool \<times> commit_meta list option" where
  "commit_loader_next db done = (if \<not> done then (True, Some (commits db)) else (done, None))"

text \<open>The snapshot loader pages through its result with a cursor.\<close>

datatype 'a cursor = Uninit | InProgress 'a | Done

record ('s, 'k) snap_loader =
  before :: epoch
  batch_size :: nat
  cursor :: "('s \<times> 'k) cursor"

definition snap_loader_new :: "epoch \<Rightarrow> nat \<Rightarrow> ('s, 'k) snap_loader" where
  "snap_loader_new b n = \<lparr>before = b, batch_size = n, cursor = Uninit\<rparr>"

text \<open>\<^verbatim>\<open>RecoveryPart::snap_loader\<close>\<close>

definition part_snap_loader :: "epoch \<Rightarrow> ('s, 'k) snap_loader" where
  "part_snap_loader b = snap_loader_new b 1000"

text \<open>The common table expression \<^verbatim>\<open>max_epoch_snaps\<close>: one row per step and key.\<close>

definition max_epoch_snaps ::
  "epoch \<Rightarrow> ('s, 'k) serialized_snapshot list \<Rightarrow> (('s \<times> 'k) \<times> epoch) list" where
  "max_epoch_snaps b rows =
     (let old = filter (\<lambda>r. ss_epoch r < b) rows
      in map (\<lambda>i. (i, Max (set (map ss_epoch (filter (\<lambda>r. ss_id r = i) old))))) (remdups (map ss_id old)))"

definition select_snaps ::
  "('s::linorder, 'k::linorder) recovery_part \<Rightarrow> ('s, 'k) snap_loader \<Rightarrow> ('s \<times> 'k) option \<Rightarrow>
    ('s, 'k) serialized_snapshot list \<times> ('s \<times> 'k) cursor" where
  "select_snaps db l c =
     (let joined = filter (\<lambda>r. (ss_id r, ss_epoch r) \<in> set (max_epoch_snaps (before l) (snaps db))) (snaps db);
          wanted = filter (\<lambda>r. case c of None \<Rightarrow> True | Some i \<Rightarrow> i < ss_id r) joined;
          batch = take (batch_size l) (sort_key ss_id wanted)
      in (batch, if batch = [] then Done else InProgress (ss_id (last batch))))"

definition snap_loader_next ::
  "('s::linorder, 'k::linorder) recovery_part \<Rightarrow> ('s, 'k) snap_loader \<Rightarrow>
    ('s, 'k) snap_loader \<times> ('s, 'k) serialized_snapshot list option" where
  "snap_loader_next db l = (case cursor l of
       Uninit \<Rightarrow> (case select_snaps db l None of (batch, c) \<Rightarrow> (l\<lparr>cursor := c\<rparr>, Some batch))
     | InProgress i \<Rightarrow> (case select_snaps db l (Some i) of (batch, c) \<Rightarrow> (l\<lparr>cursor := c\<rparr>, Some batch))
     | Done \<Rightarrow> (l, None))"

section \<open>The committer\<close>

text \<open>
  The subquery of the \<^verbatim>\<open>DELETE\<close> does not mention the row to be deleted: it asks whether any row of
  \<^verbatim>\<open>snaps\<close> joins \<^verbatim>\<open>max_epoch_snapshots\<close> at all.
\<close>

definition committer_commit :: "part_index \<Rightarrow> ('s, 'k) recovery_part \<Rightarrow> epoch \<Rightarrow> ('s, 'k) recovery_part res" where
  "committer_commit part_key db e =
     (let maxes = max_epoch_snaps e (snaps db);
          some_row = (\<exists>r \<in> set (snaps db). (ss_id r, ss_epoch r) \<in> set maxes)
      in Inr (db\<lparr>commits := upsert_row cm_part (commits db) (CommitMeta part_key e),
                 snaps := filter (\<lambda>r. \<not> (ss_epoch r < e \<and> \<not> some_row)) (snaps db)\<rparr>))"

section \<open>Rows and keys\<close>

lemma upsert_set:
  "set (upsert_row pk rows r) = insert r {x \<in> set rows. pk x \<noteq> pk r}"
proof (cases "pk r \<in> pk ` set rows")
  case True
  then show ?thesis by (auto simp: upsert_row_def)
next
  case False
  then have "pk x \<noteq> pk r" if "x \<in> set rows" for x using that by (metis imageI)
  with False show ?thesis by (auto simp: upsert_row_def)
qed

lemma upsert_distinct:
  assumes "distinct (map pk rows)"
  shows "distinct (map pk (upsert_row pk rows r))"
proof -
  have "map pk (map (\<lambda>r'. if pk r' = pk r then r else r') rows) = map pk rows"
    by (induction rows) auto
  with assms show ?thesis unfolding upsert_row_def by (simp del: map_map)
qed

lemma upserts_distinct: "distinct (map pk rows) \<Longrightarrow> distinct (map pk (foldl (upsert_row pk) rows items))"
  by (induction items arbitrary: rows) (auto intro: upsert_distinct)

text \<open>After a sequence of upserts, a key has its last row.\<close>

lemma upserts_lookup:
  "r \<in> set (foldl (upsert_row pk) rows items) \<longleftrightarrow>
    (if pk r \<in> pk ` set items then Some r = List.find (\<lambda>x. pk x = pk r) (rev items) else r \<in> set rows)"
proof (induction items arbitrary: rows rule: rev_induct)
  case Nil
  then show ?case by simp
next
  case (snoc x items)
  show ?case by (cases "pk x = pk r") (auto simp: upsert_set snoc)
qed

lemma insert_row_Inr: "insert_row pk chk rows r = Inr rows' \<longleftrightarrow>
    chk r \<and> pk r \<notin> pk ` set rows \<and> rows' = rows @ [r]"
  by (auto simp: insert_row_def eguard_def)

lemma insert_rows:
  "distinct (map pk (rows @ items)) \<Longrightarrow> \<forall>r \<in> set items. chk r \<Longrightarrow>
    efold (insert_row pk chk) rows items = Inr (rows @ items)"
proof (induction items arbitrary: rows)
  case Nil
  then show ?case by simp
next
  case (Cons r items)
  from Cons.prems have "insert_row pk chk rows r = Inr (rows @ [r])"
    by (auto simp: insert_row_Inr)
  with Cons.IH [of "rows @ [r]"] Cons.prems show ?case by simp
qed

lemma insert_rows_distinct:
  "efold (insert_row pk chk) rows items = Inr rows' \<Longrightarrow> distinct (map pk rows) \<Longrightarrow> distinct (map pk rows')"
  by (induction items arbitrary: rows) (auto elim!: ebind_InrE simp: insert_row_Inr)

section \<open>The latest snapshots\<close>

definition latest :: "epoch \<Rightarrow> ('s, 'k) serialized_snapshot list \<Rightarrow> ('s, 'k) serialized_snapshot \<Rightarrow> bool" where
  "latest b rows r \<longleftrightarrow> ss_epoch r < b \<and>
     list_all (\<lambda>r'. ss_id r' = ss_id r \<and> ss_epoch r' < b \<longrightarrow> ss_epoch r' \<le> ss_epoch r) rows"

definition latest_snaps :: "epoch \<Rightarrow> ('s, 'k) serialized_snapshot list \<Rightarrow> ('s, 'k) serialized_snapshot list" where
  "latest_snaps b rows = filter (latest b rows) rows"

definition snaps_wf :: "('s, 'k) recovery_part \<Rightarrow> bool" where
  "snaps_wf db \<longleftrightarrow> distinct (map (\<lambda>r. (ss_id r, ss_epoch r)) (snaps db))"

lemma mem_max_epoch_snaps:
  "(i, e) \<in> set (max_epoch_snaps b rows) \<longleftrightarrow> (\<exists>r' \<in> set rows. ss_epoch r' < b \<and> ss_id r' = i) \<and>
     e = Max (set (map ss_epoch (filter (\<lambda>r'. ss_id r' = i) (filter (\<lambda>r. ss_epoch r < b) rows))))"
proof -
  have graph: "(i, e) \<in> (\<lambda>x. (x, F x)) ` A \<longleftrightarrow> i \<in> A \<and> e = F i"
    for A :: "('a \<times> 'b) set" and F :: "'a \<times> 'b \<Rightarrow> epoch" by auto
  show ?thesis unfolding max_epoch_snaps_def Let_def set_map [of _ "remdups _"] graph by auto
qed

lemma max_epoch_snaps_iff:
  assumes "r \<in> set rows"
  shows "(ss_id r, ss_epoch r) \<in> set (max_epoch_snaps b rows) \<longleftrightarrow> latest b rows r"
proof -
  let ?E = "{ss_epoch r' | r'. r' \<in> set rows \<and> ss_epoch r' < b \<and> ss_id r' = ss_id r}"
  have E: "set (map ss_epoch (filter (\<lambda>r'. ss_id r' = ss_id r) (filter (\<lambda>r. ss_epoch r < b) rows))) = ?E"
    by auto
  have fin: "finite ?E" by (simp flip: E)
  have "(ss_id r, ss_epoch r) \<in> set (max_epoch_snaps b rows) \<longleftrightarrow>
      (\<exists>r' \<in> set rows. ss_epoch r' < b \<and> ss_id r' = ss_id r) \<and> ss_epoch r = Max ?E"
    unfolding mem_max_epoch_snaps E by auto
  also have "\<dots> \<longleftrightarrow> latest b rows r"
  proof
    assume l: "(\<exists>r' \<in> set rows. ss_epoch r' < b \<and> ss_id r' = ss_id r) \<and> ss_epoch r = Max ?E"
    then have "?E \<noteq> {}" by auto
    with Max_in [OF fin] l have "ss_epoch r \<in> ?E" by simp
    moreover have "ss_epoch r' \<le> ss_epoch r" if "r' \<in> set rows" "ss_epoch r' < b" "ss_id r' = ss_id r" for r'
    proof -
      have "ss_epoch r' \<in> ?E" using that by auto
      from Max_ge [OF fin this] l show ?thesis by simp
    qed
    ultimately show "latest b rows r" by (auto simp: latest_def list_all_iff)
  next
    assume l: "latest b rows r"
    then have "ss_epoch r \<in> ?E" using assms by (auto simp: latest_def)
    moreover have "e \<le> ss_epoch r" if "e \<in> ?E" for e using that l by (auto simp: latest_def list_all_iff)
    ultimately have "Max ?E = ss_epoch r" by (rule Max_eqI [OF fin, rotated])
    with l assms show "(\<exists>r' \<in> set rows. ss_epoch r' < b \<and> ss_id r' = ss_id r) \<and> ss_epoch r = Max ?E"
      by (auto simp: latest_def)
  qed
  finally show ?thesis .
qed

lemma joined_latest:
  "filter (\<lambda>r. (ss_id r, ss_epoch r) \<in> set (max_epoch_snaps b rows)) rows = latest_snaps b rows"
  unfolding latest_snaps_def by (rule filter_cong) (simp_all add: max_epoch_snaps_iff)

lemma latest_unique:
  assumes "distinct (map (\<lambda>r. (ss_id r, ss_epoch r)) rows)"
  shows "distinct (map ss_id (latest_snaps b rows))"
proof -
  have "inj_on ss_id (set (latest_snaps b rows))"
  proof (rule inj_onI)
    fix x y assume x: "x \<in> set (latest_snaps b rows)" and y: "y \<in> set (latest_snaps b rows)" and "ss_id x = ss_id y"
    then have "ss_epoch x = ss_epoch y" by (auto simp: latest_snaps_def latest_def list_all_iff intro: order_antisym)
    with \<open>ss_id x = ss_id y\<close> x y assms show "x = y"
      by (auto simp: latest_snaps_def distinct_map inj_on_def)
  qed
  moreover have "distinct (latest_snaps b rows)"
    using assms by (auto simp: latest_snaps_def distinct_map)
  ultimately show ?thesis by (simp add: distinct_map)
qed

text \<open>The result the loader pages through.\<close>

abbreviation snap_result where
  "snap_result b rows \<equiv> sort_key ss_id (latest_snaps b rows)"

lemma snap_result_sorted:
  "snaps_wf db \<Longrightarrow> sorted_wrt (<) (map ss_id (snap_result b (snaps db)))"
proof -
  assume "snaps_wf db"
  then have "distinct (map ss_id (latest_snaps b (snaps db)))" by (intro latest_unique) (simp add: snaps_wf_def)
  then have "distinct (map ss_id (snap_result b (snaps db)))"
    by (simp add: distinct_map)
  then show ?thesis unfolding strict_sorted_iff by simp
qed

lemma after_last:
  fixes f :: "'a \<Rightarrow> 'b::linorder"
  assumes "sorted_wrt (<) (map f xs)" and "take n xs \<noteq> []"
  shows "filter (\<lambda>x. f (last (take n xs)) < f x) xs = drop n xs"
proof -
  have s: "sorted_wrt (<) (map f (take n xs @ drop n xs))" using assms(1) by simp
  then have t: "sorted_wrt (<) (map f (take n xs))" and lt: "\<forall>x \<in> set (take n xs). \<forall>y \<in> set (drop n xs). f x < f y"
    unfolding map_append sorted_wrt_append by auto
  let ?l = "last (take n xs)"
  have "\<not> f ?l < f x" if "x \<in> set (take n xs)" for x
  proof -
    have split: "take n xs = butlast (take n xs) @ [?l]" using assms(2) by simp
    have "x = ?l \<or> x \<in> set (butlast (take n xs))" using that by (subst (asm) split) auto
    moreover have "f x < f ?l" if "x \<in> set (butlast (take n xs))"
      using t that by (subst (asm) split) (simp add: sorted_wrt_append)
    ultimately show ?thesis by auto
  qed
  then have "filter (\<lambda>x. f ?l < f x) (take n xs) = []" by (auto simp: filter_empty_conv)
  moreover have "filter (\<lambda>x. f ?l < f x) (drop n xs) = drop n xs"
    using lt last_in_set [OF assms(2)] by (auto simp: filter_id_conv)
  moreover have "filter (\<lambda>x. f ?l < f x) xs =
      filter (\<lambda>x. f ?l < f x) (take n xs) @ filter (\<lambda>x. f ?l < f x) (drop n xs)"
    by (metis append_take_drop_id filter_append)
  ultimately show ?thesis by simp
qed

section \<open>The loaders keep the contract\<close>

text \<open>A loader with its connection.\<close>

definition with_conn :: "('db \<Rightarrow> 'l \<Rightarrow> 'l \<times> 'b option) \<Rightarrow> 'db \<times> 'l \<Rightarrow> (('db \<times> 'l) \<times> 'b option) res" where
  "with_conn next = (\<lambda>(db, l). case next db l of (l', b) \<Rightarrow> Inr ((db, l'), b))"

definition snap_remaining where
  "snap_remaining = (\<lambda>(db, l). case cursor l of
       Uninit \<Rightarrow> snap_result (before l) (snaps db)
     | InProgress i \<Rightarrow> filter (\<lambda>r. i < ss_id r) (snap_result (before l) (snaps db))
     | Done \<Rightarrow> [])"

definition snap_left where
  "snap_left = (\<lambda>(db, l). case cursor l of
       Uninit \<Rightarrow> length (snap_result (before l) (snaps db)) + 2
     | InProgress i \<Rightarrow> length (filter (\<lambda>r. i < ss_id r) (snap_result (before l) (snaps db))) + 1
     | Done \<Rightarrow> 0)"

definition snap_ok where
  "snap_ok = (\<lambda>(db, l). snaps_wf db \<and> 0 < batch_size l)"

lemma select_page:
  fixes db :: "('s::linorder, 'k::linorder) recovery_part"
  assumes "snaps_wf db" and "0 < batch_size l"
    and rest_def: "rest = filter (\<lambda>r. case c of None \<Rightarrow> True | Some i \<Rightarrow> i < ss_id r) (snap_result (before l) (snaps db))"
  shows "select_snaps db l c = (take (batch_size l) rest,
      if rest = [] then Done else InProgress (ss_id (last (take (batch_size l) rest))))"
    and "rest \<noteq> [] \<Longrightarrow> filter (\<lambda>r. ss_id (last (take (batch_size l) rest)) < ss_id r)
      (snap_result (before l) (snaps db)) = drop (batch_size l) rest"
proof -
  show "select_snaps db l c = (take (batch_size l) rest,
      if rest = [] then Done else InProgress (ss_id (last (take (batch_size l) rest))))"
    using assms(2) by (auto simp: select_snaps_def Let_def joined_latest rest_def filter_sort)
  assume ne: "rest \<noteq> []"
  let ?last = "last (take (batch_size l) rest)"
  have tk: "take (batch_size l) rest \<noteq> []" using ne assms(2) by simp
  have srt: "sorted_wrt (<) (map ss_id rest)"
    using snap_result_sorted [OF assms(1), of "before l"] unfolding rest_def
    by (simp add: sorted_wrt_map sorted_wrt_filter)
  have "?last \<in> set rest" by (rule in_set_takeD [OF last_in_set [OF tk]])
  then have "filter (\<lambda>r. ss_id ?last < ss_id r) (snap_result (before l) (snaps db)) =
      filter (\<lambda>r. ss_id ?last < ss_id r) rest"
    by (auto simp: rest_def intro!: filter_cong split: option.splits)
  also have "\<dots> = drop (batch_size l) rest" by (rule after_last [OF srt tk])
  finally show "filter (\<lambda>r. ss_id ?last < ss_id r) (snap_result (before l) (snaps db)) = drop (batch_size l) rest" .
qed

lemma snap_next_ok:
  assumes "snap_ok (db, l)"
  shows "\<exists>dl b. with_conn snap_loader_next (db, l) = Inr (dl, b) \<and> (case b of
      None \<Rightarrow> snap_remaining (db, l) = []
    | Some items \<Rightarrow> snap_ok dl \<and> snap_remaining (db, l) = items @ snap_remaining dl \<and> snap_left dl < snap_left (db, l))"
proof -
  let ?L = "snap_result (before l) (snaps db)" and ?n = "batch_size l"
  have wf: "snaps_wf db" and n: "0 < ?n" using assms by (simp_all add: snap_ok_def)
  have page: ?thesis if c: "cursor l = (case co of None \<Rightarrow> Uninit | Some i \<Rightarrow> InProgress i)" for co
  proof -
    let ?rest = "filter (\<lambda>r. case co of None \<Rightarrow> True | Some i \<Rightarrow> i < ss_id r) ?L"
    have rem: "snap_remaining (db, l) = ?rest" and left: "length ?rest < snap_left (db, l)"
      using c by (auto simp: snap_remaining_def snap_left_def split: option.splits)
    have nxt: "snap_loader_next db l = (case select_snaps db l co of (batch, c) \<Rightarrow> (l\<lparr>cursor := c\<rparr>, Some batch))"
      using c by (cases co) (simp_all add: snap_loader_next_def)
    note sel = select_page [OF wf n refl, of co]
    show ?thesis
    proof (cases "?rest = []")
      case True
      with sel(1) have "with_conn snap_loader_next (db, l) = Inr ((db, l\<lparr>cursor := Done\<rparr>), Some [])"
        by (simp add: with_conn_def nxt)
      moreover have "snap_remaining (db, l\<lparr>cursor := Done\<rparr>) = []" "snap_left (db, l\<lparr>cursor := Done\<rparr>) = 0"
        by (simp_all add: snap_remaining_def snap_left_def)
      ultimately show ?thesis using rem left True wf n by (simp add: snap_ok_def)
    next
      case False
      let ?l = "l\<lparr>cursor := InProgress (ss_id (last (take ?n ?rest)))\<rparr>"
      from False sel(1) have "with_conn snap_loader_next (db, l) = Inr ((db, ?l), Some (take ?n ?rest))"
        by (simp add: with_conn_def nxt)
      moreover have r: "snap_remaining (db, ?l) = drop ?n ?rest" and "snap_left (db, ?l) = length (drop ?n ?rest) + 1"
        using sel(2) [OF False] by (simp_all add: snap_remaining_def snap_left_def)
      moreover have "length (drop ?n ?rest) + 1 \<le> length ?rest" using False n
        by (cases ?rest) simp_all
      ultimately show ?thesis using rem left wf n by (simp add: snap_ok_def)
    qed
  qed
  show ?thesis
  proof (cases "cursor l")
    case Uninit
    then show ?thesis using page [of None] by simp
  next
    case (InProgress i)
    then show ?thesis using page [of "Some i"] by simp
  next
    case Done
    then show ?thesis by (simp add: with_conn_def snap_loader_next_def snap_remaining_def)
  qed
qed

interpretation snap_loading: batch_iterator "with_conn snap_loader_next" snap_ok snap_remaining snap_left
  by unfold_locales (metis snap_next_ok surj_pair)

text \<open>The four loaders of small tables.\<close>

definition table_remaining where
  "table_remaining tbl = (\<lambda>(db, done). if done then [] else tbl db)"

definition table_left where
  "table_left = (\<lambda>(_, done). if done then 0 else 1 :: nat)"

lemma table_contract:
  assumes "\<And>db done. next db done = (if \<not> done then (True, Some (tbl db)) else (done, None))"
  shows "batch_iterator (with_conn next) (\<lambda>_. True) (table_remaining tbl) table_left"
  by unfold_locales (auto simp: with_conn_def assms table_remaining_def table_left_def)

interpretation part_loading: batch_iterator "with_conn part_loader_next" "\<lambda>_. True" "table_remaining parts" table_left
  by (rule table_contract) (simp add: part_loader_next_def)

interpretation ex_loading: batch_iterator "with_conn ex_loader_next" "\<lambda>_. True" "table_remaining exs" table_left
  by (rule table_contract) (simp add: ex_loader_next_def)

interpretation front_loading: batch_iterator "with_conn front_loader_next" "\<lambda>_. True" "table_remaining fronts" table_left
  by (rule table_contract) (simp add: front_loader_next_def)

interpretation commit_loading: batch_iterator "with_conn commit_loader_next" "\<lambda>_. True" "table_remaining commits" table_left
  by (rule table_contract) (simp add: commit_loader_next_def)

section \<open>Properties\<close>

text \<open>Claim C13. Pagination loses and repeats nothing: for every batch size, reading the snapshot
  loader to its end returns, and the batches put together are the latest snapshot of each step and
  key from before the resume epoch, each exactly once, in increasing order of step and key.\<close>

theorem snapshot_pages:
  assumes "snaps_wf db" and "0 < n" and "length (snaps db) + 2 < fuel"
  shows "\<exists>bs. read_batches (with_conn snap_loader_next) fuel (db, snap_loader_new b n) = Some (Inr bs) \<and>
    sorted_wrt (<) (map ss_id (concat bs)) \<and>
    set (concat bs) = {r \<in> set (snaps db). ss_epoch r < b \<and>
      \<not> (\<exists>r' \<in> set (snaps db). ss_id r' = ss_id r \<and> ss_epoch r < ss_epoch r' \<and> ss_epoch r' < b)}"
proof -
  let ?l = "(db, snap_loader_new b n)"
  have ok: "snap_ok ?l" using assms(1,2) by (simp add: snap_ok_def snap_loader_new_def)
  have "length (latest_snaps b (snaps db)) \<le> length (snaps db)"
    by (simp add: latest_snaps_def)
  then have "snap_left ?l < fuel" using assms(3) by (simp add: snap_left_def snap_loader_new_def)
  from snap_loading.read_to_end [OF ok this] obtain bs where
    bs: "read_batches (with_conn snap_loader_next) fuel ?l = Some (Inr bs)"
      "concat bs = snap_result b (snaps db)"
    by (auto simp: snap_remaining_def snap_loader_new_def)
  have "set (snap_result b (snaps db)) = {r \<in> set (snaps db). ss_epoch r < b \<and>
      \<not> (\<exists>r' \<in> set (snaps db). ss_id r' = ss_id r \<and> ss_epoch r < ss_epoch r' \<and> ss_epoch r' < b)}"
    by (auto simp: latest_snaps_def latest_def list_all_iff not_le)
  with bs(1) snap_result_sorted [OF assms(1), of b] show ?thesis unfolding bs(2) [symmetric] by blast
qed

theorem snapshot_pages_witness:
  "\<exists>bs. read_batches (with_conn snap_loader_next) 9
        (empty_part\<lparr>snaps := [SerializedSnapshot (1 :: nat) (2 :: nat) 3 None, SerializedSnapshot 1 2 5 None]\<rparr>,
          snap_loader_new 4 1) = Some (Inr bs) \<and>
    sorted_wrt (<) (map ss_id (concat bs)) \<and>
    set (concat bs) = {r \<in> set [SerializedSnapshot 1 2 3 None, SerializedSnapshot 1 2 5 None]. ss_epoch r < 4 \<and>
      \<not> (\<exists>r' \<in> set [SerializedSnapshot 1 2 3 None, SerializedSnapshot 1 2 5 None].
          ss_id r' = ss_id r \<and> ss_epoch r < ss_epoch r' \<and> ss_epoch r' < 4)}"
  using snapshot_pages [of "empty_part\<lparr>snaps := [SerializedSnapshot (1 :: nat) (2 :: nat) 3 None,
      SerializedSnapshot 1 2 5 None]\<rparr>" 1 9 4]
  by (simp add: snaps_wf_def)

text \<open>Claim C23. On resume, every worker loads the latest state of exactly the partitions it is
  primary for: with any heap order, once its queue is filled from the assigned primaries, enough
  activations of \<^verbatim>\<open>partd_load\<close> empty the queue and emit each latest snapshot of those partitions
  exactly once at the load epoch.\<close>

theorem snapshots_loaded_once:
  assumes "peeks_greatest peek"
    and "\<forall>(p, w) \<in> set primaries. w = this \<longrightarrow> p \<in> set local_parts \<and> snaps_wf (db p)"
  shows "\<exists>q N. load_enqueue this local_parts (\<lambda>p. Inr (db p, part_snap_loader b)) [] (e, primaries) = Inr q \<and>
    (\<forall>n \<ge> N. \<exists>out. load_reads peek (with_conn snap_loader_next) n q = Inr ([], out) \<and>
      mset out = mset (map (Pair e) (concat (map (\<lambda>(p, _). latest_snaps b (snaps (db p)))
        (filter (\<lambda>(_, w). w = this) primaries)))))"
proof -
  let ?mine = "filter (\<lambda>(_, w). w = this) primaries"
  let ?q = "map (\<lambda>(p, _). \<lparr>le_cap = e, le_key = p, le_part = (db p, part_snap_loader b)\<rparr>) ?mine"
  have q: "load_enqueue this local_parts (\<lambda>p. Inr (db p, part_snap_loader b)) [] (e, primaries) = Inr ?q"
    using enqueue_mine [where b = "\<lambda>p. (db p, part_snap_loader b)" and q = "[]"] assms(2) by fastforce
  have ok: "\<forall>x \<in> set ?q. snap_ok (le_part x)"
    using assms(2) by (auto simp: snap_ok_def part_snap_loader_def snap_loader_new_def)
  have items: "mset (concat (map snap_loading.entry_items ?q)) =
      mset (map (Pair e) (concat (map (\<lambda>(p, _). latest_snaps b (snaps (db p))) ?mine)))"
  proof (induction primaries)
    case (Cons x xs)
    have "snap_loading.entry_items \<lparr>le_cap = e, le_key = p, le_part = (db p, part_snap_loader b)\<rparr> =
        map (Pair e) (snap_result b (snaps (db p)))" for p :: 'a
      unfolding snap_loading.entry_items_def
      by (simp add: snap_remaining_def part_snap_loader_def snap_loader_new_def)
    with Cons show ?case by (cases x) (simp flip: image_mset_union)
  qed simp
  have "\<exists>out. load_reads peek (with_conn snap_loader_next) n ?q = Inr ([], out) \<and>
      mset out = mset (map (Pair e) (concat (map (\<lambda>(p, _). latest_snaps b (snaps (db p))) ?mine)))"
    if "snap_loading.work ?q \<le> n" for n
    using snap_loading.reads_all [OF assms(1) ok that] unfolding items .
  with q show ?thesis by (intro exI [of _ ?q] exI [of _ "snap_loading.work ?q"]) simp
qed

theorem snapshots_loaded_once_witness:
  "\<exists>q N. load_enqueue 0 [3, 4] (\<lambda>p :: nat. Inr (empty_part\<lparr>snaps := [SerializedSnapshot (1 :: nat) p 3 None]\<rparr>,
         part_snap_loader 5)) [] (0, [(3, 0), (4, 1)]) = Inr q \<and>
    (\<forall>n \<ge> N. \<exists>out. load_reads greatest_at (with_conn snap_loader_next) n q = Inr ([], out) \<and>
      mset out = {# (0, SerializedSnapshot 1 3 3 None) #})"
proof -
  have "\<forall>(p, w) \<in> set [(3 :: nat, 0 :: worker), (4, 1)]. w = 0 \<longrightarrow> p \<in> set [3, 4] \<and>
      snaps_wf (empty_part\<lparr>snaps := [SerializedSnapshot (1 :: nat) p 3 None]\<rparr>)"
    by (simp add: snaps_wf_def)
  from snapshots_loaded_once [OF peeks_greatest_at this, of 5 0] show ?thesis
    by (simp add: latest_snaps_def latest_def)
qed

lemma latest_snaps_upsert:
  assumes "b \<le> ss_epoch x"
  shows "filter (\<lambda>r. ss_epoch r < b) (upsert_row (\<lambda>r. (ss_id r, ss_epoch r)) rows x) =
    filter (\<lambda>r. ss_epoch r < b) rows"
proof -
  have "filter (\<lambda>r. ss_epoch r < b) (map (\<lambda>r'. if ss_id r' = ss_id x \<and> ss_epoch r' = ss_epoch x then x else r') rows) =
      filter (\<lambda>r. ss_epoch r < b) rows"
    using assms by (induction rows) auto
  with assms show ?thesis by (simp add: upsert_row_def)
qed

lemma latest_snaps_upserts:
  "\<forall>x \<in> set items. b \<le> ss_epoch x \<Longrightarrow>
    filter (\<lambda>r. ss_epoch r < b) (foldl (upsert_row (\<lambda>r. (ss_id r, ss_epoch r))) rows items) =
    filter (\<lambda>r. ss_epoch r < b) rows"
  by (induction items arbitrary: rows) (simp_all add: latest_snaps_upsert)

lemma latest_snaps_old: "latest_snaps b rows = latest_snaps b (filter (\<lambda>r. ss_epoch r < b) rows)"
proof -
  have "latest_snaps b (filter (\<lambda>r. ss_epoch r < b) rows) =
      filter (latest b (filter (\<lambda>r. ss_epoch r < b) rows)) rows"
    by (auto simp: latest_snaps_def latest_def intro!: filter_cong)
  also have "\<dots> = latest_snaps b rows"
    unfolding latest_snaps_def by (rule filter_cong) (auto simp: latest_def list_all_iff)
  finally show ?thesis by simp
qed

text \<open>Snapshots written by the resumed execution do not disturb the loading of the old
  ones: a batch of snapshots of the resume epoch or later leaves every page of the snapshot loader,
  at every cursor, as it was, and keeps the primary key of the table.\<close>

theorem late_writes_invisible:
  assumes "\<forall>x \<in> set items. b \<le> ss_epoch x" and "before l = b" and "snaps_wf db"
  shows "\<exists>db'. write_snaps items db = Inr db' \<and> select_snaps db' l c = select_snaps db l c \<and> snaps_wf db'"
proof -
  let ?rows = "foldl (upsert_row (\<lambda>r. (ss_id r, ss_epoch r))) (snaps db) items"
  have "latest_snaps b ?rows = latest_snaps b (snaps db)"
    unfolding latest_snaps_old [of b ?rows] latest_snaps_upserts [OF assms(1)] latest_snaps_old [of b "snaps db"] ..
  then have "select_snaps (db\<lparr>snaps := ?rows\<rparr>) l c = select_snaps db l c"
    by (simp add: select_snaps_def joined_latest assms(2))
  moreover have "snaps_wf (db\<lparr>snaps := ?rows\<rparr>)"
    using upserts_distinct [of "\<lambda>r. (ss_id r, ss_epoch r)" "snaps db" items] assms(3) by (simp add: snaps_wf_def)
  ultimately show ?thesis by (simp add: write_snaps_def)
qed

theorem late_writes_invisible_witness:
  "\<exists>db'. write_snaps [SerializedSnapshot (1 :: nat) (2 :: nat) 7 None]
        (empty_part\<lparr>snaps := [SerializedSnapshot 1 2 3 (Some ''a'')]\<rparr>) = Inr db' \<and>
     select_snaps db' (snap_loader_new 5 1) None =
       select_snaps (empty_part\<lparr>snaps := [SerializedSnapshot 1 2 3 (Some ''a'')]\<rparr>) (snap_loader_new 5 1) None \<and>
     snaps_wf db'"
  by (rule late_writes_invisible) (simp_all add: snap_loader_new_def snaps_wf_def)

lemma committer_commit_keeps:
  "committer_commit part_key db e =
    Inr (db\<lparr>commits := upsert_row cm_part (commits db) (CommitMeta part_key e)\<rparr>)"
proof -
  have "\<exists>r' \<in> set (snaps db). (ss_id r', ss_epoch r') \<in> set (max_epoch_snaps e (snaps db))"
    if r: "r \<in> set (snaps db)" "ss_epoch r < e" for r
  proof -
    let ?E = "set (map ss_epoch (filter (\<lambda>r'. ss_id r' = ss_id r) (filter (\<lambda>r. ss_epoch r < e) (snaps db))))"
    have "Max ?E \<in> ?E" by (rule Max_in) (use r in auto)
    then obtain r' where "r' \<in> set (snaps db)" "ss_id r' = ss_id r" "ss_epoch r' = Max ?E" by auto
    then have "(ss_id r', ss_epoch r') \<in> set (max_epoch_snaps e (snaps db))"
      using r by (auto simp: mem_max_epoch_snaps)
    with \<open>r' \<in> set (snaps db)\<close> show ?thesis by blast
  qed
  then have "filter (\<lambda>r. \<not> (ss_epoch r < e \<and>
      \<not> (\<exists>r' \<in> set (snaps db). (ss_id r', ss_epoch r') \<in> set (max_epoch_snaps e (snaps db))))) (snaps db) = snaps db"
    by (auto simp: filter_id_conv)
  then show ?thesis by (simp add: committer_commit_def Let_def)
qed

text \<open>Claim C39. Garbage collection never deletes anything: whatever the tables hold, committing an
  epoch records the commit and leaves all snapshots in place, because the subquery of the
  \<^verbatim>\<open>DELETE\<close> is not about the row to be deleted and holds as soon as there is an old snapshot.\<close>

theorem gc_never_deletes:
  "committer_commit part_key db e =
    Inr (db\<lparr>commits := upsert_row cm_part (commits db) (CommitMeta part_key e)\<rparr>)"
  by (rule committer_commit_keeps)

end
