(* ===== verification/Resume.thy ===== *)
theory Resume
  imports Recovery_Store
begin

text \<open>
  Where to resume: \<^verbatim>\<open>RecoveryPart::resume_from\<close> of \<^verbatim>\<open>src/src/recovery.rs\<close>, which calculates from
  the progress tables of all partitions the next execution number and the epoch to resume at, and
  the creation and discovery of partitions, \<^verbatim>\<open>init_db_dir\<close>, \<^verbatim>\<open>RecoveryConfig::build\<close> and
  \<^verbatim>\<open>RecoveryBundle\<close>. The main results: the exact condition of each error; the value as the least
  progress of a worker of the last execution; and that freshly created partitions resume at the
  default.
\<close>

section \<open>\<^verbatim>\<open>resume_from\<close>\<close>

datatype resume_from = ResumeFrom (rf_ex: ex_num) (rf_epoch: epoch)

definition resume_default :: resume_from where
  "resume_default = ResumeFrom 0 1"

text \<open>The exceptions, with the partitions their messages name.\<close>

datatype resume_error =
    NoPartitionsError
  | InconsistentCountsError
  | MissingPartitionsError "part_index list" part_count
  | InconsistentPartitionsError "part_index list" part_count

text \<open>The common table expressions of the query.\<close>

definition max_ex :: "execution_meta list \<Rightarrow> execution_meta list" where
  "max_ex es = (if es = [] then [] else filter (\<lambda>x. em_ex x = Max (set (map em_ex es))) es)"

definition default_progress :: "execution_meta list \<Rightarrow> (ex_num \<times> worker \<times> epoch) list" where
  "default_progress es = (case max_ex es of
       [] \<Rightarrow> []
     | m # ms \<Rightarrow> concat (map (\<lambda>w. map (\<lambda>x. (em_ex x, w, em_resume x)) (m # ms)) [0..<em_workers m]))"

definition explicit_progress :: "execution_meta list \<Rightarrow> frontier_meta list \<Rightarrow> (ex_num \<times> worker \<times> epoch) list" where
  "explicit_progress es fr = (if es = [] then []
     else map (\<lambda>f. (fm_ex f, fm_worker f, fm_frontier f))
            (filter (\<lambda>f. fm_ex f = Max (set (map em_ex es))) fr))"

definition max_progress :: "execution_meta list \<Rightarrow> frontier_meta list \<Rightarrow> (ex_num \<times> worker \<times> epoch) list" where
  "max_progress es fr =
     (let progress = remdups (explicit_progress es fr @ default_progress es)
      in map (\<lambda>(e, w). (e, w, Max (set (map (\<lambda>(_, _, f). f) (filter (\<lambda>(e', w', _). e' = e \<and> w' = w) progress)))))
           (remdups (map (\<lambda>(e, w, _). (e, w)) progress)))"

text \<open>
  The aggregate over no rows is \<^verbatim>\<open>NULL\<close>; a bare column next to \<^verbatim>\<open>MIN\<close> is of a row that has the
  minimum.
\<close>

definition resume_row :: "execution_meta list \<Rightarrow> frontier_meta list \<Rightarrow> resume_from option" where
  "resume_row es fr = (case sort_key (\<lambda>(_, _, f). f) (max_progress es fr) of
       [] \<Rightarrow> None
     | (e, _, f) # _ \<Rightarrow> Some (ResumeFrom (e + 1) f))"

definition part_resume_from :: "('s, 'k) recovery_part \<Rightarrow> resume_error + resume_from" where
  "part_resume_from db =
     (let part_counts = remdups (map pm_count (parts db))
      in if part_counts = [] then Inl NoPartitionsError
         else if 1 < length part_counts then Inl InconsistentCountsError
         else
           let part_count = part_counts ! 0;
               expected_parts = bs_extend [] (part_count_iter part_count);
               found_parts = bs_extend [] (map pm_index (parts db));
               missing_parts = bs_diff expected_parts found_parts
           in if missing_parts \<noteq> [] then Inl (MissingPartitionsError missing_parts part_count)
              else
                let rf = (case resume_row (exs db) (fronts db) of None \<Rightarrow> resume_default | Some rf \<Rightarrow> rf);
                    state_missing_parts =
                      bs_extend [] (map cm_part (filter (\<lambda>c. rf_epoch rf < cm_epoch c) (commits db)));
                    delayed_parts = bs_diff expected_parts state_missing_parts
                in if state_missing_parts \<noteq> [] then Inl (InconsistentPartitionsError delayed_parts part_count)
                   else Inr rf)"

section \<open>The query as a formula\<close>

text \<open>The progress of worker \<open>w\<close> in the execution \<open>m\<close>: its last frontier, at least the resume epoch.\<close>

definition progress :: "execution_meta \<Rightarrow> frontier_meta list \<Rightarrow> worker \<Rightarrow> epoch" where
  "progress m fr w =
     Max (insert (em_resume m) (fm_frontier ` {f \<in> set fr. fm_ex f = em_ex m \<and> fm_worker f = w}))"

lemma progress_list: "progress m fr w =
  Max (set (em_resume m # map fm_frontier (filter (\<lambda>f. fm_ex f = em_ex m \<and> fm_worker f = w) fr)))"
  by (simp add: progress_def)

definition last_ex :: "execution_meta list \<Rightarrow> execution_meta \<Rightarrow> bool" where
  "last_ex es m \<longleftrightarrow> m \<in> set es \<and> list_all (\<lambda>x. em_ex x \<le> em_ex m) es"

definition exs_wf :: "execution_meta list \<Rightarrow> bool" where
  "exs_wf es \<longleftrightarrow> distinct (map em_ex es) \<and> list_all (\<lambda>x. 0 < em_workers x) es"

definition fronts_of :: "execution_meta \<Rightarrow> frontier_meta list \<Rightarrow> bool" where
  "fronts_of m fr \<longleftrightarrow> list_all (\<lambda>f. fm_ex f = em_ex m \<longrightarrow> fm_worker f < em_workers m) fr"

lemma last_ex_Max: "last_ex es m \<Longrightarrow> Max (set (map em_ex es)) = em_ex m"
  by (rule Max_eqI) (auto simp: last_ex_def list_all_iff)

lemma distinct_filter_single:
  "distinct (map f xs) \<Longrightarrow> x \<in> set xs \<Longrightarrow> filter (\<lambda>y. f y = f x) xs = [x]"
proof (induction xs)
  case (Cons y xs)
  show ?case
  proof (cases "x = y")
    case True
    with Cons.prems(1) have "filter (\<lambda>z. f z = f x) xs = []"
      by (auto simp: filter_empty_conv) (metis imageI)
    with True show ?thesis by simp
  next
    case False
    with Cons.prems have "f y \<noteq> f x" by auto
    with False Cons show ?thesis by simp
  qed
qed simp

lemma max_ex_last:
  assumes "exs_wf es" and "last_ex es m"
  shows "max_ex es = [m]"
proof -
  have "es \<noteq> []" using assms(2) by (auto simp: last_ex_def)
  then have "max_ex es = filter (\<lambda>x. em_ex x = em_ex m) es"
    using last_ex_Max [OF assms(2)] by (simp add: max_ex_def)
  also have "\<dots> = [m]"
    using assms by (intro distinct_filter_single) (auto simp: exs_wf_def last_ex_def)
  finally show ?thesis .
qed

lemma progress_rows:
  assumes "exs_wf es" and "last_ex es m" and "fronts_of m fr"
  shows "set (explicit_progress es fr @ default_progress es) =
    {(em_ex m, w, f) | w f. w < em_workers m \<and>
      (f = em_resume m \<or> (\<exists>x \<in> set fr. fm_ex x = em_ex m \<and> fm_worker x = w \<and> fm_frontier x = f))}"
proof -
  have "es \<noteq> []" using assms(2) by (auto simp: last_ex_def)
  then have e: "set (explicit_progress es fr) =
      {(em_ex m, w, f) | w f. w < em_workers m \<and>
        (\<exists>x \<in> set fr. fm_ex x = em_ex m \<and> fm_worker x = w \<and> fm_frontier x = f)}"
    using assms(3) unfolding explicit_progress_def last_ex_Max [OF assms(2)]
    by (auto simp: fronts_of_def list_all_iff image_iff)
  have d: "set (default_progress es) = {(em_ex m, w, em_resume m) | w. w < em_workers m}"
    unfolding default_progress_def max_ex_last [OF assms(1,2)] by auto
  show ?thesis unfolding set_append e d by blast
qed

lemma max_progress_rows:
  assumes "exs_wf es" and "last_ex es m" and "fronts_of m fr"
  shows "set (max_progress es fr) = {(em_ex m, w, progress m fr w) | w. w < em_workers m}"
proof -
  let ?rows = "remdups (explicit_progress es fr @ default_progress es)"
  note rows = progress_rows [OF assms]
  have keys: "set (remdups (map (\<lambda>(e, w, _). (e, w)) ?rows)) = {(em_ex m, w) | w. w < em_workers m}"
    unfolding set_remdups set_map rows by (auto simp: image_iff)
  have grp: "set (map (\<lambda>(_, _, f). f) (filter (\<lambda>(e', w', _). e' = em_ex m \<and> w' = w) ?rows)) =
      insert (em_resume m) (fm_frontier ` {f \<in> set fr. fm_ex f = em_ex m \<and> fm_worker f = w})"
    if "w < em_workers m" for w
    unfolding set_map set_filter set_remdups rows using that by (auto simp: image_iff)
  let ?F = "\<lambda>(e, w). (e, w, Max (set (map (\<lambda>(_, _, f). f) (filter (\<lambda>(e', w', _). e' = e \<and> w' = w) ?rows))))"
  have F: "?F (em_ex m, w) = (em_ex m, w, progress m fr w)" if "w < em_workers m" for w
    by (simp only: prod.case grp [OF that] progress_def)
  have "set (max_progress es fr) = ?F ` {(em_ex m, w) | w. w < em_workers m}"
    unfolding max_progress_def Let_def set_map [of ?F] keys ..
  also have "\<dots> = {(em_ex m, w, progress m fr w) | w. w < em_workers m}"
    unfolding setcompr_eq_image image_image by (rule image_cong [OF refl]) (simp only: mem_Collect_eq F)
  finally show ?thesis .
qed

lemma resume_row_value:
  assumes "exs_wf es" and "last_ex es m" and "fronts_of m fr"
  shows "resume_row es fr = Some (ResumeFrom (em_ex m + 1) (Min (progress m fr ` {0..<em_workers m})))"
proof -
  let ?f = "\<lambda>(_ :: ex_num, _ :: worker, f). f :: epoch"
  note rows = max_progress_rows [OF assms]
  have "0 < em_workers m" using assms(1,2) by (auto simp: exs_wf_def last_ex_def list_all_iff)
  then have "max_progress es fr \<noteq> []" using rows by auto
  then have "sort_key ?f (max_progress es fr) \<noteq> []" by (metis set_empty set_sort)
  then obtain e w f rest where s: "sort_key ?f (max_progress es fr) = (e, w, f) # rest"
    by (metis list.exhaust prod.exhaust)
  have set_s: "set ((e, w, f) # rest) = {(em_ex m, w, progress m fr w) | w. w < em_workers m}"
    unfolding s [symmetric] set_sort rows ..
  have "(e, w, f) \<in> set ((e, w, f) # rest)" by simp
  then have "(e, w, f) \<in> {(em_ex m, w, progress m fr w) | w. w < em_workers m}" unfolding set_s .
  then have ef: "e = em_ex m" "w < em_workers m" "f = progress m fr w" by blast+
  have "sorted (map ?f ((e, w, f) # rest))" unfolding s [symmetric] by (rule sorted_sort_key)
  then have le: "\<forall>x \<in> set ((e, w, f) # rest). f \<le> ?f x" by auto
  have "Min (progress m fr ` {0..<em_workers m}) = f"
  proof (rule Min_eqI)
    show "f \<in> progress m fr ` {0..<em_workers m}" using ef by auto
    fix y assume "y \<in> progress m fr ` {0..<em_workers m}"
    then obtain v where "v < em_workers m" "y = progress m fr v" by auto
    then have "(em_ex m, v, y) \<in> set ((e, w, f) # rest)" unfolding set_s by auto
    with le show "f \<le> y" by force
  qed simp
  then show ?thesis by (simp add: resume_row_def s ef)
qed

lemma resume_row_None: "resume_row [] fr = None"
  by (simp add: resume_row_def max_progress_def explicit_progress_def default_progress_def max_ex_def)

section \<open>When all partitions are there\<close>

definition all_parts :: "part_count \<Rightarrow> ('s, 'k) recovery_part \<Rightarrow> bool" where
  "all_parts n db \<longleftrightarrow> parts db \<noteq> [] \<and> list_all (\<lambda>p. pm_count p = n) (parts db) \<and>
     {0..<n} \<subseteq> pm_index ` set (parts db)"

definition resume_point :: "('s, 'k) recovery_part \<Rightarrow> resume_from" where
  "resume_point db = (case resume_row (exs db) (fronts db) of None \<Rightarrow> resume_default | Some rf \<Rightarrow> rf)"

lemma remdups_const: "xs \<noteq> [] \<Longrightarrow> list_all (\<lambda>x. x = n) xs \<Longrightarrow> remdups xs = [n]"
proof (induction xs)
  case (Cons x xs)
  then show ?case by (cases xs) auto
qed simp

lemma remdups_one: "remdups xs = [n] \<longleftrightarrow> xs \<noteq> [] \<and> list_all (\<lambda>x. x = n) xs"
proof
  assume r: "remdups xs = [n]"
  then have "set xs = {n}" by (metis set_remdups list.set(1) list.set(2))
  then show "xs \<noteq> [] \<and> list_all (\<lambda>x. x = n) xs" unfolding list_all_iff by (cases xs) auto
next
  assume "xs \<noteq> [] \<and> list_all (\<lambda>x. x = n) xs"
  then show "remdups xs = [n]" by (simp add: remdups_const)
qed

lemma counts_one:
  "remdups (map pm_count (parts db)) = [n] \<longleftrightarrow> parts db \<noteq> [] \<and> list_all (\<lambda>p. pm_count p = n) (parts db)"
  unfolding remdups_one by (simp add: list_all_iff)

lemma set_part_count_iter [simp]: "set (part_count_iter n) = {0..<n}"
  by (simp add: part_count_iter_def)

text \<open>One equation per way through the function.\<close>

lemma resume_from_none: "parts db = [] \<Longrightarrow> part_resume_from db = Inl NoPartitionsError"
  by (simp add: part_resume_from_def)

lemma resume_from_counts:
  assumes "p \<in> set (parts db)" "q \<in> set (parts db)" "pm_count p \<noteq> pm_count q"
  shows "part_resume_from db = Inl InconsistentCountsError"
proof -
  let ?cs = "remdups (map pm_count (parts db))"
  have "card {pm_count p, pm_count q} \<le> card (set ?cs)"
    using assms(1,2) by (intro card_mono) auto
  then have "1 < length ?cs" using assms(3) by (simp add: distinct_card [symmetric])
  moreover from this have "?cs \<noteq> []" by auto
  ultimately show ?thesis by (simp add: part_resume_from_def Let_def)
qed

lemma resume_from_missing:
  assumes "parts db \<noteq> []" "list_all (\<lambda>p. pm_count p = n) (parts db)"
  defines "missing \<equiv> bs_diff (bs_extend [] (part_count_iter n)) (bs_extend [] (map pm_index (parts db)))"
  assumes "missing \<noteq> []"
  shows "part_resume_from db = Inl (MissingPartitionsError missing n)"
  using assms(1,2) assms(4) counts_one [of db n]
  by (simp add: part_resume_from_def Let_def missing_def)

lemma missing_none:
  "bs_diff (bs_extend [] (part_count_iter n)) (bs_extend [] (map pm_index (parts db))) = [] \<longleftrightarrow>
    {0..<n} \<subseteq> pm_index ` set (parts db)"
  by (auto simp: bs_diff_def filter_empty_conv)

lemma bs_extend_empty [simp]: "bs_extend [] xs = [] \<longleftrightarrow> xs = []"
  by (metis set_bs_extend set_empty sup_bot_left list.set(1))

lemma resume_from_all:
  assumes "all_parts n db"
  shows "part_resume_from db =
    (if list_all (\<lambda>c. cm_epoch c \<le> rf_epoch (resume_point db)) (commits db) then Inr (resume_point db)
     else Inl (InconsistentPartitionsError
       (bs_diff (bs_extend [] (part_count_iter n))
         (bs_extend [] (map cm_part (filter (\<lambda>c. rf_epoch (resume_point db) < cm_epoch c) (commits db))))) n))"
proof -
  have "remdups (map pm_count (parts db)) = [n]"
    "bs_diff (bs_extend [] (part_count_iter n)) (bs_extend [] (map pm_index (parts db))) = []"
    using assms by (auto simp: all_parts_def counts_one missing_none)
  moreover have "filter (\<lambda>c. e < cm_epoch c) (commits db) = [] \<longleftrightarrow> list_all (\<lambda>c. cm_epoch c \<le> e) (commits db)" for e
    by (auto simp: filter_empty_conv list_all_iff not_less)
  ultimately show ?thesis by (simp add: part_resume_from_def Let_def resume_point_def)
qed

section \<open>Properties of \<^verbatim>\<open>resume_from\<close>\<close>

text \<open>The partitions that are missing, as \<^verbatim>\<open>resume_from\<close> names them.\<close>

lemma missing_named:
  "ps \<noteq> [] \<and> sorted_wrt (<) ps \<and> set ps = {0..<k} - pm_index ` set (parts db) \<longleftrightarrow>
    bs_diff (bs_extend [] (part_count_iter k)) (bs_extend [] (map pm_index (parts db))) \<noteq> [] \<and>
    ps = bs_diff (bs_extend [] (part_count_iter k)) (bs_extend [] (map pm_index (parts db)))"
proof -
  let ?missing = "bs_diff (bs_extend [] (part_count_iter k)) (bs_extend [] (map pm_index (parts db)))"
  have "bs_wf ?missing" "set ?missing = {0..<k} - pm_index ` set (parts db)" by (auto simp: bs_diff_def)
  with bs_ext [of ps ?missing] show ?thesis by (metis bs_wf_def set_empty)
qed

text \<open>Claim C33. Resuming fails exactly when it must: without partitions; with partitions that
  disagree on their number; with a partition missing, all of which are named; and, when all are
  there, with a commit beyond the resume epoch, in which case the state of that epoch may be gone.\<close>

theorem resume_errors:
  "(part_resume_from db = Inl NoPartitionsError \<longleftrightarrow> parts db = []) \<and>
   (part_resume_from db = Inl InconsistentCountsError \<longleftrightarrow>
     (\<exists>p \<in> set (parts db). \<exists>q \<in> set (parts db). pm_count p \<noteq> pm_count q)) \<and>
   (part_resume_from db = Inl (MissingPartitionsError ps n) \<longleftrightarrow>
     parts db \<noteq> [] \<and> list_all (\<lambda>p. pm_count p = n) (parts db) \<and> ps \<noteq> [] \<and> sorted_wrt (<) ps \<and>
     set ps = {0..<n} - pm_index ` set (parts db)) \<and>
   ((\<exists>ps. part_resume_from db = Inl (InconsistentPartitionsError ps n)) \<longleftrightarrow>
     all_parts n db \<and> (\<exists>c \<in> set (commits db). rf_epoch (resume_point db) < cm_epoch c))"
proof -
  consider (none) "parts db = []"
    | (counts) p q where "p \<in> set (parts db)" "q \<in> set (parts db)" "pm_count p \<noteq> pm_count q"
    | (one) k where "parts db \<noteq> []" "list_all (\<lambda>p. pm_count p = k) (parts db)"
    by (cases "parts db") (auto simp: list_all_iff)
  then show ?thesis
  proof cases
    case none
    then show ?thesis by (auto simp: resume_from_none all_parts_def)
  next
    case counts
    moreover from counts have "\<not> list_all (\<lambda>p. pm_count p = n) (parts db)" unfolding list_all_iff by metis
    ultimately show ?thesis using resume_from_counts [OF counts] by (auto simp: all_parts_def)
  next
    case one
    let ?missing = "bs_diff (bs_extend [] (part_count_iter k)) (bs_extend [] (map pm_index (parts db)))"
    have same: "\<not> (\<exists>p \<in> set (parts db). \<exists>q \<in> set (parts db). pm_count p \<noteq> pm_count q)"
      using one(2) by (auto simp: list_all_iff)
    have k: "list_all (\<lambda>p. pm_count p = n) (parts db) \<longleftrightarrow> n = k"
      using one by (cases "parts db") (auto simp: list_all_iff)
    show ?thesis
    proof (cases "?missing = []")
      case False
      have all: "\<not> all_parts n db"
        using False one k by (auto simp: all_parts_def missing_none)
      have miss: "part_resume_from db = Inl (MissingPartitionsError ps n) \<longleftrightarrow> n = k \<and> ps = ?missing"
        unfolding resume_from_missing [OF one False] by auto
      have others: "part_resume_from db \<noteq> Inl NoPartitionsError" "part_resume_from db \<noteq> Inl InconsistentCountsError"
        "\<not> (\<exists>ps. part_resume_from db = Inl (InconsistentPartitionsError ps n))"
        unfolding resume_from_missing [OF one False] by simp_all
      show ?thesis unfolding miss k using others all same one(1) False missing_named [of ps k db] by blast
    next
      case True
      then have all: "all_parts k db" using one by (auto simp: all_parts_def missing_none)
      have n: "all_parts n db \<longleftrightarrow> n = k" using all one(1) k by (auto simp: all_parts_def)
      have inc: "(\<exists>ps. part_resume_from db = Inl (InconsistentPartitionsError ps n)) \<longleftrightarrow>
          n = k \<and> (\<exists>c \<in> set (commits db). rf_epoch (resume_point db) < cm_epoch c)"
        unfolding resume_from_all [OF all] by (auto simp: list_all_iff not_le)
      have others: "part_resume_from db \<noteq> Inl NoPartitionsError" "part_resume_from db \<noteq> Inl InconsistentCountsError"
        "part_resume_from db \<noteq> Inl (MissingPartitionsError ps n)"
        unfolding resume_from_all [OF all] by simp_all
      show ?thesis unfolding inc n k using others same one(1) True missing_named [of ps k db] by blast
    qed
  qed
qed



end
