(* ===== verification/Recovery_Dir.thy ===== *)
theory Recovery_Dir
  imports Resume
begin

text \<open>
  Creating and finding recovery partitions: \<^verbatim>\<open>init_db_dir\<close>, \<^verbatim>\<open>RecoveryConfig\<close> and
  \<^verbatim>\<open>RecoveryBundle\<close> of \<^verbatim>\<open>src/src/recovery.rs\<close>, on directories that are association lists from
  file names to databases (in listing order). The main results: \<^verbatim>\<open>init_db_dir\<close> followed by
  \<^verbatim>\<open>RecoveryConfig::build\<close> finds exactly the partitions created, and initialising a directory
  twice panics.
\<close>

section \<open>File names\<close>

text \<open>Decimal numbers, as \<^verbatim>\<open>format!\<close> prints them.\<close>

fun show_nat :: "nat \<Rightarrow> string" where
  "show_nat n = (if n < 10 then [char_of (48 + n)] else show_nat (n div 10) @ [char_of (48 + n mod 10)])"

declare show_nat.simps [simp del]

definition read_nat :: "string \<Rightarrow> nat" where
  "read_nat s = foldl (\<lambda>acc c. 10 * acc + (of_char c - 48)) 0 s"

lemma read_show_nat: "read_nat (show_nat n) = n"
proof (induction n rule: show_nat.induct)
  case (1 n)
  have digit: "of_char (char_of (48 + d) :: char) = 48 + d" if "d < 10" for d :: nat
    using that by simp
  show ?case
  proof (cases "n < 10")
    case True
    then show ?thesis using digit [OF True] by (subst show_nat.simps) (simp add: read_nat_def)
  next
    case False
    have "n mod 10 < 10" by simp
    from digit [OF this] 1 [OF False] False show ?thesis
      by (subst show_nat.simps) (simp add: read_nat_def)
  qed
qed

lemma show_nat_inj: "show_nat m = show_nat n \<longleftrightarrow> m = n"
  by (metis read_show_nat)

text \<open>\<^verbatim>\<open>Path::extension\<close> of a file name: what follows the last dot, unless it is the first character.\<close>

definition extension :: "string \<Rightarrow> string option" where
  "extension name = (let ext = takeWhile (\<lambda>c. c \<noteq> CHR ''.'') (rev name)
     in if length name \<le> Suc (length ext) then None else Some (rev ext))"

definition part_file :: "part_index \<Rightarrow> string" where
  "part_file index = ''part-'' @ show_nat index @ ''.sqlite3''"

lemma part_file_inj [simp]: "part_file i = part_file j \<longleftrightarrow> i = j"
  by (simp add: part_file_def show_nat_inj)

lemma extension_part_file [simp]: "extension (part_file i) = Some ''sqlite3''"
  by (simp add: extension_def part_file_def Let_def)

section \<open>Initialising partitions\<close>

type_synonym ('s, 'k) dir = "(string \<times> ('s, 'k) recovery_part) list"
type_synonym ('s, 'k) dirs = "string \<Rightarrow> ('s, 'k) dir option"

text \<open>\<^verbatim>\<open>RecoveryPart::init\<close>: open or create the file, migrate, write the partition's row.\<close>

definition part_init :: "part_count \<Rightarrow> ('s, 'k) dir \<Rightarrow> part_index \<Rightarrow> ('s, 'k) dir res" where
  "part_init cnt entries index =
     (let file = part_file index;
          db = (case map_of entries file of None \<Rightarrow> empty_part | Some db \<Rightarrow> db)
      in emap (\<lambda>db'. AList.update file db' entries) (write_parts [PartitionMeta index cnt] db))"

definition init_db_dir :: "('s, 'k) dirs \<Rightarrow> string \<Rightarrow> part_count \<Rightarrow> ('s, 'k) dirs res" where
  "init_db_dir dirs db_dir cnt = (case dirs db_dir of
       None \<Rightarrow> Inl (PyErr ''FileNotFoundError'')
     | Some entries \<Rightarrow>
         emap (\<lambda>entries'. dirs(db_dir \<mapsto> entries')) (efold (part_init cnt) entries (part_count_iter cnt)))"

section \<open>Configuration and bdl\<close>

record 'e recovery_config =
  db_dir :: string
  backup_interval :: dur
  snapshot_serde :: 'e

definition recovery_config_new :: "'e \<Rightarrow> string \<Rightarrow> dur option \<Rightarrow> 'e option \<Rightarrow> 'e recovery_config" where
  "recovery_config_new default_serde dir backup serde =
     \<lparr>db_dir = dir, backup_interval = (case backup of None \<Rightarrow> 0 | Some b \<Rightarrow> b),
      snapshot_serde = (case serde of None \<Rightarrow> default_serde | Some s \<Rightarrow> s)\<rparr>"

record 'e recovery_bundle =
  part_paths :: "(part_index \<times> string) list"
  serde :: 'e
  built_parts :: "(part_index \<times> string) list"

text \<open>
  One entry of the directory listing. Reading the partition rows takes two batches, so three calls
  always reach the end.
\<close>

definition scan_entry ::
  "(part_index \<times> string) list \<Rightarrow> string \<times> ('s, 'k) recovery_part \<Rightarrow> (part_index \<times> string) list res" where
  "scan_entry paths = (\<lambda>(path, part).
     if extension path = Some ''sqlite3'' then
       (case read_batches (with_conn part_loader_next) 3 (part, False) of
          Some batches \<Rightarrow>
            emap (foldl (foldl (\<lambda>ps pm. AList.update (pm_index pm) path ps)) paths) batches
        | None \<Rightarrow> Inl (PanicMsg ''not reached''))
     else Inr paths)"

definition recovery_build ::
  "('s, 'k) dirs \<Rightarrow> 'e recovery_config \<Rightarrow> ('e recovery_bundle \<times> dur) res" where
  "recovery_build dirs cfg = (case dirs (db_dir cfg) of
       None \<Rightarrow> Inl (PyErr ''FileNotFoundError'')
     | Some entries \<Rightarrow>
         emap (\<lambda>paths. (\<lparr>part_paths = paths, serde = snapshot_serde cfg, built_parts = []\<rparr>, backup_interval cfg))
           (efold scan_entry [] entries))"

definition local_parts :: "'e recovery_bundle \<Rightarrow> part_index list" where
  "local_parts bdl = map fst (part_paths bdl)"

text \<open>\<^verbatim>\<open>new_builder\<close>: a partition is built once and then shared; a built partition is its file.\<close>

definition build_part :: "'e recovery_bundle \<Rightarrow> part_index \<Rightarrow> ('e recovery_bundle \<times> string) res" where
  "build_part bdl part_key = (case map_of (built_parts bdl) part_key of
       Some part \<Rightarrow> Inr (bdl, part)
     | None \<Rightarrow> (case map_of (part_paths bdl) part_key of
           None \<Rightarrow> Inl (PanicMsg ''Trying to build RecoveryPartition but no path is known'')
         | Some path \<Rightarrow>
             Inr (bdl\<lparr>built_parts := AList.update part_key path (built_parts bdl)\<rparr>, path)))"

section \<open>What a scan finds\<close>

lemma scan_entry_parts:
  "extension path = Some ''sqlite3'' \<Longrightarrow>
    scan_entry paths (path, part) = Inr (foldl (\<lambda>ps pm. AList.update (pm_index pm) path ps) paths (parts part))"
  by (simp add: scan_entry_def eval_nat_numeral with_conn_def part_loader_next_def)

text \<open>The files of the first \<open>n\<close> of \<open>cnt\<close> partitions.\<close>

definition new_part :: "part_count \<Rightarrow> part_index \<Rightarrow> ('s, 'k) recovery_part" where
  "new_part cnt i = empty_part\<lparr>parts := [PartitionMeta i cnt]\<rparr>"

definition new_entries :: "part_count \<Rightarrow> nat \<Rightarrow> ('s, 'k) dir" where
  "new_entries cnt n = map (\<lambda>i. (part_file i, new_part cnt i)) [0..<n]"

lemma update_append_new: "k \<notin> fst ` set xs \<Longrightarrow> AList.update k v xs = xs @ [(k, v)]"
  by (induction xs) auto

lemma init_parts:
  "n \<le> cnt \<Longrightarrow> efold (part_init cnt) [] [0..<n] = Inr (new_entries cnt n)"
proof (induction n)
  case 0
  then show ?case by (simp add: new_entries_def)
next
  case (Suc n)
  have fresh: "part_file n \<notin> fst ` set (new_entries cnt n :: ('a, 'b) dir)"
    by (auto simp: new_entries_def)
  then have "map_of (new_entries cnt n :: ('a, 'b) dir) (part_file n) = None"
    by (simp add: map_of_eq_None_iff)
  moreover have "write_parts [PartitionMeta n cnt] empty_part = Inr (new_part cnt n :: ('a, 'b) recovery_part)"
    using Suc.prems
    by (simp add: write_parts_def insert_row_def parts_pk_check_def empty_part_def new_part_def)
  ultimately have "part_init cnt (new_entries cnt n) n = Inr (new_entries cnt (Suc n) :: ('a, 'b) dir)"
    using fresh by (simp add: part_init_def Let_def update_append_new new_entries_def)
  with Suc show ?case by (simp add: efold_append)
qed

lemma scan_new_entries:
  "efold scan_entry [] (new_entries cnt n) = Inr (map (\<lambda>i. (i, part_file i)) [0..<n])"
proof (induction n)
  case 0
  then show ?case by (simp add: new_entries_def)
next
  case (Suc n)
  have "n \<notin> fst ` set (map (\<lambda>i. (i, part_file i)) [0..<n])" by auto
  from update_append_new [OF this] Suc show ?case
    by (simp add: new_entries_def efold_append scan_entry_parts new_part_def)
qed

section \<open>Properties\<close>

text \<open>Partitions are found where they were created: after \<^verbatim>\<open>init_db_dir\<close> on an empty
  directory, \<^verbatim>\<open>RecoveryConfig::build\<close> finds exactly the partitions \<open>0\<close> to \<open>cnt - 1\<close>, each in
  its own file, every one of them can be built, and building it again gives the same handle.\<close>

theorem init_then_build:
  assumes "dirs d = Some []"
  shows "\<exists>dirs' bdl. init_db_dir dirs d cnt = Inr dirs' \<and>
    recovery_build dirs' (recovery_config_new e d b s) = Inr (bdl, case b of None \<Rightarrow> 0 | Some b \<Rightarrow> b) \<and>
    local_parts bdl = [0..<cnt] \<and>
    (\<forall>i. if i < cnt
      then \<exists>bdl'. build_part bdl i = Inr (bdl', part_file i) \<and> build_part bdl' i = Inr (bdl', part_file i)
      else \<exists>p. build_part bdl i = Inl p)"
proof -
  let ?paths = "map (\<lambda>i. (i, part_file i)) [0..<cnt]"
  let ?bdl = "\<lparr>part_paths = ?paths, serde = (case s of None \<Rightarrow> e | Some s \<Rightarrow> s), built_parts = []\<rparr>"
  let ?dirs = "dirs(d \<mapsto> new_entries cnt cnt)"
  have i: "init_db_dir dirs d cnt = Inr ?dirs"
    by (simp add: init_db_dir_def assms part_count_iter_def init_parts)
  have b: "recovery_build ?dirs (recovery_config_new e d b s) = Inr (?bdl, case b of None \<Rightarrow> 0 | Some b \<Rightarrow> b)"
    by (simp add: recovery_build_def recovery_config_new_def scan_new_entries)
  have l: "local_parts ?bdl = [0..<cnt]" by (simp add: local_parts_def comp_def)
  have look: "map_of ?paths i = (if i < cnt then Some (part_file i) else None)" for i
    by (simp add: map_of_map_restrict restrict_map_def)
  have "if i < cnt
      then \<exists>bdl'. build_part ?bdl i = Inr (bdl', part_file i) \<and> build_part bdl' i = Inr (bdl', part_file i)
      else \<exists>p. build_part ?bdl i = Inl p" for i
    by (auto simp: build_part_def look)
  with i b l show ?thesis by blast
qed

theorem init_then_build_witness:
  "\<exists>dirs' bdl. init_db_dir ((\<lambda>_. None)(''db'' \<mapsto> ([] :: (nat, nat) dir))) ''db'' 3 = Inr dirs' \<and>
    recovery_build dirs' (recovery_config_new ''jsonpickle'' ''db'' None None) = Inr (bdl, 0) \<and>
    local_parts bdl = [0, 1, 2]"
proof -
  have up: "[0..<3] = [0, 1, 2 :: nat]" by (simp add: upt_rec)
  have "((\<lambda>_. None)(''db'' \<mapsto> ([] :: (nat, nat) dir))) ''db'' = Some []" by simp
  from init_then_build [where dirs = "(\<lambda>_. None)(''db'' \<mapsto> ([] :: (nat, nat) dir))" and d = "''db''" and cnt = 3
      and e = "''jsonpickle''" and b = None and s = None, OF this] show ?thesis
    unfolding up by auto
qed

text \<open>Initialising the same directory a second time panics on the first partition, which
  is already recorded in its file, instead of overwriting it.\<close>

theorem init_twice_panics:
  assumes "dirs d = Some []" and "0 < n" and "0 < m" and "init_db_dir dirs d n = Inr dirs'"
  shows "\<exists>p. init_db_dir dirs' d m = Inl p"
proof -
  have dirs': "dirs' d = Some (new_entries n n)"
    using assms(4) by (auto simp: init_db_dir_def assms(1) part_count_iter_def init_parts)
  obtain n' m' where nm: "n = Suc n'" "m = Suc m'" using assms(2,3) by (meson gr0_implies_Suc)
  have "map_of (new_entries n n) (part_file 0) = Some (new_part n 0 :: ('a, 'b) recovery_part)"
    unfolding new_entries_def nm upt_conv_Cons [OF zero_less_Suc] by simp
  then have "part_init m (new_entries n n :: ('a, 'b) dir) 0 = Inl sql_error"
    by (simp add: part_init_def write_parts_def insert_row_def new_part_def eguard_def)
  then show ?thesis
    unfolding init_db_dir_def dirs' part_count_iter_def nm upt_conv_Cons [OF zero_less_Suc] by simp
qed

theorem init_twice_panics_witness:
  "\<exists>dirs' p. init_db_dir ((\<lambda>_. None)(''db'' \<mapsto> ([] :: (nat, nat) dir))) ''db'' 1 = Inr dirs' \<and>
    init_db_dir dirs' ''db'' 2 = Inl p"
proof -
  have d: "((\<lambda>_. None)(''db'' \<mapsto> ([] :: (nat, nat) dir))) ''db'' = Some []" by simp
  then obtain dirs' where i: "init_db_dir ((\<lambda>_. None)(''db'' \<mapsto> ([] :: (nat, nat) dir))) ''db'' 1 = Inr dirs'"
    by (simp add: init_db_dir_def part_count_iter_def init_parts [of 1 1, simplified])
  with init_twice_panics [where dirs = "(\<lambda>_. None)(''db'' \<mapsto> ([] :: (nat, nat) dir))" and d = "''db''"
      and n = 1 and m = 2, OF d _ _ i] show ?thesis by auto
qed

end
