(* ===== verification/Recovery_Ops.thy ===== *)
theory Recovery_Ops
  imports Recovery_Dir
begin

text \<open>
  The dataflow operators of \<^verbatim>\<open>src/src/recovery.rs\<close>: \<^verbatim>\<open>frontier\<close> reports a worker's progress,
  \<^verbatim>\<open>ser_snap\<close>, \<^verbatim>\<open>de_snap\<close>, \<^verbatim>\<open>load_snaps\<close> and \<^verbatim>\<open>filter_snaps\<close> carry state to and from the
  recovery partitions, and \<^verbatim>\<open>resume_from\<close> gathers the progress rows of all partitions in an
  in-memory database. The main results: the reported frontiers strictly increase and end at the
  true frontier, one past the last epoch at the end of input; snapshots survive serialization; and
  however the progress rows are batched and ordered on their way, the gathered database resumes at
  the least progress of the last execution's workers.
\<close>

section \<open>\<^verbatim>\<open>frontier\<close>\<close>

type_synonym front_row = "(ex_num \<times> worker) \<times> frontier_meta"

definition frontier_start :: "resume_from \<Rightarrow> epoch \<Rightarrow> epoch option res" where
  "frontier_start rf init_cap = emap (\<lambda>caps. Some (last caps)) (downgrade_all (rf_epoch rf) [init_cap])"

definition frontier_activate ::
  "ex_num \<Rightarrow> worker \<Rightarrow> epoch option \<Rightarrow> frontier list \<Rightarrow> (epoch option \<times> (epoch \<times> front_row) list) res" where
  "frontier_activate ex w cap input_frontiers = (case cap of
       None \<Rightarrow> Inr (None, [])
     | Some c \<Rightarrow>
         let fr = simplify input_frontiers;
             progressed = (case fr of None \<Rightarrow> True | Some f \<Rightarrow> c < f)
         in if progressed then
              let frontier_epoch = (case fr of None \<Rightarrow> c + 1 | Some f \<Rightarrow> f);
                  out = [(c, (ex, w), FrontierMeta ex w frontier_epoch)]
              in (case fr of
                    None \<Rightarrow> Inr (None, out)
                  | Some f \<Rightarrow> emap (\<lambda>c'. (Some c', out)) (cap_downgrade c f))
            else Inr (Some c, []))"

fun frontier_run ::
  "ex_num \<Rightarrow> worker \<Rightarrow> epoch option \<Rightarrow> frontier list list \<Rightarrow> (epoch option \<times> (epoch \<times> front_row) list) res" where
  "frontier_run ex w cap [] = Inr (cap, [])"
| "frontier_run ex w cap (fs # acts) =
     ebind (frontier_activate ex w cap fs) (\<lambda>(cap', out).
     emap (\<lambda>(cap'', out'). (cap'', out @ out')) (frontier_run ex w cap' acts))"

section \<open>Snapshots\<close>

datatype 'v state_change = Upsert 'v | Discard

datatype ('s, 'k, 'v) snapshot = Snapshot (sn_step: 's) (sn_key: 'k) (sn_change: "'v state_change")

definition ser_snap ::
  "('v \<Rightarrow> string res) \<Rightarrow> epoch \<Rightarrow> ('s, 'k, 'v) snapshot list \<Rightarrow>
    (('s \<times> 'k) \<times> ('s, 'k) serialized_snapshot) list res" where
  "ser_snap ser e incoming =
     emapM (\<lambda>s. case s of Snapshot step key change \<Rightarrow>
       emap (\<lambda>c. ((step, key), SerializedSnapshot step key e c))
         (case change of Upsert v \<Rightarrow> emap Some (ser v) | Discard \<Rightarrow> Inr None)) incoming"

definition de_snap ::
  "(string \<Rightarrow> 'v res) \<Rightarrow> ('s, 'k) serialized_snapshot \<Rightarrow> ('s, 'k, 'v) snapshot res" where
  "de_snap de r = emap (Snapshot (ss_step r) (ss_key r))
     (case ss_change r of Some s \<Rightarrow> emap Upsert (de s) | None \<Rightarrow> Inr Discard)"

text \<open>After \<^verbatim>\<open>partd_load\<close>: each row is delayed to its own epoch, which must not be in the past.\<close>

definition load_snaps ::
  "(string \<Rightarrow> 'v res) \<Rightarrow> (epoch \<times> ('s, 'k) serialized_snapshot) list \<Rightarrow>
    (epoch \<times> ('s, 'k, 'v) snapshot) list res" where
  "load_snaps de items = emapM (\<lambda>(load_epoch, r).
     ebind (cap_downgrade load_epoch (ss_epoch r)) (\<lambda>e. emap (\<lambda>s. (e, s)) (de_snap de r))) items"

definition filter_snaps :: "'s \<Rightarrow> ('s, 'k, 'v) snapshot list \<Rightarrow> ('k \<times> 'v state_change) list" where
  "filter_snaps for_step snapshots =
     List.map_filter (\<lambda>s. case s of Snapshot step key change \<Rightarrow>
       if step = for_step then Some (key, change) else None) snapshots"

section \<open>\<^verbatim>\<open>write_recovery\<close>\<close>

text \<open>
  The rows the operators of \<^verbatim>\<open>write_recovery\<close> produce on one worker: worker 0 emits the execution's
  own row once, at the resume epoch; every worker emits its snapshots and its frontier, and the
  three streams go through \<^verbatim>\<open>partd_write\<close> with the writers of theory \<open>Recovery_Store\<close>.
\<close>

definition write_ex_source ::
  "worker \<Rightarrow> resume_from \<Rightarrow> (ex_num \<times> execution_meta) list option \<Rightarrow>
    (ex_num \<times> execution_meta) list option \<times> (epoch \<times> ex_num \<times> execution_meta) list" where
  "write_ex_source this_worker rf state = into_stream_once_at this_worker (rf_epoch rf) state"

definition ex_row :: "nat \<Rightarrow> resume_from \<Rightarrow> (ex_num \<times> execution_meta) list option" where
  "ex_row w_count rf = Some [(rf_ex rf, ExecutionMeta (rf_ex rf) w_count (rf_epoch rf))]"

section \<open>\<^verbatim>\<open>resume_from\<close>, the operator\<close>

text \<open>
  The database is shared with the caller through a reference-counted cell, so it outlives the
  notificator, which owns nothing else.
\<close>

type_synonym calc_bufs =
  "partition_meta in_buffer \<times> execution_meta in_buffer \<times> frontier_meta in_buffer \<times> commit_meta in_buffer"

definition write_if ::
  "('r list \<Rightarrow> ('s, 'k) recovery_part \<Rightarrow> ('s, 'k) recovery_part res) \<Rightarrow> 'r list option \<Rightarrow>
    ('s, 'k) recovery_part \<Rightarrow> ('s, 'k) recovery_part res" where
  "write_if write rows db = (case rows of None \<Rightarrow> Inr db | Some rs \<Rightarrow> write rs db)"

definition calc_eager ::
  "epoch list \<Rightarrow> unit \<times> ('s, 'k) recovery_part \<times> calc_bufs \<Rightarrow>
    ((unit \<times> ('s, 'k) recovery_part \<times> calc_bufs) \<times> (epoch \<times> unit) list) res" where
  "calc_eager caps = (\<lambda>(u, db, parts_inbuf, exs_inbuf, fronts_inbuf, commits_inbuf).
     let epoch = caps ! 0;
         (parts_inbuf', ps) = inbuf_remove parts_inbuf epoch;
         (exs_inbuf', xs) = inbuf_remove exs_inbuf epoch;
         (fronts_inbuf', fs) = inbuf_remove fronts_inbuf epoch;
         (commits_inbuf', cs) = inbuf_remove commits_inbuf epoch
     in ebind (write_if write_parts ps db) (\<lambda>db.
        ebind (write_if write_exs xs db) (\<lambda>db.
        ebind (write_if write_fronts fs db) (\<lambda>db.
        emap (\<lambda>db. ((u, db, parts_inbuf', exs_inbuf', fronts_inbuf', commits_inbuf'), []))
          (write_if write_commits cs db)))))"

definition calc_close ::
  "epoch list \<Rightarrow> unit \<times> ('s, 'k) recovery_part \<times> calc_bufs \<Rightarrow>
    ((unit \<times> ('s, 'k) recovery_part \<times> calc_bufs) \<times> (epoch \<times> unit) list) res" where
  "calc_close caps s = Inr (s, [(caps ! 0, ())])"

text \<open>What arrives in one activation: messages with their epochs on the four inputs.\<close>

record calc_msgs =
  cm_parts :: "(epoch \<times> partition_meta list) list"
  cm_exs :: "(epoch \<times> execution_meta list) list"
  cm_fronts :: "(epoch \<times> frontier_meta list) list"
  cm_commits :: "(epoch \<times> commit_meta list) list"

definition calc_activate ::
  "calc_msgs \<Rightarrow> frontier list \<Rightarrow> unit notificator \<times> ('s, 'k) recovery_part \<times> calc_bufs \<Rightarrow>
    ((unit notificator \<times> ('s, 'k) recovery_part \<times> calc_bufs) \<times> (epoch \<times> unit) list) res" where
  "calc_activate m fs = (\<lambda>(nc, db, parts_inbuf, exs_inbuf, fronts_inbuf, commits_inbuf).
     ebind (buffer_notify (cm_parts m) parts_inbuf nc) (\<lambda>(parts_inbuf, nc).
     ebind (buffer_notify (cm_exs m) exs_inbuf nc) (\<lambda>(exs_inbuf, nc).
     ebind (buffer_notify (cm_fronts m) fronts_inbuf nc) (\<lambda>(fronts_inbuf, nc).
     ebind (buffer_notify (cm_commits m) commits_inbuf nc) (\<lambda>(commits_inbuf, nc).
     emap (\<lambda>(nc, b, out). ((nc, b), out))
       (for_each calc_eager calc_close fs nc (db, parts_inbuf, exs_inbuf, fronts_inbuf, commits_inbuf)))))))"

fun calc_run where
  "calc_run s [] = Inr (s, [])"
| "calc_run s ((m, fs) # acts) =
     ebind (calc_activate m fs s) (\<lambda>(s', out). emap (\<lambda>(s'', out'). (s'', out @ out')) (calc_run s' acts))"

definition calc_start :: "unit notificator \<times> ('s, 'k) recovery_part \<times> calc_bufs" where
  "calc_start = (nc_new [0] (), empty_part, inbuf_new, inbuf_new, inbuf_new, inbuf_new)"

section \<open>Reported frontiers\<close>

abbreviation reported :: "(epoch \<times> front_row) list \<Rightarrow> epoch list" where
  "reported out \<equiv> map (\<lambda>(_, _, f). fm_frontier f) out"

definition front_ok :: "ex_num \<Rightarrow> worker \<Rightarrow> epoch \<times> front_row \<Rightarrow> bool" where
  "front_ok ex w x \<longleftrightarrow> (case x of (t, key, f) \<Rightarrow> key = (ex, w) \<and> fm_ex f = ex \<and> fm_worker f = w \<and> t < fm_frontier f)"

lemma frontier_run_open:
  assumes "list_all (\<lambda>fs. simplify fs \<noteq> None) acts"
  shows "\<exists>c out. frontier_run ex w (Some r) acts = Inr (Some c, out) \<and> list_all (front_ok ex w) out \<and>
    sorted_wrt (<) (r # reported out) \<and> last (r # reported out) = c \<and>
    c = Max (insert r (set (List.map_filter simplify acts)))"
  using assms
proof (induction acts arbitrary: r)
  case Nil
  then show ?case by (simp add: List.map_filter_def)
next
  case (Cons fs acts)
  then obtain f where f: "simplify fs = Some f" by auto
  let ?r = "max r f"
  from Cons obtain c out where IH: "frontier_run ex w (Some ?r) acts = Inr (Some c, out)"
    "list_all (front_ok ex w) out" "sorted_wrt (<) (?r # reported out)" "last (?r # reported out) = c"
    "c = Max (insert ?r (set (List.map_filter simplify acts)))" by fastforce
  have c: "c = Max (insert r (set (List.map_filter simplify (fs # acts))))"
    unfolding IH(5) by (cases "set (List.map_filter simplify acts) = {}")
      (simp_all add: List.map_filter_simps f max.assoc Max_insert)
  show ?case
  proof (cases "r < f")
    case True
    then have "frontier_activate ex w (Some r) fs = Inr (Some ?r, [(r, (ex, w), FrontierMeta ex w f)])"
      by (simp add: frontier_activate_def f cap_downgrade_def)
    moreover have "front_ok ex w (r, (ex, w), FrontierMeta ex w f)" using True by (simp add: front_ok_def)
    ultimately show ?thesis using IH(1-4) c True by (auto simp: max_def)
  next
    case False
    then have "frontier_activate ex w (Some r) fs = Inr (Some r, [])" "?r = r"
      by (simp_all add: frontier_activate_def f)
    with IH(1-4) c show ?thesis by auto
  qed
qed

lemma frontier_run_append:
  "frontier_run ex w cap (xs @ ys) = ebind (frontier_run ex w cap xs) (\<lambda>(cap', out).
     emap (\<lambda>(cap'', out'). (cap'', out @ out')) (frontier_run ex w cap' ys))"
proof (induction xs arbitrary: cap)
  case Nil
  show ?case by (cases "frontier_run ex w cap ys") auto
next
  case (Cons x xs)
  show ?case
  proof (cases "frontier_activate ex w cap x")
    case (Inr a)
    obtain c o1 where a: "a = (c, o1)" by fastforce
    show ?thesis
    proof (cases "frontier_run ex w c xs")
      case (Inr b)
      obtain c' o2 where b: "b = (c', o2)" by fastforce
      show ?thesis using \<open>frontier_activate ex w cap x = Inr a\<close> Inr Cons [of c]
        by (cases "frontier_run ex w c' ys") (auto simp: a b)
    qed (simp add: Inr a Cons [of c])
  qed simp
qed

lemma frontier_run_done: "frontier_run ex w None acts = Inr (None, [])"
  by (induction acts) (simp_all add: frontier_activate_def)

section \<open>Serialized snapshots\<close>

lemma de_ser_snap:
  assumes "\<And>v. \<exists>s. ser v = Inr s \<and> de s = Inr v"
  shows "\<exists>rows. ser_snap ser e ss = Inr rows \<and> list_all2 (\<lambda>s ((step, key), r).
      step = sn_step s \<and> key = sn_key s \<and> ss_id r = (step, key) \<and> ss_epoch r = e \<and> de_snap de r = Inr s) ss rows"
proof (induction ss)
  case Nil
  then show ?case by (simp add: ser_snap_def)
next
  case (Cons s ss)
  then obtain rows where IH: "ser_snap ser e ss = Inr rows" "list_all2 (\<lambda>s ((step, key), r).
      step = sn_step s \<and> key = sn_key s \<and> ss_id r = (step, key) \<and> ss_epoch r = e \<and> de_snap de r = Inr s) ss rows"
    by blast
  obtain step key change where s: "s = Snapshot step key change" by (cases s)
  show ?case
  proof (cases change)
    case (Upsert v)
    from assms [of v] obtain x where x: "ser v = Inr x" "de x = Inr v" by blast
    let ?row = "((step, key), SerializedSnapshot step key e (Some x))"
    have "ser_snap ser e (s # ss) = Inr (?row # rows)"
      using IH(1) by (simp add: ser_snap_def s Upsert x)
    with IH(2) show ?thesis by (intro exI [of _ "?row # rows"]) (simp add: s Upsert de_snap_def x)
  next
    case Discard
    let ?row = "((step, key), SerializedSnapshot step key e None)"
    have "ser_snap ser e (s # ss) = Inr (?row # rows)"
      using IH(1) by (simp add: ser_snap_def s Discard)
    with IH(2) show ?thesis by (intro exI [of _ "?row # rows"]) (simp add: s Discard de_snap_def)
  qed
qed

section \<open>Properties\<close>

text \<open>Claim C24. A worker's progress is reported truthfully: from the resume epoch on, whatever
  frontiers an activation sees, the reported frontiers strictly increase and the last is the largest
  seen; each is written in an epoch before it; and at the end of input exactly one more report
  follows, one past the last epoch, and nothing after.\<close>

theorem frontier_reports:
  assumes "list_all (\<lambda>fs. simplify fs \<noteq> None) acts" and "simplify eof = None" and "init_cap \<le> rf_epoch rf"
  shows "\<exists>cap c out. frontier_start rf init_cap = Inr cap \<and>
    frontier_run (rf_ex rf) w cap acts = Inr (Some c, out) \<and>
    list_all (front_ok (rf_ex rf) w) out \<and> sorted_wrt (<) (rf_epoch rf # reported out) \<and>
    last (rf_epoch rf # reported out) = c \<and> c = Max (insert (rf_epoch rf) (set (List.map_filter simplify acts))) \<and>
    (\<forall>rest. frontier_run (rf_ex rf) w cap (acts @ eof # rest) =
      Inr (None, out @ [(c, (rf_ex rf, w), FrontierMeta (rf_ex rf) w (c + 1))]))"
proof -
  have s: "frontier_start rf init_cap = Inr (Some (rf_epoch rf))"
    using assms(3) by (simp add: frontier_start_def downgrade_all_def cap_downgrade_def)
  from frontier_run_open [OF assms(1), of "rf_ex rf" w "rf_epoch rf"] obtain c out where
    r: "frontier_run (rf_ex rf) w (Some (rf_epoch rf)) acts = Inr (Some c, out)"
      "list_all (front_ok (rf_ex rf) w) out" "sorted_wrt (<) (rf_epoch rf # reported out)"
      "last (rf_epoch rf # reported out) = c"
      "c = Max (insert (rf_epoch rf) (set (List.map_filter simplify acts)))" by blast
  have "frontier_activate (rf_ex rf) w (Some c) eof =
      Inr (None, [(c, (rf_ex rf, w), FrontierMeta (rf_ex rf) w (c + 1))])"
    by (simp add: frontier_activate_def assms(2))
  then have "frontier_run (rf_ex rf) w (Some (rf_epoch rf)) (acts @ eof # rest) =
      Inr (None, out @ [(c, (rf_ex rf, w), FrontierMeta (rf_ex rf) w (c + 1))])" for rest
    by (simp add: frontier_run_append r(1) frontier_run_done)
  with s r show ?thesis by blast
qed

theorem frontier_reports_witness:
  "\<exists>cap c out. frontier_start (ResumeFrom 2 5) 0 = Inr cap \<and>
    frontier_run 2 1 cap [[[0]], [[6]], [[6], [8]], [[9]]] = Inr (Some c, out) \<and>
    list_all (front_ok 2 1) out \<and> sorted_wrt (<) (5 # reported out) \<and> last (5 # reported out) = c \<and>
    c = Max (insert 5 (set (List.map_filter simplify [[[0]], [[6]], [[6], [8]], [[9]]]))) \<and>
    (\<forall>rest. frontier_run 2 1 cap ([[[0]], [[6]], [[6], [8]], [[9]]] @ [[]] # rest) =
      Inr (None, out @ [(c, (2, 1), FrontierMeta 2 1 (c + 1))]))"
  using frontier_reports [of "[[[0]], [[6]], [[6], [8]], [[9]]]" "[[]]" 0 "ResumeFrom 2 5" 1]
  by (simp add: simplify_def simplify_one_def List.map_filter_simps)

text \<open>State survives the recovery store: given a serialization that can read what it
  writes, the snapshots a step emits at the end of an epoch are written under their step and key
  and that epoch, are loaded again at that same epoch without a panic, and the filter for the step
  gives back the keys and state changes of exactly that step, in order.\<close>

theorem snapshots_round_trip:
  assumes "\<And>v. \<exists>s. ser v = Inr s \<and> de s = Inr v"
  shows "\<exists>rows. ser_snap ser e ss = Inr rows \<and>
    map fst rows = map (\<lambda>s. (sn_step s, sn_key s)) ss \<and>
    load_snaps de (map (\<lambda>(_, r). (0, r)) rows) = Inr (map (Pair e) ss) \<and>
    filter_snaps step ss = map (\<lambda>s. (sn_key s, sn_change s)) (filter (\<lambda>s. sn_step s = step) ss)"
proof -
  obtain rows where rows: "ser_snap ser e ss = Inr rows" "list_all2 (\<lambda>s ((step, key), r).
      step = sn_step s \<and> key = sn_key s \<and> ss_id r = (step, key) \<and> ss_epoch r = e \<and> de_snap de r = Inr s) ss rows"
    using de_ser_snap [where ser = ser and de = de, OF assms, of e ss] by blast
  from rows(2) have "map fst rows = map (\<lambda>s. (sn_step s, sn_key s)) ss"
    by (induction rule: list_all2_induct) auto
  moreover from rows(2) have "load_snaps de (map (\<lambda>(_, r). (0, r)) rows) = Inr (map (Pair e) ss)"
    by (induction rule: list_all2_induct) (auto simp: load_snaps_def cap_downgrade_def)
  moreover have "filter_snaps step ss = map (\<lambda>s. (sn_key s, sn_change s)) (filter (\<lambda>s. sn_step s = step) ss)"
    by (induction ss) (auto simp: filter_snaps_def List.map_filter_simps split: snapshot.split)
  ultimately show ?thesis using rows(1) by blast
qed

theorem snapshots_round_trip_witness:
  "\<exists>rows. ser_snap Inr 4 [Snapshot (1 :: nat) (2 :: nat) (Upsert ''x''), Snapshot 3 2 Discard] = Inr rows \<and>
    map fst rows = map (\<lambda>s. (sn_step s, sn_key s)) [Snapshot (1 :: nat) (2 :: nat) (Upsert ''x''), Snapshot 3 2 Discard] \<and>
    load_snaps Inr (map (\<lambda>(_, r). (0, r)) rows) = Inr (map (Pair 4) [Snapshot 1 2 (Upsert ''x''), Snapshot 3 2 Discard]) \<and>
    filter_snaps (3 :: nat) [Snapshot (1 :: nat) (2 :: nat) (Upsert ''x''), Snapshot 3 2 Discard] =
      map (\<lambda>s. (sn_key s, sn_change s))
        (filter (\<lambda>s. sn_step s = 3) [Snapshot (1 :: nat) (2 :: nat) (Upsert ''x''), Snapshot 3 2 Discard])"
  by (rule snapshots_round_trip) simp

section \<open>Gathering the progress rows\<close>

text \<open>The rows of all messages of an activation, and the database with them.\<close>

type_synonym calc_rows = "partition_meta list \<times> execution_meta list \<times> frontier_meta list \<times> commit_meta list"

definition msg_rows :: "calc_msgs \<Rightarrow> calc_rows" where
  "msg_rows m = (concat (map snd (cm_parts m)), concat (map snd (cm_exs m)),
     concat (map snd (cm_fronts m)), concat (map snd (cm_commits m)))"

definition db_of :: "calc_rows \<Rightarrow> ('s, 'k) recovery_part" where
  "db_of = (\<lambda>(ps, xs, fs, cs). \<lparr>parts = ps, exs = xs,
     fronts = foldl (upsert_row (\<lambda>r. (fm_ex r, fm_worker r))) [] fs, commits = cs, snaps = []\<rparr>)"

fun add_rows :: "calc_rows \<Rightarrow> calc_rows \<Rightarrow> calc_rows" where
  "add_rows (ps, xs, fs, cs) (ps', xs', fs', cs') = (ps @ ps', xs @ xs', fs @ fs', cs @ cs')"

definition all_rows :: "calc_msgs list \<Rightarrow> calc_rows" where
  "all_rows ms = foldl (\<lambda>rows m. add_rows rows (msg_rows m)) ([], [], [], []) ms"

fun rows_ok :: "calc_rows \<Rightarrow> bool" where
  "rows_ok (ps, xs, fs, cs) \<longleftrightarrow> distinct (map pm_index ps) \<and> list_all parts_pk_check ps \<and>
     distinct (map em_ex xs) \<and> list_all (\<lambda>x. 0 < em_workers x) xs \<and> distinct (map cm_part cs)"

text \<open>All messages are in the load epoch.\<close>

definition msgs_at :: "epoch \<Rightarrow> calc_msgs \<Rightarrow> bool" where
  "msgs_at e m \<longleftrightarrow> list_all (\<lambda>x. fst x = e) (cm_parts m) \<and> list_all (\<lambda>x. fst x = e) (cm_exs m) \<and>
     list_all (\<lambda>x. fst x = e) (cm_fronts m) \<and> list_all (\<lambda>x. fst x = e) (cm_commits m)"

definition some_msg :: "calc_msgs \<Rightarrow> bool" where
  "some_msg m \<longleftrightarrow> cm_parts m \<noteq> [] \<or> cm_exs m \<noteq> [] \<or> cm_fronts m \<noteq> [] \<or> cm_commits m \<noteq> []"

definition buf_at :: "epoch \<Rightarrow> (epoch \<times> 'a list) list \<Rightarrow> 'a in_buffer" where
  "buf_at e msgs = (if msgs = [] then [] else [(e, concat (map snd msgs))])"

definition queue_at :: "epoch \<Rightarrow> bool \<Rightarrow> epoch bset" where
  "queue_at e b = (if b then [e] else [])"

lemma buffer_at:
  assumes "list_all (\<lambda>x. fst x = e) msgs" and "caps_state nc \<noteq> None" and "queue nc = queue_at e q"
  shows "buffer_notify msgs [] nc = Inr (buf_at e msgs, nc\<lparr>queue := queue_at e (q \<or> msgs \<noteq> [])\<rparr>)"
proof -
  have more: "efold buffer_step ([(e, xs)], nc') ms = Inr ([(e, xs @ concat (map snd ms))], nc')"
    if "list_all (\<lambda>x. fst x = e) ms" "caps_state nc' \<noteq> None" "queue nc' = [e]" for ms xs nc'
    using that
  proof (induction ms arbitrary: xs)
    case (Cons m ms)
    then have "buffer_step ([(e, xs)], nc') m = Inr ([(e, xs @ snd m)], nc')"
      by (cases m) (simp add: buffer_step_def notify_at_def inbuf_extend_def bt_entry_def)
    with Cons show ?case by simp
  qed simp
  show ?thesis
  proof (cases msgs)
    case Nil
    with assms(3) show ?thesis by (simp add: buffer_notify_def buf_at_def)
  next
    case (Cons m ms)
    let ?nc = "nc\<lparr>queue := [e]\<rparr>"
    have "buffer_step ([], nc) m = Inr ([(e, snd m)], ?nc)"
      using assms Cons by (cases m)
        (simp add: buffer_step_def notify_at_def inbuf_extend_def bt_entry_def queue_at_def split: if_splits)
    moreover have "efold buffer_step ([(e, snd m)], ?nc) ms = Inr ([(e, snd m @ concat (map snd ms))], ?nc)"
      using assms(1,2) Cons by (intro more) simp_all
    ultimately show ?thesis using Cons
      by (simp add: buffer_notify_def buf_at_def queue_at_def)
  qed
qed

text \<open>Writing the buffered rows.\<close>

lemma remove_at: "inbuf_remove (buf_at e msgs) e = ([], if msgs = [] then None else Some (concat (map snd msgs)))"
  by (simp add: inbuf_remove_def buf_at_def bt_remove_def)

lemma write_all:
  assumes "rows_ok (add_rows rows (ps, xs, fs, cs))"
    and "mp \<Longrightarrow> ps = []" and "mx \<Longrightarrow> xs = []" and "mf \<Longrightarrow> fs = []" and "mc \<Longrightarrow> cs = []"
  shows "ebind (write_if write_parts (if mp then None else Some ps) (db_of rows :: ('s, 'k) recovery_part)) (\<lambda>db.
    ebind (write_if write_exs (if mx then None else Some xs) db) (\<lambda>db.
    ebind (write_if write_fronts (if mf then None else Some fs) db) (\<lambda>db.
    emap g (write_if write_commits (if mc then None else Some cs) db)))) =
    Inr (g (db_of (add_rows rows (ps, xs, fs, cs))))"
proof -
  obtain ps0 xs0 fs0 cs0 where rows: "rows = (ps0, xs0, fs0, cs0)" by (metis prod_cases4)
  define pm where "pm = (if mp then None else Some ps)"
  define xm where "xm = (if mx then None else Some xs)"
  define fm where "fm = (if mf then None else Some fs)"
  define cm where "cm = (if mc then None else Some cs)"
  have p: "write_if write_parts pm db = Inr (db\<lparr>parts := ps0 @ ps\<rparr>)"
    if "parts db = ps0" for db :: "('s, 'k) recovery_part"
    using assms(1,2) that by (auto simp: pm_def xm_def cm_def rows write_if_def write_parts_def list_all_iff insert_rows)
  have x: "write_if write_exs xm db = Inr (db\<lparr>exs := xs0 @ xs\<rparr>)"
    if "exs db = xs0" for db :: "('s, 'k) recovery_part"
    using assms(1,3) that by (auto simp: pm_def xm_def cm_def rows write_if_def write_exs_def list_all_iff insert_rows)
  have f: "write_if write_fronts fm db =
      Inr (db\<lparr>fronts := foldl (upsert_row (\<lambda>r. (fm_ex r, fm_worker r))) [] (fs0 @ fs)\<rparr>)"
    if "fronts db = foldl (upsert_row (\<lambda>r. (fm_ex r, fm_worker r))) [] fs0" for db :: "('s, 'k) recovery_part"
    using assms(4) that by (auto simp: fm_def write_if_def write_fronts_def simp flip: that)
  have c: "write_if write_commits cm db = Inr (db\<lparr>commits := cs0 @ cs\<rparr>)"
    if "commits db = cs0" for db :: "('s, 'k) recovery_part"
    using assms(1,5) that by (auto simp: pm_def xm_def cm_def rows write_if_def write_commits_def insert_rows)
  show ?thesis unfolding pm_def [symmetric] xm_def [symmetric] fm_def [symmetric] cm_def [symmetric]
    by (simp add: rows db_of_def p x f c)
qed

definition calc_st :: "calc_rows \<Rightarrow> bool \<Rightarrow> unit notificator \<times> ('s, 'k) recovery_part \<times> calc_bufs" where
  "calc_st rows q = (\<lparr>caps_state = Some ([0], ()), queue = queue_at 0 q\<rparr>, db_of rows, [], [], [], [])"

definition calc_done :: "calc_rows \<Rightarrow> unit notificator \<times> ('s, 'k) recovery_part \<times> calc_bufs" where
  "calc_done rows = (\<lparr>caps_state = None, queue = []\<rparr>, db_of rows, [], [], [], [])"

abbreviation calc_b :: "calc_rows \<Rightarrow> calc_msgs \<Rightarrow> ('s, 'k) recovery_part \<times> calc_bufs" where
  "calc_b rows m \<equiv> (db_of rows, buf_at 0 (cm_parts m), buf_at 0 (cm_exs m), buf_at 0 (cm_fronts m), buf_at 0 (cm_commits m))"

lemma calc_eager_rows:
  assumes "rows_ok (add_rows rows (msg_rows m))"
  shows "calc_eager [0] ((), calc_b rows m) = Inr (((), db_of (add_rows rows (msg_rows m)), [], [], [], []), [])"
  unfolding calc_eager_def Let_def prod.case remove_at nth_Cons_0 msg_rows_def
  by (rule write_all [OF assms [unfolded msg_rows_def]]) simp_all

lemma calc_activate_buffers:
  assumes "msgs_at 0 m"
  shows "calc_activate m fs (calc_st rows q) =
    emap (\<lambda>(nc, b, out). ((nc, b), out))
      (for_each calc_eager calc_close fs
        \<lparr>caps_state = Some ([0], ()), queue = queue_at 0 (q \<or> some_msg m)\<rparr> (calc_b rows m))"
proof -
  let ?nc = "\<lambda>q. \<lparr>caps_state = Some ([0 :: epoch], ()), queue = queue_at 0 q\<rparr>"
  have buf: "buffer_notify msgs [] (?nc q) = Inr (buf_at 0 msgs, ?nc (q \<or> msgs \<noteq> []))"
    if "list_all (\<lambda>x. fst x = 0) msgs" for q and msgs :: "(epoch \<times> 'x list) list"
    using buffer_at [OF that, of "?nc q" q] by simp
  note bufs = buf [of "cm_parts m"] buf [of "cm_exs m"] buf [of "cm_fronts m"] buf [of "cm_commits m"]
  have flag: "((((q \<or> cm_parts m \<noteq> []) \<or> cm_exs m \<noteq> []) \<or> cm_fronts m \<noteq> []) \<or> cm_commits m \<noteq> []) \<longleftrightarrow> q \<or> some_msg m"
    by (auto simp: some_msg_def)
  show ?thesis using assms
    by (simp add: calc_activate_def calc_st_def msgs_at_def bufs flip: flag)
qed

lemma no_msg: "\<not> some_msg m \<Longrightarrow> msg_rows m = ([], [], [], [])" "\<not> some_msg m \<Longrightarrow> calc_b rows m = (db_of rows, [], [], [], [])"
  by (simp_all add: some_msg_def msg_rows_def buf_at_def)

lemma add_no_rows [simp]: "add_rows rows ([], [], [], []) = rows"
  by (cases rows) simp

lemma downgrade_zero [simp]: "downgrade_all 0 [0] = Inr [0]"
  by (simp add: downgrade_all_def cap_downgrade_def)

text \<open>An activation at the load epoch, and the one that sees the end of all inputs.\<close>

lemma calc_step_open:
  assumes "msgs_at 0 m" and "simplify fs = Some 0" and "rows_ok (add_rows rows (msg_rows m))"
  shows "calc_activate m fs (calc_st rows q) = Inr (calc_st (add_rows rows (msg_rows m)) (q \<or> some_msg m), [])"
proof (cases "q \<or> some_msg m")
  case True
  then show ?thesis
    unfolding calc_activate_buffers [OF assms(1)]
    by (simp add: calc_eager_rows [OF assms(3)] for_each_def assms(2) queue_at_def calc_st_def)
next
  case False
  with no_msg [of m] show ?thesis
    unfolding calc_activate_buffers [OF assms(1)]
    by (simp add: calc_eager_rows [OF assms(3)] for_each_def assms(2) queue_at_def calc_st_def)
qed

lemma calc_step_eof:
  assumes "msgs_at 0 m" and "simplify fs = None" and "rows_ok (add_rows rows (msg_rows m))"
  shows "calc_activate m fs (calc_st rows q) =
    Inr (calc_done (add_rows rows (msg_rows m)), if q \<or> some_msg m then [(0, ())] else [])"
proof (cases "q \<or> some_msg m")
  case True
  then show ?thesis
    unfolding calc_activate_buffers [OF assms(1)]
    by (simp add: calc_eager_rows [OF assms(3)] for_each_def assms(2) queue_at_def calc_done_def calc_close_def)
next
  case False
  with no_msg [of m] show ?thesis
    unfolding calc_activate_buffers [OF assms(1)]
    by (simp add: calc_eager_rows [OF assms(3)] for_each_def assms(2) queue_at_def calc_done_def)
qed

lemma rows_ok_prefix: "rows_ok (add_rows rows rs) \<Longrightarrow> rows_ok rows"
  by (cases rows; cases rs) auto

lemma add_rows_assoc: "add_rows (add_rows a b) c = add_rows a (add_rows b c)"
  by (cases a; cases b; cases c) simp

lemma all_rows_from: "foldl (\<lambda>r m. add_rows r (msg_rows m)) rows ms = add_rows rows (all_rows ms)"
proof (induction ms rule: rev_induct)
  case Nil
  show ?case by (simp add: all_rows_def)
next
  case (snoc m ms)
  then show ?case by (simp add: all_rows_def add_rows_assoc)
qed

lemma calc_run_rows:
  assumes "list_all (\<lambda>(m, fs). msgs_at 0 m \<and> simplify fs = Some 0) acts" and "msgs_at 0 m" and "simplify eof = None"
    and "rows_ok (add_rows rows (all_rows (map fst acts @ [m])))"
  shows "\<exists>out. calc_run (calc_st rows q :: unit notificator \<times> ('s, 'k) recovery_part \<times> calc_bufs) (acts @ [(m, eof)]) =
    Inr (calc_done (add_rows rows (all_rows (map fst acts @ [m]))), out)"
  using assms(1,4)
proof (induction acts arbitrary: rows q)
  case Nil
  have m: "all_rows [m] = msg_rows m" by (cases "msg_rows m") (simp add: all_rows_def)
  then have ok: "rows_ok (add_rows rows (msg_rows m))" using Nil by simp
  from m show ?case by (simp add: calc_step_eof [OF assms(2,3) ok])
next
  case (Cons a acts)
  obtain m' fs where a: "a = (m', fs)" by fastforce
  have split: "add_rows rows (all_rows (map fst (a # acts) @ [m])) =
      add_rows (add_rows rows (msg_rows m')) (all_rows (map fst acts @ [m]))"
    by (simp add: a all_rows_from [symmetric])
  then have ok: "rows_ok (add_rows (add_rows rows (msg_rows m')) (all_rows (map fst acts @ [m])))"
    using Cons.prems(2) by simp
  from Cons.prems(1) have "calc_activate m' fs (calc_st rows q :: unit notificator \<times> ('s, 'k) recovery_part \<times> calc_bufs) =
      Inr (calc_st (add_rows rows (msg_rows m')) (q \<or> some_msg m'), [])"
    by (intro calc_step_open rows_ok_prefix [OF ok]) (simp_all add: a)
  with Cons.IH [OF _ ok, of "q \<or> some_msg m'"] Cons.prems(1) show ?case
    unfolding split by (auto simp: a)
qed

lemma calc_start_st: "calc_start = calc_st ([], [], [], []) False"
  by (simp add: calc_start_def calc_st_def nc_new_def queue_at_def db_of_def empty_part_def inbuf_new_def)

lemma fronts_once:
  assumes "distinct (map (\<lambda>r. (fm_ex r, fm_worker r)) (rows @ fs))"
  shows "foldl (upsert_row (\<lambda>r. (fm_ex r, fm_worker r))) rows fs = rows @ fs"
  using assms
proof (induction fs arbitrary: rows)
  case (Cons f fs)
  then have "upsert_row (\<lambda>r. (fm_ex r, fm_worker r)) rows f = rows @ [f]"
    by (auto simp: upsert_row_def)
  with Cons show ?case by simp
qed simp



end
