(* ===== verification/Write_Recovery.thy ===== *)
theory Write_Recovery
  imports Partd_Write Recovery_Ops
begin

text \<open>
  The recovery system of a running cluster: \<^verbatim>\<open>write_recovery\<close> of \<^verbatim>\<open>src/src/recovery.rs\<close> on all workers.
  The row of the execution, the snapshots and the frontiers each go through a \<^verbatim>\<open>partd_write\<close>, the clocks
  of the first two drive \<^verbatim>\<open>frontier\<close>, the clock of the frontiers drives \<^verbatim>\<open>partd_commit\<close>; all write to the
  databases of the recovery partitions. The operators are those of the theories before; what Timely
  does between them is a step relation: messages arrive in any order, operators of any worker are
  activated at any time, and the frontier an operator sees is a lower bound of what can still reach it
  and does not go back. The theory starts where epoch 0 is closed: the primaries are assigned, every
  worker has built its partitions, and all capabilities are at the resume epoch.
\<close>

section \<open>The cluster\<close>

text \<open>
  The workers, the partitions each can open, the primaries that \<^verbatim>\<open>assign_primaries\<close> gave them, the hash
  functions, the serializer, where the execution resumed and the delay of the committer.
\<close>

record ('s, 'k, 'v) wr_config =
  wc_workers :: nat
  wc_local :: "worker \<Rightarrow> part_index list"
  wc_prim :: "(part_index, worker) btree"
  wc_pf_ex :: "ex_num \<Rightarrow> nat"
  wc_pf_snap :: "'s \<times> 'k \<Rightarrow> nat"
  wc_pf_front :: "ex_num \<times> worker \<Rightarrow> nat"
  wc_ser :: "'v \<Rightarrow> string res"
  wc_from :: resume_from
  wc_delay :: epoch

text \<open>What all workers announce with \<^verbatim>\<open>into_broadcast\<close>, and the partitions known from it.\<close>

definition announced :: "('s, 'k, 'v) wr_config \<Rightarrow> (part_index \<times> worker) list" where
  "announced C = concat (map (\<lambda>w. map (\<lambda>p. (p, w)) (wc_local C w)) (w_iter (wc_workers C)))"

definition all_known :: "('s, 'k, 'v) wr_config \<Rightarrow> part_index bset" where
  "all_known C = bs_extend [] (map fst (announced C))"

definition config_ok :: "('s, 'k, 'v) wr_config \<Rightarrow> bool" where
  "config_ok C \<longleftrightarrow> announced C \<noteq> [] \<and> (\<exists>us pick. sorts_by_key us \<and> picks_least pick \<and>
     calc_primaries us pick (foldl learn_part [] (announced C)) = Inr (wc_prim C))"

text \<open>\<^verbatim>\<open>RecoveryBundle::new_builder\<close>: a worker can open the partitions it has a path of.\<close>

definition open_part :: "('s, 'k, 'v) wr_config \<Rightarrow> worker \<Rightarrow> part_index \<Rightarrow> part_index res" where
  "open_part C w p = (if p \<in> set (wc_local C w) then Inr p
     else Inl (PanicMsg ''Trying to build RecoveryPartition but no path is known''))"

text \<open>\<^verbatim>\<open>partition\<close> and \<^verbatim>\<open>route\<close> of a keyed item.\<close>

definition route_kv :: "('s, 'k, 'v) wr_config \<Rightarrow> ('a \<Rightarrow> nat) \<Rightarrow> 'a \<times> 'b \<Rightarrow> (worker \<times> part_index \<times> 'a \<times> 'b) res" where
  "route_kv C pf kv = ebind (assign_part pf (all_known C) kv)
     (route_item (foldl learn_route [] (changed_primaries [] (wc_prim C))))"

section \<open>A \<^verbatim>\<open>partd_write\<close> on every worker\<close>

type_synonym 'v writer_op =
  "(part_index, part_index) btree notificator \<times> (part_index, 'v) items_inbuf \<times> (part_index \<times> worker) in_buffer"

text \<open>The messages on their way to each worker; \<open>st_in\<close> remembers everything that was sent.\<close>

record ('k, 'v) stage =
  st_ops :: "worker \<Rightarrow> 'v writer_op"
  st_flight :: "worker \<Rightarrow> (epoch \<times> (worker \<times> part_index \<times> 'k \<times> 'v) list) multiset"
  st_in :: "(epoch \<times> worker \<times> part_index \<times> 'k \<times> 'v) list"

definition nc_cap :: "'d notificator \<Rightarrow> epoch option" where
  "nc_cap nc = map_option (\<lambda>(caps, _). caps ! 0) (caps_state nc)"

definition st_cap :: "('k, 'v) stage \<Rightarrow> worker \<Rightarrow> epoch option" where
  "st_cap st w = nc_cap (fst (st_ops st w))"

text \<open>\<^verbatim>\<open>routed_exchange\<close>: each worker gets the items that name it.\<close>

definition send_routed ::
  "epoch \<Rightarrow> (worker \<times> part_index \<times> 'k \<times> 'v) list \<Rightarrow> ('k, 'v) stage \<Rightarrow> ('k, 'v) stage" where
  "send_routed e routed st =
     st\<lparr>st_flight := (\<lambda>w. case filter (\<lambda>x. fst x = w) routed of
            [] \<Rightarrow> st_flight st w
          | x # xs \<Rightarrow> add_mset (e, x # xs) (st_flight st w)),
        st_in := st_in st @ map (Pair e) routed\<rparr>"

definition built_parts :: "('s, 'k, 'v) wr_config \<Rightarrow> worker \<Rightarrow> (part_index, part_index) btree" where
  "built_parts C w = (case update_parts w (open_part C w) [] (changed_primaries [] (wc_prim C)) of
     Inr ps \<Rightarrow> ps | Inl _ \<Rightarrow> [])"

definition op_start :: "('s, 'k, 'v) wr_config \<Rightarrow> worker \<Rightarrow> (part_index, part_index) btree notificator" where
  "op_start C w = \<lparr>caps_state = Some ([rf_epoch (wc_from C)], built_parts C w), queue = []\<rparr>"

definition stage_start :: "('s, 'k, 'v) wr_config \<Rightarrow> ('a, 'b) stage" where
  "stage_start C = \<lparr>st_ops = (\<lambda>w. (op_start C w, [], inbuf_new)), st_flight = (\<lambda>_. {#}), st_in = []\<rparr>"

text \<open>One activation on worker \<open>w\<close>, which takes \<open>msgs\<close> out of what is on its way.\<close>

definition stage_activate ::
  "('s, 'k, 'v) wr_config \<Rightarrow> ('b list \<Rightarrow> 'db \<Rightarrow> 'db res) \<Rightarrow> worker \<Rightarrow>
    (epoch \<times> (worker \<times> part_index \<times> 'a \<times> 'b) list) list \<Rightarrow> frontier list \<Rightarrow> ('a, 'b) stage \<Rightarrow> (part_index \<Rightarrow> 'db) \<Rightarrow>
    (('a, 'b) stage \<times> (part_index \<Rightarrow> 'db) \<times> (epoch \<times> unit) list) res" where
  "stage_activate C W w msgs fs st store = (case st_ops st w of (nc, items, primaries) \<Rightarrow>
     emap (\<lambda>((nc', items', primaries', store'), out).
         (st\<lparr>st_ops := (st_ops st)(w := (nc', items', primaries')),
             st_flight := (st_flight st)(w := st_flight st w - mset msgs)\<rparr>, store', out))
       (write_activate w (open_part C w) (table_write W) (wc_local C w) msgs [] fs (nc, items, primaries, store)))"

section \<open>\<^verbatim>\<open>write_recovery\<close>\<close>

text \<open>
  \<open>sy_snaps\<close> are the capabilities of the steps' snapshot streams, \<open>sy_rep\<close> those of \<^verbatim>\<open>frontier\<close>.
\<close>

record ('s, 'k) wr_sys =
  sy_snaps :: "worker \<Rightarrow> epoch option"
  sy_ex :: "(ex_num, execution_meta) stage"
  sy_snap :: "('s \<times> 'k, ('s, 'k) serialized_snapshot) stage"
  sy_rep :: "worker \<Rightarrow> epoch option"
  sy_front :: "(ex_num \<times> worker, frontier_meta) stage"
  sy_ticks :: "worker \<Rightarrow> (epoch \<times> unit list) multiset"
  sy_com :: "worker \<Rightarrow> (part_index, part_index) btree notificator \<times> unit in_buffer \<times> (part_index \<times> worker) in_buffer"
  sy_store :: "part_index \<Rightarrow> ('s, 'k) recovery_part"

text \<open>The row of the execution is sent by worker 0 at the resume epoch.\<close>

definition send_ex :: "('s, 'k, 'v) wr_config \<Rightarrow> (ex_num, execution_meta) stage \<Rightarrow> (ex_num, execution_meta) stage" where
  "send_ex C st = foldl (\<lambda>st (e, kv). case route_kv C (wc_pf_ex C) kv of Inr r \<Rightarrow> send_routed e [r] st | Inl _ \<Rightarrow> st) st
     (snd (write_ex_source 0 (wc_from C) (ex_row (wc_workers C) (wc_from C))))"

definition wr_init :: "('s, 'k, 'v) wr_config \<Rightarrow> (part_index \<Rightarrow> ('s, 'k) recovery_part) \<Rightarrow> ('s, 'k) wr_sys" where
  "wr_init C store =
     \<lparr>sy_snaps = (\<lambda>_. Some (rf_epoch (wc_from C))), sy_ex = send_ex C (stage_start C), sy_snap = stage_start C,
      sy_rep = (\<lambda>_. Some (rf_epoch (wc_from C))), sy_front = stage_start C, sy_ticks = (\<lambda>_. {#}),
      sy_com = (\<lambda>w. (op_start C w, inbuf_new, inbuf_new)), sy_store = store\<rparr>"

text \<open>
  \<open>T\<close> are the times of the messages and capabilities that can still lead to input: the frontier is not
  ahead of any of them, and it is empty only if there are none.
\<close>

definition sees :: "epoch option \<Rightarrow> epoch set \<Rightarrow> bool" where
  "sees fr T \<longleftrightarrow> (case fr of Some f \<Rightarrow> (\<forall>t \<in> T. f \<le> t) | None \<Rightarrow> T = {})"

definition not_back :: "epoch option \<Rightarrow> epoch option \<Rightarrow> bool" where
  "not_back cap fr \<longleftrightarrow> (case fr of Some f \<Rightarrow> (case cap of Some c \<Rightarrow> c \<le> f | None \<Rightarrow> False) | None \<Rightarrow> True)"

definition caps_of :: "nat \<Rightarrow> (worker \<Rightarrow> epoch option) \<Rightarrow> epoch set" where
  "caps_of n f = {c. \<exists>w < n. f w = Some c}"

definition allowed ::
  "(epoch \<times> 'a) multiset \<Rightarrow> epoch set \<Rightarrow> epoch option \<Rightarrow> (epoch \<times> 'a) list \<Rightarrow> frontier list \<Rightarrow> bool" where
  "allowed flight up cap msgs fs \<longleftrightarrow> mset msgs \<subseteq># flight \<and>
     sees (simplify fs) (fst ` set_mset (flight - mset msgs) \<union> up) \<and> not_back cap (simplify fs)"

definition table_commit ::
  "(part_index \<Rightarrow> ('s, 'k) recovery_part) \<Rightarrow> part_index \<Rightarrow> epoch \<Rightarrow> ((part_index \<Rightarrow> ('s, 'k) recovery_part) \<times> part_index) res" where
  "table_commit store p e = emap (\<lambda>db. (store(p := db), p)) (committer_commit p (store p) e)"

definition commit_stage ::
  "('s, 'k, 'v) wr_config \<Rightarrow> worker \<Rightarrow> (epoch \<times> unit list) list \<Rightarrow> frontier list \<Rightarrow> ('s, 'k) wr_sys \<Rightarrow>
    (('s, 'k) wr_sys \<times> (epoch \<times> unit) list) res" where
  "commit_stage C w msgs fs s = (case sy_com s w of (nc, clock, primaries) \<Rightarrow>
     emap (\<lambda>((nc', clock', primaries', store'), out).
         (s\<lparr>sy_com := (sy_com s)(w := (nc', clock', primaries')),
            sy_ticks := (sy_ticks s)(w := sy_ticks s w - mset msgs), sy_store := store'\<rparr>, out))
       (commit_activate w (open_part C w) table_commit (wc_delay C) msgs [] fs (nc, clock, primaries, sy_store s)))"

text \<open>Reports are routed like any other rows.\<close>

definition send_reports ::
  "('s, 'k, 'v) wr_config \<Rightarrow> (epoch \<times> front_row) list \<Rightarrow> (ex_num \<times> worker, frontier_meta) stage \<Rightarrow>
    (ex_num \<times> worker, frontier_meta) stage res" where
  "send_reports C out st = efold (\<lambda>st (e, kv). emap (\<lambda>r. send_routed e [r] st) (route_kv C (wc_pf_front C) kv)) st out"

inductive wr_step :: "('s, 'k, 'v) wr_config \<Rightarrow> ('s, 'k) wr_sys \<Rightarrow> ('s, 'k) wr_sys \<Rightarrow> bool" for C where
  snap: "w < wc_workers C \<Longrightarrow> sy_snaps s w = Some c \<Longrightarrow> c \<le> e \<Longrightarrow>
    ser_snap (wc_ser C) e ss = Inr rows \<Longrightarrow> emapM (route_kv C (wc_pf_snap C)) rows = Inr routed \<Longrightarrow>
    wr_step C s (s\<lparr>sy_snap := send_routed e routed (sy_snap s)\<rparr>)"
| advance: "w < wc_workers C \<Longrightarrow> sy_snaps s w = Some c \<Longrightarrow> (case cap of Some c' \<Rightarrow> c \<le> c' | None \<Rightarrow> True) \<Longrightarrow>
    wr_step C s (s\<lparr>sy_snaps := (sy_snaps s)(w := cap)\<rparr>)"
| write_ex: "w < wc_workers C \<Longrightarrow> allowed (st_flight (sy_ex s) w) {} (st_cap (sy_ex s) w) msgs fs \<Longrightarrow>
    stage_activate C write_exs w msgs fs (sy_ex s) (sy_store s) = Inr (st, store, out) \<Longrightarrow>
    wr_step C s (s\<lparr>sy_ex := st, sy_store := store\<rparr>)"
| write_snap: "w < wc_workers C \<Longrightarrow>
    allowed (st_flight (sy_snap s) w) (caps_of (wc_workers C) (sy_snaps s)) (st_cap (sy_snap s) w) msgs fs \<Longrightarrow>
    stage_activate C write_snaps w msgs fs (sy_snap s) (sy_store s) = Inr (st, store, out) \<Longrightarrow>
    wr_step C s (s\<lparr>sy_snap := st, sy_store := store\<rparr>)"
| report: "w < wc_workers C \<Longrightarrow>
    sees (simplify fs) (caps_of (wc_workers C) (st_cap (sy_ex s)) \<union> caps_of (wc_workers C) (st_cap (sy_snap s))) \<Longrightarrow>
    frontier_activate (rf_ex (wc_from C)) w (sy_rep s w) fs = Inr (cap, out) \<Longrightarrow>
    send_reports C out (sy_front s) = Inr st \<Longrightarrow>
    wr_step C s (s\<lparr>sy_rep := (sy_rep s)(w := cap), sy_front := st\<rparr>)"
| write_front: "w < wc_workers C \<Longrightarrow>
    allowed (st_flight (sy_front s) w) (caps_of (wc_workers C) (sy_rep s)) (st_cap (sy_front s) w) msgs fs \<Longrightarrow>
    stage_activate C write_fronts w msgs fs (sy_front s) (sy_store s) = Inr (st, store, out) \<Longrightarrow>
    wr_step C s (s\<lparr>sy_front := st, sy_store := store,
      sy_ticks := (\<lambda>v. sy_ticks s v + mset (map (\<lambda>(e, u). (e, [u])) out))\<rparr>)"
| commit: "w < wc_workers C \<Longrightarrow>
    allowed (sy_ticks s w) (caps_of (wc_workers C) (st_cap (sy_front s))) (nc_cap (fst (sy_com s w))) msgs fs \<Longrightarrow>
    commit_stage C w msgs fs s = Inr (s', out) \<Longrightarrow>
    wr_step C s s'"

section \<open>\<^verbatim>\<open>read_progress\<close>\<close>

text \<open>
  The next execution loads each table of every partition on the worker primary for it; the rows end up in
  the in-memory database of \<^verbatim>\<open>ResumeCalc\<close> (theory \<open>Recovery_Ops\<close>), here in the order of the partitions.
\<close>

definition gathered :: "('s, 'k, 'v) wr_config \<Rightarrow> (part_index \<Rightarrow> ('s, 'k) recovery_part) \<Rightarrow> ('s, 'k) recovery_part" where
  "gathered C store = 
     \<lparr>parts = concat (map (\<lambda>p. the (snd (part_loader_next (store p) False))) (all_known C)),
      exs = concat (map (\<lambda>p. the (snd (ex_loader_next (store p) False))) (all_known C)),
      fronts = concat (map (\<lambda>p. the (snd (front_loader_next (store p) False))) (all_known C)),
      commits = concat (map (\<lambda>p. the (snd (commit_loader_next (store p) False))) (all_known C)), snaps = []\<rparr>"

end
