(* ===== verification/Writer_Stage.thy ===== *)
theory Writer_Stage
  imports Write_Recovery
begin

text \<open>
  Lemmas on one stage of \<^verbatim>\<open>write_recovery\<close>: where a row is routed, and the invariant of a
  \<^verbatim>\<open>partd_write\<close> on all workers: every row sent is written, buffered or on its way, and the tables of a
  partition are the rows written, in the order of epochs, on top of what they were.
\<close>

section \<open>Where a row goes\<close>

text \<open>The partitions a worker is primary for.\<close>

definition mine :: "('s, 'k, 'v) wr_config \<Rightarrow> worker \<Rightarrow> part_index set" where
  "mine C w = {p. bt_get (wc_prim C) p = Some w}"

definition homes :: "('s, 'k, 'v) wr_config \<Rightarrow> part_index set" where
  "homes C = dom (bt_get (wc_prim C))"

lemma announced_iff: "(p, w) \<in> set (announced C) \<longleftrightarrow> w < wc_workers C \<and> p \<in> set (wc_local C w)"
  by (auto simp: announced_def w_iter_def)

lemma config_primaries:
  assumes "config_ok C"
  shows "bt_wf (wc_prim C)" and "fst ` set (wc_prim C) = fst ` set (announced C)"
    and "\<forall>p w. bt_get (wc_prim C) p = Some w \<longrightarrow> (p, w) \<in> set (announced C)"
proof -
  obtain us pick where u: "sorts_by_key us" "picks_least pick"
    "calc_primaries us pick (foldl learn_part [] (announced C)) = Inr (wc_prim C)"
    using assms by (auto simp: config_ok_def)
  let ?known = "foldl learn_part [] (announced C)"
  have ok: "candidates_ok ?known" using learn_parts(1,4) [of "[]" "announced C"] by (simp add: candidates_ok_def)
  from calc_primaries_ok [OF ok u(1,2)] u(3) have
    p: "bt_wf (wc_prim C)" "bt_keys (wc_prim C) = bt_keys ?known"
      "\<forall>p w. bt_get (wc_prim C) p = Some w \<longrightarrow> w \<in> set (the (bt_get ?known p))" by auto
  show "bt_wf (wc_prim C)" by (rule p(1))
  have k: "fst ` set (wc_prim C) = fst ` set ?known" using p(2) by (metis list.set_map)
  then show "fst ` set (wc_prim C) = fst ` set (announced C)" by (simp add: learn_parts(2))
  show "\<forall>p w. bt_get (wc_prim C) p = Some w \<longrightarrow> (p, w) \<in> set (announced C)"
  proof (intro allI impI)
    fix p w assume w: "bt_get (wc_prim C) p = Some w"
    then have "(p, w) \<in> set (wc_prim C)" by (rule map_of_SomeD)
    then have "p \<in> fst ` set ?known" using k by (metis fst_conv image_eqI)
    then have "p \<in> dom (bt_get ?known)" by (simp add: bt_dom)
    then obtain ws where ws: "bt_get ?known p = Some ws" by blast
    from p(3) w have "w \<in> set (the (bt_get ?known p))" by blast
    with ws learn_parts(3) [of w "[]" "announced C" p] show "(p, w) \<in> set (announced C)" by simp
  qed
qed

lemma mine_local: "config_ok C \<Longrightarrow> mine C w \<subseteq> set (wc_local C w)"
  using config_primaries(3) [of C] by (auto simp: mine_def announced_iff)

lemma mine_worker: "config_ok C \<Longrightarrow> p \<in> mine C w \<Longrightarrow> w < wc_workers C"
  using config_primaries(3) [of C] by (auto simp: mine_def announced_iff)

lemma mine_disjoint: "p \<in> mine C w \<Longrightarrow> p \<in> mine C v \<Longrightarrow> v = w"
  by (simp add: mine_def)

text \<open>Every item goes to the partition its key names, on the worker that is primary for it.\<close>

lemma route_kv_ok:
  assumes "config_ok C"
  shows "\<exists>p w. p \<in> mine C w \<and> w < wc_workers C \<and> (\<forall>v. route_kv C pf (k, v) = Inr (w, p, k, v))"
proof -
  let ?K = "all_known C"
  have setK: "set ?K = fst ` set (announced C)" by (simp add: all_known_def)
  then have "?K \<noteq> []" using assms by (auto simp: config_ok_def)
  let ?p = "?K ! (pf k mod length ?K)"
  have lt: "pf k mod length ?K < length ?K" using \<open>?K \<noteq> []\<close> by simp
  then have "?p \<in> set ?K" by simp
  then have "?p \<in> fst ` set (wc_prim C)" by (simp add: setK config_primaries(2) [OF assms])
  then obtain w where w: "(?p, w) \<in> set (wc_prim C)" by force
  then have g: "bt_get (wc_prim C) ?p = Some w" using config_primaries(1) [OF assms] by (simp add: bt_get_eq_Some_iff)
  have r: "map_of (foldl learn_route [] (wc_prim C)) ?p = Some w"
    by (rule learn_routes [OF bt_wf_distinct [OF config_primaries(1) [OF assms]] w])
  have "route_kv C pf (k, v) = Inr (w, ?p, k, v)" for v
    using lt r by (simp add: route_kv_def assign_part_def route_item_def changed_from_nothing)
  moreover have "?p \<in> mine C w" using g by (simp add: mine_def)
  ultimately show ?thesis
    using mine_worker [OF assms] by blast
qed

lemma route_kv_home:
  "config_ok C \<Longrightarrow> route_kv C pf (k, v) = Inr x \<Longrightarrow>
    \<exists>p w. x = (w, p, k, v) \<and> p \<in> mine C w \<and> w < wc_workers C"
  by (drule route_kv_ok [where pf = pf and k = k]) (elim exE conjE, drule spec [where x = v], auto)

lemma route_kvs_ok:
  assumes "config_ok C"
  shows "\<exists>routed. emapM (route_kv C pf) rows = Inr routed \<and> list_all2 (\<lambda>(k, v) (w, p, k', v'). k' = k \<and> v' = v \<and>
    p \<in> mine C w \<and> w < wc_workers C) rows routed"
proof (induction rows)
  case Nil
  show ?case by simp
next
  case (Cons kv rows)
  obtain k v where kv: "kv = (k, v)" by fastforce
  from Cons obtain routed where r: "emapM (route_kv C pf) rows = Inr routed"
    "list_all2 (\<lambda>(k, v) (w, p, k', v'). k' = k \<and> v' = v \<and> p \<in> mine C w \<and> w < wc_workers C) rows routed"
    by (elim exE conjE) (rule that)
  from route_kv_ok [OF assms, of pf k] obtain p w where "p \<in> mine C w" "w < wc_workers C"
    "route_kv C pf (k, v) = Inr (w, p, k, v)" by (elim exE conjE) (rule that, auto)
  with r show ?case by (intro exI [of _ "(w, p, k, v) # routed"]) (simp add: kv)
qed

lemma route_kvs_home:
  assumes "config_ok C" and "emapM (route_kv C pf) rows = Inr routed"
  shows "\<forall>(w, p, k, v) \<in> set routed. p \<in> mine C w \<and> w < wc_workers C \<and> (k, v) \<in> set rows"
proof -
  from route_kvs_ok [OF assms(1), of pf rows] assms(2) have
    "list_all2 (\<lambda>(k, v) (w, p, k', v'). k' = k \<and> v' = v \<and> p \<in> mine C w \<and> w < wc_workers C) rows routed" by auto
  then show ?thesis by (induction rows routed rule: list_all2_induct) auto
qed

lemma homes_known: "config_ok C \<Longrightarrow> homes C = set (all_known C)"
  using config_primaries(2) [of C] by (simp add: homes_def bt_dom all_known_def)

text \<open>Each worker has built exactly the partitions it is primary for.\<close>

lemma built_parts_handles:
  assumes "config_ok C"
  shows "handles (mine C w) (built_parts C w)"
proof -
  have d: "distinct (map fst (wc_prim C))" by (rule bt_wf_distinct [OF config_primaries(1) [OF assms]])
  have o: "\<forall>(p, v) \<in> set (wc_prim C). v = w \<longrightarrow> open_part C w p = Inr p"
  proof (intro ballI, clarify)
    fix p assume "(p, w) \<in> set (wc_prim C)"
    then have "p \<in> mine C w" using config_primaries(1) [OF assms] by (simp add: mine_def bt_get_eq_Some_iff)
    then show "open_part C w p = Inr p" using mine_local [OF assms, of w] by (auto simp: open_part_def)
  qed
  from update_parts_handles [OF d o, of "[]"] obtain ps where
    "update_parts w (open_part C w) [] (wc_prim C) = Inr ps" "bt_wf ps"
    "\<forall>p. bt_get ps p = (if (p, w) \<in> set (wc_prim C) then Some p else None)" by auto
  then show ?thesis using config_primaries(1) [OF assms]
    by (simp add: built_parts_def changed_from_nothing handles_def mine_def bt_get_eq_Some_iff)
qed

section \<open>The invariant of a stage\<close>

text \<open>What has been sent to a worker, and what is still on its way, as rows with partition and epoch.\<close>

definition sent_row :: "epoch \<times> worker \<times> part_index \<times> 'k \<times> 'v \<Rightarrow> part_index \<times> epoch \<times> 'v" where
  "sent_row = (\<lambda>(e, w, p, k, v). (p, e, v))"

definition sent_to :: "worker \<Rightarrow> (epoch \<times> worker \<times> part_index \<times> 'k \<times> 'v) list \<Rightarrow> (part_index \<times> epoch \<times> 'v) list" where
  "sent_to w xs = map sent_row (filter (\<lambda>(_, v, _). v = w) xs)"

definition flying :: "(epoch \<times> (worker \<times> part_index \<times> 'k \<times> 'v) list) multiset \<Rightarrow> (part_index \<times> epoch \<times> 'v) multiset" where
  "flying M = sum_mset (image_mset (\<lambda>m. mset (arrived [m])) M)"

lemma flying_simps [simp]: "flying {#} = {#}" "flying (M + N) = flying M + flying N"
  "flying (add_mset m M) = mset (arrived [m]) + flying M"
  by (simp_all add: flying_def)

lemma flying_mset: "flying (mset msgs) = mset (arrived msgs)"
  by (induction msgs) (auto simp: arrived_def)

lemma flying_take: "mset msgs \<subseteq># M \<Longrightarrow> flying M = mset (arrived msgs) + flying (M - mset msgs)"
  by (auto simp: mset_subset_eq_exists_conv flying_mset)

lemma sent_to_simps [simp]: "sent_to w [] = []" "sent_to w (xs @ ys) = sent_to w xs @ sent_to w ys"
  by (simp_all add: sent_to_def)

lemma flying_send_routed:
  "flying (st_flight (send_routed e routed st) w) = flying (st_flight st w) + mset (sent_to w (map (Pair e) routed))"
proof -
  let ?xs = "filter (\<lambda>x. fst x = w) routed"
  have "flying (st_flight (send_routed e routed st) w) = mset (arrived [(e, ?xs)]) + flying (st_flight st w)"
    by (cases ?xs) (simp_all add: send_routed_def)
  also have "arrived [(e, filter (\<lambda>x. fst x = w) routed)] = sent_to w (map (Pair e) routed)"
    by (induction routed) (auto simp: arrived_def sent_to_def sent_row_def)
  finally show ?thesis by (simp only: add.commute)
qed

lemma send_routed_simps [simp]: "st_ops (send_routed e routed st) = st_ops st" "st_in (send_routed e routed st) = st_in st @ map (Pair e) routed"
  "st_cap (send_routed e routed st) = st_cap st"
  by (simp_all add: send_routed_def st_cap_def fun_eq_iff)

lemma send_routed_flight: "m \<in># st_flight (send_routed e routed st) w \<Longrightarrow>
    m \<in># st_flight st w \<or> m = (e, filter (\<lambda>x. fst x = w) routed) \<and> snd m \<noteq> []"
  by (auto simp: send_routed_def split: list.splits)

context table_writer
begin

text \<open>
  \<open>log\<close> is what worker \<open>w\<close> has written, in the order it did; every row sent to it is in the log, in its
  buffer or on its way, and its partitions' tables are the log applied to what they were.
\<close>

definition worker_inv ::
  "('s, 'a, 'u) wr_config \<Rightarrow> (part_index \<Rightarrow> 'r) \<Rightarrow> ('k, 'v) stage \<Rightarrow> (part_index \<Rightarrow> 'db) \<Rightarrow> worker \<Rightarrow> (part_index \<times> epoch \<times> 'v) list \<Rightarrow> bool" where
  "worker_inv C base st store w log \<longleftrightarrow>
     (case st_ops st w of (nc, items, prs) \<Rightarrow> prs = [] \<and> writer_ok (mine C w) (nc_cap nc) nc items \<and>
        mset (sent_to w (st_in st)) = mset log + mset (buffered items) + flying (st_flight st w)) \<and>
     (\<forall>p \<in> mine C w. get (store p) = after (base p) (rows_of p log)) \<and>
     (\<forall>m \<in># st_flight st w. (\<exists>c. st_cap st w = Some c \<and> c \<le> fst m) \<and> (\<forall>(v, p, k, r) \<in> set (snd m). p \<in> mine C w)) \<and>
     sorted (map row_epoch log) \<and> (\<forall>x \<in> set log. \<forall>c. st_cap st w = Some c \<longrightarrow> row_epoch x \<le> c)"

definition stage_inv ::
  "('s, 'a, 'u) wr_config \<Rightarrow> (part_index \<Rightarrow> 'r) \<Rightarrow> ('k, 'v) stage \<Rightarrow> (part_index \<Rightarrow> 'db) \<Rightarrow> (worker \<Rightarrow> (part_index \<times> epoch \<times> 'v) list) \<Rightarrow> bool" where
  "stage_inv C base st store log \<longleftrightarrow>
     (\<forall>(e, w, p, k, v) \<in> set (st_in st). p \<in> mine C w \<and> w < wc_workers C) \<and>
     room base (homes C) (mset (map sent_row (st_in st))) \<and>
     (\<forall>w < wc_workers C. worker_inv C base st store w (log w))"

lemma stage_inv_store:
  "stage_inv C base st store log \<Longrightarrow> \<forall>p. get (store' p) = get (store p) \<Longrightarrow> stage_inv C base st store' log"
  by (simp add: stage_inv_def worker_inv_def)

lemma room_part: "room base (homes C) M \<Longrightarrow> room base (mine C w) M"
  by (auto simp: room_def mine_def homes_def)

lemma stage_inv_room:
  assumes "stage_inv C base st store log" and "w < wc_workers C" and "st_ops st w = (nc, items, prs)"
    and "mset msgs \<subseteq># st_flight st w"
  shows "room base (mine C w) (mset (log w @ buffered items) + mset (arrived msgs))"
proof -
  have "mset (log w) + mset (buffered items) + flying (st_flight st w) = mset (sent_to w (st_in st))"
    using assms by (auto simp: stage_inv_def worker_inv_def)
  then have "mset (log w @ buffered items) + mset (arrived msgs) \<subseteq># mset (sent_to w (st_in st))"
    using flying_take [OF assms(4)] by (metis add.assoc mset_append mset_subset_eq_add_left)
  also have "\<dots> \<subseteq># mset (map sent_row (st_in st))"
    unfolding sent_to_def mset_map mset_filter by (intro image_mset_subseteq_mono multiset_filter_subset)
  finally show ?thesis using assms(1) by (auto simp: stage_inv_def intro: room_sub room_part)
qed

lemma stage_start_inv:
  assumes "config_ok C" and "\<forall>p. get (store p) = base p" and "\<forall>p \<in> homes C. fits (base p) {#}"
  shows "stage_inv C base (stage_start C) store (\<lambda>_. [])"
  using built_parts_handles [OF assms(1)] assms(2,3)
  by (simp add: stage_inv_def worker_inv_def stage_start_def op_start_def writer_ok_def nc_cap_def sent_to_def room_def
      inbuf_new_def after_Nil)

text \<open>Sending rows.\<close>

lemma send_routed_inv:
  assumes "stage_inv C base st store log" and "\<forall>(w, p, k, v) \<in> set routed. p \<in> mine C w \<and> w < wc_workers C"
    and "\<forall>w < wc_workers C. \<exists>c. st_cap st w = Some c \<and> c \<le> e"
    and "room base (homes C) (mset (map sent_row (st_in st @ map (Pair e) routed)))"
  shows "stage_inv C base (send_routed e routed st) store log"
  unfolding stage_inv_def
proof (intro conjI allI impI)
  show "\<forall>(e, w, p, k, v) \<in> set (st_in (send_routed e routed st)). p \<in> mine C w \<and> w < wc_workers C"
    using assms(1,2) by (auto simp: stage_inv_def)
  show "room base (homes C) (mset (map sent_row (st_in (send_routed e routed st))))" using assms(4) by simp
  fix w assume w: "w < wc_workers C"
  then have I: "worker_inv C base st store w (log w)" using assms(1) by (simp add: stage_inv_def)
  have new: "(\<exists>c. st_cap st w = Some c \<and> c \<le> fst m) \<and> (\<forall>(v, p, k, r) \<in> set (snd m). p \<in> mine C w)"
    if "m \<in># st_flight (send_routed e routed st) w" for m
    using send_routed_flight [OF that] I assms(2,3) w by (auto simp: worker_inv_def)
  show "worker_inv C base (send_routed e routed st) store w (log w)"
    using I new by (auto simp: worker_inv_def flying_send_routed)
qed

text \<open>An activation.\<close>

lemma stage_activate_ok:
  assumes I: "stage_inv C base st store log" and C: "config_ok C" and w: "w < wc_workers C"
    and a: "allowed (st_flight st w) up (st_cap st w) msgs fs" and up: "st_cap st w = None \<longrightarrow> up = {}"
  shows "\<exists>st' store' es l. stage_activate C W w msgs fs st store = Inr (st', store', ticks es) \<and>
    stage_inv C base st' store' (log(w := log w @ l)) \<and> st_in st' = st_in st \<and>
    (\<forall>v. v \<noteq> w \<longrightarrow> st_cap st' v = st_cap st v) \<and> st_cap st' w = simplify fs \<and>
    (\<forall>p. store' p = put (get (store' p)) (store p)) \<and> (\<forall>e \<in> set es. \<exists>c. st_cap st w = Some c \<and> c \<le> e)"
proof -
  obtain nc items prs where o: "st_ops st w = (nc, items, prs)" by (metis prod_cases3)
  have cap: "st_cap st w = nc_cap nc" by (simp add: st_cap_def o)
  have K: "worker_inv C base st store w (log w)" using I w by (simp add: stage_inv_def)
  then have k: "prs = []" "writer_ok (mine C w) (nc_cap nc) nc items"
    "mset (sent_to w (st_in st)) = mset (log w) + mset (buffered items) + flying (st_flight st w)"
    "\<forall>p \<in> mine C w. get (store p) = after (base p) (rows_of p (log w))"
    "\<forall>m \<in># st_flight st w. (\<exists>c. nc_cap nc = Some c \<and> c \<le> fst m) \<and> (\<forall>(v, p, k, r) \<in> set (snd m). p \<in> mine C w)"
    "sorted (map row_epoch (log w))" "\<forall>x \<in> set (log w). \<forall>c. nc_cap nc = Some c \<longrightarrow> row_epoch x \<le> c"
    by (simp_all add: worker_inv_def o cap)
  have sub: "mset msgs \<subseteq># st_flight st w" using a by (simp add: allowed_def)
  have others: "worker_inv C base (st\<lparr>st_ops := (st_ops st)(w := op), st_flight := (st_flight st)(w := fl)\<rparr>) store' v (log v)"
    if "v < wc_workers C" "v \<noteq> w" "\<forall>p. p \<notin> mine C w \<longrightarrow> store' p = store p" for v op fl store'
  proof -
    have "p \<notin> mine C w" if "p \<in> mine C v" for p using that \<open>v \<noteq> w\<close> mine_disjoint by metis
    with that I show ?thesis by (auto simp: stage_inv_def worker_inv_def st_cap_def)
  qed
  show ?thesis
  proof (cases "nc_cap nc")
    case None
    with k(5) have "st_flight st w = {#}" by (metis multiset_nonemptyE option.distinct(1))
    with sub have m: "msgs = []" by simp
    have u: "up = {}" using up None by (simp add: cap)
    have "simplify fs = None" using a None by (auto simp: allowed_def cap not_back_def split: option.splits)
    moreover have "stage_activate C W w msgs fs st store =
        Inr (st\<lparr>st_ops := (st_ops st)(w := (nc, items, [])), st_flight := (st_flight st)(w := st_flight st w)\<rparr>, store, ticks [])"
      by (simp add: stage_activate_def o m ticks_def k(1) write_activate_ended [OF k(2) [unfolded None]])
    moreover have "st\<lparr>st_ops := (st_ops st)(w := (nc, items, [])), st_flight := (st_flight st)(w := st_flight st w)\<rparr> = st"
      using o k(1) by (simp add: fun_upd_idem)
    ultimately show ?thesis using I None by (intro exI [of _ st] exI [of _ store] exI [of _ "[]"]) (simp add: cap put_get)
  next
    case (Some c)
    have msgs: "\<forall>(e, xs) \<in> set msgs. c \<le> e \<and> (\<forall>(v, p, k, r) \<in> set xs. p \<in> mine C w)"
    proof (intro ballI, clarify)
      fix e xs assume "(e, xs) \<in> set msgs"
      then have "(e, xs) \<in># st_flight st w" using sub by (meson mset_subset_eqD set_mset_mset in_multiset_in_set)
      with k(5) Some show "c \<le> e \<and> (\<forall>(v, p, k, r) \<in> set xs. p \<in> mine C w)" by force
    qed
    have fs: "\<forall>f. simplify fs = Some f \<longrightarrow> c \<le> f" using a Some by (auto simp: allowed_def cap not_back_def)
    have same: "refresh base (mine C w) (log w) store = store"
      using k(4) by (auto simp: refresh_def fun_eq_iff put_get simp flip: k(4))
    from write_activate_ok [OF k(2) [unfolded Some] mine_local [OF C] msgs fs stage_inv_room [OF I w o sub], of w "open_part C w" store]
    obtain nc' items' l es where
      r: "write_activate w (open_part C w) (table_write W) (wc_local C w) msgs [] fs (nc, items, [], store) =
        Inr ((nc', items', [], refresh base (mine C w) (log w @ l) store), ticks es)"
      and b: "mset l + mset (buffered items') = mset (buffered items) + mset (arrived msgs)"
      and ok: "writer_ok (mine C w) (simplify fs) nc' items'" and es: "\<forall>e \<in> set es. c \<le> e"
      and l: "sorted (map row_epoch l)" "\<forall>x \<in> set l. c \<le> row_epoch x \<and> (\<forall>f. simplify fs = Some f \<longrightarrow> row_epoch x \<le> f)"
      unfolding same by (elim exE conjE) (rule that)
    let ?store = "refresh base (mine C w) (log w @ l) store"
    let ?st = "st\<lparr>st_ops := (st_ops st)(w := (nc', items', [])), st_flight := (st_flight st)(w := st_flight st w - mset msgs)\<rparr>"
    have act: "stage_activate C W w msgs fs st store = Inr (?st, ?store, ticks es)"
      using r k(1) by (simp add: stage_activate_def o)
    have cap': "nc_cap nc' = simplify fs" using ok by (cases "simplify fs") (auto simp: writer_ok_def nc_cap_def)
    have "mset (sent_to w (st_in st)) = mset (log w) + mset (buffered items) + (mset (arrived msgs) + flying (st_flight st w - mset msgs))"
      using k(3) by (simp only: flying_take [OF sub])
    also have "\<dots> = mset (log w) + (mset l + mset (buffered items')) + flying (st_flight st w - mset msgs)"
      by (simp only: b add.assoc)
    finally have rows: "mset (sent_to w (st_in st)) = mset (log w @ l) + mset (buffered items') + flying (st_flight st w - mset msgs)"
      by (simp only: mset_append add.assoc)
    have rest: "(\<exists>c. simplify fs = Some c \<and> c \<le> fst m) \<and> (\<forall>(v, p, k, r) \<in> set (snd m). p \<in> mine C w)"
      if m: "m \<in># st_flight st w - mset msgs" for m
    proof -
      have "sees (simplify fs) (fst ` set_mset (st_flight st w - mset msgs) \<union> up)" using a by (simp add: allowed_def)
      with m have "\<exists>c. simplify fs = Some c \<and> c \<le> fst m" by (auto simp: sees_def split: option.splits)
      with k(5) in_diffD [OF m] show ?thesis by blast
    qed
    have log: "sorted (map row_epoch (log w @ l))" "\<forall>x \<in> set (log w @ l). \<forall>f. simplify fs = Some f \<longrightarrow> row_epoch x \<le> f"
      using k(6,7) l fs Some by (fastforce simp: sorted_append intro: order_trans)+
    have "worker_inv C base ?st ?store w (log w @ l)"
      using ok cap' rows rest log by (simp add: worker_inv_def st_cap_def refresh_def get_put)
    moreover have "worker_inv C base ?st ?store v (log v)" if "v < wc_workers C" "v \<noteq> w" for v
      by (rule others [OF that]) (simp add: refresh_def)
    ultimately have "stage_inv C base ?st ?store (log(w := log w @ l))" using I by (auto simp: stage_inv_def)
    moreover have "?store p = put (get (?store p)) (store p)" for p by (simp add: refresh_def get_put put_get)
    ultimately show ?thesis using act es cap' Some
      by (intro exI [of _ ?st] exI [of _ ?store] exI [of _ es] exI [of _ l]) (simp add: st_cap_def o)
  qed
qed

text \<open>What is written: all rows of the epochs the worker has left behind.\<close>

lemma stage_written:
  assumes I: "stage_inv C base st store log" and x: "(e, w, p, k, v) \<in> set (st_in st)"
    and past: "\<forall>c. st_cap st w = Some c \<longrightarrow> e < c"
  shows "(p, e, v) \<in> set (log w)"
proof -
  have w: "w < wc_workers C" and p: "p \<in> mine C w" using I x by (auto simp: stage_inv_def)
  obtain nc items prs where o: "st_ops st w = (nc, items, prs)" by (metis prod_cases3)
  have cap: "st_cap st w = nc_cap nc" by (simp add: st_cap_def o)
  have K: "worker_inv C base st store w (log w)" using I w by (simp add: stage_inv_def)
  have "(p, e, v) \<in># mset (sent_to w (st_in st))" using x by (force simp: sent_to_def sent_row_def)
  with K have "(p, e, v) \<in> set (log w) \<or> (p, e, v) \<in> set (buffered items) \<or> (p, e, v) \<in># flying (st_flight st w)"
    by (auto simp: worker_inv_def o)
  moreover have "(p, e, v) \<notin> set (buffered items)"
  proof
    assume b: "(p, e, v) \<in> set (buffered items)"
    then obtain m where "(e, m) \<in> set items" by (auto simp: buffered_def entries_def)
    with K past cap show False
      by (cases "nc_cap nc") (auto simp: worker_inv_def o writer_ok_def items_ok_def bt_get_eq_Some_iff dest!: spec [of _ e])
  qed
  moreover have "(p, e, v) \<notin># flying (st_flight st w)"
  proof
    assume "(p, e, v) \<in># flying (st_flight st w)"
    then obtain m where m: "m \<in># st_flight st w" "fst m = e" by (auto simp: flying_def arrived_def)
    with K past show False by (auto simp: worker_inv_def)
  qed
  ultimately show ?thesis by blast
qed

text \<open>Nothing else is.\<close>

lemma stage_log_sent:
  assumes "stage_inv C base st store log" and "w < wc_workers C" and "x \<in> set (log w)"
  shows "\<exists>e p k v. x = (p, e, v) \<and> (e, w, p, k, v) \<in> set (st_in st)"
proof -
  have "worker_inv C base st store w (log w)" using assms by (simp add: stage_inv_def)
  then have "set (log w) \<subseteq> set (sent_to w (st_in st))"
    by (auto simp: worker_inv_def split: prod.splits) (metis UnCI set_mset_mset set_mset_union)
  with assms(3) show ?thesis by (force simp: sent_to_def sent_row_def)
qed

end

end
