(* ===== verification/Recovery_Inv.thy ===== *)
theory Recovery_Inv
  imports Writer_Stage
begin

text \<open>
  The invariant of the recovery system: the three writers as instances of a stage, the committer, the order
  of the capabilities from the snapshots down to the commits, and the chain of reports of each worker.
  Every step keeps it.
\<close>

section \<open>The writers of the recovery partitions\<close>

abbreviation snap_pk :: "('s, 'k) serialized_snapshot \<Rightarrow> ('s \<times> 'k) \<times> epoch" where
  "snap_pk r \<equiv> (ss_id r, ss_epoch r)"

abbreviation front_pk :: "frontier_meta \<Rightarrow> ex_num \<times> worker" where
  "front_pk r \<equiv> (fm_ex r, fm_worker r)"

text \<open>The execution numbers have to be new.\<close>

definition fits_exs :: "execution_meta list \<Rightarrow> execution_meta multiset \<Rightarrow> bool" where
  "fits_exs t M \<longleftrightarrow> (\<exists>xs. mset xs = M \<and> distinct (map em_ex (t @ xs)) \<and> (\<forall>r \<in> set xs. 0 < em_workers r))"

lemma fits_exs_mset:
  "fits_exs t (mset xs) \<longleftrightarrow> distinct (map em_ex (t @ xs)) \<and> (\<forall>r \<in> set xs. 0 < em_workers r)"
proof
  assume "fits_exs t (mset xs)"
  then obtain ys where y: "mset ys = mset xs" "distinct (map em_ex (t @ ys))" "\<forall>r \<in> set ys. 0 < em_workers r"
    by (auto simp: fits_exs_def)
  have "mset (map em_ex (t @ ys)) = mset (map em_ex (t @ xs))" by (simp add: y(1))
  from mset_eq_imp_distinct_iff [OF this] y(2) have "distinct (map em_ex (t @ xs))" by simp
  moreover have "set xs = set ys" using y(1) by (metis mset_eq_setD)
  ultimately show "distinct (map em_ex (t @ xs)) \<and> (\<forall>r \<in> set xs. 0 < em_workers r)" using y(3) by simp
qed (auto simp: fits_exs_def)

lemma fits_exs_sub: "fits_exs t (A + B) \<Longrightarrow> fits_exs t A"
proof -
  assume f: "fits_exs t (A + B)"
  obtain xs ys where "A = mset xs" "B = mset ys" by (metis ex_mset)
  with f have "fits_exs t (mset (xs @ ys))" by simp
  then show ?thesis unfolding \<open>A = mset xs\<close> fits_exs_mset by auto
qed

interpretation snap_rows: table_writer write_snaps snaps "\<lambda>t db. db\<lparr>snaps := t\<rparr>" "foldl (upsert_row snap_pk)" "\<lambda>_ _. True"
  by unfold_locales (simp_all add: write_snaps_def)

interpretation front_rows: table_writer write_fronts fronts "\<lambda>t db. db\<lparr>fronts := t\<rparr>" "foldl (upsert_row front_pk)" "\<lambda>_ _. True"
  by unfold_locales (simp_all add: write_fronts_def)

interpretation ex_rows: table_writer write_exs exs "\<lambda>t db. db\<lparr>exs := t\<rparr>" "(@)" fits_exs
proof unfold_locales
  fix t xs ys and db :: "('s, 'k) recovery_part"
  assume "fits_exs t (mset (xs @ ys))" "exs db = t @ xs"
  then show "write_exs ys db = Inr (db\<lparr>exs := t @ xs @ ys\<rparr>)"
    unfolding fits_exs_mset by (simp add: write_exs_def insert_rows)
qed (auto dest: fits_exs_sub)

section \<open>The committer\<close>

text \<open>Only commit rows are written, of epochs of which those in \<open>B\<close> bound each.\<close>

definition commits_grow :: "epoch set \<Rightarrow> (part_index \<Rightarrow> ('s, 'k) recovery_part) \<Rightarrow> (part_index \<Rightarrow> ('s, 'k) recovery_part) \<Rightarrow> bool" where
  "commits_grow B store store' \<longleftrightarrow> (\<forall>p. store' p = (store p)\<lparr>commits := commits (store' p)\<rparr> \<and>
     (\<forall>r \<in> set (commits (store' p)). r \<in> set (commits (store p)) \<or> (\<exists>e \<in> B. cm_epoch r \<le> e)))"

lemma commits_grow_refl [simp]: "commits_grow B store store"
  by (simp add: commits_grow_def)

lemma commits_grow_trans: "commits_grow B s1 s2 \<Longrightarrow> commits_grow B s2 s3 \<Longrightarrow> commits_grow B s1 s3"
proof -
  assume a: "commits_grow B s1 s2" and b: "commits_grow B s2 s3"
  have "s3 p = (s1 p)\<lparr>commits := commits (s3 p)\<rparr>" for p
  proof -
    have "s3 p = (s2 p)\<lparr>commits := commits (s3 p)\<rparr>" "s2 p = (s1 p)\<lparr>commits := commits (s2 p)\<rparr>"
      using a b by (auto simp: commits_grow_def)
    then show ?thesis by (metis recovery_part.update_convs(4) recovery_part.fold_congs(4) recovery_part.surjective)
  qed
  with a b show ?thesis unfolding commits_grow_def by blast
qed

lemma commits_grow_mono: "commits_grow B s1 s2 \<Longrightarrow> B \<subseteq> B' \<Longrightarrow> commits_grow B' s1 s2"
  by (fastforce simp: commits_grow_def)

lemma commit_loop:
  assumes "\<forall>x \<in> set ps. fst x = snd x"
  shows "\<exists>store'. efold (\<lambda>(parts', world) (k, part). emap (\<lambda>(world', part'). (parts' @ [(k, part')], world'))
      (table_commit world part d)) (acc, store) ps = Inr (acc @ ps, store') \<and> commits_grow {d} store store'"
  using assms
proof (induction ps arbitrary: acc store)
  case Nil
  then show ?case by simp
next
  case (Cons x ps)
  obtain p where x: "x = (p, p)" using Cons.prems by (cases x) auto
  let ?s = "store(p := (store p)\<lparr>commits := upsert_row cm_part (commits (store p)) (CommitMeta p d)\<rparr>)"
  have t: "table_commit store p d = Inr (?s, p)" by (simp add: table_commit_def committer_commit_keeps)
  have g: "commits_grow {d} store ?s" by (auto simp: commits_grow_def upsert_set)
  have "\<forall>x \<in> set ps. fst x = snd x" using Cons.prems by simp
  from Cons.IH [OF this, of "acc @ [(p, p)]" ?s] obtain store' where
    r: "efold (\<lambda>(parts', world) (k, part). emap (\<lambda>(world', part'). (parts' @ [(k, part')], world'))
      (table_commit world part d)) (acc @ [(p, p)], ?s) ps = Inr ((acc @ [(p, p)]) @ ps, store')"
    "commits_grow {d} ?s store'" by (elim exE conjE) (rule that)
  have "commits_grow {d} store store'" by (rule commits_grow_trans [OF g r(2)])
  with r(1) t show ?case by (simp add: x)
qed

definition com_ok :: "part_index set \<Rightarrow> epoch option \<Rightarrow> (part_index, part_index) btree notificator \<Rightarrow> bool" where
  "com_ok P cap nc \<longleftrightarrow> (case cap of
       Some c \<Rightarrow> (\<exists>ps0. caps_state nc = Some ([c], ps0) \<and> handles P ps0) \<and> bs_wf (queue nc) \<and> (\<forall>e \<in> set (queue nc). c \<le> e)
     | None \<Rightarrow> caps_state nc = None)"

lemma commit_close_ok:
  assumes "handles P ps0"
  shows "\<exists>clock' store'. commit_close w builder table_commit delay [e] (ps0, clock, [], store) =
      Inr ((ps0, clock', [], store'), [(e, ())]) \<and> commits_grow {e} store store'"
proof (cases "checked_sub e delay")
  case None
  then show ?thesis by (simp add: commit_close_def inbuf_remove_def update_parts_def bt_remove_def)
next
  case (Some d)
  then have d: "d \<le> e" by (auto simp: checked_sub_def split: if_splits)
  have "\<forall>x \<in> set ps0. fst x = snd x"
    using assms by (auto simp: handles_def bt_get_eq_Some_iff [symmetric]) (metis option.distinct(1) option.inject)
  from commit_loop [OF this, of d "[]" store] obtain store' where
    s: "commit_parts table_commit d (ps0, store) = Inr (ps0, store')" "commits_grow {d} store store'"
    by (auto simp: commit_parts_def)
  have "commits_grow {e} store store'" using s(2) d by (fastforce simp: commits_grow_def)
  with s(1) Some show ?thesis by (simp add: commit_close_def inbuf_remove_def update_parts_def bt_remove_def)
qed

lemma commit_calls_ok:
  assumes "handles P ps0"
  shows "\<exists>clock' store'. run_calls commit_eager (commit_close w builder table_commit delay) 1 ((ps0, clock, [], store), out) calls =
      Inr ((ps0, clock', [], store'), out @ ticks (closes calls)) \<and> commits_grow (set (closes calls)) store store'"
proof (induction calls arbitrary: clock store out)
  case Nil
  show ?case by (simp add: run_calls_def ticks_def)
next
  case (Cons call calls)
  show ?case
  proof (cases call)
    case (Eager e)
    with Cons [of clock store out] show ?thesis by (simp add: run_calls_def commit_eager_def)
  next
    case (Close e)
    from commit_close_ok [OF assms, of w builder delay e clock store] obtain clock1 store1 where
      c: "commit_close w builder table_commit delay [e] (ps0, clock, [], store) = Inr ((ps0, clock1, [], store1), [(e, ())])"
      "commits_grow {e} store store1" by (elim exE conjE) (rule that)
    from Cons [of clock1 store1 "out @ [(e, ())]"] obtain clock' store' where
      r: "run_calls commit_eager (commit_close w builder table_commit delay) 1 ((ps0, clock1, [], store1), out @ [(e, ())]) calls =
        Inr ((ps0, clock', [], store'), (out @ [(e, ())]) @ ticks (closes calls))"
      "commits_grow (set (closes calls)) store1 store'" by (elim exE conjE) (rule that)
    have "commits_grow (set (closes (call # calls))) store store'"
      by (rule commits_grow_trans [OF commits_grow_mono [OF c(2)] commits_grow_mono [OF r(2)]]) (auto simp: Close)
    with c(1) r(1) show ?thesis by (simp add: run_calls_def Close ticks_def)
  qed
qed

definition com_inv :: "('s, 'k, 'v) wr_config \<Rightarrow> ('s, 'k) wr_sys \<Rightarrow> worker \<Rightarrow> bool" where
  "com_inv C s w \<longleftrightarrow> (case sy_com s w of (nc, clock, prs) \<Rightarrow> prs = [] \<and> com_ok (mine C w) (nc_cap nc) nc \<and>
     (\<forall>m \<in># sy_ticks s w. \<exists>c. nc_cap nc = Some c \<and> c \<le> fst m))"

abbreviation com_cap :: "('s, 'k) wr_sys \<Rightarrow> worker \<Rightarrow> epoch option" where
  "com_cap s w \<equiv> nc_cap (fst (sy_com s w))"

lemma buffer_notify_queue:
  "caps_state nc \<noteq> None \<Longrightarrow> \<exists>buf'. buffer_notify msgs buf nc = Inr (buf', nc\<lparr>queue := bs_extend (queue nc) (map fst msgs)\<rparr>)"
proof (induction msgs arbitrary: buf nc)
  case Nil
  then show ?case by (simp add: buffer_notify_def)
next
  case (Cons m msgs)
  obtain e xs where m: "m = (e, xs)" by fastforce
  have "caps_state (nc\<lparr>queue := bs_insert e (queue nc)\<rparr>) \<noteq> None" using Cons.prems by simp
  from Cons.IH [OF this, of "inbuf_extend buf e xs"] Cons.prems show ?case
    by (auto simp: buffer_notify_def buffer_step_def notify_at_def m)
qed

lemma commit_stage_ok:
  assumes I: "com_inv C s w" and a: "allowed (sy_ticks s w) up (com_cap s w) msgs fs"
  shows "\<exists>op store' out. commit_stage C w msgs fs s =
      Inr (s\<lparr>sy_com := (sy_com s)(w := op), sy_ticks := (sy_ticks s)(w := sy_ticks s w - mset msgs), sy_store := store'\<rparr>, out) \<and>
    com_inv C (s\<lparr>sy_com := (sy_com s)(w := op), sy_ticks := (sy_ticks s)(w := sy_ticks s w - mset msgs), sy_store := store'\<rparr>) w \<and>
    nc_cap (fst op) = simplify fs \<and> commits_grow {e. \<forall>t \<in> up. e < t} (sy_store s) store'"
proof -
  obtain nc clock prs where o: "sy_com s w = (nc, clock, prs)" by (metis prod_cases3)
  have k: "prs = []" "com_ok (mine C w) (nc_cap nc) nc" "\<forall>m \<in># sy_ticks s w. \<exists>c. nc_cap nc = Some c \<and> c \<le> fst m"
    using I by (simp_all add: com_inv_def o)
  have sub: "mset msgs \<subseteq># sy_ticks s w" and sees: "sees (simplify fs) (fst ` set_mset (sy_ticks s w - mset msgs) \<union> up)"
    and nb: "not_back (nc_cap nc) (simplify fs)" using a by (simp_all add: allowed_def o)
  have rest: "\<exists>c. simplify fs = Some c \<and> c \<le> fst m" if "m \<in># sy_ticks s w - mset msgs" for m
    using sees that by (auto simp: sees_def split: option.splits)
  show ?thesis
  proof (cases "nc_cap nc")
    case None
    with k(3) have "sy_ticks s w = {#}" by (metis multiset_nonemptyE option.distinct(1))
    with sub have m: "msgs = []" by simp
    have dead: "caps_state nc = None" using k(2) None by (simp add: com_ok_def)
    have fr: "simplify fs = None" using nb None by (auto simp: not_back_def split: option.splits)
    have "commit_stage C w msgs fs s =
      Inr (s\<lparr>sy_com := (sy_com s)(w := (nc, clock, [])), sy_ticks := (sy_ticks s)(w := sy_ticks s w - mset msgs), sy_store := sy_store s\<rparr>, [])"
      using dead by (simp add: commit_stage_def o k(1) m commit_activate_def buffer_notify_def for_each_def)
    with k None fr \<open>sy_ticks s w = {#}\<close> show ?thesis
      by (intro exI [of _ "(nc, clock, [])"] exI [of _ "sy_store s"] exI [of _ "[]"]) (simp add: com_inv_def)
  next
    case (Some c)
    obtain ps where nc: "caps_state nc = Some ([c], ps)" "handles (mine C w) ps" "bs_wf (queue nc)" "\<forall>e \<in> set (queue nc). c \<le> e"
      using k(2) Some by (auto simp: com_ok_def)
    let ?q = "bs_extend (queue nc) (map fst msgs)" and ?fr = "simplify fs"
    have "c \<le> fst m" if "m \<in> set msgs" for m
    proof -
      have "m \<in># sy_ticks s w" using sub that by (meson mset_subset_eqD set_mset_mset in_multiset_in_set)
      with k(3) Some show ?thesis by auto
    qed
    then have q: "bs_wf ?q" "\<forall>e \<in> set ?q. c \<le> e" using nc(3,4) by auto
    have fs: "\<forall>f. ?fr = Some f \<longrightarrow> c \<le> f" using nb Some by (auto simp: not_back_def)
    from buffer_notify_queue [of nc msgs clock] nc(1) obtain clock1 where
      b: "buffer_notify msgs clock nc = Inr (clock1, nc\<lparr>queue := ?q\<rparr>)" by auto
    from commit_calls_ok [OF nc(2), of w "open_part C w" "wc_delay C" clock1 "sy_store s" "[]" "schedule ?fr ?q"]
    obtain clock' store' where r:
      "run_calls commit_eager (commit_close w (open_part C w) table_commit (wc_delay C)) 1 ((ps, clock1, [], sy_store s), [])
        (schedule ?fr ?q) = Inr ((ps, clock', [], store'), ticks (closes (schedule ?fr ?q)))"
      "commits_grow (set (closes (schedule ?fr ?q))) (sy_store s) store'" by (elim exE conjE) (rule that, simp_all)
    have "for_each commit_eager (commit_close w (open_part C w) table_commit (wc_delay C)) fs (nc\<lparr>queue := ?q\<rparr>) (clock1, [], sy_store s) =
      emap (\<lambda>((d', b'), out). (nc_after ?fr (length [c]) (queue (nc\<lparr>queue := ?q\<rparr>)) d', b', out))
      (run_calls commit_eager (commit_close w (open_part C w) table_commit (wc_delay C)) (length [c]) ((ps, clock1, [], sy_store s), [])
        (schedule ?fr (queue (nc\<lparr>queue := ?q\<rparr>))))"
      by (rule for_each_calls) (use nc(1) q fs in auto)
    then have f: "for_each commit_eager (commit_close w (open_part C w) table_commit (wc_delay C)) fs (nc\<lparr>queue := ?q\<rparr>) (clock1, [], sy_store s) =
      Inr (nc_after ?fr 1 ?q ps, (clock', [], store'), ticks (closes (schedule ?fr ?q)))" using r(1) by simp
    let ?op = "(nc_after ?fr 1 ?q ps, clock', [])"
    have act: "commit_stage C w msgs fs s =
      Inr (s\<lparr>sy_com := (sy_com s)(w := ?op), sy_ticks := (sy_ticks s)(w := sy_ticks s w - mset msgs), sy_store := store'\<rparr>,
        ticks (closes (schedule ?fr ?q)))"
      using b f by (simp add: commit_stage_def o k(1) commit_activate_def buffer_notify_def)
    have cap: "nc_cap (nc_after ?fr 1 ?q ps) = ?fr" by (cases ?fr) (simp_all add: nc_after_def nc_cap_def)
    have "com_ok (mine C w) ?fr (nc_after ?fr 1 ?q ps)"
      using nc(2) q(1) by (cases ?fr) (auto simp: com_ok_def nc_after_def)
    then have ok: "com_inv C (s\<lparr>sy_com := (sy_com s)(w := ?op), sy_ticks := (sy_ticks s)(w := sy_ticks s w - mset msgs), sy_store := store'\<rparr>) w"
      using rest cap by (simp add: com_inv_def)
    have "e < t" if "e \<in> set (closes (schedule ?fr ?q))" "t \<in> up" for e t
    proof (cases ?fr)
      case None
      with sees that(2) show ?thesis by (simp add: sees_def)
    next
      case (Some f)
      then have "e < f" "f \<le> t" using that sees by (auto simp: closes_schedule sees_def)
      then show ?thesis by simp
    qed
    then have "commits_grow {e. \<forall>t \<in> up. e < t} (sy_store s) store'" by (intro commits_grow_mono [OF r(2)]) auto
    with act ok cap show ?thesis
      by (intro exI [of _ ?op] exI [of _ store'] exI [of _ "ticks (closes (schedule ?fr ?q))"]) simp
  qed
qed

section \<open>Frontiers and capabilities\<close>

definition ahead :: "epoch set \<Rightarrow> epoch set \<Rightarrow> bool" where
  "ahead T T' \<longleftrightarrow> (\<forall>t' \<in> T'. \<exists>t \<in> T. t \<le> t')"

lemma ahead_refl [simp]: "ahead T T"
  by (auto simp: ahead_def)

lemma ahead_Un: "ahead S S' \<Longrightarrow> ahead T T' \<Longrightarrow> ahead (S \<union> T) (S' \<union> T')"
  by (fastforce simp: ahead_def)

lemma sees_ahead: "sees fr T \<Longrightarrow> ahead T T' \<Longrightarrow> sees fr T'"
  by (fastforce simp: sees_def ahead_def split: option.splits intro: order_trans)

lemma sees_Un: "sees fr (S \<union> T) \<longleftrightarrow> sees fr S \<and> sees fr T"
  by (auto simp: sees_def split: option.splits)

lemma bound_ahead: "\<forall>t \<in> T. (x :: epoch) \<le> t \<Longrightarrow> ahead T T' \<Longrightarrow> \<forall>t \<in> T'. x \<le> t"
  by (fastforce simp: ahead_def intro: order_trans)

lemma caps_of_I: "w < n \<Longrightarrow> f w = Some c \<Longrightarrow> c \<in> caps_of n f"
  by (auto simp: caps_of_def)

lemma caps_ahead:
  assumes "w < n" and "not_back (g w) (g' w)" and "\<forall>v. v \<noteq> w \<longrightarrow> g' v = g v"
  shows "ahead (caps_of n g) (caps_of n g')"
  unfolding ahead_def
proof
  fix t' assume "t' \<in> caps_of n g'"
  then obtain v where v: "v < n" "g' v = Some t'" by (auto simp: caps_of_def)
  show "\<exists>t \<in> caps_of n g. t \<le> t'"
  proof (cases "v = w")
    case True
    with v assms(2) obtain c where "g w = Some c" "c \<le> t'" by (auto simp: not_back_def split: option.splits)
    with assms(1) show ?thesis by (auto simp: caps_of_def)
  next
    case False
    with v assms(3) show ?thesis by (auto simp: caps_of_def)
  qed
qed

section \<open>Reports\<close>

definition reports_of :: "worker \<Rightarrow> (epoch \<times> worker \<times> part_index \<times> (ex_num \<times> worker) \<times> frontier_meta) list \<Rightarrow> (epoch \<times> epoch) list" where
  "reports_of w xs = map (\<lambda>(e, _, _, _, f). (e, fm_frontier f)) (filter (\<lambda>(_, _, _, k, _). snd k = w) xs)"

lemma reports_of_simps [simp]: "reports_of w [] = []" "reports_of w (xs @ ys) = reports_of w xs @ reports_of w ys"
  by (simp_all add: reports_of_def)

text \<open>A worker's reports: each made at the frontier of the one before.\<close>

fun chain :: "epoch \<Rightarrow> (epoch \<times> epoch) list \<Rightarrow> bool" where
  "chain a [] \<longleftrightarrow> True"
| "chain a ((t, f) # xs) \<longleftrightarrow> t = a \<and> t < f \<and> chain f xs"

fun chain_end :: "epoch \<Rightarrow> (epoch \<times> epoch) list \<Rightarrow> epoch" where
  "chain_end a [] = a"
| "chain_end a ((t, f) # xs) = chain_end f xs"

lemma chain_append: "chain a (xs @ ys) \<longleftrightarrow> chain a xs \<and> chain (chain_end a xs) ys"
  by (induction a xs rule: chain_end.induct) auto

lemma chain_end_append: "chain_end a (xs @ ys) = chain_end (chain_end a xs) ys"
  by (induction a xs rule: chain_end.induct) auto

lemma chain_bounds: "chain a xs \<Longrightarrow> a \<le> chain_end a xs \<and> (\<forall>(t, f) \<in> set xs. a \<le> t \<and> t < f \<and> f \<le> chain_end a xs)"
proof (induction a xs rule: chain_end.induct)
  case (2 a t f xs)
  then show ?case by fastforce
qed simp

lemma chain_covers: "chain a xs \<Longrightarrow> a \<le> e \<Longrightarrow> e < chain_end a xs \<Longrightarrow> \<exists>(t, f) \<in> set xs. t \<le> e \<and> e < f"
proof (induction a xs rule: chain_end.induct)
  case (2 a t f xs)
  then show ?case by (cases "e < f") auto
qed simp

lemma chain_inj: "chain a xs \<Longrightarrow> (t, f) \<in> set xs \<Longrightarrow> (t', f') \<in> set xs \<Longrightarrow> t \<le> t' \<Longrightarrow> f \<le> f'"
proof (induction a xs rule: chain_end.induct)
  case (2 a u g xs)
  have "\<forall>(t, f) \<in> set xs. g \<le> t \<and> t < f" using chain_bounds [of g xs] 2(2) by auto
  with 2 show ?case by fastforce
qed simp

section \<open>The invariant of the recovery system\<close>

definition stages_inv where
  "stages_inv C base s lx ls lf \<longleftrightarrow>
     ex_rows.stage_inv C (\<lambda>p. exs (base p)) (sy_ex s) (sy_store s) lx \<and>
     snap_rows.stage_inv C (\<lambda>p. snaps (base p)) (sy_snap s) (sy_store s) ls \<and>
     front_rows.stage_inv C (\<lambda>p. fronts (base p)) (sy_front s) (sy_store s) lf \<and>
     (\<forall>w < wc_workers C. com_inv C s w)"

text \<open>Every operator's capability is a lower bound of those that feed it.\<close>

definition order_inv :: "nat \<Rightarrow> ('s, 'k) wr_sys \<Rightarrow> bool" where
  "order_inv n s \<longleftrightarrow> (\<forall>w < n.
     sees (st_cap (sy_snap s) w) (caps_of n (sy_snaps s)) \<and>
     sees (sy_rep s w) (caps_of n (st_cap (sy_ex s)) \<union> caps_of n (st_cap (sy_snap s))) \<and>
     sees (st_cap (sy_front s) w) (caps_of n (sy_rep s)) \<and>
     sees (com_cap s w) (caps_of n (st_cap (sy_front s))))"

definition report_inv :: "('s, 'k, 'v) wr_config \<Rightarrow> ('s, 'k) wr_sys \<Rightarrow> bool" where
  "report_inv C s \<longleftrightarrow>
     (\<forall>(e, w, p, k, f) \<in> set (st_in (sy_front s)). fst k = rf_ex (wc_from C) \<and> snd k < wc_workers C \<and>
        front_pk f = k \<and> route_kv C (wc_pf_front C) (k, f) = Inr (w, p, k, f) \<and>
        (\<forall>t \<in> caps_of (wc_workers C) (st_cap (sy_ex s)) \<union> caps_of (wc_workers C) (st_cap (sy_snap s)). fm_frontier f \<le> t)) \<and>
     (\<forall>w < wc_workers C. chain (rf_epoch (wc_from C)) (reports_of w (st_in (sy_front s))) \<and>
        (\<forall>c. sy_rep s w = Some c \<longrightarrow> c = chain_end (rf_epoch (wc_from C)) (reports_of w (st_in (sy_front s)))))"

definition rows_inv :: "('s, 'k, 'v) wr_config \<Rightarrow> ('s, 'k) wr_sys \<Rightarrow> bool" where
  "rows_inv C s \<longleftrightarrow>
     (\<exists>w p. st_in (sy_ex s) = [(rf_epoch (wc_from C), w, p, rf_ex (wc_from C),
        ExecutionMeta (rf_ex (wc_from C)) (wc_workers C) (rf_epoch (wc_from C)))]) \<and>
     (\<forall>(e, w, p, k, r) \<in> set (st_in (sy_snap s)). rf_epoch (wc_from C) \<le> e \<and> ss_epoch r = e) \<and>
     (\<forall>c \<in> caps_of (wc_workers C) (sy_snaps s). rf_epoch (wc_from C) \<le> c)"

definition commit_inv :: "('s, 'k, 'v) wr_config \<Rightarrow> (part_index \<Rightarrow> ('s, 'k) recovery_part) \<Rightarrow> ('s, 'k) wr_sys \<Rightarrow> bool" where
  "commit_inv C base s \<longleftrightarrow> (\<forall>p. parts (sy_store s p) = parts (base p) \<and>
     (\<forall>x \<in> set (commits (sy_store s p)). x \<in> set (commits (base p)) \<or>
        (\<forall>t \<in> caps_of (wc_workers C) (st_cap (sy_front s)). cm_epoch x < t)))"

definition wr_inv where
  "wr_inv C base s lx ls lf \<longleftrightarrow> stages_inv C base s lx ls lf \<and> order_inv (wc_workers C) s \<and> report_inv C s \<and>
     rows_inv C s \<and> commit_inv C base s"

lemmas wr_inv_defs = wr_inv_def stages_inv_def order_inv_def report_inv_def rows_inv_def commit_inv_def

text \<open>A database in which one table has changed.\<close>

lemma only_exs:
  assumes "\<forall>p. store p = (store0 p)\<lparr>exs := exs (store p)\<rparr>"
  shows "parts (store p) = parts (store0 p)" "fronts (store p) = fronts (store0 p)"
    "commits (store p) = commits (store0 p)" "snaps (store p) = snaps (store0 p)"
  by (subst assms [THEN spec, of p], simp)+

lemma only_snaps:
  assumes "\<forall>p. store p = (store0 p)\<lparr>snaps := snaps (store p)\<rparr>"
  shows "parts (store p) = parts (store0 p)" "fronts (store p) = fronts (store0 p)"
    "commits (store p) = commits (store0 p)" "exs (store p) = exs (store0 p)"
  by (subst assms [THEN spec, of p], simp)+

lemma only_fronts:
  assumes "\<forall>p. store p = (store0 p)\<lparr>fronts := fronts (store p)\<rparr>"
  shows "parts (store p) = parts (store0 p)" "snaps (store p) = snaps (store0 p)"
    "commits (store p) = commits (store0 p)" "exs (store p) = exs (store0 p)"
  by (subst assms [THEN spec, of p], simp)+

lemma only_commits:
  assumes "commits_grow B store0 store"
  shows "parts (store p) = parts (store0 p)" "snaps (store p) = snaps (store0 p)"
    "fronts (store p) = fronts (store0 p)" "exs (store p) = exs (store0 p)"
proof -
  have "store p = (store0 p)\<lparr>commits := commits (store p)\<rparr>" using assms by (auto simp: commits_grow_def)
  note s = this
  show "parts (store p) = parts (store0 p)" "snaps (store p) = snaps (store0 p)"
    "fronts (store p) = fronts (store0 p)" "exs (store p) = exs (store0 p)" by (subst s, simp)+
qed

section \<open>Every step keeps it\<close>

lemma workers_pos: "config_ok C \<Longrightarrow> 0 < wc_workers C"
  by (cases "wc_workers C") (auto simp: config_ok_def announced_def w_iter_def)

lemma ser_snap_rows: "ser_snap ser e ss = Inr rows \<Longrightarrow> \<forall>(k, r) \<in> set rows. ss_epoch r = e \<and> k = ss_id r"
  by (induction ss arbitrary: rows) (auto simp: ser_snap_def emap_eq_Inr_iff elim!: ebind_InrE split: snapshot.splits)

lemma snap_keeps:
  assumes I: "wr_inv C base s lx ls lf" and C: "config_ok C" and w: "w < wc_workers C"
    and c: "sy_snaps s w = Some c" "c \<le> e" and rows: "ser_snap (wc_ser C) e ss = Inr rows"
    and routed: "emapM (route_kv C (wc_pf_snap C)) rows = Inr routed"
  shows "wr_inv C base (s\<lparr>sy_snap := send_routed e routed (sy_snap s)\<rparr>) lx ls lf"
proof -
  have cin: "c \<in> caps_of (wc_workers C) (sy_snaps s)" by (rule caps_of_I [of w]) (use w c in simp_all)
  have r: "rf_epoch (wc_from C) \<le> c" using I cin by (auto simp: wr_inv_defs)
  note ep = ser_snap_rows [OF rows]
  note home = route_kvs_home [OF C routed]
  have caps: "\<exists>c'. st_cap (sy_snap s) v = Some c' \<and> c' \<le> e" if "v < wc_workers C" for v
  proof -
    have "sees (st_cap (sy_snap s) v) (caps_of (wc_workers C) (sy_snaps s))" using I that by (simp add: wr_inv_defs)
    with cin c(2) show ?thesis by (auto simp: sees_def split: option.splits)
  qed
  have "snap_rows.stage_inv C (\<lambda>p. snaps (base p)) (send_routed e routed (sy_snap s)) (sy_store s) ls"
    by (rule snap_rows.send_routed_inv) (use I home caps in \<open>auto simp: wr_inv_defs snap_rows.room_def\<close>)
  moreover have "\<forall>(e', v, p, k, r) \<in> set (map (Pair e) routed). rf_epoch (wc_from C) \<le> e' \<and> ss_epoch r = e'"
    using home ep r c(2) by auto
  ultimately show ?thesis using I by (auto simp: wr_inv_defs com_inv_def)
qed

lemma advance_keeps:
  assumes I: "wr_inv C base s lx ls lf" and w: "w < wc_workers C"
    and c: "sy_snaps s w = Some c" "case cap of Some c' \<Rightarrow> c \<le> c' | None \<Rightarrow> True"
  shows "wr_inv C base (s\<lparr>sy_snaps := (sy_snaps s)(w := cap)\<rparr>) lx ls lf"
proof -
  have a: "ahead (caps_of (wc_workers C) (sy_snaps s)) (caps_of (wc_workers C) ((sy_snaps s)(w := cap)))"
    by (rule caps_ahead [OF w]) (use c in \<open>auto simp: not_back_def split: option.splits\<close>)
  have "\<forall>t \<in> caps_of (wc_workers C) ((sy_snaps s)(w := cap)). rf_epoch (wc_from C) \<le> t"
    by (rule bound_ahead [OF _ a]) (use I in \<open>simp add: wr_inv_defs\<close>)
  then show ?thesis using I sees_ahead [OF _ a] by (auto simp: wr_inv_defs com_inv_def)
qed

lemma write_ex_keeps:
  assumes I: "wr_inv C base s lx ls lf" and C: "config_ok C" and w: "w < wc_workers C"
    and a: "allowed (st_flight (sy_ex s) w) {} (st_cap (sy_ex s) w) msgs fs"
    and act: "stage_activate C write_exs w msgs fs (sy_ex s) (sy_store s) = Inr (st, store, out)"
  shows "\<exists>lx'. wr_inv C base (s\<lparr>sy_ex := st, sy_store := store\<rparr>) lx' ls lf"
proof -
  have "ex_rows.stage_inv C (\<lambda>p. exs (base p)) (sy_ex s) (sy_store s) lx" using I by (simp add: wr_inv_defs)
  from ex_rows.stage_activate_ok [OF this C w a] act obtain l where
    l: "ex_rows.stage_inv C (\<lambda>p. exs (base p)) st store (lx(w := lx w @ l))" "st_in st = st_in (sy_ex s)"
      "\<forall>v. v \<noteq> w \<longrightarrow> st_cap st v = st_cap (sy_ex s) v" "st_cap st w = simplify fs"
      "\<forall>p. store p = (sy_store s p)\<lparr>exs := exs (store p)\<rparr>" by auto
  note same = only_exs [OF l(5)]
  have ah: "ahead (caps_of (wc_workers C) (st_cap (sy_ex s)) \<union> caps_of (wc_workers C) (st_cap (sy_snap s)))
      (caps_of (wc_workers C) (st_cap st) \<union> caps_of (wc_workers C) (st_cap (sy_snap s)))"
    by (rule ahead_Un [OF caps_ahead [OF w] ahead_refl]) (use a l(3,4) in \<open>auto simp: allowed_def\<close>)
  have sn: "snap_rows.stage_inv C (\<lambda>p. snaps (base p)) (sy_snap s) store ls"
    by (rule snap_rows.stage_inv_store [where store = "sy_store s"]) (use I same in \<open>simp_all add: wr_inv_defs\<close>)
  have fr: "front_rows.stage_inv C (\<lambda>p. fronts (base p)) (sy_front s) store lf"
    by (rule front_rows.stage_inv_store [where store = "sy_store s"]) (use I same in \<open>simp_all add: wr_inv_defs\<close>)
  have or: "order_inv (wc_workers C) (s\<lparr>sy_ex := st, sy_store := store\<rparr>)"
    using I sees_ahead [OF _ ah] by (simp add: wr_inv_def order_inv_def)
  have re: "report_inv C (s\<lparr>sy_ex := st, sy_store := store\<rparr>)"
    using I bound_ahead [OF _ ah] by (fastforce simp: wr_inv_def report_inv_def)
  show ?thesis
    using I l(1,2) sn fr or re same by (intro exI [of _ "lx(w := lx w @ l)"]) (simp add: wr_inv_def stages_inv_def rows_inv_def commit_inv_def com_inv_def)
qed

lemma write_snap_keeps:
  assumes I: "wr_inv C base s lx ls lf" and C: "config_ok C" and w: "w < wc_workers C"
    and a: "allowed (st_flight (sy_snap s) w) (caps_of (wc_workers C) (sy_snaps s)) (st_cap (sy_snap s) w) msgs fs"
    and act: "stage_activate C write_snaps w msgs fs (sy_snap s) (sy_store s) = Inr (st, store, out)"
  shows "\<exists>ls'. wr_inv C base (s\<lparr>sy_snap := st, sy_store := store\<rparr>) lx ls' lf"
proof -
  have i: "snap_rows.stage_inv C (\<lambda>p. snaps (base p)) (sy_snap s) (sy_store s) ls" using I by (simp add: wr_inv_defs)
  have "sees (st_cap (sy_snap s) w) (caps_of (wc_workers C) (sy_snaps s))" using I w by (simp add: wr_inv_defs)
  then have up: "st_cap (sy_snap s) w = None \<longrightarrow> caps_of (wc_workers C) (sy_snaps s) = {}" by (auto simp: sees_def)
  from snap_rows.stage_activate_ok [OF i C w a up] act obtain l where
    l: "snap_rows.stage_inv C (\<lambda>p. snaps (base p)) st store (ls(w := ls w @ l))" "st_in st = st_in (sy_snap s)"
      "\<forall>v. v \<noteq> w \<longrightarrow> st_cap st v = st_cap (sy_snap s) v" "st_cap st w = simplify fs"
      "\<forall>p. store p = (sy_store s p)\<lparr>snaps := snaps (store p)\<rparr>" by auto
  note same = only_snaps [OF l(5)]
  have ah: "ahead (caps_of (wc_workers C) (st_cap (sy_ex s)) \<union> caps_of (wc_workers C) (st_cap (sy_snap s)))
      (caps_of (wc_workers C) (st_cap (sy_ex s)) \<union> caps_of (wc_workers C) (st_cap st))"
    by (rule ahead_Un [OF ahead_refl caps_ahead [OF w]]) (use a l(3,4) in \<open>auto simp: allowed_def\<close>)
  have sn: "ex_rows.stage_inv C (\<lambda>p. exs (base p)) (sy_ex s) store lx"
    by (rule ex_rows.stage_inv_store [where store = "sy_store s"]) (use I same in \<open>simp_all add: wr_inv_defs\<close>)
  have fr: "front_rows.stage_inv C (\<lambda>p. fronts (base p)) (sy_front s) store lf"
    by (rule front_rows.stage_inv_store [where store = "sy_store s"]) (use I same in \<open>simp_all add: wr_inv_defs\<close>)
  have "sees (simplify fs) (caps_of (wc_workers C) (sy_snaps s))" using a by (simp add: allowed_def sees_Un)
  then have "sees (st_cap st v) (caps_of (wc_workers C) (sy_snaps s))" if "v < wc_workers C" for v
    using I l(3,4) that by (cases "v = w") (auto simp: wr_inv_def order_inv_def)
  then have or: "order_inv (wc_workers C) (s\<lparr>sy_snap := st, sy_store := store\<rparr>)"
    using I sees_ahead [OF _ ah] by (simp add: wr_inv_def order_inv_def)
  have re: "report_inv C (s\<lparr>sy_snap := st, sy_store := store\<rparr>)"
    using I bound_ahead [OF _ ah] by (fastforce simp: wr_inv_def report_inv_def)
  show ?thesis
    using I l(1,2) sn fr or re same by (intro exI [of _ "ls(w := ls w @ l)"]) (simp add: wr_inv_def stages_inv_def rows_inv_def commit_inv_def com_inv_def)
qed

lemma less_ahead: "\<forall>t \<in> T. (x :: epoch) < t \<Longrightarrow> ahead T T' \<Longrightarrow> \<forall>t \<in> T'. x < t"
  by (fastforce simp: ahead_def intro: less_le_trans)

lemma write_front_keeps:
  assumes I: "wr_inv C base s lx ls lf" and C: "config_ok C" and w: "w < wc_workers C"
    and a: "allowed (st_flight (sy_front s) w) (caps_of (wc_workers C) (sy_rep s)) (st_cap (sy_front s) w) msgs fs"
    and act: "stage_activate C write_fronts w msgs fs (sy_front s) (sy_store s) = Inr (st, store, out)"
  shows "\<exists>lf'. wr_inv C base (s\<lparr>sy_front := st, sy_store := store,
      sy_ticks := (\<lambda>v. sy_ticks s v + mset (map (\<lambda>(e, u). (e, [u])) out))\<rparr>) lx ls lf'"
proof -
  let ?n = "wc_workers C"
  let ?s = "s\<lparr>sy_front := st, sy_store := store, sy_ticks := (\<lambda>v. sy_ticks s v + mset (map (\<lambda>(e, u). (e, [u])) out))\<rparr>"
  have i: "front_rows.stage_inv C (\<lambda>p. fronts (base p)) (sy_front s) (sy_store s) lf" using I by (simp add: wr_inv_defs)
  have "sees (st_cap (sy_front s) w) (caps_of ?n (sy_rep s))" using I w by (simp add: wr_inv_defs)
  then have up: "st_cap (sy_front s) w = None \<longrightarrow> caps_of ?n (sy_rep s) = {}" by (auto simp: sees_def)
  from front_rows.stage_activate_ok [OF i C w a up] act obtain l es where
    l: "front_rows.stage_inv C (\<lambda>p. fronts (base p)) st store (lf(w := lf w @ l))" "st_in st = st_in (sy_front s)"
      "\<forall>v. v \<noteq> w \<longrightarrow> st_cap st v = st_cap (sy_front s) v" "st_cap st w = simplify fs"
      "\<forall>p. store p = (sy_store s p)\<lparr>fronts := fronts (store p)\<rparr>"
      "out = ticks es" "\<forall>e \<in> set es. \<exists>c. st_cap (sy_front s) w = Some c \<and> c \<le> e" by auto
  note same = only_fronts [OF l(5)]
  have ah: "ahead (caps_of ?n (st_cap (sy_front s))) (caps_of ?n (st_cap st))"
    by (rule caps_ahead [OF w]) (use a l(3,4) in \<open>auto simp: allowed_def\<close>)
  have sn: "ex_rows.stage_inv C (\<lambda>p. exs (base p)) (sy_ex s) store lx"
    by (rule ex_rows.stage_inv_store [where store = "sy_store s"]) (use I same in \<open>simp_all add: wr_inv_defs\<close>)
  have fr: "snap_rows.stage_inv C (\<lambda>p. snaps (base p)) (sy_snap s) store ls"
    by (rule snap_rows.stage_inv_store [where store = "sy_store s"]) (use I same in \<open>simp_all add: wr_inv_defs\<close>)
  have "sees (simplify fs) (caps_of ?n (sy_rep s))" using a by (simp add: allowed_def sees_Un)
  then have "sees (st_cap st v) (caps_of ?n (sy_rep s))" if "v < ?n" for v
    using I l(3,4) that by (cases "v = w") (auto simp: wr_inv_def order_inv_def)
  then have or: "order_inv ?n ?s" using I sees_ahead [OF _ ah] by (simp add: wr_inv_def order_inv_def)
  have re: "report_inv C ?s" using I l(2) by (simp add: wr_inv_def report_inv_def)
  have co: "commit_inv C base ?s" using I less_ahead [OF _ ah] same by (fastforce simp: wr_inv_def commit_inv_def)
  have "com_inv C ?s v" if v: "v < ?n" for v
  proof -
    have V: "com_inv C s v" "sees (com_cap s v) (caps_of ?n (st_cap (sy_front s)))"
      using I v by (simp_all add: wr_inv_defs)
    have "\<exists>c. com_cap s v = Some c \<and> c \<le> e" if "e \<in> set es" for e
    proof -
      from l(7) that obtain c where c: "st_cap (sy_front s) w = Some c" "c \<le> e" by blast
      with w V(2) caps_of_I [of w ?n "st_cap (sy_front s)" c] show ?thesis by (fastforce simp: sees_def split: option.splits)
    qed
    with V(1) show ?thesis by (auto simp: com_inv_def l(6) ticks_def split: prod.splits)
  qed
  then show ?thesis using I l(1) sn fr or re co same
    by (intro exI [of _ "lf(w := lf w @ l)"]) (simp add: wr_inv_def stages_inv_def rows_inv_def)
qed

lemma commit_keeps:
  assumes I: "wr_inv C base s lx ls lf" and w: "w < wc_workers C"
    and a: "allowed (sy_ticks s w) (caps_of (wc_workers C) (st_cap (sy_front s))) (com_cap s w) msgs fs"
    and act: "commit_stage C w msgs fs s = Inr (s', out)"
  shows "wr_inv C base s' lx ls lf"
proof -
  let ?n = "wc_workers C"
  have "com_inv C s w" using I w by (simp add: wr_inv_defs)
  from commit_stage_ok [OF this a] act obtain opr store' where
    s': "s' = s\<lparr>sy_com := (sy_com s)(w := opr), sy_ticks := (sy_ticks s)(w := sy_ticks s w - mset msgs), sy_store := store'\<rparr>"
    and c: "com_inv C s' w" "nc_cap (fst opr) = simplify fs"
      "commits_grow {e. \<forall>t \<in> caps_of ?n (st_cap (sy_front s)). e < t} (sy_store s) store'" by auto
  note same = only_commits [OF c(3)]
  have "ex_rows.stage_inv C (\<lambda>p. exs (base p)) (sy_ex s) store' lx"
    by (rule ex_rows.stage_inv_store [where store = "sy_store s"]) (use I same in \<open>simp_all add: wr_inv_defs\<close>)
  moreover have "snap_rows.stage_inv C (\<lambda>p. snaps (base p)) (sy_snap s) store' ls"
    by (rule snap_rows.stage_inv_store [where store = "sy_store s"]) (use I same in \<open>simp_all add: wr_inv_defs\<close>)
  moreover have "front_rows.stage_inv C (\<lambda>p. fronts (base p)) (sy_front s) store' lf"
    by (rule front_rows.stage_inv_store [where store = "sy_store s"]) (use I same in \<open>simp_all add: wr_inv_defs\<close>)
  moreover have "com_inv C s' v" if "v < ?n" for v
    using that I c(1) by (cases "v = w") (simp_all add: s' wr_inv_def stages_inv_def com_inv_def)
  ultimately have st: "stages_inv C base s' lx ls lf" by (simp add: stages_inv_def s')
  have "sees (simplify fs) (caps_of ?n (st_cap (sy_front s)))" using a by (simp add: allowed_def sees_Un)
  then have or: "order_inv ?n s'" using I c(2) by (simp add: wr_inv_def order_inv_def s')
  have co: "commit_inv C base s'"
    unfolding commit_inv_def
  proof (intro allI conjI ballI)
    fix p show "parts (sy_store s' p) = parts (base p)" using I same by (simp add: s' wr_inv_def commit_inv_def)
    fix x assume "x \<in> set (commits (sy_store s' p))"
    then have "x \<in> set (commits (sy_store s p)) \<or> (\<exists>e. (\<forall>t \<in> caps_of ?n (st_cap (sy_front s)). e < t) \<and> cm_epoch x \<le> e)"
      using c(3) by (auto simp: s' commits_grow_def)
    with I show "x \<in> set (commits (base p)) \<or> (\<forall>t \<in> caps_of ?n (st_cap (sy_front s')). cm_epoch x < t)"
      by (auto simp: s' wr_inv_def commit_inv_def intro: le_less_trans)
  qed
  show ?thesis using I st or co by (simp add: wr_inv_def report_inv_def rows_inv_def s')
qed

lemma report_keeps:
  assumes I: "wr_inv C base s lx ls lf" and C: "config_ok C" and w: "w < wc_workers C"
    and see: "sees (simplify fs) (caps_of (wc_workers C) (st_cap (sy_ex s)) \<union> caps_of (wc_workers C) (st_cap (sy_snap s)))"
    and act: "frontier_activate (rf_ex (wc_from C)) w (sy_rep s w) fs = Inr (cap, out)"
    and send: "send_reports C out (sy_front s) = Inr st"
  shows "wr_inv C base (s\<lparr>sy_rep := (sy_rep s)(w := cap), sy_front := st\<rparr>) lx ls lf"
proof (cases "out = []")
  case True
  with act have "cap = sy_rep s w"
    by (auto simp: frontier_activate_def Let_def cap_downgrade_def emap_eq_Inr_iff split: option.splits if_splits)
  moreover have "st = sy_front s" using True send by (simp add: send_reports_def)
  ultimately show ?thesis using I by (simp add: fun_upd_idem)
next
  case False
  let ?n = "wc_workers C" and ?ex = "rf_ex (wc_from C)" and ?r = "rf_epoch (wc_from C)"
  let ?T = "caps_of ?n (st_cap (sy_ex s)) \<union> caps_of ?n (st_cap (sy_snap s))"
  from act False obtain c where c: "sy_rep s w = Some c" by (auto simp: frontier_activate_def split: option.splits)
  define f where "f = (case simplify fs of None \<Rightarrow> c + 1 | Some f \<Rightarrow> f)"
  have o: "out = [(c, (?ex, w), FrontierMeta ?ex w f)]" "cap = simplify fs" "c < f"
    using act False by (auto simp: frontier_activate_def c Let_def cap_downgrade_def emap_eq_Inr_iff f_def split: option.splits if_splits)
  from route_kv_ok [OF C, of "wc_pf_front C" "(?ex, w)"] obtain p v where
    r: "p \<in> mine C v" "v < ?n" "route_kv C (wc_pf_front C) ((?ex, w), FrontierMeta ?ex w f) = Inr (v, p, (?ex, w), FrontierMeta ?ex w f)"
    by (elim exE conjE) (rule that, auto)
  let ?row = "(v, p, (?ex, w), FrontierMeta ?ex w f)"
  have st: "st = send_routed c [?row] (sy_front s)" using send r(3) by (simp add: send_reports_def o(1))
  have cin: "c \<in> caps_of ?n (sy_rep s)" using w c by (auto simp: caps_of_def)
  have caps: "\<exists>c'. st_cap (sy_front s) u = Some c' \<and> c' \<le> c" if "u < ?n" for u
  proof -
    have "sees (st_cap (sy_front s) u) (caps_of ?n (sy_rep s))" using I that by (simp add: wr_inv_defs)
    with cin show ?thesis by (auto simp: sees_def split: option.splits)
  qed
  have fr: "front_rows.stage_inv C (\<lambda>p. fronts (base p)) st (sy_store s) lf"
    unfolding st by (rule front_rows.send_routed_inv) (use I r caps in \<open>auto simp: wr_inv_defs front_rows.room_def\<close>)
  have ah: "ahead (caps_of ?n (sy_rep s)) (caps_of ?n ((sy_rep s)(w := cap)))"
    by (rule caps_ahead [OF w]) (use o(2,3) c in \<open>auto simp: not_back_def f_def split: option.splits\<close>)
  have caps': "st_cap st = st_cap (sy_front s)" by (simp add: st)
  have or: "order_inv ?n (s\<lparr>sy_rep := (sy_rep s)(w := cap), sy_front := st\<rparr>)"
    using I sees_ahead [OF _ ah] see o(2) by (simp add: wr_inv_def order_inv_def caps')
  have le: "\<forall>t \<in> ?T. f \<le> t" using see by (auto simp: sees_def f_def split: option.splits)
  have ch: "chain ?r (reports_of w (st_in (sy_front s)))" "c = chain_end ?r (reports_of w (st_in (sy_front s)))"
    using I w c by (auto simp: wr_inv_def report_inv_def)
  have new: "reports_of u (st_in st) = reports_of u (st_in (sy_front s)) @ (if u = w then [(c, f)] else [])" for u
    by (simp add: st) (simp add: reports_of_def)
  have "chain ?r (reports_of u (st_in st)) \<and> (\<forall>c'. ((sy_rep s)(w := cap)) u = Some c' \<longrightarrow> c' = chain_end ?r (reports_of u (st_in st)))"
    if "u < ?n" for u
  proof (cases "u = w")
    case True
    have "c' = f" if "cap = Some c'" for c' using that o(2) by (simp add: f_def)
    with ch o(3) show ?thesis by (auto simp: True new chain_append chain_end_append)
  next
    case False
    with I that show ?thesis by (simp add: new wr_inv_def report_inv_def)
  qed
  moreover have "\<forall>(e, v, p, k, g) \<in> set (st_in st). fst k = ?ex \<and> snd k < ?n \<and> front_pk g = k \<and>
      route_kv C (wc_pf_front C) (k, g) = Inr (v, p, k, g) \<and> (\<forall>t \<in> ?T. fm_frontier g \<le> t)"
    using I r w le by (auto simp: st wr_inv_def report_inv_def)
  ultimately have re: "report_inv C (s\<lparr>sy_rep := (sy_rep s)(w := cap), sy_front := st\<rparr>)"
    by (simp add: report_inv_def)
  show ?thesis using I fr or re by (simp add: wr_inv_def stages_inv_def rows_inv_def commit_inv_def com_inv_def caps')
qed

text \<open>What the store has to be like for a new execution to start.\<close>

definition base_ok :: "('s, 'k, 'v) wr_config \<Rightarrow> (part_index \<Rightarrow> ('s, 'k) recovery_part) \<Rightarrow> bool" where
  "base_ok C base \<longleftrightarrow> (\<forall>p \<in> set (all_known C). distinct (map em_ex (exs (base p))) \<and> (\<forall>x \<in> set (exs (base p)). em_ex x < rf_ex (wc_from C)))"

lemma init_inv:
  assumes C: "config_ok C" and B: "base_ok C base"
  shows "\<exists>lx ls lf. wr_inv C base (wr_init C base) lx ls lf"
proof -
  let ?n = "wc_workers C" and ?ex = "rf_ex (wc_from C)" and ?r = "rf_epoch (wc_from C)"
  let ?m = "ExecutionMeta ?ex ?n ?r"
  have caps [simp]: "st_cap (stage_start C) w = Some ?r" for w
    by (simp add: stage_start_def st_cap_def nc_cap_def op_start_def)
  have call: "caps_of ?n (\<lambda>_. Some ?r) = {?r}" using workers_pos [OF C] by (auto simp: caps_of_def)
  have call': "caps_of ?n (st_cap (stage_start C)) = {?r}" unfolding call [symmetric] by (simp add: caps_of_def)
  from route_kv_ok [OF C, of "wc_pf_ex C" ?ex] obtain p v where
    r: "p \<in> mine C v" "v < ?n" "route_kv C (wc_pf_ex C) (?ex, ?m) = Inr (v, p, ?ex, ?m)"
    by (elim exE conjE) (rule that, auto)
  have ex: "send_ex C (stage_start C) = send_routed ?r [(v, p, ?ex, ?m)] (stage_start C)"
    using r(3) by (simp add: send_ex_def write_ex_source_def into_stream_once_at_def into_stream_at_def ex_row_def)
  have f0: "\<forall>p \<in> homes C. fits_exs (exs (base p)) {#}" using B fits_exs_mset [of _ "[]"] by (simp add: base_ok_def homes_known [OF C])
  have "fits_exs (exs (base q)) (image_mset (\<lambda>(_, _, v). v) (filter_mset (\<lambda>(q', _, _). q' = q) (mset [(p, ?r, ?m)])))" if q: "q \<in> homes C" for q
  proof (cases "q = p")
    case True
    have known: "q \<in> set (all_known C)" using q homes_known [OF C] by simp
    then have "?ex \<notin> em_ex ` set (exs (base q))" using B by (force simp: base_ok_def)
    with True B known workers_pos [OF C] fits_exs_mset [of "exs (base q)" "[?m]"] show ?thesis by (simp add: base_ok_def)
  next
    case False
    with f0 q show ?thesis by simp
  qed
  then have room: "ex_rows.room (\<lambda>p. exs (base p)) (homes C) (mset (map sent_row (st_in (stage_start C) @ map (Pair ?r) [(v, p, ?ex, ?m)])))"
    by (simp add: ex_rows.room_def stage_start_def sent_row_def)
  have "ex_rows.stage_inv C (\<lambda>p. exs (base p)) (stage_start C) base (\<lambda>_. [])"
    by (rule ex_rows.stage_start_inv [OF C]) (use f0 in simp_all)
  then have e: "ex_rows.stage_inv C (\<lambda>p. exs (base p)) (send_ex C (stage_start C)) base (\<lambda>_. [])"
    unfolding ex by (rule ex_rows.send_routed_inv) (use r room in auto)
  have s: "snap_rows.stage_inv C (\<lambda>p. snaps (base p)) (stage_start C) base (\<lambda>_. [])"
    by (rule snap_rows.stage_start_inv [OF C]) simp_all
  have f: "front_rows.stage_inv C (\<lambda>p. fronts (base p)) (stage_start C) base (\<lambda>_. [])"
    by (rule front_rows.stage_start_inv [OF C]) simp_all
  have c: "com_inv C (wr_init C base) w" for w
    using built_parts_handles [OF C, of w] by (simp add: com_inv_def wr_init_def com_ok_def op_start_def nc_cap_def inbuf_new_def)
  have i: "st_in (stage_start C) = []" by (simp add: stage_start_def)
  have "stages_inv C base (wr_init C base) (\<lambda>_. []) (\<lambda>_. []) (\<lambda>_. [])"
    using e s f c by (simp add: stages_inv_def wr_init_def)
  moreover have "order_inv ?n (wr_init C base)"
    by (simp add: order_inv_def wr_init_def call call' sees_def ex) (simp add: op_start_def nc_cap_def)
  moreover have "report_inv C (wr_init C base)" by (simp add: report_inv_def wr_init_def i)
  moreover have "rows_inv C (wr_init C base)" by (simp add: rows_inv_def wr_init_def i call ex)
  moreover have "commit_inv C base (wr_init C base)" by (simp add: commit_inv_def wr_init_def)
  ultimately show ?thesis by (auto simp: wr_inv_def)
qed

theorem reach_inv:
  assumes "(wr_step C)\<^sup>*\<^sup>* (wr_init C base) s" and C: "config_ok C" and B: "base_ok C base"
  shows "\<exists>lx ls lf. wr_inv C base s lx ls lf"
  using assms(1)
proof (induction rule: rtranclp_induct)
  case base
  show ?case by (rule init_inv [OF C B])
next
  case (step s s')
  then obtain lx ls lf where I: "wr_inv C base s lx ls lf" by blast
  from step.hyps(2) show ?case
  proof cases
    case (snap w c e ss rows routed)
    then show ?thesis using snap_keeps [OF I C snap(2-6)] by blast
  next
    case (advance w c cap)
    then show ?thesis using advance_keeps [OF I advance(2-4)] by blast
  next
    case (write_ex w msgs fs st store out)
    then show ?thesis using write_ex_keeps [OF I C write_ex(2-4)] by blast
  next
    case (write_snap w msgs fs st store out)
    then show ?thesis using write_snap_keeps [OF I C write_snap(2-4)] by blast
  next
    case (report w fs cap out st)
    then show ?thesis using report_keeps [OF I C report(2-5)] by blast
  next
    case (write_front w msgs fs st store out)
    then show ?thesis using write_front_keeps [OF I C write_front(2-4)] by blast
  next
    case (commit w msgs fs out)
    then show ?thesis using commit_keeps [OF I commit(1-3)] by blast
  qed
qed

end
