(* ===== verification/Crash_Resume.thy ===== *)
theory Crash_Resume
  imports Recovery_Inv
begin

text \<open>
  What the next execution computes from the databases of one that stopped anywhere: as long as the row of
  the execution is missing it resumes where that one did, afterwards at the least progress reported, and a
  report written stays or gives way to a later one.
\<close>

section \<open>What the next execution reads\<close>

lemma gathered_simps [simp]:
  "parts (gathered C store) = concat (map (\<lambda>p. parts (store p)) (all_known C))"
  "exs (gathered C store) = concat (map (\<lambda>p. exs (store p)) (all_known C))"
  "fronts (gathered C store) = concat (map (\<lambda>p. fronts (store p)) (all_known C))"
  "commits (gathered C store) = concat (map (\<lambda>p. commits (store p)) (all_known C))"
  by (simp_all add: gathered_def part_loader_next_def ex_loader_next_def front_loader_next_def commit_loader_next_def Let_def)

text \<open>The execution was started from this store.\<close>

definition starts_from :: "('s, 'k, 'v) wr_config \<Rightarrow> (part_index \<Rightarrow> ('s, 'k) recovery_part) \<Rightarrow> bool" where
  "starts_from C base \<longleftrightarrow> config_ok C \<and> base_ok C base \<and> (\<exists>N. all_parts N (gathered C base)) \<and>
     exs_wf (exs (gathered C base)) \<and> (\<forall>f \<in> set (fronts (gathered C base)). fm_ex f < rf_ex (wc_from C)) \<and>
     part_resume_from (gathered C base) = Inr (wc_from C)"

lemma known_mine:
  assumes "config_ok C" and "p \<in> set (all_known C)"
  shows "\<exists>w. p \<in> mine C w \<and> w < wc_workers C"
proof -
  have "p \<in> fst ` set (wc_prim C)" using assms config_primaries(2) [OF assms(1)] by (simp add: all_known_def)
  then have "p \<in> dom (bt_get (wc_prim C))" by (simp add: bt_dom)
  then obtain w where "p \<in> mine C w" by (auto simp: mine_def)
  with mine_worker [OF assms(1)] show ?thesis by blast
qed

lemma mine_known: "config_ok C \<Longrightarrow> p \<in> mine C w \<Longrightarrow> p \<in> set (all_known C)"
  using config_primaries(2) [of C] by (force simp: mine_def all_known_def dest: map_of_SomeD)

lemma all_known_distinct: "distinct (all_known C)"
  unfolding all_known_def by (intro bs_wf_distinct bs_wf_extend bs_wf_Nil)

lemma starts_from_commits: "starts_from C base \<Longrightarrow> p \<in> set (all_known C) \<Longrightarrow> x \<in> set (commits (base p)) \<Longrightarrow>
    cm_epoch x \<le> rf_epoch (wc_from C)"
proof -
  assume s: "starts_from C base" and p: "p \<in> set (all_known C)" "x \<in> set (commits (base p))"
  then obtain N where N: "all_parts N (gathered C base)" by (auto simp: starts_from_def)
  have r: "part_resume_from (gathered C base) = Inr (wc_from C)" using s by (simp add: starts_from_def)
  with resume_from_all [OF N] have "list_all (\<lambda>c. cm_epoch c \<le> rf_epoch (wc_from C)) (commits (gathered C base))"
    by (auto split: if_splits)
  with p show ?thesis by (auto simp: list_all_iff)
qed

section \<open>Tables after upserts\<close>

lemma upserts_subset: "set (foldl (upsert_row pk) rows items) \<subseteq> set rows \<union> set items"
  by (induction items arbitrary: rows rule: rev_induct) (auto simp: upsert_set)

lemma upserts_unique:
  assumes "r \<in> set items" and "\<forall>x \<in> set items. pk x = pk r \<longrightarrow> x = r"
  shows "r \<in> set (foldl (upsert_row pk) rows items)"
proof -
  have "List.find (\<lambda>x. pk x = pk r) (rev items) \<noteq> None" using assms(1) by (auto simp: find_None_iff)
  then obtain y where y: "List.find (\<lambda>x. pk x = pk r) (rev items) = Some y" by blast
  then have "y \<in> set items" "pk y = pk r" by (auto simp: find_Some_iff) (metis nth_mem set_rev length_rev)
  with assms y show ?thesis by (auto simp: upserts_lookup)
qed

lemma upserts_last:
  assumes "filter (\<lambda>x. pk x = k) items \<noteq> []"
  shows "last (filter (\<lambda>x. pk x = k) items) \<in> set (foldl (upsert_row pk) rows items)"
  using assms
proof (induction items arbitrary: rows rule: rev_induct)
  case Nil
  then show ?case by simp
next
  case (snoc x items)
  show ?case
  proof (cases "pk x = k")
    case True
    then show ?thesis by (simp add: upsert_set)
  next
    case False
    with snoc.prems have ne: "filter (\<lambda>x. pk x = k) items \<noteq> []" by simp
    then have "last (filter (\<lambda>x. pk x = k) items) \<in> set (filter (\<lambda>x. pk x = k) items)" by (rule last_in_set)
    with False snoc.IH [OF ne] show ?thesis by (auto simp: upsert_set)
  qed
qed

lemma upserts_filter:
  assumes "\<forall>x \<in> set items. \<not> P x" and "\<And>x y. pk x = pk y \<Longrightarrow> P x = P y"
  shows "filter P (foldl (upsert_row pk) rows items) = filter P rows"
  using assms(1)
proof (induction items arbitrary: rows)
  case Nil
  then show ?case by simp
next
  case (Cons x items)
  have x: "\<not> P x" using Cons.prems by simp
  have "filter P (map (\<lambda>y. if pk y = pk x then x else y) rows) = filter P rows"
  proof (induction rows)
    case (Cons y rows)
    then show ?case using x assms(2) [of y x] by auto
  qed simp
  then have "filter P (upsert_row pk rows x) = filter P rows" using x by (simp add: upsert_row_def)
  with Cons.IH [of "upsert_row pk rows x"] Cons.prems show ?case by simp
qed

section \<open>The gathered rows\<close>

abbreviation this_ex :: "('s, 'k, 'v) wr_config \<Rightarrow> execution_meta" where
  "this_ex C \<equiv> ExecutionMeta (rf_ex (wc_from C)) (wc_workers C) (rf_epoch (wc_from C))"

text \<open>The fronts: those of earlier executions, and reports of this one.\<close>

lemma front_sent:
  assumes I: "wr_inv C base s lx ls lf" and B: "starts_from C base" and f: "f \<in> set (fronts (gathered C (sy_store s)))"
  shows "f \<in> set (fronts (gathered C base)) \<or>
    (\<exists>e w p k. (e, w, p, k, f) \<in> set (st_in (sy_front s)) \<and> fm_ex f = rf_ex (wc_from C) \<and> k = (rf_ex (wc_from C), fm_worker f))"
proof -
  from f obtain p where p: "p \<in> set (all_known C)" "f \<in> set (fronts (sy_store s p))" by auto
  have C: "config_ok C" using B by (simp add: starts_from_def)
  from known_mine [OF C p(1)] obtain w where w: "p \<in> mine C w" "w < wc_workers C" by blast
  have St: "front_rows.stage_inv C (\<lambda>p. fronts (base p)) (sy_front s) (sy_store s) lf" using I by (simp add: wr_inv_defs)
  then have "fronts (sy_store s p) = foldl (upsert_row front_pk) (fronts (base p)) (rows_of p (lf w))"
    using w by (simp add: front_rows.stage_inv_def front_rows.worker_inv_def)
  with p(2) upserts_subset have "f \<in> set (fronts (base p)) \<or> f \<in> set (rows_of p (lf w))" by fastforce
  then show ?thesis
  proof
    assume "f \<in> set (fronts (base p))"
    with p(1) show ?thesis by auto
  next
    assume "f \<in> set (rows_of p (lf w))"
    then obtain e where "(p, e, f) \<in> set (lf w)" by (auto simp: rows_of_def)
    from front_rows.stage_log_sent [OF St w(2) this] obtain k where k: "(e, w, p, k, f) \<in> set (st_in (sy_front s))" by auto
    moreover have "fst k = rf_ex (wc_from C)" "front_pk f = k" using I k by (auto simp: wr_inv_def report_inv_def)
    ultimately show ?thesis by auto
  qed
qed

text \<open>The executions: those before, and this one as soon as its row is written.\<close>

lemma concat_one:
  assumes "distinct ps" and "\<forall>p \<in> set ps. p \<noteq> q \<longrightarrow> f p = g p" and "q \<in> set ps" and "f q = g q @ [m]"
  shows "mset (concat (map f ps)) = add_mset m (mset (concat (map g ps)))"
  using assms
proof (induction ps)
  case Nil
  then show ?case by simp
next
  case (Cons p ps)
  show ?case
  proof (cases "p = q")
    case True
    then have "map f ps = map g ps" using Cons.prems(1,2) by auto
    then have "concat (map f ps) = concat (map g ps)" by (rule arg_cong)
    with True Cons.prems(4) show ?thesis by simp
  next
    case False
    with Cons show ?thesis by simp
  qed
qed

lemma exs_written:
  assumes I: "wr_inv C base s lx ls lf" and B: "starts_from C base"
  shows "\<exists>w. w < wc_workers C \<and> (
    mset (exs (gathered C (sy_store s))) = add_mset (this_ex C) (mset (exs (gathered C base))) \<or>
    exs (gathered C (sy_store s)) = exs (gathered C base) \<and> (\<exists>c. st_cap (sy_ex s) w = Some c \<and> c \<le> rf_epoch (wc_from C)))"
proof -
  let ?r = "rf_epoch (wc_from C)"
  have C: "config_ok C" using B by (simp add: starts_from_def)
  have St: "ex_rows.stage_inv C (\<lambda>p. exs (base p)) (sy_ex s) (sy_store s) lx" using I by (simp add: wr_inv_defs)
  obtain w q where i: "st_in (sy_ex s) = [(?r, w, q, rf_ex (wc_from C), this_ex C)]" using I by (auto simp: wr_inv_def rows_inv_def)
  then have q: "q \<in> mine C w" "w < wc_workers C" using St by (auto simp: ex_rows.stage_inv_def)
  have tab: "exs (sy_store s p) = exs (base p) @ rows_of p (lx v)" if "p \<in> mine C v" "v < wc_workers C" for p v
    using St that by (simp add: ex_rows.stage_inv_def ex_rows.worker_inv_def)
  have sub: "set (lx v) \<subseteq> {(q, ?r, this_ex C)}" "v \<noteq> w \<longrightarrow> lx v = []" if v: "v < wc_workers C" for v
  proof -
    have "x = (q, ?r, this_ex C) \<and> v = w" if "x \<in> set (lx v)" for x
      using ex_rows.stage_log_sent [OF St v that] by (auto simp: i)
    then show "set (lx v) \<subseteq> {(q, ?r, this_ex C)}" "v \<noteq> w \<longrightarrow> lx v = []" by (blast, cases "lx v", auto)
  qed
  have one: "mset (lx w) \<subseteq># {#(q, ?r, this_ex C)#}"
  proof -
    obtain nc items prs where o: "st_ops (sy_ex s) w = (nc, items, prs)" by (metis prod_cases3)
    have "ex_rows.worker_inv C (\<lambda>p. exs (base p)) (sy_ex s) (sy_store s) w (lx w)"
      using St q(2) by (simp add: ex_rows.stage_inv_def)
    then have "mset (sent_to w (st_in (sy_ex s))) = mset (lx w) + mset (buffered items) + flying (st_flight (sy_ex s) w)"
      by (simp add: ex_rows.worker_inv_def o)
    moreover have "mset (sent_to w (st_in (sy_ex s))) = {#(q, ?r, this_ex C)#}" by (simp add: i sent_to_def sent_row_def)
    ultimately show ?thesis by (metis add.assoc mset_subset_eq_add_left)
  qed
  have lw: "lx w = [] \<or> lx w = [(q, ?r, this_ex C)]"
    using size_mset_mono [OF one] sub(1) [OF q(2)] by (cases "lx w") auto
  have known: "q \<in> set (all_known C)" by (rule mine_known [OF C q(1)])
  have other: "exs (sy_store s p) = exs (base p)" if p: "p \<in> set (all_known C)" "p \<noteq> q \<or> lx w = []" for p
  proof -
    from known_mine [OF C p(1)] obtain v where v: "p \<in> mine C v" "v < wc_workers C" by blast
    have "rows_of p (lx v) = []" using sub [OF v(2)] p(2) by (cases "v = w") (auto simp: rows_of_def filter_empty_conv)
    with tab [OF v] show ?thesis by simp
  qed
  from lw show ?thesis
  proof
    assume e: "lx w = []"
    then have "exs (gathered C (sy_store s)) = exs (gathered C base)" using other by (auto intro!: arg_cong [where f = concat])
    moreover have "\<exists>c. st_cap (sy_ex s) w = Some c \<and> c \<le> ?r"
    proof (rule ccontr)
      assume n: "\<not> (\<exists>c. st_cap (sy_ex s) w = Some c \<and> c \<le> ?r)"
      have "(q, ?r, this_ex C) \<in> set (lx w)"
        by (rule ex_rows.stage_written [OF St, where k = "rf_ex (wc_from C)"]) (use n in \<open>auto simp: i not_le\<close>)
      with e show False by simp
    qed
    ultimately show ?thesis using q(2) by blast
  next
    assume l: "lx w = [(q, ?r, this_ex C)]"
    have "exs (sy_store s q) = exs (base q) @ [this_ex C]" using tab [OF q] by (simp add: l rows_of_def)
    then have "mset (exs (gathered C (sy_store s))) = add_mset (this_ex C) (mset (exs (gathered C base)))"
      unfolding gathered_simps using other known by (intro concat_one [OF all_known_distinct, of C q]) auto
    with q(2) show ?thesis by blast
  qed
qed

section \<open>Where the next execution resumes\<close>

lemma resume_from_Inr: "part_resume_from db = Inr rf \<Longrightarrow> rf = resume_point db"
  by (auto simp: part_resume_from_def resume_point_def Let_def split: if_splits)

text \<open>As long as the execution's own row is missing, nothing has changed.\<close>

lemma resume_point_before:
  assumes I: "wr_inv C base s lx ls lf" and B: "starts_from C base"
    and x: "exs (gathered C (sy_store s)) = exs (gathered C base)"
  shows "resume_point (gathered C (sy_store s)) = wc_from C"
proof -
  let ?es = "exs (gathered C base)" and ?fr = "fronts (gathered C (sy_store s))" and ?fb = "fronts (gathered C base)"
  have C: "config_ok C" using B by (simp add: starts_from_def)
  have St: "front_rows.stage_inv C (\<lambda>p. fronts (base p)) (sy_front s) (sy_store s) lf" using I by (simp add: wr_inv_defs)
  have "resume_row ?es ?fr = resume_row ?es ?fb"
  proof (cases "?es = []")
    case True
    then show ?thesis by (simp only: resume_row_None)
  next
    case False
    let ?m = "Max (set (map em_ex ?es))"
    have lt: "?m < rf_ex (wc_from C)"
    proof -
      have "?m \<in> set (map em_ex ?es)" using False by (intro Max_in) auto
      with B show ?thesis by (auto simp: starts_from_def base_ok_def)
    qed
    have one: "filter (\<lambda>f. fm_ex f = ?m) (fronts (sy_store s p)) = filter (\<lambda>f. fm_ex f = ?m) (fronts (base p))"
      if p: "p \<in> set (all_known C)" for p
    proof -
      from known_mine [OF C p] obtain w where w: "p \<in> mine C w" "w < wc_workers C" by blast
      have tab: "fronts (sy_store s p) = foldl (upsert_row front_pk) (fronts (base p)) (rows_of p (lf w))"
        using St w by (simp add: front_rows.stage_inv_def front_rows.worker_inv_def)
      have "fm_ex f = rf_ex (wc_from C)" if f: "f \<in> set (rows_of p (lf w))" for f
      proof -
        from f obtain e where "(p, e, f) \<in> set (lf w)" by (auto simp: rows_of_def)
        from front_rows.stage_log_sent [OF St w(2) this] obtain k where k: "(e, w, p, k, f) \<in> set (st_in (sy_front s))" by auto
        then have "fst k = rf_ex (wc_from C)" "front_pk f = k" using I by (auto simp: wr_inv_def report_inv_def)
        then show ?thesis by auto
      qed
      then show ?thesis unfolding tab using lt by (intro upserts_filter) auto
    qed
    have "filter (\<lambda>f. fm_ex f = ?m) ?fr = filter (\<lambda>f. fm_ex f = ?m) ?fb"
      unfolding gathered_simps filter_concat map_map comp_def using one by (auto intro!: arg_cong [where f = concat])
    then have "explicit_progress ?es ?fr = explicit_progress ?es ?fb" by (simp only: explicit_progress_def)
    then show ?thesis by (simp only: resume_row_def max_progress_def)
  qed
  then have "resume_point (gathered C (sy_store s)) = resume_point (gathered C base)"
    unfolding resume_point_def x by (rule arg_cong)
  also have "\<dots> = wc_from C" using B resume_from_Inr by (fastforce simp: starts_from_def)
  finally show ?thesis .
qed

text \<open>After that the resume epoch is the least progress reported.\<close>

lemma resume_point_after:
  assumes I: "wr_inv C base s lx ls lf" and B: "starts_from C base"
    and x: "mset (exs (gathered C (sy_store s))) = add_mset (this_ex C) (mset (exs (gathered C base)))"
  shows "resume_point (gathered C (sy_store s)) = ResumeFrom (rf_ex (wc_from C) + 1)
    (Min (progress (this_ex C) (fronts (gathered C (sy_store s))) ` {0..<wc_workers C}))"
proof -
  let ?es = "exs (gathered C (sy_store s))" and ?fr = "fronts (gathered C (sy_store s))"
  have C: "config_ok C" using B by (simp add: starts_from_def)
  have set: "set ?es = insert (this_ex C) (set (exs (gathered C base)))" using x by (metis set_mset_add_mset_insert set_mset_mset)
  have lt: "em_ex y < rf_ex (wc_from C)" if "y \<in> set (exs (gathered C base))" for y
    using that B by (auto simp: starts_from_def base_ok_def)
  have "mset (map em_ex ?es) = mset (map em_ex (this_ex C # exs (gathered C base)))" using x by simp
  then have "distinct (map em_ex ?es) = distinct (map em_ex (this_ex C # exs (gathered C base)))" by (rule mset_eq_imp_distinct_iff)
  moreover have "distinct (map em_ex (exs (gathered C base)))" using B by (simp only: starts_from_def exs_wf_def)
  moreover have "rf_ex (wc_from C) \<notin> em_ex ` set (exs (gathered C base))" using lt by fastforce
  ultimately have "distinct (map em_ex ?es)" by simp
  moreover have "list_all (\<lambda>x. 0 < em_workers x) ?es"
    using B workers_pos [OF C] unfolding list_all_iff set by (simp only: starts_from_def exs_wf_def list_all_iff) simp
  ultimately have wf: "exs_wf ?es" by (simp only: exs_wf_def simp_thms)
  have last: "last_ex ?es (this_ex C)" unfolding last_ex_def list_all_iff set using lt by (auto intro: less_imp_le)
  have fr: "fronts_of (this_ex C) ?fr"
    unfolding fronts_of_def list_all_iff
  proof (intro ballI impI)
    fix f assume f: "f \<in> set ?fr" "fm_ex f = em_ex (this_ex C)"
    have old: "\<forall>g \<in> set (fronts (gathered C base)). fm_ex g < rf_ex (wc_from C)" using B unfolding starts_from_def by blast
    have "\<not> f \<in> set (fronts (gathered C base))"
    proof
      assume "f \<in> set (fronts (gathered C base))"
      with old have "fm_ex f < rf_ex (wc_from C)" by (rule bspec)
      with f(2) show False by simp
    qed
    with front_sent [OF I B f(1)] obtain e w p k where "(e, w, p, k, f) \<in> set (st_in (sy_front s))"
      "k = (rf_ex (wc_from C), fm_worker f)" by blast
    then show "fm_worker f < em_workers (this_ex C)" using I by (auto simp: wr_inv_def report_inv_def)
  qed
  show ?thesis unfolding resume_point_def by (simp only: resume_row_value [OF wf last fr]) simp
qed

lemma rows_of_filter: "filter Q (rows_of p xs) = map (\<lambda>(_, _, h). h) (filter (\<lambda>(q, _, h). q = p \<and> Q h) xs)"
  by (induction xs) (auto simp: rows_of_def)

lemma reports_ofI: "(t, v, p, k, g) \<in> set xs \<Longrightarrow> (t, fm_frontier g) \<in> set (reports_of (snd k) xs)"
  by (force simp: reports_of_def)

text \<open>A report that is written stays, or is replaced by a later one.\<close>

lemma report_in_store:
  assumes I: "wr_inv C base s lx ls lf" and B: "starts_from C base" and w: "w < wc_workers C"
    and r: "(t, f) \<in> set (reports_of w (st_in (sy_front s)))"
    and past: "\<forall>v < wc_workers C. \<forall>c. st_cap (sy_front s) v = Some c \<longrightarrow> t < c"
  shows "f \<le> progress (this_ex C) (fronts (gathered C (sy_store s))) w"
proof -
  let ?ex = "rf_ex (wc_from C)"
  have C: "config_ok C" using B by (simp add: starts_from_def)
  have St: "front_rows.stage_inv C (\<lambda>p. fronts (base p)) (sy_front s) (sy_store s) lf" using I by (simp add: wr_inv_defs)
  from r obtain v p k g where sent: "(t, v, p, k, g) \<in> set (st_in (sy_front s))" "snd k = w" "fm_frontier g = f"
    by (auto simp: reports_of_def)
  have R: "fst k' = ?ex \<and> front_pk g' = k' \<and> route_kv C (wc_pf_front C) (k', g') = Inr (v', p', k', g')"
    if "(e, v', p', k', g') \<in> set (st_in (sy_front s))" for e v' p' k' g' using that I by (auto simp: wr_inv_def report_inv_def)
  have k: "k = (?ex, w)" "front_pk g = (?ex, w)" using R [OF sent(1)] sent(2) by (cases k, auto)+
  have v: "v < wc_workers C" "p \<in> mine C v" using St sent(1) by (auto simp: front_rows.stage_inv_def)
  have K: "front_rows.worker_inv C (\<lambda>p. fronts (base p)) (sy_front s) (sy_store s) v (lf v)"
    using St v(1) by (simp add: front_rows.stage_inv_def)
  have inlog: "(p, t, g) \<in> set (lf v)" by (rule front_rows.stage_written [OF St sent(1)]) (use past v(1) in blast)
  define L where "L = filter (\<lambda>(q, _, h). q = p \<and> front_pk h = (?ex, w)) (lf v)"
  have L: "filter (\<lambda>h. front_pk h = (?ex, w)) (rows_of p (lf v)) = map (\<lambda>(_, _, h). h) L"
    unfolding L_def by (rule rows_of_filter)
  have inL: "(p, t, g) \<in> set L" using inlog k(2) by (simp add: L_def)
  then have ne: "L \<noteq> []" by auto
  obtain q t' h where la: "last L = (q, t', h)" by (metis prod_cases3)
  then have "(q, t', h) \<in> set L" using ne last_in_set by metis
  then have h: "q = p" "front_pk h = (?ex, w)" "(p, t', h) \<in> set (lf v)" by (auto simp: L_def)
  have "sorted (map row_epoch L)" using K unfolding L_def front_rows.worker_inv_def by (simp add: sorted_filter)
  moreover have eq: "L = butlast L @ [(q, t', h)]" using append_butlast_last_id [OF ne] la by simp
  ultimately have so: "sorted (map row_epoch (butlast L @ [(q, t', h)]))" by metis
  have "(p, t, g) \<in> set (butlast L @ [(q, t', h)])" using inL eq by metis
  with so have "t \<le> t'" by (auto simp: sorted_append)
  have "last (map (\<lambda>(_, _, h). h) L) = h" using ne la by (simp add: last_map)
  then have "h \<in> set (fronts (sy_store s p))"
    using upserts_last [of front_pk "(?ex, w)" "rows_of p (lf v)" "fronts (base p)"] L ne K v(2)
    by (simp add: front_rows.worker_inv_def)
  then have hg: "h \<in> set (fronts (gathered C (sy_store s)))" using mine_known [OF C v(2)] by auto
  from front_rows.stage_log_sent [OF St v(1) h(3)] obtain k' where k': "(t', v, p, k', h) \<in> set (st_in (sy_front s))" by auto
  have "front_pk h = k'" using R [OF k'] by (elim conjE)
  then have "k' = (?ex, w)" unfolding h(2) by (rule sym)
  from reports_ofI [OF k' [unfolded this]] have "(t', fm_frontier h) \<in> set (reports_of w (st_in (sy_front s)))" by simp
  moreover have "chain (rf_epoch (wc_from C)) (reports_of w (st_in (sy_front s)))" using I w by (simp add: wr_inv_def report_inv_def)
  ultimately have "f \<le> fm_frontier h" using chain_inj [OF _ r] \<open>t \<le> t'\<close> by blast
  also have "\<dots> \<le> progress (this_ex C) (fronts (gathered C (sy_store s))) w"
    unfolding progress_def using hg h(2) by (intro Max_ge) auto
  finally show ?thesis .
qed

end
