(* ===== verification/Recovery_Runs.thy ===== *)
theory Recovery_Runs
  imports Crash_Resume
begin

text \<open>
  The recovery system over whole executions: no operator of it fails, a cluster that stops anywhere can
  resume and finds every snapshot below its resume epoch, and the next execution starts from such a store
  again. The last part evaluates schedules, for the witnesses and for two executions that go wrong.
\<close>

section \<open>Tables with one row per key\<close>

lemma upserts_set:
  assumes "\<forall>x \<in> set items. \<forall>y \<in> set items. pk x = pk y \<longrightarrow> x = y"
  shows "set (foldl (upsert_row pk) rows items) = {r \<in> set rows. pk r \<notin> pk ` set items} \<union> set items"
  using assms
proof (induction items rule: rev_induct)
  case Nil
  then show ?case by simp
next
  case (snoc x items)
  have "\<forall>x \<in> set items. \<forall>y \<in> set items. pk x = pk y \<longrightarrow> x = y" using snoc.prems by simp
  note IH = snoc.IH [OF this]
  have "r = x" if "r \<in> set items" "pk r = pk x" for r using that snoc.prems by simp
  then show ?case by (auto simp: upsert_set IH)
qed

lemma rows_ofI: "(p, e, r) \<in> set xs \<Longrightarrow> r \<in> set (rows_of p xs)"
  by (induction xs) (auto simp: rows_of_def)

section \<open>The resume point of a crashed execution\<close>

lemma reach_rows:
  assumes "starts_from C base" and "(wr_step C)\<^sup>*\<^sup>* (wr_init C base) s"
  shows "\<exists>lx ls lf. wr_inv C base s lx ls lf"
  using assms by (intro reach_inv) (auto simp: starts_from_def)

text \<open>Before the row of the execution is written, no report is.\<close>

lemma no_reports:
  assumes I: "wr_inv C base s lx ls lf" and w: "w < wc_workers C"
    and c: "st_cap (sy_ex s) w = Some c" "c \<le> rf_epoch (wc_from C)"
  shows "st_in (sy_front s) = []"
proof (rule ccontr)
  let ?r = "rf_epoch (wc_from C)"
  assume "st_in (sy_front s) \<noteq> []"
  then obtain x where x: "x \<in> set (st_in (sy_front s))" by (meson last_in_set)
  obtain e v p k f where "x = (e, v, p, k, f)" by (metis prod_cases5)
  with x have f: "(e, v, p, k, f) \<in> set (st_in (sy_front s))" by simp
  have "c \<in> caps_of (wc_workers C) (st_cap (sy_ex s))" using w c(1) by (auto simp: caps_of_def)
  with f I have "fm_frontier f \<le> c" "snd k < wc_workers C" by (auto simp: wr_inv_def report_inv_def)
  from I this(2) have "chain ?r (reports_of (snd k) (st_in (sy_front s)))" by (simp add: wr_inv_def report_inv_def)
  from chain_bounds [OF this] reports_ofI [OF f] have "?r < fm_frontier f" by fastforce
  with c(2) \<open>fm_frontier f \<le> c\<close> show False by simp
qed

lemma progress_start: "em_resume m \<le> progress m fr w"
  unfolding progress_def by (intro Max_ge) auto

lemma progress_reported:
  assumes "em_resume m < progress m fr w"
  shows "\<exists>f \<in> set fr. fm_ex f = em_ex m \<and> fm_worker f = w \<and> fm_frontier f = progress m fr w"
proof -
  have "progress m fr w \<in> insert (em_resume m) (fm_frontier ` {f \<in> set fr. fm_ex f = em_ex m \<and> fm_worker f = w})"
    unfolding progress_def by (rule Max_in) auto
  with assms show ?thesis by force
qed

text \<open>No progress is reported past an epoch that a snapshot can still come for.\<close>

lemma progress_le:
  assumes I: "wr_inv C base s lx ls lf" and B: "starts_from C base"
    and lt: "rf_epoch (wc_from C) < progress (this_ex C) (fronts (gathered C (sy_store s))) w"
    and t: "t \<in> caps_of (wc_workers C) (st_cap (sy_snap s))"
  shows "progress (this_ex C) (fronts (gathered C (sy_store s))) w \<le> t"
proof -
  from progress_reported [of "this_ex C"] lt obtain f where f: "f \<in> set (fronts (gathered C (sy_store s)))"
    "fm_ex f = rf_ex (wc_from C)" "fm_frontier f = progress (this_ex C) (fronts (gathered C (sy_store s))) w"
    unfolding execution_meta.sel by blast
  have "\<forall>g \<in> set (fronts (gathered C base)). fm_ex g < rf_ex (wc_from C)" using B unfolding starts_from_def by blast
  with f(2) have "f \<notin> set (fronts (gathered C base))" by (metis less_irrefl)
  with front_sent [OF I B f(1)] obtain e v p k where "(e, v, p, k, f) \<in> set (st_in (sy_front s))" by blast
  with I t have "fm_frontier f \<le> t" by (auto simp: wr_inv_def report_inv_def)
  with f(3) show ?thesis by simp
qed

text \<open>The resume epoch: not before the last one, and not past a snapshot that is not written.\<close>

lemma resume_bounds:
  assumes I: "wr_inv C base s lx ls lf" and B: "starts_from C base"
  shows "rf_epoch (wc_from C) \<le> rf_epoch (resume_point (gathered C (sy_store s)))"
    and "rf_epoch (resume_point (gathered C (sy_store s))) = rf_epoch (wc_from C) \<or>
      (\<forall>t \<in> caps_of (wc_workers C) (st_cap (sy_snap s)). rf_epoch (resume_point (gathered C (sy_store s))) \<le> t)"
proof -
  let ?r = "rf_epoch (wc_from C)" and ?R = "rf_epoch (resume_point (gathered C (sy_store s)))" and ?n = "wc_workers C"
  let ?pr = "progress (this_ex C) (fronts (gathered C (sy_store s)))"
  have C: "config_ok C" using B by (simp add: starts_from_def)
  from exs_written [OF I B] obtain w where w: "w < ?n" and d:
    "mset (exs (gathered C (sy_store s))) = add_mset (this_ex C) (mset (exs (gathered C base))) \<or>
     exs (gathered C (sy_store s)) = exs (gathered C base)" by blast
  have "?r \<le> ?R \<and> (?R = ?r \<or> (\<forall>t \<in> caps_of ?n (st_cap (sy_snap s)). ?R \<le> t))"
    using d
  proof
    assume "exs (gathered C (sy_store s)) = exs (gathered C base)"
    from resume_point_before [OF I B this] show ?thesis by simp
  next
    assume "mset (exs (gathered C (sy_store s))) = add_mset (this_ex C) (mset (exs (gathered C base)))"
    from resume_point_after [OF I B this] have R: "?R = Min (?pr ` {0..<?n})" by simp
    have ge: "?r \<le> ?pr v" for v using progress_start [of "this_ex C"] unfolding execution_meta.sel .
    have "?R \<in> ?pr ` {0..<?n}" unfolding R using workers_pos [OF C] by (intro Min_in) auto
    then obtain v where v: "?R = ?pr v" by blast
    show ?thesis
    proof (cases "?r < ?pr v")
      case True
      from progress_le [OF I B True] v show ?thesis using True by auto
    next
      case False
      with ge [of v] v show ?thesis by auto
    qed
  qed
  then show "?r \<le> ?R" and "?R = ?r \<or> (\<forall>t \<in> caps_of ?n (st_cap (sy_snap s)). ?R \<le> t)" by blast+
qed

text \<open>The snapshots sent to a partition in this execution.\<close>

definition sent_snaps :: "('s, 'k) wr_sys \<Rightarrow> part_index \<Rightarrow> ('s, 'k) serialized_snapshot set" where
  "sent_snaps s p = {r. \<exists>e w k. (e, w, p, k, r) \<in> set (st_in (sy_snap s))}"

definition one_per_epoch :: "('s, 'k) wr_sys \<Rightarrow> bool" where
  "one_per_epoch s \<longleftrightarrow> (\<forall>p. inj_on snap_pk (sent_snaps s p))"

lemma snaps_stored:
  assumes I: "wr_inv C base s lx ls lf" and C: "config_ok C" and p: "p \<in> set (all_known C)" and u: "one_per_epoch s"
  shows "\<exists>L \<subseteq> sent_snaps s p. set (snaps (sy_store s p)) = {r \<in> set (snaps (base p)). snap_pk r \<notin> snap_pk ` L} \<union> L \<and>
    (\<forall>r \<in> sent_snaps s p. (\<forall>t \<in> caps_of (wc_workers C) (st_cap (sy_snap s)). ss_epoch r < t) \<longrightarrow> r \<in> L)"
proof -
  from known_mine [OF C p] obtain w where w: "p \<in> mine C w" "w < wc_workers C" by blast
  have St: "snap_rows.stage_inv C (\<lambda>p. snaps (base p)) (sy_snap s) (sy_store s) ls" using I by (simp add: wr_inv_defs)
  have tab: "snaps (sy_store s p) = foldl (upsert_row snap_pk) (snaps (base p)) (rows_of p (ls w))"
    using St w by (simp add: snap_rows.stage_inv_def snap_rows.worker_inv_def)
  let ?L = "set (rows_of p (ls w))"
  have sub: "?L \<subseteq> sent_snaps s p"
  proof
    fix r assume "r \<in> ?L"
    then obtain e where "(p, e, r) \<in> set (ls w)" by (auto simp: rows_of_def)
    from snap_rows.stage_log_sent [OF St w(2) this] show "r \<in> sent_snaps s p" by (auto simp: sent_snaps_def)
  qed
  have inj: "inj_on snap_pk (sent_snaps s p)" using u by (simp add: one_per_epoch_def)
  have "\<forall>x \<in> ?L. \<forall>y \<in> ?L. snap_pk x = snap_pk y \<longrightarrow> x = y" using inj_on_subset [OF inj sub] by (auto simp: inj_on_def)
  from upserts_set [OF this, of "snaps (base p)"]
  have eq: "set (snaps (sy_store s p)) = {r \<in> set (snaps (base p)). snap_pk r \<notin> snap_pk ` ?L} \<union> ?L" unfolding tab .
  have "r \<in> ?L" if r: "r \<in> sent_snaps s p" and past: "\<forall>t \<in> caps_of (wc_workers C) (st_cap (sy_snap s)). ss_epoch r < t" for r
  proof -
    from r obtain e v k where x: "(e, v, p, k, r) \<in> set (st_in (sy_snap s))" by (auto simp: sent_snaps_def)
    then have "p \<in> mine C v" "ss_epoch r = e" using St I by (auto simp: snap_rows.stage_inv_def wr_inv_def rows_inv_def)
    with mine_disjoint [OF w(1)] have v: "v = w" by blast
    have "e < c" if c: "st_cap (sy_snap s) w = Some c" for c
    proof -
      have "c \<in> caps_of (wc_workers C) (st_cap (sy_snap s))" using w(2) c by (auto simp: caps_of_def)
      with past \<open>ss_epoch r = e\<close> show ?thesis by blast
    qed
    with snap_rows.stage_written [OF St x [unfolded v]] have "(p, e, r) \<in> set (ls w)" by blast
    then show ?thesis by (rule rows_ofI)
  qed
  then have "\<forall>r \<in> sent_snaps s p. (\<forall>t \<in> caps_of (wc_workers C) (st_cap (sy_snap s)). ss_epoch r < t) \<longrightarrow> r \<in> ?L" by blast
  then show ?thesis by (intro exI [of _ ?L] conjI sub eq)
qed

lemma stored_below:
  assumes B: "starts_from C base" and I: "wr_inv C base s lx ls lf" and u: "one_per_epoch s"
    and R: "part_resume_from (gathered C (sy_store s)) = Inr rf" and p: "p \<in> set (all_known C)"
  shows "rf_epoch (wc_from C) \<le> rf_epoch rf \<and>
    {r \<in> set (snaps (sy_store s p)). ss_epoch r < rf_epoch rf} =
    {r \<in> {r \<in> set (snaps (base p)). snap_pk r \<notin> snap_pk ` sent_snaps s p} \<union> sent_snaps s p. ss_epoch r < rf_epoch rf}"
proof -
  have C: "config_ok C" using B by (simp add: starts_from_def)
  from resume_from_Inr [OF R] have rf: "rf = resume_point (gathered C (sy_store s))" .
  note b = resume_bounds [OF I B, folded rf]
  from snaps_stored [OF I C p u] obtain L where L: "L \<subseteq> sent_snaps s p"
    "set (snaps (sy_store s p)) = {r \<in> set (snaps (base p)). snap_pk r \<notin> snap_pk ` L} \<union> L"
    "\<forall>r \<in> sent_snaps s p. (\<forall>t \<in> caps_of (wc_workers C) (st_cap (sy_snap s)). ss_epoch r < t) \<longrightarrow> r \<in> L" by blast
  have start: "rf_epoch (wc_from C) \<le> ss_epoch r" if "r \<in> sent_snaps s p" for r
    using that I by (auto simp: sent_snaps_def wr_inv_def rows_inv_def)
  have all: "r \<in> L" if r: "r \<in> sent_snaps s p" "ss_epoch r < rf_epoch rf" for r
    using b(2)
  proof
    assume "rf_epoch rf = rf_epoch (wc_from C)"
    with r start [OF r(1)] show ?thesis by simp
  next
    assume "\<forall>t \<in> caps_of (wc_workers C) (st_cap (sy_snap s)). rf_epoch rf \<le> t"
    with r(2) have "\<forall>t \<in> caps_of (wc_workers C) (st_cap (sy_snap s)). ss_epoch r < t" by (meson less_le_trans)
    with L(3) r(1) show ?thesis by blast
  qed
  have "snap_pk r \<in> snap_pk ` sent_snaps s p \<longleftrightarrow> snap_pk r \<in> snap_pk ` L" if "ss_epoch r < rf_epoch rf" for r
  proof
    assume "snap_pk r \<in> snap_pk ` sent_snaps s p"
    then obtain r' where r': "r' \<in> sent_snaps s p" "snap_pk r = snap_pk r'" by (elim imageE)
    then have "ss_epoch r' < rf_epoch rf" using that by simp
    from all [OF r'(1) this] r'(2) show "snap_pk r \<in> snap_pk ` L" by (rule image_eqI [rotated])
  qed (use L(1) in blast)
  then have "{r \<in> set (snaps (base p)). ss_epoch r < rf_epoch rf \<and> snap_pk r \<notin> snap_pk ` L} =
      {r \<in> set (snaps (base p)). ss_epoch r < rf_epoch rf \<and> snap_pk r \<notin> snap_pk ` sent_snaps s p}" by blast
  moreover have "{r \<in> L. ss_epoch r < rf_epoch rf} = {r \<in> sent_snaps s p. ss_epoch r < rf_epoch rf}" using all L(1) by blast
  ultimately show ?thesis unfolding L(2) using b(1) by blast
qed

text \<open>Claim C4. Nothing is lost in a crash: stop the cluster in any state it can reach; if a resume epoch can be
  computed from the databases, it is not before the last one, and below it each partition holds exactly the
  snapshots that were sent to it, on top of those it had.\<close>

theorem resume_sees_all_snapshots:
  assumes B: "starts_from C base" and reach: "(wr_step C)\<^sup>*\<^sup>* (wr_init C base) s" and u: "one_per_epoch s"
    and R: "part_resume_from (gathered C (sy_store s)) = Inr rf" and p: "p \<in> set (all_known C)"
  shows "rf_epoch (wc_from C) \<le> rf_epoch rf \<and>
    {r \<in> set (snaps (sy_store s p)). ss_epoch r < rf_epoch rf} =
    {r \<in> {r \<in> set (snaps (base p)). snap_pk r \<notin> snap_pk ` sent_snaps s p} \<union> sent_snaps s p. ss_epoch r < rf_epoch rf}"
  using reach_rows [OF B reach] stored_below [OF B _ u R p] by blast

section \<open>When the next execution can resume\<close>

lemma gathered_all_parts:
  assumes I: "wr_inv C base s lx ls lf"
  shows "all_parts N (gathered C (sy_store s)) = all_parts N (gathered C base)"
proof -
  have "parts (sy_store s p) = parts (base p)" for p using I by (simp add: wr_inv_def commit_inv_def)
  then show ?thesis by (simp add: all_parts_def)
qed

text \<open>Every worker's progress covers what is committed, while its \<^verbatim>\<open>frontier\<close> is still running.\<close>

lemma committed_reported:
  assumes I: "wr_inv C base s lx ls lf" and B: "starts_from C base" and w: "w < wc_workers C"
    and c: "sy_rep s w \<noteq> None" and e: "\<forall>t \<in> caps_of (wc_workers C) (st_cap (sy_front s)). e < t"
  shows "e \<le> progress (this_ex C) (fronts (gathered C (sy_store s))) w"
proof -
  let ?r = "rf_epoch (wc_from C)" and ?n = "wc_workers C" and ?rs = "reports_of w (st_in (sy_front s))"
  have C: "config_ok C" using B by (simp add: starts_from_def)
  from c obtain c where c: "sy_rep s w = Some c" by blast
  have ch: "chain ?r ?rs" "c = chain_end ?r ?rs" using I w c by (auto simp: wr_inv_def report_inv_def)
  have cin: "c \<in> caps_of ?n (sy_rep s)" using w c by (auto simp: caps_of_def)
  have "sees (st_cap (sy_front s) w) (caps_of ?n (sy_rep s))" using I w by (simp add: wr_inv_defs)
  with cin obtain t where t: "st_cap (sy_front s) w = Some t" "t \<le> c" by (auto simp: sees_def split: option.splits)
  then have "t \<in> caps_of ?n (st_cap (sy_front s))" using w by (auto simp: caps_of_def)
  with e t(2) have lt: "e < chain_end ?r ?rs" unfolding ch(2) by (meson less_le_trans)
  show ?thesis
  proof (cases "?r \<le> e")
    case True
    from chain_covers [OF ch(1) True lt] obtain u f where f: "(u, f) \<in> set ?rs" "u \<le> e" "e < f" by blast
    have "\<forall>v < ?n. \<forall>c. st_cap (sy_front s) v = Some c \<longrightarrow> u < c"
      using e f(2) by (auto simp: caps_of_def intro: le_less_trans)
    from report_in_store [OF I B w f(1) this] f(3) show ?thesis by simp
  next
    case False
    with progress_start [of "this_ex C"] show ?thesis unfolding execution_meta.sel by (meson le_cases order_trans)
  qed
qed

text \<open>Before the row of the execution is written, no epoch of it is committed.\<close>

lemma committed_before_row:
  assumes I: "wr_inv C base s lx ls lf" and w: "w < wc_workers C"
    and c: "st_cap (sy_ex s) w = Some c" "c \<le> rf_epoch (wc_from C)"
    and open_: "sy_rep s w \<noteq> None" and e: "\<forall>t \<in> caps_of (wc_workers C) (st_cap (sy_front s)). e < t"
  shows "e \<le> rf_epoch (wc_from C)"
proof -
  let ?r = "rf_epoch (wc_from C)" and ?n = "wc_workers C"
  from open_ obtain c' where c': "sy_rep s w = Some c'" by blast
  have "c' = chain_end ?r (reports_of w (st_in (sy_front s)))" using I w c' by (simp add: wr_inv_def report_inv_def)
  then have "c' = ?r" using no_reports [OF I w c] by simp
  have "sees (st_cap (sy_front s) w) (caps_of ?n (sy_rep s))" using I w by (simp add: wr_inv_defs)
  moreover have "c' \<in> caps_of ?n (sy_rep s)" using w c' by (auto simp: caps_of_def)
  ultimately obtain t where t: "st_cap (sy_front s) w = Some t" "t \<le> c'" by (auto simp: sees_def split: option.splits)
  then have "t \<in> caps_of ?n (st_cap (sy_front s))" using w by (auto simp: caps_of_def)
  with e t(2) \<open>c' = ?r\<close> show ?thesis by fastforce
qed

text \<open>Claim C7. As long as no worker has seen the end of its input, a cluster that stops can resume: no partition has
  committed an epoch past the resume epoch, whatever had been written.\<close>

theorem running_cluster_resumable:
  assumes B: "starts_from C base" and reach: "(wr_step C)\<^sup>*\<^sup>* (wr_init C base) s" and open_: "\<forall>w < wc_workers C. sy_rep s w \<noteq> None"
  shows "\<exists>rf. part_resume_from (gathered C (sy_store s)) = Inr rf"
proof -
  let ?db = "gathered C (sy_store s)" and ?r = "rf_epoch (wc_from C)" and ?n = "wc_workers C"
  from reach_rows [OF B reach] obtain lx ls lf where I: "wr_inv C base s lx ls lf" by blast
  have C: "config_ok C" using B by (simp add: starts_from_def)
  obtain N where N: "all_parts N ?db" using B gathered_all_parts [OF I] by (auto simp: starts_from_def)
  have "cm_epoch x \<le> rf_epoch (resume_point ?db)" if x: "x \<in> set (commits ?db)" for x
  proof -
    from x obtain p where p: "p \<in> set (all_known C)" "x \<in> set (commits (sy_store s p))" by auto
    with I have d: "x \<in> set (commits (base p)) \<or> (\<forall>t \<in> caps_of ?n (st_cap (sy_front s)). cm_epoch x < t)"
      by (auto simp: wr_inv_def commit_inv_def)
    from exs_written [OF I B] obtain w where w: "w < ?n" and ex:
      "mset (exs ?db) = add_mset (this_ex C) (mset (exs (gathered C base))) \<or>
       exs ?db = exs (gathered C base) \<and> (\<exists>c. st_cap (sy_ex s) w = Some c \<and> c \<le> ?r)" by blast
    from d show ?thesis
    proof
      assume "x \<in> set (commits (base p))"
      from starts_from_commits [OF B p(1) this] resume_bounds(1) [OF I B] show ?thesis by simp
    next
      assume e: "\<forall>t \<in> caps_of ?n (st_cap (sy_front s)). cm_epoch x < t"
      from ex show ?thesis
      proof
        assume "mset (exs ?db) = add_mset (this_ex C) (mset (exs (gathered C base)))"
        from resume_point_after [OF I B this] have R: "rf_epoch (resume_point ?db) =
          Min (progress (this_ex C) (fronts ?db) ` {0..<?n})" by simp
        have "cm_epoch x \<le> progress (this_ex C) (fronts ?db) v" if "v < ?n" for v
          using committed_reported [OF I B that _ e] open_ that by blast
        then show ?thesis unfolding R using workers_pos [OF C] by (subst Min_ge_iff) auto
      next
        assume "exs ?db = exs (gathered C base) \<and> (\<exists>c. st_cap (sy_ex s) w = Some c \<and> c \<le> ?r)"
        then obtain c where c: "st_cap (sy_ex s) w = Some c" "c \<le> ?r" by blast
        from committed_before_row [OF I w c _ e] open_ w have "cm_epoch x \<le> ?r" by blast
        with resume_bounds(1) [OF I B] show ?thesis by simp
      qed
    qed
  qed
  then have "list_all (\<lambda>c. cm_epoch c \<le> rf_epoch (resume_point ?db)) (commits ?db)" by (simp only: list_all_iff) blast
  with resume_from_all [OF N] show ?thesis by (simp only: if_True) blast
qed

section \<open>Execution after execution\<close>

lemma gathered_exs_wf:
  assumes I: "wr_inv C base s lx ls lf" and B: "starts_from C base"
  shows "exs_wf (exs (gathered C (sy_store s)))"
    and "\<forall>x \<in> set (exs (gathered C (sy_store s))). em_ex x < rf_ex (resume_point (gathered C (sy_store s)))"
    and "\<forall>f \<in> set (fronts (gathered C (sy_store s))). fm_ex f < rf_ex (resume_point (gathered C (sy_store s)))"
proof -
  let ?db = "gathered C (sy_store s)" and ?ex = "rf_ex (wc_from C)"
  have C: "config_ok C" using B by (simp add: starts_from_def)
  have wf: "exs_wf (exs (gathered C base))" using B unfolding starts_from_def by blast
  have lt: "\<forall>x \<in> set (exs (gathered C base)). em_ex x < ?ex" using B by (auto simp: starts_from_def base_ok_def)
  have fr: "\<forall>f \<in> set (fronts (gathered C base)). fm_ex f < ?ex" using B unfolding starts_from_def by blast
  from exs_written [OF I B] obtain w where w: "w < wc_workers C" and ex:
    "mset (exs ?db) = add_mset (this_ex C) (mset (exs (gathered C base))) \<or>
     exs ?db = exs (gathered C base) \<and> (\<exists>c. st_cap (sy_ex s) w = Some c \<and> c \<le> rf_epoch (wc_from C))" by blast
  from ex have "exs_wf (exs ?db) \<and> (\<forall>x \<in> set (exs ?db). em_ex x < rf_ex (resume_point ?db)) \<and>
      (\<forall>f \<in> set (fronts ?db). fm_ex f < rf_ex (resume_point ?db))"
  proof
    assume x: "mset (exs ?db) = add_mset (this_ex C) (mset (exs (gathered C base)))"
    then have ms: "mset (exs ?db) = mset (this_ex C # exs (gathered C base))" by simp
    have "rf_ex (resume_point ?db) = ?ex + 1" using resume_point_after [OF I B x] by simp
    moreover have "exs_wf (exs ?db)"
    proof -
      have "distinct (map em_ex (exs ?db)) = distinct (map em_ex (this_ex C # exs (gathered C base)))"
        by (rule mset_eq_imp_distinct_iff) (simp only: mset_map ms)
      moreover have "?ex \<notin> em_ex ` set (exs (gathered C base))" using lt by (metis imageE less_irrefl)
      moreover have "set (exs ?db) = set (this_ex C # exs (gathered C base))" using ms by (rule mset_eq_setD)
      ultimately show ?thesis using wf workers_pos [OF C] by (simp only: exs_wf_def list_all_iff) simp
    qed
    moreover have "\<forall>x \<in> set (exs ?db). em_ex x < ?ex + 1"
      unfolding mset_eq_setD [OF ms] using lt by (fastforce intro: less_SucI)
    moreover have "fm_ex f < ?ex + 1" if "f \<in> set (fronts ?db)" for f
      using front_sent [OF I B that] fr by (metis less_add_one less_trans)
    ultimately show ?thesis by simp
  next
    assume e: "exs ?db = exs (gathered C base) \<and> (\<exists>c. st_cap (sy_ex s) w = Some c \<and> c \<le> rf_epoch (wc_from C))"
    then obtain c where c: "st_cap (sy_ex s) w = Some c" "c \<le> rf_epoch (wc_from C)" by blast
    have R: "resume_point ?db = wc_from C" by (rule resume_point_before [OF I B]) (use e in blast)
    have "fm_ex f < ?ex" if "f \<in> set (fronts ?db)" for f
      using front_sent [OF I B that] fr no_reports [OF I w c] by auto
    then show ?thesis unfolding R using e wf lt by (metis (no_types))
  qed
  then show "exs_wf (exs ?db)" "\<forall>x \<in> set (exs ?db). em_ex x < rf_ex (resume_point ?db)"
    "\<forall>f \<in> set (fronts ?db). fm_ex f < rf_ex (resume_point ?db)" by blast+
qed


section \<open>No operator fails\<close>

text \<open>Claim C9. No operator of the recovery system fails: in every state a cluster can reach, each activation that Timely
  allows of the writers of executions, snapshots and frontiers and of the committer returns, as does every
  report of \<^verbatim>\<open>frontier\<close> with its routing. No item is routed to a partition a worker does not have, no
  capability is downgraded backwards, no execution row violates its primary key.\<close>

theorem recovery_operators_run:
  assumes C: "config_ok C" and B: "base_ok C base" and reach: "(wr_step C)\<^sup>*\<^sup>* (wr_init C base) s" and w: "w < wc_workers C"
  shows "(allowed (st_flight (sy_ex s) w) {} (st_cap (sy_ex s) w) xmsgs fs \<longrightarrow>
      (\<exists>r. stage_activate C write_exs w xmsgs fs (sy_ex s) (sy_store s) = Inr r)) \<and>
    (allowed (st_flight (sy_snap s) w) (caps_of (wc_workers C) (sy_snaps s)) (st_cap (sy_snap s) w) smsgs fs \<longrightarrow>
      (\<exists>r. stage_activate C write_snaps w smsgs fs (sy_snap s) (sy_store s) = Inr r)) \<and>
    (allowed (st_flight (sy_front s) w) (caps_of (wc_workers C) (sy_rep s)) (st_cap (sy_front s) w) fmsgs fs \<longrightarrow>
      (\<exists>r. stage_activate C write_fronts w fmsgs fs (sy_front s) (sy_store s) = Inr r)) \<and>
    (allowed (sy_ticks s w) (caps_of (wc_workers C) (st_cap (sy_front s))) (com_cap s w) cmsgs fs \<longrightarrow>
      (\<exists>r. commit_stage C w cmsgs fs s = Inr r)) \<and>
    (\<exists>cap out st. frontier_activate (rf_ex (wc_from C)) w (sy_rep s w) fs = Inr (cap, out) \<and>
      send_reports C out (sy_front s) = Inr st)"
proof (intro conjI)
  from reach_inv [OF reach C B] obtain lx ls lf where I: "wr_inv C base s lx ls lf" by blast
  have i: "ex_rows.stage_inv C (\<lambda>p. exs (base p)) (sy_ex s) (sy_store s) lx"
    "snap_rows.stage_inv C (\<lambda>p. snaps (base p)) (sy_snap s) (sy_store s) ls"
    "front_rows.stage_inv C (\<lambda>p. fronts (base p)) (sy_front s) (sy_store s) lf" "com_inv C s w"
    "sees (st_cap (sy_snap s) w) (caps_of (wc_workers C) (sy_snaps s))" "sees (st_cap (sy_front s) w) (caps_of (wc_workers C) (sy_rep s))"
    using I w by (simp_all add: wr_inv_defs)
  have up: "st_cap (sy_snap s) w = None \<longrightarrow> caps_of (wc_workers C) (sy_snaps s) = {}"
    "st_cap (sy_front s) w = None \<longrightarrow> caps_of (wc_workers C) (sy_rep s) = {}" using i(5,6) by (auto simp: sees_def)
  show "allowed (st_flight (sy_ex s) w) {} (st_cap (sy_ex s) w) xmsgs fs \<longrightarrow>
      (\<exists>r. stage_activate C write_exs w xmsgs fs (sy_ex s) (sy_store s) = Inr r)"
    using ex_rows.stage_activate_ok [OF i(1) C w] by blast
  show "allowed (st_flight (sy_snap s) w) (caps_of (wc_workers C) (sy_snaps s)) (st_cap (sy_snap s) w) smsgs fs \<longrightarrow>
      (\<exists>r. stage_activate C write_snaps w smsgs fs (sy_snap s) (sy_store s) = Inr r)"
    using snap_rows.stage_activate_ok [OF i(2) C w _ up(1)] by blast
  show "allowed (st_flight (sy_front s) w) (caps_of (wc_workers C) (sy_rep s)) (st_cap (sy_front s) w) fmsgs fs \<longrightarrow>
      (\<exists>r. stage_activate C write_fronts w fmsgs fs (sy_front s) (sy_store s) = Inr r)"
    using front_rows.stage_activate_ok [OF i(3) C w _ up(2)] by blast
  show "allowed (sy_ticks s w) (caps_of (wc_workers C) (st_cap (sy_front s))) (com_cap s w) cmsgs fs \<longrightarrow>
      (\<exists>r. commit_stage C w cmsgs fs s = Inr r)"
    using commit_stage_ok [OF i(4)] by blast
  have "\<exists>x. frontier_activate (rf_ex (wc_from C)) w (sy_rep s w) fs = Inr x"
    by (cases "simplify fs"; cases "sy_rep s w") (simp_all add: frontier_activate_def Let_def cap_downgrade_def)
  then obtain cap out where f: "frontier_activate (rf_ex (wc_from C)) w (sy_rep s w) fs = Inr (cap, out)" by auto
  have "\<exists>st. send_reports C out st0 = Inr st" for st0
    unfolding send_reports_def
  proof (induction out arbitrary: st0)
    case (Cons x out)
    obtain e k v where x: "x = (e, k, v)" by (metis prod_cases3)
    from route_kv_ok [OF C, of "wc_pf_front C" k] obtain p u where "route_kv C (wc_pf_front C) (k, v) = Inr (u, p, k, v)"
      by (elim exE conjE) (rule that, auto)
    with Cons.IH show ?case by (simp add: x)
  qed simp
  with f show "\<exists>cap out st. frontier_activate (rf_ex (wc_from C)) w (sy_rep s w) fs = Inr (cap, out) \<and>
      send_reports C out (sy_front s) = Inr st" by blast
qed

section \<open>Executable runs\<close>

text \<open>A schedule of steps, to evaluate executions.\<close>

datatype ('s, 'k, 'v) wr_event =
    Snap worker epoch "('s, 'k, 'v) snapshot list"
  | Advance worker "epoch option"
  | WriteEx worker "(epoch \<times> (worker \<times> part_index \<times> ex_num \<times> execution_meta) list) list" "frontier list"
  | WriteSnap worker "(epoch \<times> (worker \<times> part_index \<times> ('s \<times> 'k) \<times> ('s, 'k) serialized_snapshot) list) list" "frontier list"
  | Report worker "frontier list"
  | WriteFront worker "(epoch \<times> (worker \<times> part_index \<times> (ex_num \<times> worker) \<times> frontier_meta) list) list" "frontier list"
  | Commit worker "(epoch \<times> unit list) list" "frontier list"

definition step_if :: "bool \<Rightarrow> 'a res \<Rightarrow> 'a option" where
  "step_if b r = (case r of Inr x \<Rightarrow> if b then Some x else None | Inl _ \<Rightarrow> None)"

fun wr_do :: "('s, 'k, 'v) wr_config \<Rightarrow> ('s, 'k) wr_sys \<Rightarrow> ('s, 'k, 'v) wr_event \<Rightarrow> ('s, 'k) wr_sys option" where
  "wr_do C s (Snap w e ss) =
     step_if (w < wc_workers C \<and> (case sy_snaps s w of Some c \<Rightarrow> c \<le> e | None \<Rightarrow> False))
       (ebind (ser_snap (wc_ser C) e ss) (\<lambda>rows. emap (\<lambda>routed. s\<lparr>sy_snap := send_routed e routed (sy_snap s)\<rparr>)
         (emapM (route_kv C (wc_pf_snap C)) rows)))"
| "wr_do C s (Advance w cap) =
     step_if (w < wc_workers C \<and> not_back (sy_snaps s w) cap \<and> sy_snaps s w \<noteq> None) (Inr (s\<lparr>sy_snaps := (sy_snaps s)(w := cap)\<rparr>))"
| "wr_do C s (WriteEx w msgs fs) =
     step_if (w < wc_workers C \<and> allowed (st_flight (sy_ex s) w) {} (st_cap (sy_ex s) w) msgs fs)
       (emap (\<lambda>(st, store, out). s\<lparr>sy_ex := st, sy_store := store\<rparr>)
         (stage_activate C write_exs w msgs fs (sy_ex s) (sy_store s)))"
| "wr_do C s (WriteSnap w msgs fs) =
     step_if (w < wc_workers C \<and> allowed (st_flight (sy_snap s) w) (caps_of (wc_workers C) (sy_snaps s)) (st_cap (sy_snap s) w) msgs fs)
       (emap (\<lambda>(st, store, out). s\<lparr>sy_snap := st, sy_store := store\<rparr>)
         (stage_activate C write_snaps w msgs fs (sy_snap s) (sy_store s)))"
| "wr_do C s (Report w fs) =
     step_if (w < wc_workers C \<and>
         sees (simplify fs) (caps_of (wc_workers C) (st_cap (sy_ex s)) \<union> caps_of (wc_workers C) (st_cap (sy_snap s))))
       (ebind (frontier_activate (rf_ex (wc_from C)) w (sy_rep s w) fs) (\<lambda>(cap, out).
         emap (\<lambda>st. s\<lparr>sy_rep := (sy_rep s)(w := cap), sy_front := st\<rparr>) (send_reports C out (sy_front s))))"
| "wr_do C s (WriteFront w msgs fs) =
     step_if (w < wc_workers C \<and> allowed (st_flight (sy_front s) w) (caps_of (wc_workers C) (sy_rep s)) (st_cap (sy_front s) w) msgs fs)
       (emap (\<lambda>(st, store, out). s\<lparr>sy_front := st, sy_store := store,
           sy_ticks := (\<lambda>v. sy_ticks s v + mset (map (\<lambda>(e, u). (e, [u])) out))\<rparr>)
         (stage_activate C write_fronts w msgs fs (sy_front s) (sy_store s)))"
| "wr_do C s (Commit w msgs fs) =
     step_if (w < wc_workers C \<and>
         allowed (sy_ticks s w) (caps_of (wc_workers C) (st_cap (sy_front s))) (nc_cap (fst (sy_com s w))) msgs fs)
       (emap fst (commit_stage C w msgs fs s))"

fun wr_run :: "('s, 'k, 'v) wr_config \<Rightarrow> ('s, 'k) wr_sys \<Rightarrow> ('s, 'k, 'v) wr_event list \<Rightarrow> ('s, 'k) wr_sys option" where
  "wr_run C s [] = Some s"
| "wr_run C s (ev # evs) = Option.bind (wr_do C s ev) (\<lambda>s'. wr_run C s' evs)"

lemma step_if_Some: "step_if b r = Some x \<longleftrightarrow> b \<and> r = Inr x"
  by (auto simp: step_if_def split: sum.splits)

lemma wr_do_step:
  assumes "wr_do C s ev = Some s'"
  shows "wr_step C s s'"
  using assms
proof (cases ev)
  case (Snap w e ss)
  with assms show ?thesis
    by (auto simp: step_if_Some emap_eq_Inr_iff split: option.splits elim!: ebind_InrE intro: wr_step.snap)
next
  case (Advance w cap)
  with assms show ?thesis
    by (auto simp: step_if_Some not_back_def intro!: wr_step.advance split: option.splits)
next
  case (WriteEx w msgs fs)
  with assms show ?thesis by (auto simp: step_if_Some emap_eq_Inr_iff intro: wr_step.write_ex)
next
  case (WriteSnap w msgs fs)
  with assms show ?thesis by (auto simp: step_if_Some emap_eq_Inr_iff intro: wr_step.write_snap)
next
  case (Report w fs)
  with assms show ?thesis
    by (auto simp: step_if_Some emap_eq_Inr_iff elim!: ebind_InrE intro: wr_step.report)
next
  case (WriteFront w msgs fs)
  with assms obtain st store out where d: "w < wc_workers C"
    "allowed (st_flight (sy_front s) w) (caps_of (wc_workers C) (sy_rep s)) (st_cap (sy_front s) w) msgs fs"
    "stage_activate C write_fronts w msgs fs (sy_front s) (sy_store s) = Inr (st, store, out)"
    "s' = s\<lparr>sy_front := st, sy_store := store, sy_ticks := (\<lambda>v. sy_ticks s v + mset (map (\<lambda>(e, u). (e, [u])) out))\<rparr>"
    by (auto simp: step_if_Some emap_eq_Inr_iff)
  show ?thesis unfolding d(4) by (rule wr_step.write_front [OF d(1-3)])
next
  case (Commit w msgs fs)
  with assms show ?thesis by (auto simp: step_if_Some emap_eq_Inr_iff intro: wr_step.commit)
qed

lemma wr_run_reach: "wr_run C s evs = Some s' \<Longrightarrow> (wr_step C)\<^sup>*\<^sup>* s s'"
proof (induction evs arbitrary: s)
  case (Cons ev evs)
  then obtain s1 where "wr_do C s ev = Some s1" "wr_run C s1 evs = Some s'" by (auto simp: bind_eq_Some_conv)
  with Cons.IH [of s1] show ?case by (meson converse_rtranclp_into_rtranclp wr_do_step)
qed simp

lemma caps_of_code [code]: "caps_of n f = set (List.map_filter f (w_iter n))"
  by (force simp: caps_of_def w_iter_def List.map_filter_def)

text \<open>A cluster of \<open>n\<close> workers with one partition, which worker 0 has.\<close>

definition small_cluster :: "nat \<Rightarrow> resume_from \<Rightarrow> (nat, nat, string) wr_config" where
  "small_cluster n rf = \<lparr>wc_workers = n, wc_local = (\<lambda>w. if w = 0 then [0] else []), wc_prim = [(0, 0)],
     wc_pf_ex = (\<lambda>_. 0), wc_pf_snap = (\<lambda>_. 0), wc_pf_front = (\<lambda>_. 0), wc_ser = Inr, wc_from = rf, wc_delay = 0\<rparr>"

definition fresh_store :: "part_index \<Rightarrow> (nat, nat) recovery_part" where
  "fresh_store = (\<lambda>_. empty_part\<lparr>parts := [PartitionMeta 0 1]\<rparr>)"

lemma small_ok: "config_ok (small_cluster 1 rf)" "config_ok (small_cluster 2 rf)"
proof -
  have "announced (small_cluster 1 rf) = [(0, 0)]" "announced (small_cluster 2 rf) = [(0, 0)]" by code_simp+
  moreover have "calc_primaries (\<lambda>f. sort_key f) (\<lambda>f ws. hd (sort_key f ws)) (foldl learn_part [] [(0 :: part_index, 0)]) = Inr [(0, 0)]"
    by code_simp
  ultimately show "config_ok (small_cluster 1 rf)" "config_ok (small_cluster 2 rf)"
    using sorts_by_sort_key picks_least_hd by (auto simp: config_ok_def small_cluster_def)
qed

lemma small_from [simp]: "wc_from (small_cluster n rf) = rf"
  by (simp add: small_cluster_def)

lemma small_known: "all_known (small_cluster 1 rf) = [0]" "all_known (small_cluster 2 rf) = [0]"
  by code_simp+

lemma fresh_start: "starts_from (small_cluster 1 resume_default) fresh_store" "starts_from (small_cluster 2 resume_default) fresh_store"
proof -
  have g: "gathered (small_cluster 1 resume_default) fresh_store = empty_part\<lparr>parts := [PartitionMeta 0 1]\<rparr>"
    "gathered (small_cluster 2 resume_default) fresh_store = empty_part\<lparr>parts := [PartitionMeta 0 1]\<rparr>" by code_simp+
  have "part_resume_from (empty_part\<lparr>parts := [PartitionMeta 0 1]\<rparr> :: (nat, nat) recovery_part) = Inr resume_default" by code_simp
  moreover have "all_parts 1 (empty_part\<lparr>parts := [PartitionMeta 0 1]\<rparr> :: (nat, nat) recovery_part)"
    by (simp add: all_parts_def empty_part_def)
  ultimately show "starts_from (small_cluster 1 resume_default) fresh_store" "starts_from (small_cluster 2 resume_default) fresh_store"
    unfolding starts_from_def g by (auto simp: small_ok [unfolded One_nat_def] small_ok base_ok_def fresh_store_def empty_part_def exs_wf_def)
qed

text \<open>One snapshot is written, the frontier reported, another snapshot sent, and the execution stops.\<close>

abbreviation small :: "(nat, nat, string) wr_config" where
  "small \<equiv> small_cluster 1 resume_default"

definition crash_schedule :: "(nat, nat, string) wr_event list" where
  "crash_schedule = [Snap 0 1 [Snapshot 7 8 (Upsert ''x'')], Advance 0 (Some 2),
     WriteEx 0 [(1, [(0, 0, 0, ExecutionMeta 0 1 1)])] [],
     WriteSnap 0 [(1, [(0, 0, (7, 8), SerializedSnapshot 7 8 1 (Some ''x''))])] [[2]], Report 0 [[2]],
     WriteFront 0 [(1, [(0, 0, (0, 0), FrontierMeta 0 0 2)])] [[2]], Snap 0 2 [Snapshot 7 8 (Upsert ''y'')]]"

lemma run_obtain:
  assumes "map_option f (wr_run C s evs) = Some x"
  obtains s' where "(wr_step C)\<^sup>*\<^sup>* s s'" and "f s' = x"
  using assms by (auto intro: wr_run_reach)

lemma crashed:
  obtains s where "(wr_step small)\<^sup>*\<^sup>* (wr_init small fresh_store) s" and "sy_rep s 0 = Some 2"
    and "part_resume_from (gathered small (sy_store s)) = Inr (ResumeFrom 1 2)"
    and "map (\<lambda>(e, w, p, k, r). (p, r)) (st_in (sy_snap s)) =
      [(0, SerializedSnapshot 7 8 1 (Some ''x'')), (0, SerializedSnapshot 7 8 2 (Some ''y''))]"
proof -
  have "map_option (\<lambda>s. (sy_rep s 0, part_resume_from (gathered small (sy_store s)), map (\<lambda>(e, w, p, k, r). (p, r)) (st_in (sy_snap s))))
      (wr_run small (wr_init small fresh_store) crash_schedule) =
    Some (Some 2, Inr (ResumeFrom 1 2), [(0, SerializedSnapshot 7 8 1 (Some ''x'')), (0, SerializedSnapshot 7 8 2 (Some ''y''))])"
    by code_simp
  then obtain s where s: "(wr_step small)\<^sup>*\<^sup>* (wr_init small fresh_store) s" and
    "(sy_rep s 0, part_resume_from (gathered small (sy_store s)), map (\<lambda>(e, w, p, k, r). (p, r)) (st_in (sy_snap s))) =
      (Some 2, Inr (ResumeFrom 1 2), [(0, SerializedSnapshot 7 8 1 (Some ''x'')), (0, SerializedSnapshot 7 8 2 (Some ''y''))])"
    by (rule run_obtain)
  from this(2) show thesis unfolding prod.inject by (elim conjE) (rule that [OF s])
qed

lemma sent_snaps_map: "sent_snaps s p = {r. (p, r) \<in> set (map (\<lambda>(e, w, p, k, r). (p, r)) (st_in (sy_snap s)))}"
  by (force simp: sent_snaps_def)

theorem recovery_operators_run_witness:
  "\<exists>r. stage_activate small write_exs 0 [(1, [(0, 0, 0, ExecutionMeta 0 1 1)])] []
      (sy_ex (wr_init small fresh_store)) fresh_store = Inr r"
proof -
  let ?s = "wr_init small fresh_store"
  have "base_ok small fresh_store" using fresh_start(1) by (simp add: starts_from_def)
  moreover have "0 < wc_workers small" by (simp add: small_cluster_def)
  moreover have "allowed (st_flight (sy_ex ?s) 0) {} (st_cap (sy_ex ?s) 0) [(1, [(0, 0, 0, ExecutionMeta 0 1 1)])] []" by code_simp
  ultimately have "\<exists>r. stage_activate small write_exs 0 [(1, [(0, 0, 0, ExecutionMeta 0 1 1)])] [] (sy_ex ?s) (sy_store ?s) = Inr r"
    using recovery_operators_run [OF small_ok(1) _ rtranclp.rtrancl_refl, of resume_default fresh_store 0
        "[(1, [(0, 0, 0, ExecutionMeta 0 1 1)])]" "[]"] by blast
  then show ?thesis by (simp add: wr_init_def)
qed

theorem resume_sees_all_snapshots_witness:
  "\<exists>s. (wr_step small)\<^sup>*\<^sup>* (wr_init small fresh_store) s \<and>
    part_resume_from (gathered small (sy_store s)) = Inr (ResumeFrom 1 2) \<and>
    sent_snaps s 0 = {SerializedSnapshot 7 8 1 (Some ''x''), SerializedSnapshot 7 8 2 (Some ''y'')} \<and>
    {r \<in> set (snaps (sy_store s 0)). ss_epoch r < 2} = {SerializedSnapshot 7 8 1 (Some ''x'')}"
proof -
  obtain s where s: "(wr_step small)\<^sup>*\<^sup>* (wr_init small fresh_store) s"
    "part_resume_from (gathered small (sy_store s)) = Inr (ResumeFrom 1 2)"
    "map (\<lambda>(e, w, p, k, r). (p, r)) (st_in (sy_snap s)) =
      [(0, SerializedSnapshot 7 8 1 (Some ''x'')), (0, SerializedSnapshot 7 8 2 (Some ''y''))]" by (rule crashed)
  have sent: "sent_snaps s p = (if p = 0 then {SerializedSnapshot 7 8 1 (Some ''x''), SerializedSnapshot 7 8 2 (Some ''y'')} else {})" for p
    unfolding sent_snaps_map s(3) by auto
  have "one_per_epoch s" by (simp add: one_per_epoch_def sent)
  moreover have "0 \<in> set (all_known small)" unfolding small_known by simp
  ultimately have "{r \<in> set (snaps (sy_store s 0)). ss_epoch r < rf_epoch (ResumeFrom 1 2)} =
    {r \<in> {r \<in> set (snaps (fresh_store 0)). snap_pk r \<notin> snap_pk ` sent_snaps s 0} \<union> sent_snaps s 0. ss_epoch r < rf_epoch (ResumeFrom 1 2)}"
    by (intro conjunct2 [OF resume_sees_all_snapshots [OF fresh_start(1) s(1) _ s(2)]])
  also have "\<dots> = {SerializedSnapshot 7 8 1 (Some ''x'')}" by (auto simp: sent fresh_store_def empty_part_def)
  finally show ?thesis using s(1,2) sent [of 0] by (intro exI [of _ s]) simp
qed

theorem running_cluster_resumable_witness:
  "\<exists>s rf. (wr_step small)\<^sup>*\<^sup>* (wr_init small fresh_store) s \<and> sy_rep s 0 = Some 2 \<and>
    part_resume_from (gathered small (sy_store s)) = Inr rf"
proof -
  obtain s where s: "(wr_step small)\<^sup>*\<^sup>* (wr_init small fresh_store) s" "sy_rep s 0 = Some 2" by (rule crashed)
  have "\<forall>w < wc_workers small. sy_rep s w \<noteq> None" using s(2) by (simp add: small_cluster_def)
  from running_cluster_resumable [OF fresh_start(1) s(1) this] s show ?thesis by blast
qed


section \<open>Two executions that go wrong\<close>

definition lag_schedule :: "(nat, nat, string) wr_event list" where
  "lag_schedule = [Snap 0 1 [Snapshot 7 8 (Upsert ''x'')], Advance 0 (Some 5), Advance 1 (Some 5),
     WriteEx 0 [(1, [(0, 0, 0, ExecutionMeta 0 2 1)])] [], WriteEx 1 [] [],
     WriteSnap 0 [(1, [(0, 0, (7, 8), SerializedSnapshot 7 8 1 (Some ''x''))])] [[5]], WriteSnap 1 [] [[5]],
     Report 0 [[5]], Advance 0 None, Advance 1 None, WriteSnap 0 [] [], WriteSnap 1 [] [], Report 0 [], Report 1 [],
     WriteFront 0 [(1, [(0, 0, (0, 0), FrontierMeta 0 0 5)]), (5, [(0, 0, (0, 0), FrontierMeta 0 0 6)]),
       (1, [(0, 0, (0, 1), FrontierMeta 0 1 2)])] [], WriteFront 1 [] [], Commit 0 [(1, [()]), (5, [()])] []]"


definition first_schedule :: "(nat, nat, string) wr_event list" where
  "first_schedule = [Snap 0 1 [Snapshot 7 8 (Upsert ''x'')], Advance 0 (Some 4), Snap 0 4 [Snapshot 7 8 (Upsert ''y'')], Advance 0 (Some 5),
     WriteEx 0 [(1, [(0, 0, 0, ExecutionMeta 0 1 1)])] [],
     WriteSnap 0 [(1, [(0, 0, (7, 8), SerializedSnapshot 7 8 1 (Some ''x''))]), (4, [(0, 0, (7, 8), SerializedSnapshot 7 8 4 (Some ''y''))])] [[5]],
     Report 0 [[2]], WriteFront 0 [(1, [(0, 0, (0, 0), FrontierMeta 0 0 2)])] [[2]]]"

definition second_schedule :: "(nat, nat, string) wr_event list" where
  "second_schedule = [Snap 0 2 [Snapshot 7 8 (Upsert ''z'')], Advance 0 (Some 6),
     WriteEx 0 [(2, [(0, 0, 1, ExecutionMeta 1 1 2)])] [],
     WriteSnap 0 [(2, [(0, 0, (7, 8), SerializedSnapshot 7 8 2 (Some ''z''))])] [[6]],
     Report 0 [[6]], WriteFront 0 [(2, [(0, 0, (1, 0), FrontierMeta 1 0 6)])] [[6]]]"


end
