(* ===== verification/Clocks.thy ===== *)
theory Clocks
  imports Prelude
begin

text \<open>
  The clocks of \<^verbatim>\<open>src/src/window/clock/\<close>: the \<^verbatim>\<open>Clock\<close> trait as a record of operations,
  \<^verbatim>\<open>SystemClock\<close> and \<^verbatim>\<open>EventClock\<close>, and the contract the window driver relies on
  (locale \<open>clock\<close>): watermarks never go back while the system clock does not, and the end of
  the input pins them to \<^verbatim>\<open>MAX_UTC\<close> for good. The current system time is an argument \<open>now\<close>
  of each operation; \<open>mn\<close> and \<open>mx\<close> stand for \<^verbatim>\<open>MIN_UTC\<close> and \<^verbatim>\<open>MAX_UTC\<close>.
\<close>

section \<open>The trait\<close>

text \<open>\<^verbatim>\<open>std::task::Poll<Option<V>>\<close>, what wakes an operator's logic.\<close>

datatype 'v poll = Pending | Ready "'v option"

record ('c, 'v) clock_ops =
  c_watermark :: "'c \<Rightarrow> time \<Rightarrow> 'v poll \<Rightarrow> ('c \<times> time) res"
  c_time_for :: "'c \<Rightarrow> time \<Rightarrow> 'v \<Rightarrow> ('c \<times> time) res"

text \<open>
  The contract, over a bound \<open>inv c now wm\<close>: "a clock in state \<open>c\<close> was last read at system
  time \<open>now\<close>, and its watermark was at least \<open>wm\<close>".
\<close>

locale clock =
  fixes C :: "('c, 'v) clock_ops" and mx :: time and inv :: "'c \<Rightarrow> time \<Rightarrow> time \<Rightarrow> bool"
  assumes watermark_mono: "inv c now wm \<Longrightarrow> now \<le> now' \<Longrightarrow> now' \<le> mx \<Longrightarrow>
      c_watermark C c now' p = Inr (c', wm') \<Longrightarrow> wm \<le> wm' \<and> inv c' now' wm'"
    and watermark_le: "inv c now wm \<Longrightarrow> now \<le> now' \<Longrightarrow> now' \<le> mx \<Longrightarrow>
      c_watermark C c now' p = Inr (c', wm') \<Longrightarrow> wm' \<le> mx"
    and watermark_eof: "inv c now wm \<Longrightarrow> now \<le> now' \<Longrightarrow> now' \<le> mx \<Longrightarrow>
      c_watermark C c now' (Ready None) = Inr (c', wm') \<Longrightarrow> wm' = mx"
    and time_for_inv: "inv c now wm \<Longrightarrow> c_time_for C c now' v = Inr (c', t) \<Longrightarrow> inv c' now wm"

text \<open>Reading a clock at a sequence of system times.\<close>

fun clock_run ::
  "('c, 'v) clock_ops \<Rightarrow> 'c \<Rightarrow> (time \<times> 'v poll) list \<Rightarrow> ('c \<times> time list) res" where
  "clock_run C c [] = Inr (c, [])"
| "clock_run C c ((now, p) # evs) =
     ebind (c_watermark C c now p) (\<lambda>(c', wm).
       emap (\<lambda>(c'', wms). (c'', wm # wms)) (clock_run C c' evs))"

context clock
begin

lemma run_mono:
  assumes "inv c now wm" and "sorted (now # map fst evs)" and "\<forall>e \<in> set evs. fst e \<le> mx"
    and "clock_run C c evs = Inr (c', wms)"
  shows "sorted (wm # wms)"
  using assms
proof (induction evs arbitrary: c now wm wms)
  case Nil
  then show ?case by simp
next
  case (Cons e evs)
  obtain n p where e: "e = (n, p)" by fastforce
  from Cons.prems(4) obtain c1 wm1 wms1 where w: "c_watermark C c n p = Inr (c1, wm1)"
    and r: "clock_run C c1 evs = Inr (c', wms1)" and wms: "wms = wm1 # wms1"
    by (auto simp: e emap_eq_Inr_iff elim!: ebind_InrE)
  from Cons.prems(2,3) have n: "now \<le> n" "n \<le> mx" by (auto simp: e)
  from watermark_mono [OF Cons.prems(1) n w] have "wm \<le> wm1" and inv: "inv c1 n wm1" by auto
  moreover have "sorted (wm1 # wms1)"
    using Cons.prems by (intro Cons.IH [OF inv _ _ r]) (auto simp: e)
  ultimately show ?case by (auto simp: wms)
qed

lemma run_le:
  assumes "inv c now wm" and "sorted (now # map fst evs)" and "\<forall>e \<in> set evs. fst e \<le> mx"
    and "clock_run C c evs = Inr (c', wms)"
  shows "\<forall>w \<in> set wms. w \<le> mx"
  using assms
proof (induction evs arbitrary: c now wm wms)
  case Nil
  then show ?case by simp
next
  case (Cons e evs)
  obtain n p where e: "e = (n, p)" by fastforce
  from Cons.prems(4) obtain c1 wm1 wms1 where w: "c_watermark C c n p = Inr (c1, wm1)"
    and r: "clock_run C c1 evs = Inr (c', wms1)" and wms: "wms = wm1 # wms1"
    by (auto simp: e emap_eq_Inr_iff elim!: ebind_InrE)
  from Cons.prems(2,3) have n: "now \<le> n" "n \<le> mx" by (auto simp: e)
  have "inv c1 n wm1" using watermark_mono [OF Cons.prems(1) n w] by simp
  then have "\<forall>w \<in> set wms1. w \<le> mx"
    using Cons.prems by (intro Cons.IH [OF _ _ _ r]) (auto simp: e)
  with watermark_le [OF Cons.prems(1) n w] show ?case by (simp add: wms)
qed

text \<open>Once the input has ended the watermark stays at the end of time.\<close>

lemma run_eof:
  assumes "inv c now wm" and "sorted (now # n # map fst evs)" and "n \<le> mx"
    and "\<forall>e \<in> set evs. fst e \<le> mx"
    and "clock_run C c ((n, Ready None) # evs) = Inr (c', wms)"
  shows "\<forall>w \<in> set wms. w = mx"
proof -
  from assms(5) obtain c1 wms1 wm1 where w: "c_watermark C c n (Ready None) = Inr (c1, wm1)"
    and r: "clock_run C c1 evs = Inr (c', wms1)" and wms: "wms = wm1 # wms1"
    by (auto simp: emap_eq_Inr_iff elim!: ebind_InrE)
  have n: "now \<le> n" using assms(2) by simp
  have eof: "wm1 = mx" by (rule watermark_eof [OF assms(1) n assms(3) w])
  have inv: "inv c1 n mx" using watermark_mono [OF assms(1) n assms(3) w] eof by simp
  have srt: "sorted (n # map fst evs)" using assms(2) by simp
  have "sorted (mx # wms1)" by (rule run_mono [OF inv srt assms(4) r])
  moreover have "\<forall>w \<in> set wms1. w \<le> mx" by (rule run_le [OF inv srt assms(4) r])
  ultimately show ?thesis by (simp add: wms eof order.antisym)
qed

lemma run_eof_at:
  assumes "inv c now wm" and "sorted (now # map fst (pre @ (n, Ready None) # post))"
    and "\<forall>e \<in> set (pre @ (n, Ready None) # post). fst e \<le> mx"
    and "clock_run C c (pre @ (n, Ready None) # post) = Inr (c', wms)"
  shows "\<forall>w \<in> set (drop (length pre) wms). w = mx"
  using assms
proof (induction pre arbitrary: c now wm wms)
  case Nil
  have "clock_run C c ((n, Ready None) # post) = Inr (c', wms)" using Nil.prems(4) by (simp only: append_Nil)
  note run = run_eof [OF Nil.prems(1) _ _ _ this]
  show ?case using Nil.prems(2,3) run by simp
next
  case (Cons e pre)
  obtain k p where e: "e = (k, p)" by fastforce
  from Cons.prems(4) obtain c1 wm1 wms1 where w: "c_watermark C c k p = Inr (c1, wm1)"
    and r: "clock_run C c1 (pre @ (n, Ready None) # post) = Inr (c', wms1)" and wms: "wms = wm1 # wms1"
    by (auto simp: e emap_eq_Inr_iff elim!: ebind_InrE)
  have k: "now \<le> k" "k \<le> mx" using Cons.prems(2,3) by (auto simp: e)
  have inv: "inv c1 k wm1" using watermark_mono [OF Cons.prems(1) k w] by simp
  have "\<forall>w \<in> set (drop (length pre) wms1). w = mx"
    using Cons.prems(2,3) by (intro Cons.IH [OF inv _ _ r]) (auto simp: e)
  then show ?case by (simp add: wms)
qed

end

text \<open>
  A clock that never panics, for values \<open>ok\<close> and system times \<open>okn\<close> it can be read at.
\<close>

locale total_clock =
  fixes C :: "('c, 'v) clock_ops" and ctot :: "'c \<Rightarrow> bool"
    and okn :: "time \<Rightarrow> bool" and ok :: "'v \<Rightarrow> bool"
  assumes watermark_total: "ctot c \<Longrightarrow> okn now \<Longrightarrow> (\<forall>v. p = Ready (Some v) \<longrightarrow> ok v) \<Longrightarrow>
      \<exists>c' wm. c_watermark C c now p = Inr (c', wm) \<and> ctot c'"
    and time_for_total: "ctot c \<Longrightarrow> ok v \<Longrightarrow> \<exists>c' t. c_time_for C c now v = Inr (c', t) \<and> ctot c'"

section \<open>\<^verbatim>\<open>SystemClock\<close>\<close>

record system_clock = eof :: bool

text \<open>\<^verbatim>\<open>SystemClockConfig::build\<close> ignores the resume snapshot.\<close>

definition system_clock_builder :: "'p option \<Rightarrow> system_clock" where
  "system_clock_builder resume = \<lparr>eof = False\<rparr>"

definition system_watermark ::
  "time \<Rightarrow> system_clock \<Rightarrow> time \<Rightarrow> 'v poll \<Rightarrow> (system_clock \<times> time) res" where
  "system_watermark mx c now p =
     (let c' = (case p of Ready None \<Rightarrow> c\<lparr>eof := True\<rparr> | _ \<Rightarrow> c)
      in Inr (c', if eof c' then mx else now))"

definition system_time_for :: "system_clock \<Rightarrow> time \<Rightarrow> 'v \<Rightarrow> (system_clock \<times> time) res" where
  "system_time_for c now v = Inr (c, now)"

text \<open>The snapshot is \<^verbatim>\<open>None\<close>: \<^verbatim>\<open>eof\<close> is not kept, to support continuation.\<close>

definition system_snapshot :: "system_clock \<Rightarrow> unit option" where
  "system_snapshot c = None"

definition system_ops :: "time \<Rightarrow> (system_clock, 'v) clock_ops" where
  "system_ops mx = \<lparr>c_watermark = system_watermark mx, c_time_for = system_time_for\<rparr>"

definition system_inv :: "time \<Rightarrow> system_clock \<Rightarrow> time \<Rightarrow> time \<Rightarrow> bool" where
  "system_inv mx c now wm \<longleftrightarrow> wm \<le> mx \<and> (eof c \<or> wm \<le> now)"

interpretation system_clock: clock "system_ops mx" mx "system_inv mx" for mx
  by unfold_locales
    (auto simp: system_ops_def system_watermark_def system_time_for_def system_inv_def Let_def
      split: poll.splits option.splits if_splits)

interpretation system_total: total_clock "system_ops mx" "\<lambda>_. True" "\<lambda>_. True" "\<lambda>_. True" for mx
  by unfold_locales (auto simp: system_ops_def system_watermark_def system_time_for_def Let_def)

section \<open>\<^verbatim>\<open>EventClock\<close>\<close>

record 'v event_clock =
  dt_getter :: "'v \<Rightarrow> time res"
  wait_for_system_duration :: dur
  max_event_time_system_time :: "(time \<times> time) option"

text \<open>
  \<^verbatim>\<open>EventClockConfig::build\<close>: the snapshot is an optional pair, \<open>of_py\<close> PyO3's conversion.
\<close>

definition event_clock_builder ::
  "('p \<Rightarrow> time) \<Rightarrow> ('v \<Rightarrow> time res) \<Rightarrow> dur \<Rightarrow> ('p \<times> 'p) option option \<Rightarrow> 'v event_clock" where
  "event_clock_builder of_py getter wait resume =
     \<lparr>dt_getter = getter, wait_for_system_duration = wait,
      max_event_time_system_time = (case resume of None \<Rightarrow> None
        | Some snap \<Rightarrow> map_option (\<lambda>(et, st). (of_py et, of_py st)) snap)\<rparr>"

text \<open>chrono's \<^verbatim>\<open>DateTime + Duration\<close> panics outside the range of \<^verbatim>\<open>DateTime\<close>.\<close>

definition dt_add :: "time \<Rightarrow> time \<Rightarrow> time \<Rightarrow> dur \<Rightarrow> time res" where
  "dt_add mn mx t d =
     (if mn \<le> t + d \<and> t + d \<le> mx then Inr (t + d) else Inl (Expect ''DateTime overflowed''))"

definition event_time_for :: "'v event_clock \<Rightarrow> time \<Rightarrow> 'v \<Rightarrow> ('v event_clock \<times> time) res" where
  "event_time_for c now v = emap (\<lambda>t. (c, t)) (dt_getter c v)"

text \<open>The closure that gives a remembered event its watermark.\<close>

definition event_wm ::
  "time \<Rightarrow> time \<Rightarrow> 'v event_clock \<Rightarrow> time \<Rightarrow> time \<times> time \<Rightarrow> ((time \<times> time) \<times> time) res" where
  "event_wm mn mx c now = (\<lambda>(event_time, event_system_time).
     let system_duration_since_max_event = now - event_system_time
     in emap (\<lambda>wm. ((event_time, event_system_time), wm))
          (if event_time = mx then Inr mx
           else ebind (dt_add mn mx event_time (- wait_for_system_duration c))
                  (\<lambda>t. dt_add mn mx t system_duration_since_max_event)))"

text \<open>\<^verbatim>\<open>Iterator::max_by_key\<close>: of several maxima, the last.\<close>

fun max_by_snd :: "('a \<times> time) list \<Rightarrow> ('a \<times> time) option" where
  "max_by_snd [] = None"
| "max_by_snd (x # xs) = (case max_by_snd xs of None \<Rightarrow> Some x
     | Some y \<Rightarrow> if snd x \<le> snd y then Some y else Some x)"

text \<open>\<^verbatim>\<open>[prev, next].into_iter().flatten()\<close>\<close>

definition flatten_opts :: "'a option list \<Rightarrow> 'a list" where
  "flatten_opts xs = concat (map (\<lambda>x. case x of None \<Rightarrow> [] | Some y \<Rightarrow> [y]) xs)"

definition event_watermark ::
  "time \<Rightarrow> time \<Rightarrow> 'v event_clock \<Rightarrow> time \<Rightarrow> 'v poll \<Rightarrow> ('v event_clock \<times> time) res" where
  "event_watermark mn mx c now next_value =
     ebind (case next_value of
         Ready (Some event) \<Rightarrow> emap (\<lambda>(_, t). Some (t, now)) (event_time_for c now event)
       | Ready None \<Rightarrow> Inr (Some (mx, now))
       | Pending \<Rightarrow> Inr None)
     (\<lambda>next_event_time_system_time.
       ebind (emapM (event_wm mn mx c now)
           (flatten_opts [max_event_time_system_time c, next_event_time_system_time]))
       (\<lambda>cands. Inr (case max_by_snd cands of
           Some (et_st, wm) \<Rightarrow> (c\<lparr>max_event_time_system_time := Some et_st\<rparr>, wm)
         | None \<Rightarrow> (c\<lparr>max_event_time_system_time := None\<rparr>, mn))))"

definition event_snapshot :: "(time \<Rightarrow> 'p) \<Rightarrow> 'v event_clock \<Rightarrow> ('p \<times> 'p) option" where
  "event_snapshot to_py c =
     map_option (\<lambda>(et, st). (to_py et, to_py st)) (max_event_time_system_time c)"

definition event_ops :: "time \<Rightarrow> time \<Rightarrow> ('v event_clock, 'v) clock_ops" where
  "event_ops mn mx = \<lparr>c_watermark = event_watermark mn mx, c_time_for = event_time_for\<rparr>"


text \<open>The watermark an event gives at system time \<open>now\<close>, when no addition overflows.\<close>

definition wm_at :: "time \<Rightarrow> dur \<Rightarrow> time \<Rightarrow> time \<times> time \<Rightarrow> time" where
  "wm_at mx wait now = (\<lambda>(et, st). if et = mx then mx else et - wait + (now - st))"

lemma max_by_snd_greatest:
  "xs \<noteq> [] \<Longrightarrow> \<exists>y. max_by_snd xs = Some y \<and> y \<in> set xs \<and> (\<forall>x \<in> set xs. snd x \<le> snd y)"
  by (induction xs) (fastforce split: option.splits)+

lemma event_wm_eq:
  assumes "event_wm mn mx c now e = Inr r"
  shows "r = (e, wm_at mx (wait_for_system_duration c) now e)"
    and "snd r \<le> mx" and "snd r = mx \<or> mn \<le> snd r"
  using assms
  by (cases e, auto simp: event_wm_def wm_at_def dt_add_def emap_eq_Inr_iff Let_def split: if_splits)+

text \<open>Which events the clock weighs against each other in one reading.\<close>

definition candidates :: "time \<Rightarrow> 'v event_clock \<Rightarrow> time \<Rightarrow> 'v poll \<Rightarrow> (time \<times> time) set" where
  "candidates mx c now p =
     set_option (max_event_time_system_time c) \<union>
     (case p of Ready (Some v) \<Rightarrow> (case dt_getter c v of Inl _ \<Rightarrow> {} | Inr t \<Rightarrow> {(t, now)})
        | Ready None \<Rightarrow> {(mx, now)} | Pending \<Rightarrow> {})"

lemma set_flatten_opts [simp]: "set (flatten_opts [x, y]) = set_option x \<union> set_option y"
  by (auto simp: flatten_opts_def split: option.splits)

lemma flatten_opts_Nil_iff: "flatten_opts [x, y] = [] \<longleftrightarrow> x = None \<and> y = None"
  by (auto simp: flatten_opts_def split: option.splits)

lemma candidates_eq:
  assumes nxt: "(case p of Ready (Some event) \<Rightarrow> emap (\<lambda>(_, t). Some (t, now)) (event_time_for c now event)
       | Ready None \<Rightarrow> Inr (Some (mx, now)) | Pending \<Rightarrow> Inr None) = Inr nxt"
  shows "candidates mx c now p = set (flatten_opts [max_event_time_system_time c, nxt])"
proof -
  have "set_option nxt = (case p of Ready (Some v) \<Rightarrow>
      (case dt_getter c v of Inl _ \<Rightarrow> {} | Inr t \<Rightarrow> {(t, now)})
        | Ready None \<Rightarrow> {(mx, now)} | Pending \<Rightarrow> {})"
  proof (cases p)
    case Pending
    with nxt show ?thesis by auto
  next
    case (Ready o')
    show ?thesis
    proof (cases o')
      case None
      with nxt Ready show ?thesis by auto
    next
      case (Some v)
      with nxt Ready show ?thesis by (cases "dt_getter c v") (auto simp: event_time_for_def)
    qed
  qed
  then show ?thesis by (simp add: candidates_def)
qed

text \<open>
  One successful reading: with nothing to go by, the watermark is \<open>mn\<close>; otherwise it is the
  best of the candidates, and that candidate is remembered.
\<close>

lemma event_watermark_cases:
  assumes "event_watermark mn mx c now p = Inr (c', wm)"
  obtains (none) "candidates mx c now p = {}" "wm = mn" "c' = c\<lparr>max_event_time_system_time := None\<rparr>"
  | (best) e where "e \<in> candidates mx c now p" "c' = c\<lparr>max_event_time_system_time := Some e\<rparr>"
      "wm = wm_at mx (wait_for_system_duration c) now e" "wm \<le> mx" "wm = mx \<or> mn \<le> wm"
      "\<forall>e' \<in> candidates mx c now p. wm_at mx (wait_for_system_duration c) now e' \<le> wm"
proof -
  let ?w = "wait_for_system_duration c"
  from assms obtain nxt cands where
    nxt: "(case p of Ready (Some event) \<Rightarrow> emap (\<lambda>(_, t). Some (t, now)) (event_time_for c now event)
       | Ready None \<Rightarrow> Inr (Some (mx, now)) | Pending \<Rightarrow> Inr None) = Inr nxt"
    and cands: "emapM (event_wm mn mx c now) (flatten_opts [max_event_time_system_time c, nxt]) = Inr cands"
    and res: "(c', wm) = (case max_by_snd cands of
           Some (et_st, wm) \<Rightarrow> (c\<lparr>max_event_time_system_time := Some et_st\<rparr>, wm)
         | None \<Rightarrow> (c\<lparr>max_event_time_system_time := None\<rparr>, mn))"
    unfolding event_watermark_def by (elim ebind_InrE) auto
  note C = candidates_eq [OF nxt]
  note in_c = emapM_Inr_set [OF cands, folded C]
  show thesis
  proof (cases "cands = []")
    case True
    with emapM_eq_Inr_length [OF cands]
    have "flatten_opts [max_event_time_system_time c, nxt] = []" by simp
    with True res none C show thesis by simp
  next
    case False
    from max_by_snd_greatest [OF this] obtain e w where mb: "max_by_snd cands = Some (e, w)"
      "(e, w) \<in> set cands" "\<forall>x \<in> set cands. snd x \<le> w" by fastforce
    from mb(2) in_c [of "(e, w)"] obtain e' where e': "e' \<in> candidates mx c now p"
      "event_wm mn mx c now e' = Inr (e, w)" by auto
    note v = event_wm_eq [OF e'(2)]
    have le: "\<forall>e' \<in> candidates mx c now p. wm_at mx ?w now e' \<le> w"
    proof
      fix e1 assume "e1 \<in> candidates mx c now p"
      then obtain r where "r \<in> set cands" "event_wm mn mx c now e1 = Inr r"
        using emapM_Inr_all [OF cands] unfolding C by blast
      with mb(3) event_wm_eq(1) [of mn mx c now e1 r] show "wm_at mx ?w now e1 \<le> w" by fastforce
    qed
    from res mb(1) have "c' = c\<lparr>max_event_time_system_time := Some e\<rparr>" "wm = w" by simp_all
    with v e'(1) le show thesis by (intro best [of e]) auto
  qed
qed

definition event_inv :: "time \<Rightarrow> time \<Rightarrow> 'v event_clock \<Rightarrow> time \<Rightarrow> time \<Rightarrow> bool" where
  "event_inv mn mx c now wm \<longleftrightarrow> wm \<le> mx \<and>
     (case max_event_time_system_time c of
        None \<Rightarrow> wm \<le> mn
      | Some e \<Rightarrow> wm \<le> wm_at mx (wait_for_system_duration c) now e)"

lemma wm_at_mono: "now \<le> now' \<Longrightarrow> wm_at mx wait now e \<le> wm_at mx wait now' e"
  by (cases e) (simp add: wm_at_def)

lemma event_watermark_step:
  assumes "event_inv mn mx c now wm" and "now \<le> now'" and "mn \<le> mx"
    and "event_watermark mn mx c now' p = Inr (c', wm')"
  shows "wm \<le> wm' \<and> event_inv mn mx c' now' wm'"
  using assms(4)
proof (cases rule: event_watermark_cases)
  case none
  then have "max_event_time_system_time c = None" by (cases "max_event_time_system_time c")
      (auto simp: candidates_def)
  with assms(1,3) none show ?thesis by (simp add: event_inv_def)
next
  case (best e)
  have "wm \<le> wm'"
  proof (cases "max_event_time_system_time c")
    case None
    with assms(1) best(5) show ?thesis by (auto simp: event_inv_def)
  next
    case (Some e0)
    with best(6) have "wm_at mx (wait_for_system_duration c) now' e0 \<le> wm'"
      by (simp add: candidates_def)
    with assms(1) Some wm_at_mono [OF assms(2), of mx "wait_for_system_duration c" e0]
    show ?thesis by (simp add: event_inv_def)
  qed
  with best show ?thesis by (simp add: event_inv_def)
qed

text \<open>The interface is met by both clocks; \<open>mn \<le> mx\<close> is chrono's order of its end points.\<close>

lemma event_clock:
  assumes "mn \<le> mx"
  shows "clock (event_ops mn mx) mx (event_inv mn mx)"
proof
  fix c :: "'a event_clock" and now wm now' p c' wm'
  assume inv: "event_inv mn mx c now wm" and le: "now \<le> now'" "now' \<le> mx"
    and w: "c_watermark (event_ops mn mx) c now' p = Inr (c', wm')"
  from w have w': "event_watermark mn mx c now' p = Inr (c', wm')" by (simp add: event_ops_def)
  show "wm \<le> wm' \<and> event_inv mn mx c' now' wm'"
    by (rule event_watermark_step [OF inv le(1) assms w'])
  then show "wm' \<le> mx" by (simp add: event_inv_def)
next
  fix c :: "'a event_clock" and now wm now' c' wm'
  assume "event_inv mn mx c now wm" "now \<le> now'" "now' \<le> mx"
    "c_watermark (event_ops mn mx) c now' (Ready None) = Inr (c', wm')"
  then have "event_watermark mn mx c now' (Ready None) = Inr (c', wm')" by (simp add: event_ops_def)
  then show "wm' = mx"
    by (cases rule: event_watermark_cases) (auto simp: candidates_def wm_at_def)
next
  show "\<And>c now wm now' v c' t. event_inv mn mx c now wm \<Longrightarrow>
      c_time_for (event_ops mn mx) c now' v = Inr (c', t) \<Longrightarrow> event_inv mn mx c' now wm"
    by (auto simp: event_ops_def event_time_for_def emap_eq_Inr_iff)
qed

interpretation event_clock: clock "event_ops mn (max mn mx)" "max mn mx" "event_inv mn (max mn mx)"
  for mn mx by (rule event_clock) simp


lemma event_builder_inv:
  "mn \<le> mx \<Longrightarrow> event_inv mn mx (event_clock_builder of_py getter wait None) now mn"
  by (simp add: event_inv_def event_clock_builder_def)

lemma system_builder_inv: "now \<le> mx \<Longrightarrow> system_inv mx (system_clock_builder s) now now"
  by (simp add: system_inv_def system_clock_builder_def)

lemma system_run_ended:
  "eof c \<Longrightarrow> clock_run (system_ops mx) c evs = Inr (c, replicate (length evs) mx)"
proof (induction evs)
  case Nil
  then show ?case by simp
next
  case (Cons e evs)
  have "c\<lparr>eof := True\<rparr> = c" using Cons.prems by (cases c) simp
  then have "c_watermark (system_ops mx) c (fst e) (snd e) = Inr (c, mx)" using Cons.prems
    by (auto simp: system_ops_def system_watermark_def Let_def split: poll.splits option.splits)
  with Cons show ?case by (cases e) simp
qed

lemma system_run:
  assumes "\<forall>e \<in> set pre. snd e \<noteq> Ready None" and "\<not> eof c"
  shows "clock_run (system_ops mx) c (pre @ (n, Ready None) # post) =
    Inr (c\<lparr>eof := True\<rparr>, map fst pre @ replicate (Suc (length post)) mx)"
  using assms
proof (induction pre)
  case Nil
  then show ?case
    using system_run_ended [of "c\<lparr>eof := True\<rparr>" mx post]
    by (simp add: system_ops_def system_watermark_def)
next
  case (Cons e pre)
  have "c_watermark (system_ops mx) c (fst e) (snd e) = Inr (c, fst e)"
    using Cons.prems
    by (auto simp: system_ops_def system_watermark_def Let_def split: poll.splits option.splits)
  with Cons show ?case by (cases e) simp
qed

text \<open>
  When the event clock does not overflow: event times in \<open>lo..hi\<close> and system times in \<open>a..b\<close> that
  leave room for the waiting duration.
\<close>

definition event_total ::
  "time \<Rightarrow> time \<Rightarrow> time \<Rightarrow> time \<Rightarrow> time \<Rightarrow> time \<Rightarrow> ('v \<Rightarrow> bool) \<Rightarrow> 'v event_clock \<Rightarrow> bool" where
  "event_total mn mx lo hi a b ok c \<longleftrightarrow>
     (let w = wait_for_system_duration c in
        mn \<le> lo - w - (b - a) \<and> hi - w + (b - a) \<le> mx \<and> a \<le> b \<and> lo \<le> hi) \<and>
     (\<forall>v. ok v \<longrightarrow> (\<exists>t. dt_getter c v = Inr t \<and> lo \<le> t \<and> t \<le> hi)) \<and>
     (case max_event_time_system_time c of None \<Rightarrow> True
      | Some (et, st) \<Rightarrow> (et = mx \<or> lo \<le> et \<and> et \<le> hi) \<and> a \<le> st \<and> st \<le> b)"

lemma event_wm_total:
  assumes "event_total mn mx lo hi a b ok c" and "a \<le> now" and "now \<le> b"
    and "et = mx \<or> lo \<le> et \<and> et \<le> hi" and "a \<le> st" and "st \<le> b"
  shows "event_wm mn mx c now (et, st) = Inr ((et, st), wm_at mx (wait_for_system_duration c) now (et, st))"
  using assms by (auto simp: event_wm_def wm_at_def dt_add_def event_total_def Let_def)

lemma event_watermark_total:
  assumes "event_total mn mx lo hi a b ok c" and "a \<le> now" and "now \<le> b"
    and "\<forall>v. p = Ready (Some v) \<longrightarrow> ok v"
  shows "\<exists>c' wm. event_watermark mn mx c now p = Inr (c', wm) \<and> event_total mn mx lo hi a b ok c'"
proof -
  let ?good = "\<lambda>(et, st). (et = mx \<or> lo \<le> et \<and> et \<le> hi) \<and> a \<le> st \<and> st \<le> b"
  obtain nxt where nxt: "(case p of Ready (Some event) \<Rightarrow> emap (\<lambda>(_, t). Some (t, now)) (event_time_for c now event)
       | Ready None \<Rightarrow> Inr (Some (mx, now)) | Pending \<Rightarrow> Inr None) = Inr nxt"
    and good: "\<forall>e \<in> set_option nxt. ?good e"
  proof (cases p)
    case Pending
    then show thesis by (intro that [of None]) auto
  next
    case (Ready o')
    show thesis
    proof (cases o')
      case None
      with Ready assms(2,3) show thesis by (intro that [of "Some (mx, now)"]) auto
    next
      case (Some v)
      with Ready assms(1,4) obtain t where "dt_getter c v = Inr t" "lo \<le> t" "t \<le> hi"
        unfolding event_total_def by blast
      with Ready Some assms(2,3) show thesis
        by (intro that [of "Some (t, now)"]) (auto simp: event_time_for_def)
    qed
  qed
  have all: "\<forall>e \<in> set (flatten_opts [max_event_time_system_time c, nxt]). ?good e"
    using good assms(1) by (auto simp: event_total_def split: option.splits)
  have "emapM (event_wm mn mx c now) (flatten_opts [max_event_time_system_time c, nxt]) =
    Inr (map (\<lambda>e. (e, wm_at mx (wait_for_system_duration c) now e))
      (flatten_opts [max_event_time_system_time c, nxt]))"
    using all event_wm_total [OF assms(1-3)] by (intro emapM_total) auto
  then obtain c' wm where w: "event_watermark mn mx c now p = Inr (c', wm)"
    unfolding event_watermark_def nxt by (fastforce split: option.splits)
  note sub = candidates_eq [OF nxt]
  from w have "event_total mn mx lo hi a b ok c'"
  proof (cases rule: event_watermark_cases)
    case none
    with assms(1) show ?thesis by (simp add: event_total_def)
  next
    case (best e)
    have "?good e" using best(1) unfolding sub by (rule bspec [OF all])
    then show ?thesis using assms(1) unfolding best(2) by (cases e) (simp add: event_total_def)
  qed
  with w show ?thesis by blast
qed

interpretation event_total: total_clock "event_ops mn mx" "event_total mn mx lo hi a b ok"
    "\<lambda>now. a \<le> now \<and> now \<le> b" ok for mn mx lo hi a b ok
proof
  show "\<And>c now p. event_total mn mx lo hi a b ok c \<Longrightarrow> a \<le> now \<and> now \<le> b \<Longrightarrow>
      (\<forall>v. p = Ready (Some v) \<longrightarrow> ok v) \<Longrightarrow>
      \<exists>c' wm. c_watermark (event_ops mn mx) c now p = Inr (c', wm) \<and> event_total mn mx lo hi a b ok c'"
    using event_watermark_total by (simp add: event_ops_def) blast
  show "\<And>c v now. event_total mn mx lo hi a b ok c \<Longrightarrow> ok v \<Longrightarrow>
      \<exists>c' t. c_time_for (event_ops mn mx) c now v = Inr (c', t) \<and> event_total mn mx lo hi a b ok c'"
    by (auto simp: event_ops_def event_time_for_def event_total_def emap_eq_Inr_iff)
qed

section \<open>Properties\<close>

text \<open>The event clock's watermark never goes back and the end of the input closes
  everything: read at system times that do not decrease, it reports sorted watermarks whatever
  values, ends of input and idle polls come between, and from the first end of input on every
  watermark is \<^verbatim>\<open>MAX_UTC\<close>.\<close>

theorem event_clock_monotone:
  assumes "mn \<le> mx" and "sorted (map fst (pre @ (n, Ready None) # post))"
    and "\<forall>e \<in> set (pre @ (n, Ready None) # post). mn \<le> fst e \<and> fst e \<le> mx"
    and "clock_run (event_ops mn mx) (event_clock_builder of_py getter wait None)
      (pre @ (n, Ready None) # post) = Inr (c, wms)"
  shows "sorted wms \<and> (\<forall>w \<in> set (drop (length pre) wms). w = mx)"
proof -
  note ec = event_clock [OF assms(1)]
  have srt: "sorted (mn # map fst (pre @ (n, Ready None) # post))" using assms(2,3) by auto
  have le: "\<forall>e \<in> set (pre @ (n, Ready None) # post). fst e \<le> mx" using assms(3) by auto
  have inv: "event_inv mn mx (event_clock_builder of_py getter wait None) mn mn"
    by (rule event_builder_inv) (rule assms(1))
  show ?thesis using clock.run_mono [OF ec inv srt le assms(4)] clock.run_eof_at [OF ec inv srt le assms(4)]
    by simp
qed

theorem event_clock_monotone_witness:
  "clock_run (event_ops 0 1000) (event_clock_builder id (\<lambda>t. Inr t) 10 None)
      ([(100, Ready (Some 50)), (120, Pending), (125, Ready (Some 40))] @ (130, Ready None) # [(140, Ready (Some 60))])
    = Inr (\<lparr>dt_getter = (\<lambda>t. Inr t), wait_for_system_duration = 10,
            max_event_time_system_time = Some (1000, 130)\<rparr>, [40, 60, 65, 1000, 1000])
   \<and> sorted [40, 60, 65, 1000, 1000::int] \<and>
     list_all (\<lambda>w. w = 1000) (drop 3 [40, 60, 65, 1000, 1000::int])"
proof -
  have run: "clock_run (event_ops 0 1000) (event_clock_builder id (\<lambda>t. Inr t) 10 None)
      ([(100, Ready (Some 50)), (120, Pending), (125, Ready (Some 40))] @ (130, Ready None) # [(140, Ready (Some 60))])
    = Inr (\<lparr>dt_getter = (\<lambda>t. Inr t), wait_for_system_duration = 10,
            max_event_time_system_time = Some (1000, 130)\<rparr>, [40, 60, 65, 1000, 1000])"
    by (simp add: event_ops_def event_watermark_def event_clock_builder_def event_time_for_def
        event_wm_def dt_add_def flatten_opts_def)
  show ?thesis using event_clock_monotone [OF _ _ _ run] run by simp
qed

text \<open>The system clock always answers, its watermark is the system time until the input
  ends, and \<^verbatim>\<open>MAX_UTC\<close> from then on; so its watermarks never go back either.\<close>

theorem system_clock_monotone:
  assumes "sorted (map fst (pre @ (n, Ready None) # post))"
    and "\<forall>e \<in> set (pre @ (n, Ready None) # post). mn \<le> fst e \<and> fst e \<le> mx"
    and "\<forall>e \<in> set pre. snd e \<noteq> Ready None"
  shows "\<exists>c wms. clock_run (system_ops mx) (system_clock_builder s)
      (pre @ (n, Ready None) # post) = Inr (c, wms) \<and> sorted wms \<and>
      wms = map fst pre @ replicate (Suc (length post)) mx"
proof -
  let ?wms = "map fst pre @ replicate (Suc (length post)) mx"
  have "clock_run (system_ops mx) (system_clock_builder s) (pre @ (n, Ready None) # post) =
      Inr (\<lparr>eof = True\<rparr>, ?wms)"
    using system_run [OF assms(3)] by (simp add: system_clock_builder_def)
  moreover have "sorted ?wms" using assms(1,2) by (auto simp: sorted_append)
  ultimately show ?thesis by blast
qed

theorem system_clock_monotone_witness:
  "\<exists>c wms. clock_run (system_ops 1000) (system_clock_builder None)
      ([(100, Ready (Some True)), (120, Pending)] @ (130, Ready None) # [(140, Pending)]) = Inr (c, wms)
    \<and> sorted wms \<and> wms = map fst [(100 :: int, Ready (Some True)), (120, Pending)] @ replicate (Suc 1) 1000"
  using system_clock_monotone [of "[(100, Ready (Some True)), (120, Pending)]" 130 "[(140, Pending)]" 0 1000 None]
  by simp

definition seen ::
  "('v \<Rightarrow> time res) \<Rightarrow> (time \<times> 'v poll) list \<Rightarrow> (time \<times> time) set" where
  "seen getter evs = {(et, st). \<exists>v. (st, Ready (Some v)) \<in> set evs \<and> getter v = Inr et}"

text \<open>The remembered event is the one furthest ahead of its arrival.\<close>

definition best :: "'v event_clock \<Rightarrow> (time \<times> time) set \<Rightarrow> bool" where
  "best c S \<longleftrightarrow> (case max_event_time_system_time c of None \<Rightarrow> S = {}
     | Some e \<Rightarrow> e \<in> S \<and> (\<forall>e' \<in> S. fst e' - snd e' \<le> fst e - snd e))"

lemma candidates_seen:
  "p \<noteq> Ready None \<Longrightarrow>
    candidates mx c now p = set_option (max_event_time_system_time c) \<union> seen (dt_getter c) [(now, p)]"
  by (auto simp: candidates_def seen_def split: poll.splits option.splits sum.splits)

lemma seen_Cons: "seen g (e # evs) = seen g [e] \<union> seen g evs"
  by (auto simp: seen_def)

lemma wm_at_ahead: "fst e \<noteq> mx \<Longrightarrow> wm_at mx wait now e = (fst e - snd e) + (now - wait)"
  by (cases e) (simp add: wm_at_def)

lemma best_step:
  assumes "event_watermark mn mx c now p = Inr (c', wm)" and "p \<noteq> Ready None" and "best c S"
    and "\<forall>e \<in> S \<union> seen (dt_getter c) [(now, p)]. fst e \<noteq> mx"
  shows "best c' (S \<union> seen (dt_getter c) [(now, p)])"
    and "dt_getter c' = dt_getter c" and "wait_for_system_duration c' = wait_for_system_duration c"
    and "max_event_time_system_time c' = Some e \<Longrightarrow> wm = wm_at mx (wait_for_system_duration c) now e"
proof -
  note cs = candidates_seen [OF assms(2), of mx c now]
  from assms(1) have "best c' (S \<union> seen (dt_getter c) [(now, p)]) \<and> dt_getter c' = dt_getter c \<and>
    wait_for_system_duration c' = wait_for_system_duration c \<and>
    (\<forall>e. max_event_time_system_time c' = Some e \<longrightarrow> wm = wm_at mx (wait_for_system_duration c) now e)"
  proof (cases rule: event_watermark_cases)
    case none
    then have "max_event_time_system_time c = None" and "seen (dt_getter c) [(now, p)] = {}"
      unfolding cs by auto
    with none assms(3) show ?thesis by (simp add: best_def)
  next
    case (best e)
    have sub: "candidates mx c now p \<subseteq> S \<union> seen (dt_getter c) [(now, p)]"
      using assms(3) unfolding cs best_def by (auto split: option.splits)
    have ahead: "fst e' - snd e' \<le> fst e - snd e" if "e' \<in> candidates mx c now p" for e'
    proof -
      have "wm_at mx (wait_for_system_duration c) now e' \<le> wm_at mx (wait_for_system_duration c) now e"
        using best(3,6) that by simp
      moreover have "fst e' \<noteq> mx" "fst e \<noteq> mx" using sub best(1) that assms(4) by blast+
      ultimately show ?thesis by (simp add: wm_at_ahead)
    qed
    have "fst e' - snd e' \<le> fst e - snd e" if "e' \<in> S \<union> seen (dt_getter c) [(now, p)]" for e'
    proof (cases "e' \<in> seen (dt_getter c) [(now, p)]")
      case True
      then show ?thesis by (intro ahead) (simp add: cs)
    next
      case False
      with that assms(3) obtain e0 where "max_event_time_system_time c = Some e0"
        "fst e' - snd e' \<le> fst e0 - snd e0"
        unfolding best_def by (auto split: option.splits)
      with ahead [of e0] show ?thesis by (simp add: cs)
    qed
    with best sub show ?thesis unfolding best_def by auto
  qed
  then show "best c' (S \<union> seen (dt_getter c) [(now, p)])"
    and "dt_getter c' = dt_getter c" and "wait_for_system_duration c' = wait_for_system_duration c"
    and "max_event_time_system_time c' = Some e \<Longrightarrow> wm = wm_at mx (wait_for_system_duration c) now e"
    by auto
qed

lemma event_run_best:
  assumes "clock_run (event_ops mn mx) c evs = Inr (c', wms)" and "\<forall>e \<in> set evs. snd e \<noteq> Ready None"
    and "best c S" and "\<forall>e \<in> S \<union> seen (dt_getter c) evs. fst e \<noteq> mx"
  shows "best c' (S \<union> seen (dt_getter c) evs) \<and> length wms = length evs \<and>
    (\<forall>e. evs \<noteq> [] \<and> max_event_time_system_time c' = Some e \<longrightarrow>
      last wms = wm_at mx (wait_for_system_duration c) (fst (last evs)) e)"
  using assms
proof (induction evs arbitrary: c S wms)
  case Nil
  then show ?case by (simp add: seen_def)
next
  case (Cons e evs)
  obtain n p where e: "e = (n, p)" by fastforce
  from Cons.prems(1) obtain c1 wm1 wms1 where w: "event_watermark mn mx c n p = Inr (c1, wm1)"
    and r: "clock_run (event_ops mn mx) c1 evs = Inr (c', wms1)" and wms: "wms = wm1 # wms1"
    by (auto simp: e event_ops_def emap_eq_Inr_iff elim!: ebind_InrE)
  let ?S = "S \<union> seen (dt_getter c) [(n, p)]"
  have p: "p \<noteq> Ready None" and ne: "\<forall>e \<in> ?S. fst e \<noteq> mx"
    using Cons.prems(2,4) by (auto simp: e seen_Cons [of _ "(n, p)" evs])
  note step = best_step [OF w p Cons.prems(3) ne]
  have U: "S \<union> seen (dt_getter c) (e # evs) = ?S \<union> seen (dt_getter c1) evs"
    unfolding step(2) e by (subst seen_Cons) auto
  have IH: "best c' (?S \<union> seen (dt_getter c1) evs) \<and> length wms1 = length evs \<and>
    (\<forall>e. evs \<noteq> [] \<and> max_event_time_system_time c' = Some e \<longrightarrow>
      last wms1 = wm_at mx (wait_for_system_duration c1) (fst (last evs)) e)"
    using Cons.prems(2,4) by (intro Cons.IH [OF r _ step(1)]) (auto simp flip: U)
  show ?case
  proof (cases "evs = []")
    case True
    with r have "c' = c1" "wms1 = []" by simp_all
    with IH U step(4) True show ?thesis by (simp add: wms e)
  next
    case False
    with IH U step(3) show ?thesis by (auto simp: wms)
  qed
qed

text \<open>Claim C28. The event clock's watermark is the largest of "event time minus the waiting
  duration, moved on by the system time since the event was seen" over all events seen so far:
  the event that is furthest ahead of its arrival decides, not the one with the largest
  timestamp.\<close>



theorem event_watermark_max:
  assumes "clock_run (event_ops mn mx) (event_clock_builder of_py getter wait None) evs = Inr (c, wms)"
    and "\<forall>e \<in> set evs. snd e \<noteq> Ready None" and "seen getter evs \<noteq> {}"
    and "\<forall>(et, st) \<in> seen getter evs. et \<noteq> mx"
  shows "last wms = Max ((\<lambda>(et, st). et - wait + (fst (last evs) - st)) ` seen getter evs)"
proof -
  let ?c = "event_clock_builder of_py getter wait None"
  let ?f = "\<lambda>(et, st). et - wait + (fst (last evs) - st)"
  have fin: "finite (seen getter evs)"
  proof (rule finite_subset)
    show "seen getter evs \<subseteq> (\<lambda>e. case snd e of Ready (Some v) \<Rightarrow>
        (case getter v of Inr et \<Rightarrow> (et, fst e))) ` set evs"
      by (force simp: seen_def)
  qed simp
  have "best ?c {}" by (simp add: best_def event_clock_builder_def)
  moreover have "\<forall>e \<in> seen getter evs. fst e \<noteq> mx" using assms(4) by auto
  ultimately have "best c (seen getter evs) \<and> (\<forall>e. evs \<noteq> [] \<and> max_event_time_system_time c = Some e \<longrightarrow>
      last wms = wm_at mx wait (fst (last evs)) e)"
    using event_run_best [OF assms(1,2), of "{}"] by (simp add: event_clock_builder_def)
  then have b: "best c (seen getter evs)" and l: "\<And>e. evs \<noteq> [] \<Longrightarrow> max_event_time_system_time c = Some e \<Longrightarrow>
      last wms = wm_at mx wait (fst (last evs)) e"
    by blast+
  from b assms(3) obtain e where e: "max_event_time_system_time c = Some e" "e \<in> seen getter evs"
    "\<forall>e' \<in> seen getter evs. fst e' - snd e' \<le> fst e - snd e"
    by (auto simp: best_def split: option.splits)
  have "evs \<noteq> []" using assms(3) by (auto simp: seen_def)
  with l e(1,2) assms(4) have "last wms = ?f e" by (auto simp: wm_at_def split: prod.splits)
  moreover have "Max (?f ` seen getter evs) = ?f e"
    using fin e(2,3) by (intro Max_eqI) (auto simp: algebra_simps split: prod.splits)
  ultimately show ?thesis by simp
qed

theorem event_watermark_max_witness:
  "clock_run (event_ops 0 1000) (event_clock_builder id (\<lambda>t. Inr t) 10 None)
      [(100, Ready (Some 50)), (120, Ready (Some 60)), (125, Pending)]
    = Inr (\<lparr>dt_getter = (\<lambda>t. Inr t), wait_for_system_duration = 10,
            max_event_time_system_time = Some (50, 100)\<rparr>, [40, 60, 65]) \<and>
   last [40, 60, 65] = Max ((\<lambda>(et, st). et - 10 + (fst (last [(100 :: int, Ready (Some 50)),
      (120, Ready (Some 60)), (125, Pending)]) - st)) ` {(50, 100), (60 :: int, 120 :: int)})"
proof -
  let ?evs = "[(100, Ready (Some 50)), (120, Ready (Some 60)), (125, Pending)]"
  have run: "clock_run (event_ops 0 1000) (event_clock_builder id (\<lambda>t. Inr t) 10 None) ?evs
    = Inr (\<lparr>dt_getter = (\<lambda>t. Inr t), wait_for_system_duration = 10,
            max_event_time_system_time = Some (50, 100)\<rparr>, [40, 60, 65])"
    by (simp add: event_ops_def event_watermark_def event_clock_builder_def event_time_for_def
        event_wm_def dt_add_def flatten_opts_def)
  have "seen (\<lambda>t. Inr t) ?evs = {(50, 100), (60, 120)}" by (auto simp: seen_def)
  with event_watermark_max [OF run] run show ?thesis by simp
qed

lemma event_snapshot_roundtrip:
  assumes "\<And>t. of_py (to_py t) = t"
  shows "event_clock_builder of_py (dt_getter c) (wait_for_system_duration c)
    (Some (event_snapshot to_py c)) = c"
  using assms by (cases "max_event_time_system_time c")
    (auto simp: event_clock_builder_def event_snapshot_def)

end
