(* ===== verification/Stateful_Spec.thy ===== *)
theory Stateful_Spec
  imports Clocks BTree
begin

text \<open>
  The \<^verbatim>\<open>StatefulLogic\<close> trait of \<^verbatim>\<open>src/src/operators/stateful_unary.rs\<close> as a record of
  operations, with the contract the stateful operator relies on (locale \<open>stateful_logic\<close>). What
  an activation reads from its surroundings, such as the system time, is an argument of type
  \<open>'e\<close>. The window driver (theory \<open>Window_Logic\<close>) interprets the locale and the operator
  (theory \<open>Stateful_Unary\<close>) is verified inside it.
\<close>

datatype logic_fate = Retain | Discard

record ('l, 'e, 'v, 'r, 'q) stateful_logic_ops =
  sl_on_awake :: "'l \<Rightarrow> 'e \<Rightarrow> 'v poll \<Rightarrow> ('l \<times> 'r list) res"
  sl_fate :: "'l \<Rightarrow> logic_fate"
  sl_next_awake :: "'l \<Rightarrow> time option"
  sl_snapshot :: "'l \<Rightarrow> 'q"
  sl_builder :: "'q option \<Rightarrow> 'l res"

text \<open>
  A logic is built and awoken without a panic, on the values \<open>ok\<close> of a stream and the surroundings
  \<open>okenv\<close>.
\<close>

locale stateful_logic =
  fixes L :: "('l, 'e, 'v, 'r, 'q) stateful_logic_ops" and linv :: "'l \<Rightarrow> bool"
    and okenv :: "'e \<Rightarrow> bool" and ok :: "'v \<Rightarrow> bool"
  assumes build_inv: "\<exists>l. sl_builder L None = Inr l \<and> linv l"
    and awake_total: "linv l \<Longrightarrow> okenv e \<Longrightarrow> (\<forall>v. p = Ready (Some v) \<longrightarrow> ok v) \<Longrightarrow>
      \<exists>l' rs. sl_on_awake L l e p = Inr (l', rs) \<and> linv l'"

text \<open>A logic awoken by a sequence of events: what it emits in all.\<close>

fun logic_run ::
  "('l, 'e, 'v, 'r, 'q) stateful_logic_ops \<Rightarrow> 'l \<Rightarrow> ('e \<times> 'v poll) list \<Rightarrow> ('l \<times> 'r list) res" where
  "logic_run L l [] = Inr (l, [])"
| "logic_run L l ((e, p) # evs) =
     ebind (sl_on_awake L l e p) (\<lambda>(l', rs).
       emap (\<lambda>(l'', rs'). (l'', rs @ rs')) (logic_run L l' evs))"

context stateful_logic
begin

lemma run_total:
  "linv l \<Longrightarrow> \<forall>(e, p) \<in> set evs. okenv e \<and> (\<forall>v. p = Ready (Some v) \<longrightarrow> ok v) \<Longrightarrow>
    \<exists>l' rs. logic_run L l evs = Inr (l', rs) \<and> linv l'"
proof (induction evs arbitrary: l)
  case Nil
  then show ?case by simp
next
  case (Cons ev evs)
  obtain e p where ev: "ev = (e, p)" by fastforce
  from Cons.prems awake_total [of l e p] obtain l1 rs1 where
    a: "sl_on_awake L l e p = Inr (l1, rs1)" "linv l1" by (auto simp: ev)
  from Cons.IH [OF a(2)] Cons.prems(2) obtain l' rs where "logic_run L l1 evs = Inr (l', rs)" "linv l'"
    by auto
  with a show ?case by (simp add: ev)
qed

end

end
