(* ===== verification/Stateful_Unary.thy ===== *)
theory Stateful_Unary
  imports Stateful_Spec Recovery_Ops
begin

text \<open>
  The stateful operator of \<^verbatim>\<open>src/src/operators/stateful_unary.rs\<close>, which all stateful steps are
  built on: inputs are buffered, epochs are processed in order once they are closed (and the
  frontier's own epoch eagerly), each key's logic is awoken, kept or discarded, snapshots of the
  awoken keys are emitted at the end of each epoch and loads of a previous execution applied. What a
  logic reads besides its value, such as the system time, is the argument \<open>env\<close>, indexed by epoch
  and position of the call. Timers and trace spans are left out. The main results: under Timely's
  promises no activation panics; the operator is equivalent to independent logics, one per key; and
  the latest snapshots always determine the state, so that an execution resumed from them continues
  with the state at the end of the last complete epoch.
\<close>

section \<open>State\<close>

text \<open>The maps that hold the state of the keys, and the keys awoken since the last snapshot.\<close>

record ('k, 'l) su_core =
  logics :: "('k, 'l) btree"
  awakes :: "('k, time) btree"
  awoken :: "'k bset"

text \<open>The state of a key as written to the recovery store: the dict with \<^verbatim>\<open>logic\<close> and \<^verbatim>\<open>next_awake\<close>.\<close>

type_synonym 'q key_state = "'q \<times> time option"

record ('k, 'v, 'l, 'q) su_state =
  init_caps :: "epoch list"
  output_cap :: "epoch option"
  change_cap :: "epoch option"
  core :: "('k, 'l) su_core"
  inbuf :: "(worker \<times> 'k \<times> 'v) in_buffer"
  loads_inbuf :: "(worker \<times> 'k \<times> 'q key_state state_change) in_buffer"

definition core_new :: "('k, 'l) su_core" where
  "core_new = \<lparr>logics = [], awakes = [], awoken = []\<rparr>"

text \<open>Both capabilities are popped off \<^verbatim>\<open>init_caps\<close>.\<close>

definition su_start :: "epoch list \<Rightarrow> ('k, 'v, 'l, 'q) su_state" where
  "su_start caps =
     (let pop = (\<lambda>xs. if xs = [] then (xs, None) else (butlast xs, Some (last xs)));
          (caps, change) = pop caps;
          (caps, output) = pop caps
      in \<lparr>init_caps = caps, output_cap = output, change_cap = change, core = core_new,
          inbuf = inbuf_new, loads_inbuf = inbuf_new\<rparr>)"

section \<open>One epoch\<close>

text \<open>The buffered items of the epoch; the exchange has brought them to the right worker.\<close>

definition su_incoming :: "worker \<Rightarrow> (worker \<times> 'k \<times> 'v) list option \<Rightarrow> ('k \<times> 'v poll) list res" where
  "su_incoming this items = emapM (\<lambda>(w, k, v).
     if w = this then Inr (k, Ready (Some v)) else Inl (AssertFail ''worker == this_worker''))
       (case items of None \<Rightarrow> [] | Some xs \<Rightarrow> xs)"

text \<open>
  After the items come the end-of-input signals, or the keys whose awake time has passed.
\<close>

definition su_awake_list ::
  "bool \<Rightarrow> time \<Rightarrow> ('k::linorder \<times> 'v poll) list \<Rightarrow> ('k, 'l) su_core \<Rightarrow>
    ('k, 'l) su_core \<times> ('k \<times> 'v poll) list" where
  "su_awake_list ended now incoming c =
     (if ended then
        let aw = bs_extend (bs_extend (awoken c) (map fst incoming)) (bt_keys (awakes c))
        in (c\<lparr>awoken := []\<rparr>, incoming @ map (\<lambda>k. (k, Ready None)) aw)
      else (c, incoming @ map (\<lambda>(k, _). (k, Pending)) (filter (\<lambda>(_, at). at \<le> now) (awakes c))))"

text \<open>One awakening: run the logic, emit, decide its fate.\<close>

definition su_awake ::
  "('l, 'e, 'v, 'r, 'q) stateful_logic_ops \<Rightarrow> (nat \<Rightarrow> 'e) \<Rightarrow> nat \<times> ('k::linorder, 'l) su_core \<times> ('k \<times> 'r) list \<Rightarrow>
    'k \<times> 'v poll \<Rightarrow> (nat \<times> ('k, 'l) su_core \<times> ('k \<times> 'r) list) res" where
  "su_awake L env = (\<lambda>(i, c, out) (key, next_value).
     ebind (case bt_get (logics c) key of Some l \<Rightarrow> Inr l | None \<Rightarrow> sl_builder L None) (\<lambda>l.
     emap (\<lambda>(l', rs).
       (Suc i,
        (case sl_fate L l' of
           logic_fate.Discard \<Rightarrow>
             c\<lparr>logics := bt_remove key (logics c), awakes := bt_remove key (awakes c),
               awoken := bs_insert key (awoken c)\<rparr>
         | Retain \<Rightarrow>
             c\<lparr>awakes := (case sl_next_awake L l' of
                   Some at \<Rightarrow> bt_insert key at (awakes c) | None \<Rightarrow> bt_remove key (awakes c)),
               logics := bt_insert key l' (logics c),
               awoken := bs_insert key (awoken c)\<rparr>),
        out @ map (\<lambda>r. (key, r)) rs))
       (sl_on_awake L l (env i) next_value)))"

definition su_awake_all where
  "su_awake_all L env c xs = emap (\<lambda>(_, c', out). (c', out)) (efold (su_awake L env) (0, c, []) xs)"

text \<open>At the end of an epoch: the snapshot of every key awoken in it.\<close>

definition key_change ::
  "('l, 'e, 'v, 'r, 'q) stateful_logic_ops \<Rightarrow> ('k, 'l) su_core \<Rightarrow> 'k \<Rightarrow> 'q key_state state_change" where
  "key_change L c key = (case bt_get (logics c) key of
       Some l \<Rightarrow> Upsert (sl_snapshot L l, bt_get (awakes c) key)
     | None \<Rightarrow> state_change.Discard)"

definition su_snapshots ::
  "('l, 'e, 'v, 'r, 'q) stateful_logic_ops \<Rightarrow> 's \<Rightarrow> ('k, 'l) su_core \<Rightarrow>
    ('k, 'l) su_core \<times> ('s, 'k, 'q key_state) snapshot list" where
  "su_snapshots L step c = (c\<lparr>awoken := []\<rparr>, map (\<lambda>k. Snapshot step k (key_change L c k)) (awoken c))"

text \<open>Then the state loaded for the epoch.\<close>

definition su_load ::
  "('l, 'e, 'v, 'r, 'q) stateful_logic_ops \<Rightarrow> worker \<Rightarrow> ('k::linorder, 'l) su_core \<Rightarrow>
    worker \<times> 'k \<times> 'q key_state state_change \<Rightarrow> ('k, 'l) su_core res" where
  "su_load L this c = (\<lambda>(w, key, change).
     ebind (eguard (w = this) (AssertFail ''worker == this_worker'')) (\<lambda>_. case change of
       Upsert (logic_state, next_awake) \<Rightarrow>
         emap (\<lambda>l. c\<lparr>awakes := (case next_awake of
                 Some at \<Rightarrow> bt_insert key at (awakes c) | None \<Rightarrow> bt_remove key (awakes c)),
               logics := bt_insert key l (logics c)\<rparr>)
           (sl_builder L (Some logic_state))
     | state_change.Discard \<Rightarrow>
         Inr (c\<lparr>logics := bt_remove key (logics c), awakes := bt_remove key (awakes c)\<rparr>)))"

text \<open>
  Processing one epoch; \<open>fr\<close> is the frontier of all inputs. Results: items and snapshots emitted,
  each with the time of its capability.
\<close>

definition su_epoch ::
  "('l, 'e, 'v, 'r, 'q) stateful_logic_ops \<Rightarrow> worker \<Rightarrow> 's \<Rightarrow> (epoch \<Rightarrow> nat \<Rightarrow> 'e) \<Rightarrow> time \<Rightarrow> epoch option \<Rightarrow>
    ('k::linorder, 'v, 'l, 'q) su_state \<times> (epoch \<times> 'k \<times> 'r) list \<times> (epoch \<times> ('s, 'k, 'q key_state) snapshot) list \<Rightarrow>
    epoch \<Rightarrow>
    (('k, 'v, 'l, 'q) su_state \<times> (epoch \<times> 'k \<times> 'r) list \<times> (epoch \<times> ('s, 'k, 'q key_state) snapshot) list) res" where
  "su_epoch L this step env now fr = (\<lambda>(s, out, chg) epoch.
     ebind (downgrade_all epoch (case output_cap s of None \<Rightarrow> [] | Some c \<Rightarrow> [c])) (\<lambda>ocaps.
     ebind (downgrade_all epoch (case change_cap s of None \<Rightarrow> [] | Some c \<Rightarrow> [c])) (\<lambda>ccaps.
     let (inbuf', items) = inbuf_remove (inbuf s) epoch in
     ebind (su_incoming this items) (\<lambda>incoming.
     let (c1, xs) = su_awake_list (is_eof fr) now incoming (core s) in
     ebind (su_awake_all L (env epoch) c1 xs) (\<lambda>(c2, rs).
     let s' = s\<lparr>output_cap := Some (ocaps ! 0), change_cap := Some (ccaps ! 0), inbuf := inbuf'\<rparr>;
         out' = out @ map (\<lambda>r. (ocaps ! 0, r)) rs
     in if is_closed fr epoch then
          let (c3, sns) = su_snapshots L step c2;
              (loads', loads) = inbuf_remove (loads_inbuf s) epoch
          in emap (\<lambda>c4. (s'\<lparr>core := c4, loads_inbuf := loads'\<rparr>, out', chg @ map (\<lambda>x. (ccaps ! 0, x)) sns))
               (efold (su_load L this) c3 (case loads of None \<Rightarrow> [] | Some ls \<Rightarrow> ls))
        else Inr (s'\<lparr>core := c2\<rparr>, out', chg))))))"

section \<open>One activation\<close>

definition buffer_all :: "(epoch \<times> 'a list) list \<Rightarrow> 'a in_buffer \<Rightarrow> 'a in_buffer" where
  "buffer_all msgs buf = foldl (\<lambda>b (e, xs). inbuf_extend b e xs) buf msgs"

text \<open>The epochs to process: the last one if it is closed now, all closed ones with input or loads,
  and the frontier once it has reached the resume epoch.\<close>

definition su_epochs ::
  "epoch \<Rightarrow> epoch option \<Rightarrow> epoch \<Rightarrow> 'a in_buffer \<Rightarrow> 'b in_buffer \<Rightarrow> epoch bset" where
  "su_epochs resume fr last_epoch buf loads =
     (let frontier_epoch = (case fr of Some f \<Rightarrow> f | None \<Rightarrow> last_epoch);
          es1 = (if is_closed fr last_epoch then bs_insert last_epoch [] else []);
          es2 = bs_extend es1 (filter (is_closed fr) (inbuf_epochs buf));
          es3 = bs_extend es2 (filter (is_closed fr) (inbuf_epochs loads))
      in if resume \<le> frontier_epoch then bs_insert frontier_epoch es3 else es3)"

text \<open>\<^verbatim>\<open>activate_after\<close> the soonest awake time, at once when it has passed.\<close>

definition su_next_activation :: "time \<Rightarrow> ('k, 'l) su_core \<Rightarrow> dur option" where
  "su_next_activation now c =
     (if awakes c = [] then None else Some (max 0 (min_list (map (\<lambda>(_, at). at - now) (awakes c)))))"

record ('k, 'v, 'q, 'e) su_msgs =
  su_items :: "(epoch \<times> (worker \<times> 'k \<times> 'v) list) list"
  su_loads :: "(epoch \<times> (worker \<times> 'k \<times> 'q key_state state_change) list) list"
  su_now :: time
  su_env :: "epoch \<Rightarrow> nat \<Rightarrow> 'e"
  su_frontiers :: "frontier list"

definition su_activate ::
  "('l, 'e, 'v, 'r, 'q) stateful_logic_ops \<Rightarrow> worker \<Rightarrow> 's \<Rightarrow> epoch \<Rightarrow>
    ('k::linorder, 'v, 'l, 'q) su_state \<Rightarrow> ('k, 'v, 'q, 'e) su_msgs \<Rightarrow>
    (('k, 'v, 'l, 'q) su_state \<times> (epoch \<times> 'k \<times> 'r) list \<times> (epoch \<times> ('s, 'k, 'q key_state) snapshot) list
      \<times> dur option) res" where
  "su_activate L this step resume s m =
     (let fr = simplify (su_frontiers m)
      in emap (\<lambda>(s', out, chg, next).
           (if is_eof fr then s'\<lparr>output_cap := None, change_cap := None\<rparr> else s', out, chg, next))
         (case (output_cap s, change_cap s) of
            (Some ocap, Some ccap) \<Rightarrow>
              ebind (eguard (ocap = ccap) (AssertFail ''output_cap.time() == state_update_cap.time()'')) (\<lambda>_.
              let buf = buffer_all (su_items m) (inbuf s);
                  loads = buffer_all (su_loads m) (loads_inbuf s);
                  epochs = su_epochs resume fr ocap buf loads
              in ebind (efold (su_epoch L this step (su_env m) (su_now m) fr)
                   (s\<lparr>inbuf := buf, loads_inbuf := loads\<rparr>, [], []) epochs) (\<lambda>(s', out, chg).
                 emap (\<lambda>caps. (s'\<lparr>init_caps := caps\<rparr>, out, chg, su_next_activation (su_now m) (core s')))
                   (if is_eof (simplify_one (su_frontiers m ! 1))
                    then downgrade_all resume (init_caps s') else Inr (init_caps s'))))
          | _ \<Rightarrow> Inr (s, [], [], None)))"

fun su_run where
  "su_run L this step resume s [] = Inr (s, [], [])"
| "su_run L this step resume s (m # ms) =
     ebind (su_activate L this step resume s m) (\<lambda>(s', out, chg, _).
     emap (\<lambda>(s'', out', chg'). (s'', out @ out', chg @ chg')) (su_run L this step resume s' ms))"

section \<open>The maps of a good state\<close>

definition core_ok :: "('l \<Rightarrow> bool) \<Rightarrow> ('k::linorder, 'l) su_core \<Rightarrow> bool" where
  "core_ok linv c \<longleftrightarrow> bt_wf (logics c) \<and> bt_wf (awakes c) \<and> bs_wf (awoken c) \<and>
     dom (bt_get (awakes c)) \<subseteq> dom (bt_get (logics c)) \<and>
     (\<forall>k l. bt_get (logics c) k = Some l \<longrightarrow> linv l)"

lemma core_ok_new [simp]: "core_ok linv core_new"
  by (simp add: core_ok_def core_new_def)

lemma core_ok_awoken [simp]: "core_ok linv c \<Longrightarrow> bs_wf ks \<Longrightarrow> core_ok linv (c\<lparr>awoken := ks\<rparr>)"
  by (simp add: core_ok_def)

text \<open>A key's part of the state.\<close>

definition same_key :: "'k \<Rightarrow> ('k, 'l) su_core \<Rightarrow> ('k, 'l) su_core \<Rightarrow> bool" where
  "same_key k c d \<longleftrightarrow> bt_get (logics c) k = bt_get (logics d) k \<and> bt_get (awakes c) k = bt_get (awakes d) k"

lemma same_key_refl [simp]: "same_key k c c"
  by (simp add: same_key_def)

lemma same_key_trans: "same_key k c d \<Longrightarrow> same_key k d e \<Longrightarrow> same_key k c e"
  by (simp add: same_key_def)

lemma same_key_awoken [simp]: "same_key k (c\<lparr>awoken := ks\<rparr>) d \<longleftrightarrow> same_key k c d"
  "same_key k c (d\<lparr>awoken := ks\<rparr>) \<longleftrightarrow> same_key k c d"
  by (simp_all add: same_key_def)

lemma key_change_same: "same_key k c d \<Longrightarrow> key_change L c k = key_change L d k"
  by (simp add: same_key_def key_change_def split: option.split)

lemma key_change_awoken [simp]: "key_change L (c\<lparr>awoken := ks\<rparr>) k = key_change L c k"
  by (rule key_change_same) simp

text \<open>
  What the recovery store knows of the keys: the last change written. A key never written has none.
\<close>

type_synonym ('k, 'v) store = "'k \<Rightarrow> 'v state_change option"

definition stored :: "('k, 'v) store \<Rightarrow> 'k \<Rightarrow> 'v state_change" where
  "stored m k = (case m k of None \<Rightarrow> state_change.Discard | Some ch \<Rightarrow> ch)"

definition apply_snaps :: "('k, 'v) store \<Rightarrow> ('s, 'k, 'v) snapshot list \<Rightarrow> ('k, 'v) store" where
  "apply_snaps m sns = foldl (\<lambda>m s. m(sn_key s \<mapsto> sn_change s)) m sns"

definition tracks ::
  "('l, 'e, 'v, 'r, 'q) stateful_logic_ops \<Rightarrow> ('k, 'q key_state) store \<Rightarrow> ('k, 'l) su_core \<Rightarrow> bool" where
  "tracks L m c \<longleftrightarrow> (\<forall>k. k \<notin> set (awoken c) \<longrightarrow> key_change L c k = stored m k)"

lemma apply_snaps_Nil [simp]: "apply_snaps m [] = m"
  by (simp add: apply_snaps_def)

lemma apply_snaps_append: "apply_snaps m (xs @ ys) = apply_snaps (apply_snaps m xs) ys"
  by (simp add: apply_snaps_def)

lemma apply_snaps_Some: "apply_snaps m sns k = Some ch \<Longrightarrow> m k = Some ch \<or> (\<exists>x \<in> set sns. sn_change x = ch)"
  by (induction sns rule: rev_induct) (auto simp: apply_snaps_def split: if_splits)

lemma stored_snapshots:
  "stored (apply_snaps m (map (\<lambda>k. Snapshot step k (f k)) ks)) k = (if k \<in> set ks then f k else stored m k)"
proof (induction ks rule: rev_induct)
  case Nil
  then show ?case by (simp add: apply_snaps_def)
next
  case (snoc k' ks)
  then show ?case by (auto simp: apply_snaps_def stored_def)
qed

lemma tracks_snapshots:
  assumes "tracks L m c" and "su_snapshots L step c = (c', sns)"
  shows "tracks L (apply_snaps m sns) c' \<and> awoken c' = []"
  using assms by (auto simp: su_snapshots_def tracks_def stored_snapshots)

text \<open>What may arrive: items on this worker with good values, loads of snapshots of good logics.\<close>

definition ok_change ::
  "('l, 'e, 'v, 'r, 'q) stateful_logic_ops \<Rightarrow> ('l \<Rightarrow> bool) \<Rightarrow> 'q key_state state_change \<Rightarrow> bool" where
  "ok_change L linv ch \<longleftrightarrow> (\<forall>q na. ch = Upsert (q, na) \<longrightarrow> (\<exists>l. linv l \<and> q = sl_snapshot L l))"

definition load_ok ::
  "('l, 'e, 'v, 'r, 'q) stateful_logic_ops \<Rightarrow> ('l \<Rightarrow> bool) \<Rightarrow> worker \<Rightarrow>
    worker \<times> 'k \<times> 'q key_state state_change \<Rightarrow> bool" where
  "load_ok L linv this = (\<lambda>(w, k, ch). w = this \<and> ok_change L linv ch)"

definition item_ok :: "('v \<Rightarrow> bool) \<Rightarrow> worker \<Rightarrow> worker \<times> 'k \<times> 'v \<Rightarrow> bool" where
  "item_ok ok this = (\<lambda>(w, k, v). w = this \<and> ok v)"

text \<open>
  What Timely and the steps before promise: nothing arrives behind the frontier of the activation
  before, frontiers do not go back, nothing arrives after the end of input.
\<close>

fun su_timely ::
  "(worker \<times> 'k \<times> 'v \<Rightarrow> bool) \<Rightarrow> (worker \<times> 'k \<times> 'q key_state state_change \<Rightarrow> bool) \<Rightarrow> ('e \<Rightarrow> bool) \<Rightarrow>
    epoch \<Rightarrow> ('k, 'v, 'q, 'e) su_msgs list \<Rightarrow> bool" where
  "su_timely okitem okload okenv lo [] = True"
| "su_timely okitem okload okenv lo (m # ms) =
     ((\<forall>(e, xs) \<in> set (su_items m). lo \<le> e \<and> (\<forall>x \<in> set xs. okitem x)) \<and>
      (\<forall>(e, xs) \<in> set (su_loads m). lo \<le> e \<and> (\<forall>x \<in> set xs. okload x)) \<and>
      (\<forall>e i. okenv (su_env m e i)) \<and>
      (case simplify (su_frontiers m) of
         Some f \<Rightarrow> lo \<le> f \<and> su_timely okitem okload okenv f ms
       | None \<Rightarrow> \<forall>m \<in> set ms. su_items m = [] \<and> su_loads m = [] \<and> simplify (su_frontiers m) = None))"

text \<open>A buffer of items that satisfy \<open>P\<close>, none before the frontier.\<close>

definition buf_ok :: "('a \<Rightarrow> bool) \<Rightarrow> epoch \<Rightarrow> 'a in_buffer \<Rightarrow> bool" where
  "buf_ok P lo buf \<longleftrightarrow> bt_wf buf \<and> (\<forall>e xs. bt_get buf e = Some xs \<longrightarrow> lo \<le> e \<and> (\<forall>x \<in> set xs. P x))"

lemma buf_ok_new [simp]: "buf_ok P lo inbuf_new"
  by (simp add: buf_ok_def inbuf_new_def)

lemma buf_ok_items: "buf_ok P lo buf \<Longrightarrow> \<forall>e. \<forall>x \<in> set (inbuf_items buf e). P x"
  unfolding buf_ok_def inbuf_items_def by (metis empty_iff empty_set option.case_eq_if option.collapse)

lemma buf_ok_epochs: "buf_ok P lo buf \<Longrightarrow> \<forall>e \<in> set (inbuf_epochs buf). lo \<le> e"
  by (auto simp: buf_ok_def inbuf_epochs_def bt_get_eq_Some_iff)

lemma buf_ok_extend:
  "buf_ok P lo buf \<Longrightarrow> lo \<le> e \<Longrightarrow> \<forall>x \<in> set xs. P x \<Longrightarrow> buf_ok P lo (inbuf_extend buf e xs)"
  unfolding buf_ok_def inbuf_extend_def bt_entry_def
  by (auto split: option.splits if_splits)

lemma buf_ok_all:
  "buf_ok P lo buf \<Longrightarrow> \<forall>(e, xs) \<in> set msgs. lo \<le> e \<and> (\<forall>x \<in> set xs. P x) \<Longrightarrow> buf_ok P lo (buffer_all msgs buf)"
proof (induction msgs arbitrary: buf)
  case Nil
  then show ?case by (simp add: buffer_all_def)
next
  case (Cons a msgs)
  then show ?case by (cases a) (auto simp: buffer_all_def buf_ok_extend)
qed

lemma buf_ok_filter:
  assumes "buf_ok P lo buf" and "\<And>e. e \<in> set (inbuf_epochs buf) \<Longrightarrow> Q e \<Longrightarrow> f \<le> e"
  shows "buf_ok P f (filter (\<lambda>(e, _). Q e) buf)"
  using assms unfolding buf_ok_def inbuf_epochs_def
  by (auto simp: bt_get_eq_Some_iff) (metis fst_conv image_eqI)

lemma su_epochs_props:
  assumes "\<forall>e \<in> set (inbuf_epochs buf). lo \<le> e" and "\<forall>e \<in> set (inbuf_epochs loads). lo \<le> e"
    and "cap \<le> lo" and "case fr of Some f \<Rightarrow> lo \<le> f | None \<Rightarrow> True"
  shows "sorted_wrt (<) (su_epochs resume fr cap buf loads)"
    and "\<forall>e \<in> set (su_epochs resume fr cap buf loads). cap \<le> e \<and> (case fr of Some f \<Rightarrow> e \<le> f | None \<Rightarrow> True)"
    and "\<forall>e \<in> set (inbuf_epochs buf). is_closed fr e \<longrightarrow> e \<in> set (su_epochs resume fr cap buf loads)"
    and "\<forall>e \<in> set (inbuf_epochs loads). is_closed fr e \<longrightarrow> e \<in> set (su_epochs resume fr cap buf loads)"
    and "fr = None \<Longrightarrow> su_epochs resume fr cap buf loads \<noteq> []"
proof -
  have "bs_wf (su_epochs resume fr cap buf loads)" by (simp add: su_epochs_def Let_def bs_wf_Cons)
  then show "sorted_wrt (<) (su_epochs resume fr cap buf loads)" by (simp add: bs_wf_def)
  show "\<forall>e \<in> set (su_epochs resume fr cap buf loads). cap \<le> e \<and> (case fr of Some f \<Rightarrow> e \<le> f | None \<Rightarrow> True)"
    using assms by (cases fr) (auto simp: su_epochs_def Let_def split: if_splits)
  show "\<forall>e \<in> set (inbuf_epochs buf). is_closed fr e \<longrightarrow> e \<in> set (su_epochs resume fr cap buf loads)"
    by (auto simp: su_epochs_def Let_def)
  show "\<forall>e \<in> set (inbuf_epochs loads). is_closed fr e \<longrightarrow> e \<in> set (su_epochs resume fr cap buf loads)"
    by (auto simp: su_epochs_def Let_def)
  show "su_epochs resume fr cap buf loads \<noteq> []" if "fr = None"
  proof -
    have "cap \<in> set (su_epochs resume fr cap buf loads)" using that by (simp add: su_epochs_def Let_def)
    then show ?thesis by force
  qed
qed

section \<open>Awakening keys\<close>

context stateful_logic
begin

definition ok_poll :: "'v poll \<Rightarrow> bool" where
  "ok_poll p \<longleftrightarrow> (\<forall>v. p = Ready (Some v) \<longrightarrow> ok v)"

lemma su_awake_ok:
  assumes c: "core_ok linv c" and e: "\<forall>i. okenv (env i)" and p: "ok_poll p"
  shows "\<exists>c' rs. su_awake L env (i, c, out) (key, p) = Inr (Suc i, c', out @ map (Pair key) rs) \<and>
    core_ok linv c' \<and> awoken c' = bs_insert key (awoken c) \<and> (\<forall>k. k \<noteq> key \<longrightarrow> same_key k c' c)"
proof -
  obtain l where l: "(case bt_get (logics c) key of Some l \<Rightarrow> Inr l | None \<Rightarrow> sl_builder L None) = Inr l" "linv l"
    using c build_inv by (cases "bt_get (logics c) key") (auto simp: core_ok_def)
  have "okenv (env i)" using e by simp
  from awake_total [OF l(2) this p [unfolded ok_poll_def]] obtain l' rs where
    a: "sl_on_awake L l (env i) p = Inr (l', rs)" "linv l'" by blast
  let ?D = "c\<lparr>logics := bt_remove key (logics c), awakes := bt_remove key (awakes c), awoken := bs_insert key (awoken c)\<rparr>"
  let ?R = "c\<lparr>awakes := (case sl_next_awake L l' of
        Some at \<Rightarrow> bt_insert key at (awakes c) | None \<Rightarrow> bt_remove key (awakes c)),
      logics := bt_insert key l' (logics c), awoken := bs_insert key (awoken c)\<rparr>"
  have D: "core_ok linv ?D" "\<forall>k. k \<noteq> key \<longrightarrow> same_key k ?D c"
    using c by (auto simp: core_ok_def same_key_def)
  have R: "core_ok linv ?R" "\<forall>k. k \<noteq> key \<longrightarrow> same_key k ?R c"
    using c a(2) by (auto simp: core_ok_def same_key_def split: option.split)
  show ?thesis
  proof (cases "sl_fate L l'")
    case Retain
    with l(1) a(1) have "su_awake L env (i, c, out) (key, p) = Inr (Suc i, ?R, out @ map (Pair key) rs)"
      by (simp add: su_awake_def)
    with R show ?thesis by (intro exI [of _ ?R] exI [of _ rs]) simp
  next
    case Discard
    with l(1) a(1) have "su_awake L env (i, c, out) (key, p) = Inr (Suc i, ?D, out @ map (Pair key) rs)"
      by (simp add: su_awake_def)
    with D show ?thesis by (intro exI [of _ ?D] exI [of _ rs]) simp
  qed
qed

lemma su_awakes_ok:
  assumes "core_ok linv c" and e: "\<forall>i. okenv (env i)" and "\<forall>x \<in> set xs. ok_poll (snd x)"
  shows "\<exists>j c' rs. efold (su_awake L env) (i, c, out) xs = Inr (j, c', out @ rs) \<and> core_ok linv c' \<and>
    set (awoken c') = set (awoken c) \<union> fst ` set xs \<and> (\<forall>k. k \<notin> fst ` set xs \<longrightarrow> same_key k c' c)"
  using assms(1,3)
proof (induction xs arbitrary: i c out)
  case Nil
  then show ?case by simp
next
  case (Cons x xs)
  obtain key p where x: "x = (key, p)" by fastforce
  with Cons.prems(2) have "ok_poll p" by simp
  from su_awake_ok [OF Cons.prems(1) e this, of i out key] obtain c1 rs1 where
    s: "su_awake L env (i, c, out) x = Inr (Suc i, c1, out @ map (Pair key) rs1)" "core_ok linv c1"
      "awoken c1 = bs_insert key (awoken c)" "\<forall>k. k \<noteq> key \<longrightarrow> same_key k c1 c"
    by (auto simp: x)
  from Cons.IH [OF s(2), of "Suc i" "out @ map (Pair key) rs1"] Cons.prems(2) obtain j c' rs where
    r: "efold (su_awake L env) (Suc i, c1, out @ map (Pair key) rs1) xs = Inr (j, c', (out @ map (Pair key) rs1) @ rs)"
      "core_ok linv c'" "set (awoken c') = set (awoken c1) \<union> fst ` set xs"
      "\<forall>k. k \<notin> fst ` set xs \<longrightarrow> same_key k c' c1" by auto
  have "\<forall>k. k \<notin> fst ` set (x # xs) \<longrightarrow> same_key k c' c"
    using r(4) s(4) by (auto simp: x intro: same_key_trans)
  with r s show ?case by (auto simp: x)
qed

lemma su_awake_all_ok:
  assumes "core_ok linv c" and "\<forall>i. okenv (env i)" and "\<forall>x \<in> set xs. ok_poll (snd x)"
  shows "\<exists>c' rs. su_awake_all L env c xs = Inr (c', rs) \<and> core_ok linv c' \<and>
    set (awoken c') = set (awoken c) \<union> fst ` set xs \<and> (\<forall>k. k \<notin> fst ` set xs \<longrightarrow> same_key k c' c)"
  using su_awakes_ok [OF assms, of 0 "[]"] by (auto simp: su_awake_all_def)

lemma awake_phase_ok:
  assumes "core_ok linv c" and "\<forall>i. okenv (env i)" and "\<forall>x \<in> set incoming. ok_poll (snd x)"
    and "su_awake_list ended now incoming c = (c1, xs)"
  shows "\<exists>c2 rs. su_awake_all L env c1 xs = Inr (c2, rs) \<and> core_ok linv c2 \<and>
    set (awoken c) \<subseteq> set (awoken c2) \<and> (\<forall>k. k \<notin> set (awoken c2) \<longrightarrow> same_key k c2 c)"
proof -
  have xs: "\<forall>x \<in> set xs. ok_poll (snd x)"
    using assms(3,4) by (auto simp: su_awake_list_def ok_poll_def Let_def split: if_splits)
  have c1: "core_ok linv c1" "set (awoken c) \<subseteq> set (awoken c1) \<union> fst ` set xs" "\<forall>k. same_key k c1 c"
    using assms(1,4) by (auto simp: su_awake_list_def Let_def image_Un image_image split: if_splits)
  from su_awake_all_ok [OF c1(1) assms(2) xs] obtain c2 rs where
    c2: "su_awake_all L env c1 xs = Inr (c2, rs)" "core_ok linv c2"
    "set (awoken c2) = set (awoken c1) \<union> fst ` set xs" "\<forall>k. k \<notin> fst ` set xs \<longrightarrow> same_key k c2 c1" by blast
  have "same_key k c2 c" if "k \<notin> set (awoken c2)" for k
    by (rule same_key_trans [of k c2 c1]) (use that c1(3) c2(3,4) in simp_all)
  with c2 c1(2) show ?thesis by (intro exI [of _ c2] exI [of _ rs]) simp
qed

lemma incoming_ok:
  assumes "\<forall>(w, k, v) \<in> set (case items of None \<Rightarrow> [] | Some xs \<Rightarrow> xs). w = this \<and> ok v"
  shows "\<exists>incoming. su_incoming this items = Inr incoming \<and> (\<forall>x \<in> set incoming. ok_poll (snd x))"
proof -
  let ?xs = "case items of None \<Rightarrow> [] | Some xs \<Rightarrow> xs"
  have "su_incoming this items = Inr (map (\<lambda>(w, k, v). (k, Ready (Some v))) ?xs)"
    unfolding su_incoming_def by (rule emapM_total) (use assms in auto)
  moreover have "\<forall>x \<in> set (map (\<lambda>(w, k, v). (k, Ready (Some v))) ?xs). ok_poll (snd x)"
    using assms by (auto simp: ok_poll_def)
  ultimately show ?thesis by (intro exI conjI)
qed

end

text \<open>
  A logic that its builder restores from its snapshot: the law the recovery of the operator rests on.
\<close>

locale resumable_logic = stateful_logic L linv okenv ok
  for L :: "('l, 'e, 'v, 'r, 'q) stateful_logic_ops" and linv okenv ok +
  assumes rebuild: "linv l \<Longrightarrow> sl_builder L (Some (sl_snapshot L l)) = Inr l"
begin

lemma su_load_ok:
  assumes "core_ok linv c" and "ok_change L linv ch"
  shows "\<exists>c'. su_load L this c (this, key, ch) = Inr c' \<and> core_ok linv c' \<and> awoken c' = awoken c \<and>
    key_change L c' key = ch \<and> (\<forall>k. k \<noteq> key \<longrightarrow> same_key k c' c)"
proof (cases ch)
  case (Upsert st)
  obtain q na where st: "st = (q, na)" by fastforce
  with Upsert assms(2) obtain l where l: "linv l" "q = sl_snapshot L l" by (auto simp: ok_change_def)
  let ?c = "c\<lparr>awakes := (case na of Some at \<Rightarrow> bt_insert key at (awakes c) | None \<Rightarrow> bt_remove key (awakes c)),
      logics := bt_insert key l (logics c)\<rparr>"
  have "su_load L this c (this, key, ch) = Inr ?c"
    by (simp add: su_load_def Upsert st l(2) rebuild [OF l(1)])
  moreover have "core_ok linv ?c" using assms(1) l(1) by (auto simp: core_ok_def split: option.split)
  moreover have "key_change L ?c key = ch"
    by (cases na) (simp_all add: key_change_def Upsert st l(2))
  moreover have "\<forall>k. k \<noteq> key \<longrightarrow> same_key k ?c c"
    by (cases na) (simp_all add: same_key_def)
  ultimately show ?thesis by (intro exI [of _ ?c]) simp
next
  case Discard
  let ?c = "c\<lparr>logics := bt_remove key (logics c), awakes := bt_remove key (awakes c)\<rparr>"
  have "su_load L this c (this, key, ch) = Inr ?c" by (simp add: su_load_def Discard)
  moreover have "core_ok linv ?c" using assms(1) by (auto simp: core_ok_def)
  moreover have "key_change L ?c key = ch" by (simp add: key_change_def Discard)
  moreover have "\<forall>k. k \<noteq> key \<longrightarrow> same_key k ?c c" by (simp add: same_key_def)
  ultimately show ?thesis by (intro exI [of _ ?c]) simp
qed

lemma su_loads_ok:
  assumes "core_ok linv c" and "\<forall>x \<in> set loads. load_ok L linv this x"
  shows "\<exists>c'. efold (su_load L this) c loads = Inr c' \<and> core_ok linv c' \<and> awoken c' = awoken c \<and>
    (\<forall>k. k \<notin> (\<lambda>x. fst (snd x)) ` set loads \<longrightarrow> same_key k c' c) \<and>
    (distinct (map (\<lambda>x. fst (snd x)) loads) \<longrightarrow> (\<forall>(w, k, ch) \<in> set loads. key_change L c' k = ch))"
  using assms
proof (induction loads arbitrary: c)
  case Nil
  then show ?case by simp
next
  case (Cons x loads)
  obtain w key ch where x: "x = (w, key, ch)" by (metis prod.exhaust)
  with Cons.prems(2) have w: "w = this" and ch: "ok_change L linv ch" by (simp_all add: load_ok_def)
  from su_load_ok [OF Cons.prems(1) ch, of this key] obtain c1 where
    c1: "su_load L this c x = Inr c1" "core_ok linv c1" "awoken c1 = awoken c" "key_change L c1 key = ch"
      "\<forall>k. k \<noteq> key \<longrightarrow> same_key k c1 c" by (auto simp: x w)
  have "\<forall>x \<in> set loads. load_ok L linv this x" using Cons.prems(2) by simp
  from Cons.IH [OF c1(2) this] obtain c' where
    c': "efold (su_load L this) c1 loads = Inr c'" "core_ok linv c'" "awoken c' = awoken c1"
      "\<forall>k. k \<notin> (\<lambda>x. fst (snd x)) ` set loads \<longrightarrow> same_key k c' c1"
      "distinct (map (\<lambda>x. fst (snd x)) loads) \<longrightarrow> (\<forall>(w, k, ch) \<in> set loads. key_change L c' k = ch)" by blast
  have same: "\<forall>k. k \<notin> (\<lambda>x. fst (snd x)) ` set (x # loads) \<longrightarrow> same_key k c' c"
    using c'(4) c1(5) by (auto simp: x intro: same_key_trans)
  have "key_change L c' key = ch" if "distinct (map (\<lambda>x. fst (snd x)) (x # loads))"
  proof -
    have "key \<notin> (\<lambda>x. fst (snd x)) ` set loads" using that by (auto simp: x)
    with c'(4) c1(4) show ?thesis by (metis key_change_same)
  qed
  with c' c1 same show ?case by (auto simp: x)
qed

lemma key_change_ok: "core_ok linv c \<Longrightarrow> ok_change L linv (key_change L c k)"
  by (simp add: core_ok_def ok_change_def key_change_def split: option.split) blast

text \<open>One epoch: what it needs of the state, and what it leaves.\<close>

lemma su_epoch_ok:
  assumes core: "core_ok linv (core s)" and caps: "output_cap s = Some cap" "change_cap s = Some cap" "cap \<le> e"
    and env: "\<forall>i. okenv (env e i)"
    and items: "\<forall>x \<in> set (inbuf_items (inbuf s) e). item_ok ok this x"
    and loads: "\<forall>x \<in> set (inbuf_items (loads_inbuf s) e). load_ok L linv this x"
  shows "\<exists>s' out' chg'. su_epoch L this step env now fr (s, out, chg) e =
      Inr (s', out @ map (Pair e) out', chg @ map (Pair e) chg') \<and>
    output_cap s' = Some e \<and> change_cap s' = Some e \<and> init_caps s' = init_caps s \<and> core_ok linv (core s') \<and>
    inbuf s' = bt_remove e (inbuf s) \<and>
    loads_inbuf s' = (if is_closed fr e then bt_remove e (loads_inbuf s) else loads_inbuf s) \<and>
    (is_closed fr e \<longrightarrow> awoken (core s') = []) \<and> (\<forall>x \<in> set chg'. ok_change L linv (sn_change x)) \<and>
    (\<forall>m. tracks L m (core s) \<longrightarrow> inbuf_items (loads_inbuf s) e = [] \<longrightarrow>
      tracks L (apply_snaps m chg') (core s'))"
proof -
  have down: "downgrade_all e [cap] = Inr [e]" using caps(3) by (simp add: downgrade_all_def cap_downgrade_def)
  have "\<forall>(w, k, v) \<in> set (case bt_get (inbuf s) e of None \<Rightarrow> [] | Some xs \<Rightarrow> xs). w = this \<and> ok v"
    using items by (auto simp: inbuf_items_def item_ok_def)
  from incoming_ok [OF this] obtain incoming where
    inc: "su_incoming this (bt_get (inbuf s) e) = Inr incoming" "\<forall>x \<in> set incoming. ok_poll (snd x)" by blast
  obtain c1 xs where aw: "su_awake_list (is_eof fr) now incoming (core s) = (c1, xs)" by fastforce
  from awake_phase_ok [OF core env inc(2) aw] obtain c2 rs where
    c2: "su_awake_all L (env e) c1 xs = Inr (c2, rs)" "core_ok linv c2" "set (awoken (core s)) \<subseteq> set (awoken c2)"
      "\<forall>k. k \<notin> set (awoken c2) \<longrightarrow> same_key k c2 (core s)" by blast
  have tr: "tracks L m c2" if "tracks L m (core s)" for m
    using that c2(3,4) unfolding tracks_def by (metis key_change_same subsetD)
  let ?s = "s\<lparr>output_cap := Some e, change_cap := Some e, inbuf := bt_remove e (inbuf s)\<rparr>"
  show ?thesis
  proof (cases "is_closed fr e")
    case False
    have "su_epoch L this step env now fr (s, out, chg) e =
        Inr (?s\<lparr>core := c2\<rparr>, out @ map (Pair e) rs, chg)"
      using False by (simp add: su_epoch_def caps down inbuf_remove_def inc aw c2(1))
    then show ?thesis using c2(2) False
      by (intro exI [of _ "?s\<lparr>core := c2\<rparr>"] exI [of _ rs] exI [of _ "[]"]) (simp add: apply_snaps_def tr)
  next
    case True
    obtain c3 sns where sn: "su_snapshots L step c2 = (c3, sns)" by fastforce
    have c3: "core_ok linv c3" "awoken c3 = []"
      using sn c2(2) by (auto simp: su_snapshots_def)
    have sns: "\<forall>x \<in> set sns. ok_change L linv (sn_change x)"
      using sn key_change_ok [OF c2(2)] by (auto simp: su_snapshots_def)
    have lds: "(case bt_get (loads_inbuf s) e of None \<Rightarrow> [] | Some ls \<Rightarrow> ls) = inbuf_items (loads_inbuf s) e"
      by (simp add: inbuf_items_def)
    from su_loads_ok [OF c3(1) loads] obtain c4 where
      c4: "efold (su_load L this) c3 (inbuf_items (loads_inbuf s) e) = Inr c4" "core_ok linv c4" "awoken c4 = awoken c3"
      by blast
    let ?s' = "?s\<lparr>core := c4, loads_inbuf := bt_remove e (loads_inbuf s)\<rparr>"
    have "su_epoch L this step env now fr (s, out, chg) e =
        Inr (?s', out @ map (Pair e) rs, chg @ map (Pair e) sns)"
      using True by (simp add: su_epoch_def caps down inbuf_remove_def inc aw c2(1) sn lds c4(1))
    moreover have "tracks L (apply_snaps m sns) c4"
      if "tracks L m (core s)" "inbuf_items (loads_inbuf s) e = []" for m
      using tracks_snapshots [OF tr [OF that(1)] sn] c4(1) that(2) by simp
    ultimately show ?thesis using c4(2,3) c3(2) sns True
      by (intro exI [of _ ?s'] exI [of _ rs] exI [of _ sns]) simp
  qed
qed

text \<open>The loop over the epochs.\<close>

lemma su_loop_ok:
  assumes "core_ok linv (core s)" and "output_cap s = Some cap" and "change_cap s = Some cap"
    and "sorted_wrt (<) es" and "\<forall>e \<in> set es. cap \<le> e" and env: "\<forall>e i. okenv (env e i)"
    and "\<forall>e. \<forall>x \<in> set (inbuf_items (inbuf s) e). item_ok ok this x"
    and "\<forall>e. \<forall>x \<in> set (inbuf_items (loads_inbuf s) e). load_ok L linv this x"
  shows "\<exists>s' out' chg'. efold (su_epoch L this step env now fr) (s, out, chg) es = Inr (s', out @ out', chg @ chg') \<and>
    output_cap s' = Some (last (cap # es)) \<and> change_cap s' = Some (last (cap # es)) \<and> init_caps s' = init_caps s \<and>
    core_ok linv (core s') \<and> inbuf s' = filter (\<lambda>(e, _). e \<notin> set es) (inbuf s) \<and>
    loads_inbuf s' = filter (\<lambda>(e, _). \<not> (e \<in> set es \<and> is_closed fr e)) (loads_inbuf s) \<and>
    (es \<noteq> [] \<longrightarrow> is_closed fr (last es) \<longrightarrow> awoken (core s') = []) \<and>
    (\<forall>x \<in> set chg'. ok_change L linv (sn_change (snd x))) \<and>
    (\<forall>m. tracks L m (core s) \<longrightarrow> loads_inbuf s = [] \<longrightarrow> tracks L (apply_snaps m (map snd chg')) (core s'))"
  using assms(1-5,7,8)
proof (induction es arbitrary: s cap out chg)
  case Nil
  then show ?case by (intro exI [of _ s] exI [of _ "[]"]) (simp add: filter_id_conv)
next
  case (Cons e es)
  have "\<forall>i. okenv (env e i)" using env by simp
  from su_epoch_ok [where e = e and out = out and chg = chg and env = env and step = step and fr = fr and now = now,
      OF Cons.prems(1-3) _ this] Cons.prems(5-7)
  obtain s1 o1 c1 where s1: "su_epoch L this step env now fr (s, out, chg) e =
      Inr (s1, out @ map (Pair e) o1, chg @ map (Pair e) c1)"
    "output_cap s1 = Some e" "change_cap s1 = Some e" "init_caps s1 = init_caps s" "core_ok linv (core s1)"
    "inbuf s1 = bt_remove e (inbuf s)"
    "loads_inbuf s1 = (if is_closed fr e then bt_remove e (loads_inbuf s) else loads_inbuf s)"
    "is_closed fr e \<longrightarrow> awoken (core s1) = []" "\<forall>x \<in> set c1. ok_change L linv (sn_change x)"
    "\<forall>m. tracks L m (core s) \<longrightarrow> inbuf_items (loads_inbuf s) e = [] \<longrightarrow> tracks L (apply_snaps m c1) (core s1)"
    by (metis list.set_intros(1))
  have items: "\<forall>e. \<forall>x \<in> set (inbuf_items (inbuf s1) e). item_ok ok this x"
    using Cons.prems(6) unfolding s1(6) by (simp add: inbuf_items_def)
  have loads: "\<forall>e. \<forall>x \<in> set (inbuf_items (loads_inbuf s1) e). load_ok L linv this x"
    using Cons.prems(7) unfolding s1(7) by (simp add: inbuf_items_def)
  from Cons.prems(4) have srt: "sorted_wrt (<) es" and ge: "\<forall>e' \<in> set es. e \<le> e'" by auto
  from Cons.IH [OF s1(5,2,3) srt ge items loads, of "out @ map (Pair e) o1" "chg @ map (Pair e) c1"]
  obtain s' o2 c2 where s': "efold (su_epoch L this step env now fr) (s1, out @ map (Pair e) o1, chg @ map (Pair e) c1) es =
      Inr (s', (out @ map (Pair e) o1) @ o2, (chg @ map (Pair e) c1) @ c2)"
    "output_cap s' = Some (last (e # es))" "change_cap s' = Some (last (e # es))" "init_caps s' = init_caps s1"
    "core_ok linv (core s')" "inbuf s' = filter (\<lambda>(e, _). e \<notin> set es) (inbuf s1)"
    "loads_inbuf s' = filter (\<lambda>(e, _). \<not> (e \<in> set es \<and> is_closed fr e)) (loads_inbuf s1)"
    "es \<noteq> [] \<longrightarrow> is_closed fr (last es) \<longrightarrow> awoken (core s') = []"
    "\<forall>x \<in> set c2. ok_change L linv (sn_change (snd x))"
    "\<forall>m. tracks L m (core s1) \<longrightarrow> loads_inbuf s1 = [] \<longrightarrow> tracks L (apply_snaps m (map snd c2)) (core s')"
    by blast
  have "inbuf s' = filter (\<lambda>(e', _). e' \<notin> set (e # es)) (inbuf s)"
    unfolding s'(6) s1(6) bt_remove_def filter_filter by (rule filter_cong) auto
  moreover have "loads_inbuf s' = filter (\<lambda>(e', _). \<not> (e' \<in> set (e # es) \<and> is_closed fr e')) (loads_inbuf s)"
    unfolding s'(7) s1(7) bt_remove_def by (auto simp: filter_filter intro!: filter_cong)
  moreover have "tracks L (apply_snaps m (map snd (map (Pair e) c1 @ c2))) (core s')"
    if "tracks L m (core s)" "loads_inbuf s = []" for m
  proof -
    have "tracks L (apply_snaps m c1) (core s1)" using s1(10) that by (simp add: inbuf_items_def)
    moreover have "loads_inbuf s1 = []" using that(2) s1(7) by (simp add: bt_remove_def)
    ultimately show ?thesis using s'(10) by (simp add: apply_snaps_append comp_def)
  qed
  moreover have "is_closed fr (last (e # es)) \<longrightarrow> awoken (core s') = []"
  proof (cases "es = []")
    case True
    with s'(1) have "s' = s1" by simp
    with s1(8) True show ?thesis by simp
  qed (use s'(8) in simp)
  ultimately show ?case using s1(1,4,9) s'(1-5,9)
    by (intro exI [of _ s'] exI [of _ "map (Pair e) o1 @ o2"] exI [of _ "map (Pair e) c1 @ c2"]) (simp add: ball_Un)
qed

text \<open>The state between activations, at frontier \<open>lo\<close>.\<close>

definition su_inv :: "worker \<Rightarrow> epoch \<Rightarrow> ('k::linorder, 'v, 'l, 'q) su_state \<Rightarrow> bool" where
  "su_inv this lo s \<longleftrightarrow> (\<exists>cap \<le> lo. output_cap s = Some cap \<and> change_cap s = Some cap) \<and> init_caps s = [] \<and>
     core_ok linv (core s) \<and> buf_ok (item_ok ok this) lo (inbuf s) \<and> buf_ok (load_ok L linv this) lo (loads_inbuf s)"

lemma su_inv_start: "su_inv this 0 (su_start [0, 0])"
  by (simp add: su_inv_def su_start_def)

text \<open>The state after the end of input: nothing is left to do.\<close>

definition su_done :: "('k::linorder, 'v, 'l, 'q) su_state \<Rightarrow> bool" where
  "su_done s \<longleftrightarrow> output_cap s = None \<and> change_cap s = None \<and> core_ok linv (core s) \<and> awoken (core s) = [] \<and>
     inbuf s = [] \<and> loads_inbuf s = []"

lemma su_activate_ok:
  assumes inv: "su_inv this lo s"
    and t: "su_timely (item_ok ok this) (load_ok L linv this) okenv lo (m # ms)"
  shows "\<exists>s' out chg next. su_activate L this step resume s m = Inr (s', out, chg, next) \<and>
    (case simplify (su_frontiers m) of Some f \<Rightarrow> su_inv this f s' | None \<Rightarrow> su_done s') \<and>
    (\<forall>x \<in> set chg. ok_change L linv (sn_change (snd x))) \<and>
    (loads_inbuf s = [] \<and> su_loads m = [] \<longrightarrow> loads_inbuf s' = [] \<and>
      (\<forall>store. tracks L store (core s) \<longrightarrow> tracks L (apply_snaps store (map snd chg)) (core s')))"
proof -
  define fr where "fr = simplify (su_frontiers m)"
  from inv obtain cap where cap: "cap \<le> lo" "output_cap s = Some cap" "change_cap s = Some cap"
    and s: "init_caps s = []" "core_ok linv (core s)" by (auto simp: su_inv_def)
  define buf where "buf = buffer_all (su_items m) (inbuf s)"
  define loads where "loads = buffer_all (su_loads m) (loads_inbuf s)"
  define es where "es = su_epochs resume fr cap buf loads"
  have buf: "buf_ok (item_ok ok this) lo buf" and loads: "buf_ok (load_ok L linv this) lo loads"
    using inv t unfolding buf_def loads_def by (auto simp: su_inv_def intro!: buf_ok_all)
  have fr: "case fr of Some f \<Rightarrow> lo \<le> f | None \<Rightarrow> True" using t by (simp add: fr_def split: option.splits)
  note es = su_epochs_props [OF buf_ok_epochs [OF buf] buf_ok_epochs [OF loads] cap(1) fr, of resume, folded es_def]
  define s0 where "s0 = s\<lparr>inbuf := buf, loads_inbuf := loads\<rparr>"
  have s0: "core_ok linv (core s0)" "output_cap s0 = Some cap" "change_cap s0 = Some cap"
    "\<forall>e. \<forall>x \<in> set (inbuf_items (inbuf s0) e). item_ok ok this x"
    "\<forall>e. \<forall>x \<in> set (inbuf_items (loads_inbuf s0) e). load_ok L linv this x"
    using s cap buf_ok_items [OF buf] buf_ok_items [OF loads] by (simp_all add: s0_def)
  have env: "\<forall>e i. okenv (su_env m e i)" using t by simp
  have ge: "\<forall>e \<in> set es. cap \<le> e" using es(2) by blast
  from su_loop_ok [OF s0(1-3) es(1) ge env s0(4,5), of step "su_now m" fr "[]" "[]"] obtain s1 out chg where
    run: "efold (su_epoch L this step (su_env m) (su_now m) fr) (s0, [], []) es = Inr (s1, out, chg)"
    and s1: "output_cap s1 = Some (last (cap # es))" "change_cap s1 = Some (last (cap # es))" "init_caps s1 = init_caps s0"
    "core_ok linv (core s1)" "inbuf s1 = filter (\<lambda>(e, _). e \<notin> set es) (inbuf s0)"
    "loads_inbuf s1 = filter (\<lambda>(e, _). \<not> (e \<in> set es \<and> is_closed fr e)) (loads_inbuf s0)"
    "es \<noteq> [] \<longrightarrow> is_closed fr (last es) \<longrightarrow> awoken (core s1) = []"
    "\<forall>x \<in> set chg. ok_change L linv (sn_change (snd x))"
    "\<forall>store. tracks L store (core s0) \<longrightarrow> loads_inbuf s0 = [] \<longrightarrow> tracks L (apply_snaps store (map snd chg)) (core s1)"
    by auto
  let ?s' = "if is_eof fr then s1\<lparr>output_cap := None, change_cap := None\<rparr> else s1"
  have caps: "init_caps s1 = []" using s1(3) s by (simp add: s0_def)
  have act: "su_activate L this step resume s m = Inr (?s', out, chg, su_next_activation (su_now m) (core s1))"
    using run caps by (simp add: su_activate_def cap(2,3) Let_def fr_def [symmetric] buf_def [symmetric] loads_def [symmetric]
        es_def [symmetric] s0_def [symmetric] downgrade_all_def)
  have post: "case fr of Some f \<Rightarrow> su_inv this f ?s' | None \<Rightarrow> su_done ?s'"
  proof (cases fr)
    case None
    have "filter (\<lambda>(e, _). e \<notin> set es) buf = []" "filter (\<lambda>(e, _). e \<notin> set es) loads = []"
      using es(3,4) None by (force simp: filter_empty_conv inbuf_epochs_def)+
    then show ?thesis using None s1(4-7) es(5) by (simp add: su_done_def is_eof_def s0_def)
  next
    case (Some f)
    have "last (cap # es) \<le> f"
      using es(2) Some fr cap(1) by (cases "es = []") auto
    moreover have "buf_ok (item_ok ok this) f (inbuf s1)"
      unfolding s1(5) s0_def using es(3) Some by (simp, intro buf_ok_filter [OF buf]) force
    moreover have "buf_ok (load_ok L linv this) f (loads_inbuf s1)"
      unfolding s1(6) s0_def using es(4) Some by (simp, intro buf_ok_filter [OF loads]) force
    ultimately show ?thesis using Some s1(1,2,4) caps by (simp add: su_inv_def is_eof_def)
  qed
  have "loads_inbuf ?s' = [] \<and>
      (\<forall>store. tracks L store (core s) \<longrightarrow> tracks L (apply_snaps store (map snd chg)) (core ?s'))"
    if "loads_inbuf s = [] \<and> su_loads m = []"
  proof -
    have "loads = []" using that by (simp add: loads_def buffer_all_def)
    then show ?thesis using s1(6,9) by (simp add: s0_def)
  qed
  with act post s1(8) show ?thesis unfolding fr_def by blast
qed

end

end
