(* ===== verification/Epoch_Order.thy ===== *)
theory Epoch_Order
  imports Stateful_Unary
begin

text \<open>
  What the two stateful operators share (\<^verbatim>\<open>src/src/operators/stateful_unary.rs\<close> and \<^verbatim>\<open>unary\<close> in
  \<^verbatim>\<open>src/src/operators/mod.rs\<close>): the loop over the epochs of an activation and how activations follow
  each other. The snapshots of a run are in the order of their epochs, an activation at frontier \<open>R\<close> divides them
  into those before \<open>R\<close> and those not before it, and one activation that finds the epochs of all loads closed
  loads every key.
\<close>

section \<open>The loop over the epochs\<close>

lemma downgrade_one: "downgrade_all e [c] = Inr xs \<longleftrightarrow> c \<le> e \<and> xs = [e]"
  by (auto simp: downgrade_all_def cap_downgrade_def split: if_splits)

lemma epochs_in_order:
  assumes one: "\<And>s out chg e s' out' chg' c. ep (s, out, chg) e = Inr (s', out', chg') \<Longrightarrow> cap s = Some c \<Longrightarrow> P s \<Longrightarrow>
      c \<le> e \<and> cap s' = Some e \<and> P s' \<and> (\<exists>sns. chg' = chg @ map (Pair e) sns \<and> (\<not> is_closed fr e \<longrightarrow> sns = []))"
    and "efold ep (s, out, chg) es = Inr (s', out', chg')" and "cap s = Some c" and "P s" and "sorted_wrt (<) es"
  shows "\<exists>sns. chg' = chg @ sns \<and> cap s' = Some (last (c # es)) \<and> P s' \<and> c \<le> last (c # es) \<and> sorted (map fst sns) \<and>
    (\<forall>x \<in> set sns. c \<le> fst x \<and> fst x \<le> last (c # es) \<and> is_closed fr (fst x))"
  using assms(2-)
proof (induction es arbitrary: s out chg c)
  case Nil
  then show ?case by simp
next
  case (Cons e es)
  from Cons.prems(1) obtain s1 out1 chg1 where ep: "ep (s, out, chg) e = Inr (s1, out1, chg1)"
    and rest: "efold ep (s1, out1, chg1) es = Inr (s', out', chg')" by (auto elim!: ebind_InrE)
  from one [OF ep Cons.prems(2,3)] obtain sns where
    a: "c \<le> e" "cap s1 = Some e" "P s1" "chg1 = chg @ map (Pair e) sns" "\<not> is_closed fr e \<longrightarrow> sns = []" by blast
  from Cons.prems(4) have "sorted_wrt (<) es" by simp
  from Cons.IH [OF rest a(2,3) this] obtain sns2 where
    b: "chg' = chg1 @ sns2" "cap s' = Some (last (e # es))" "P s'" "e \<le> last (e # es)" "sorted (map fst sns2)"
      "\<forall>x \<in> set sns2. e \<le> fst x \<and> fst x \<le> last (e # es) \<and> is_closed fr (fst x)" by blast
  have "sorted (map fst (map (Pair e) sns @ sns2))" using b(5,6) by (auto simp: sorted_append comp_def map_replicate_const)
  moreover have "\<forall>x \<in> set (map (Pair e) sns @ sns2). c \<le> fst x \<and> fst x \<le> last (c # e # es) \<and> is_closed fr (fst x)"
    using a(1,5) b(4,6) by (fastforce intro: order_trans)
  moreover have "c \<le> last (c # e # es)" using a(1) b(4) by (simp only: last.simps) auto
  ultimately show ?case using a(4) b(1-3) by (intro exI [of _ "map (Pair e) sns @ sns2"]) simp
qed

lemma su_epochs_last:
  assumes "sorted_wrt (<) (su_epochs resume fr c buf loads)" and "fr = Some f" and "resume \<le> f"
  shows "f \<le> last (c # su_epochs resume fr c buf loads)"
proof -
  let ?es = "su_epochs resume fr c buf loads"
  have f: "f \<in> set ?es" using assms(2,3) by (simp add: su_epochs_def Let_def)
  then have ne: "?es \<noteq> []" by auto
  then have eq: "?es = butlast ?es @ [last ?es]" by simp
  from assms(1) have "\<forall>x \<in> set (butlast ?es). x < last ?es" by (subst (asm) eq) (simp add: sorted_wrt_append)
  moreover from f have "f \<in> set (butlast ?es) \<or> f = last ?es" by (subst (asm) eq) auto
  ultimately show ?thesis using ne by auto
qed

section \<open>Runs\<close>

text \<open>
  An operator with one capability that runs through the epochs of each activation: its snapshots come at or after
  the capability, in closed epochs, and leave the capability behind them, at or past the frontier once that has
  reached the resume epoch.
\<close>

locale epoch_order =
  fixes act :: "'s \<Rightarrow> 'm \<Rightarrow> ('s \<times> 'o list \<times> (epoch \<times> 'x) list \<times> 'n) res"
    and run :: "'s \<Rightarrow> 'm list \<Rightarrow> ('s \<times> 'o list \<times> (epoch \<times> 'x) list) res"
    and cap :: "'s \<Rightarrow> epoch option" and fr :: "'m \<Rightarrow> epoch option" and resume :: epoch
    and inv :: "epoch \<Rightarrow> 's \<Rightarrow> bool" and timely :: "epoch \<Rightarrow> 'm list \<Rightarrow> bool"
  assumes run_Nil: "run s [] = Inr (s, [], [])"
    and run_Cons: "run s (m # acts) = ebind (act s m) (\<lambda>(s', out, chg, _).
      emap (\<lambda>(s'', out', chg'). (s'', out @ out', chg @ chg')) (run s' acts))"
    and ended: "cap s = None \<Longrightarrow> act s m = Inr (s', out, chg, n) \<Longrightarrow> chg = [] \<and> cap s' = None"
    and timely: "timely lo (m # acts) \<Longrightarrow>
      (case fr m of Some f \<Rightarrow> lo \<le> f \<and> timely f acts | None \<Rightarrow> \<forall>m \<in> set acts. fr m = None)"
    and order: "inv lo s \<Longrightarrow> timely lo (m # acts) \<Longrightarrow> act s m = Inr (s', out, chg, n) \<Longrightarrow> cap s = Some c \<Longrightarrow>
      sorted (map fst chg) \<and> (\<forall>x \<in> set chg. c \<le> fst x \<and> is_closed (fr m) (fst x)) \<and>
      (case fr m of None \<Rightarrow> cap s' = None
        | Some f \<Rightarrow> inv f s' \<and> (\<exists>c'. cap s' = Some c' \<and> c \<le> c' \<and> (\<forall>x \<in> set chg. fst x \<le> c') \<and> (resume \<le> f \<longrightarrow> f \<le> c')))"
begin

lemma run_step:
  assumes "run s (m # acts) = Inr (s', out, chg)"
  obtains t o1 c1 n o2 c2 where "act s m = Inr (t, o1, c1, n)" and "run t acts = Inr (s', o2, c2)" and "chg = c1 @ c2"
  using assms by (auto simp: run_Cons emap_eq_Inr_iff elim!: ebind_InrE)

lemma run_ended: "cap s = None \<Longrightarrow> run s acts = Inr (s', out, chg) \<Longrightarrow> chg = []"
proof (induction acts arbitrary: s out chg)
  case Nil
  then show ?case by (simp add: run_Nil)
next
  case (Cons m acts)
  from Cons.prems(2) obtain t o1 c1 n o2 c2 where
    "act s m = Inr (t, o1, c1, n)" "run t acts = Inr (s', o2, c2)" "chg = c1 @ c2" by (rule run_step)
  with Cons.IH ended [OF Cons.prems(1)] show ?case by blast
qed

text \<open>The epochs of the snapshots do not go back, and all come after the capability.\<close>

lemma run_order:
  assumes "inv lo s" and "timely lo acts" and "run s acts = Inr (s', out, chg)" and "cap s = Some c"
  shows "sorted (map fst chg) \<and> (\<forall>x \<in> set chg. c \<le> fst x)"
  using assms
proof (induction acts arbitrary: s lo out chg c)
  case Nil
  then show ?case by (simp add: run_Nil)
next
  case (Cons m acts)
  from Cons.prems(3) obtain t o1 c1 n o2 c2 where
    a: "act s m = Inr (t, o1, c1, n)" and r: "run t acts = Inr (s', o2, c2)" "chg = c1 @ c2" by (rule run_step)
  note o = order [OF Cons.prems(1,2) a Cons.prems(4)]
  show ?case
  proof (cases "fr m")
    case None
    with o run_ended [OF _ r(1)] r(2) show ?thesis by auto
  next
    case (Some f)
    with o obtain c' where c': "inv f t" "cap t = Some c'" "c \<le> c'" "\<forall>x \<in> set c1. fst x \<le> c'" by auto
    from Some timely [OF Cons.prems(2)] have "timely f acts" by simp
    from Cons.IH [OF c'(1) this r(1) c'(2)] o c'(3,4) show ?thesis by (fastforce simp: r(2) sorted_append intro: order_trans)
  qed
qed

text \<open>Up to an activation at frontier \<open>R\<close> they are before \<open>R\<close>, and afterwards not.\<close>

lemma run_split:
  assumes "inv lo s" and "timely lo (acts @ acts')"
    and "acts \<noteq> []" and "fr (last acts) = Some R" and "resume \<le> R"
    and "run s acts = Inr (s1, out1, chg1)" and "cap s = Some c"
    and "run s (acts @ acts') = Inr (s2, out2, chg)"
  shows "\<exists>chg2. chg = chg1 @ chg2 \<and> (\<forall>x \<in> set chg1. fst x < R) \<and> (\<forall>x \<in> set chg2. R \<le> fst x) \<and> lo \<le> R"
  using assms
proof (induction acts arbitrary: s lo out1 chg1 out2 chg c)
  case Nil
  then show ?case by simp
next
  case (Cons m acts)
  from Cons.prems(6) obtain t o1 c1 n o2 c2 where
    a: "act s m = Inr (t, o1, c1, n)" and r: "run t acts = Inr (s1, o2, c2)" "chg1 = c1 @ c2" by (rule run_step)
  from Cons.prems(8) obtain t' o1' c1' n' o3 c3 where
    "act s m = Inr (t', o1', c1', n')" "run t' (acts @ acts') = Inr (s2, o3, c3)" "chg = c1' @ c3"
    unfolding append_Cons by (rule run_step)
  with a have r': "run t (acts @ acts') = Inr (s2, o3, c3)" "chg = c1 @ c3" by simp_all
  have t: "timely lo (m # acts @ acts')" using Cons.prems(2) by simp
  note o = order [OF Cons.prems(1) t a Cons.prems(7)]
  show ?case
  proof (cases "acts = []")
    case True
    then have f: "fr m = Some R" using Cons.prems(4) by simp
    with o Cons.prems(5) obtain c' where c': "inv R t" "cap t = Some c'" "R \<le> c'" "\<forall>x \<in> set c1. fst x < R"
      by (auto simp: is_closed_def)
    from f timely [OF t] have t': "timely R acts'" "lo \<le> R" using True by auto
    have "\<forall>x \<in> set c3. R \<le> fst x"
      using run_order [OF c'(1) t'(1) _ c'(2)] r'(1) True c'(3) by (fastforce intro: order_trans)
    then show ?thesis using r(1,2) r'(2) c'(4) True t'(2) by (simp add: run_Nil)
  next
    case False
    then have last: "fr (last acts) = Some R" using Cons.prems(4) by simp
    obtain f where f: "fr m = Some f"
    proof (cases "fr m")
      case None
      with timely [OF t] have "\<forall>m \<in> set (acts @ acts'). fr m = None" by simp
      with False last show ?thesis by (metis UnI1 last_in_set option.distinct(1) set_append)
    qed
    with o obtain c' where c': "inv f t" "cap t = Some c'" "\<forall>x \<in> set c1. fst x < f" by (auto simp: is_closed_def)
    from f timely [OF t] have t': "timely f (acts @ acts')" "lo \<le> f" by auto
    from Cons.IH [OF c'(1) t'(1) False last Cons.prems(5) r(1) c'(2) r'(1)] obtain c4 where
      "c3 = c2 @ c4" "\<forall>x \<in> set c2. fst x < R" "\<forall>x \<in> set c4. R \<le> fst x" "f \<le> R" by blast
    with c'(3) t'(2) r(2) r'(2) show ?thesis by (intro exI [of _ c4]) (auto intro: less_le_trans)
  qed
qed

end

section \<open>Loads\<close>

definition msg_items :: "(epoch \<times> 'a list) list \<Rightarrow> (epoch \<times> 'a) list" where
  "msg_items msgs = concat (map (\<lambda>(e, xs). map (Pair e) xs) msgs)"

lemma inbuf_items_extend: "inbuf_items (inbuf_extend buf e xs) e' = inbuf_items buf e' @ (if e' = e then xs else [])"
  by (auto simp: inbuf_items_def inbuf_extend_def bt_entry_def split: option.splits)

lemma buffer_all_items: "inbuf_items (buffer_all msgs buf) e = inbuf_items buf e @ map snd (filter (\<lambda>(e', _). e' = e) (msg_items msgs))"
proof (induction msgs arbitrary: buf)
  case Nil
  then show ?case by (simp add: buffer_all_def msg_items_def)
next
  case (Cons m msgs)
  obtain e' xs where "m = (e', xs)" by fastforce
  with Cons [of "inbuf_extend buf e' xs"] show ?case
    by (simp add: buffer_all_def inbuf_items_extend msg_items_def filter_map comp_def)
qed

lemma by_epoch_distinct:
  assumes "distinct (map (\<lambda>(e, x). g x) F)" and "distinct es"
  shows "distinct (map g (concat (map (\<lambda>e. map snd (filter (\<lambda>(e', _). e' = e) F)) es)))"
  using assms(2)
proof (induction es)
  case Nil
  then show ?case by simp
next
  case (Cons e es)
  have inj: "x = y" if "x \<in> set F" "y \<in> set F" "g (snd x) = g (snd y)" for x y
    using assms(1) that by (auto simp: distinct_map inj_on_def split_def)
  have "distinct (map (\<lambda>(e, x). g x) (filter (\<lambda>(e', _). e' = e) F))" by (rule distinct_map_filter [OF assms(1)])
  then have "distinct (map g (map snd (filter (\<lambda>(e', _). e' = e) F)))" by (simp add: comp_def split_def)
  with Cons inj show ?case by (force simp: image_iff)
qed

lemma by_epoch_map_of:
  assumes d: "distinct (map (\<lambda>(e, w, k, ch). k) F)" and es: "distinct es" "\<forall>(e, x) \<in> set F. e \<in> set es"
  shows "map_of (map snd (concat (map (\<lambda>e. map snd (filter (\<lambda>(e', _). e' = e) F)) es))) = map_of (map (\<lambda>(e, w, kc). kc) F)"
proof -
  let ?G = "concat (map (\<lambda>e. map snd (filter (\<lambda>(e', _). e' = e) F)) es)"
  have dG: "distinct (map fst (map snd ?G))"
    unfolding map_map comp_def by (rule by_epoch_distinct) (use d es in \<open>auto simp: split_def\<close>)
  have dF: "distinct (map fst (map (\<lambda>(e, w, kc). kc) F))" using d by (simp add: comp_def split_def)
  have "set ?G = snd ` set F" using es(2) by force
  then have sm: "set (map snd ?G) = set (map (\<lambda>(e, w, kc). kc) F)"
    unfolding set_map by (simp add: image_image split_def)
  have "map_of (map snd ?G) k = Some ch \<longleftrightarrow> map_of (map (\<lambda>(e, w, kc). kc) F) k = Some ch" for k ch
    unfolding map_of_eq_Some_iff [OF dG] map_of_eq_Some_iff [OF dF] sm ..
  then show ?thesis by (intro ext) (metis option.exhaust)
qed

lemma buffer_all_epochs: "fst ` set (buffer_all msgs buf) = fst ` set msgs \<union> fst ` set buf"
proof (induction msgs arbitrary: buf)
  case (Cons m msgs)
  obtain e xs where "m = (e, xs)" by fastforce
  with Cons [of "inbuf_extend buf e xs"] show ?case by (simp add: buffer_all_def inbuf_extend_def bt_entry_def)
qed (simp add: buffer_all_def)

text \<open>
  An operator that loads: in an epoch with nothing else to do, the changes of keys it has nothing of yet are taken
  over if the epoch is closed at frontier \<open>R\<close>, and nothing is emitted. A state has the capability \<open>cap\<close>, the buffered
  loads \<open>buf\<close> and for each key what a snapshot of it would hold, \<open>held\<close>.
\<close>

locale epoch_loads =
  fixes ep :: "'s \<times> 'o list \<times> 'c list \<Rightarrow> epoch \<Rightarrow> ('s \<times> 'o list \<times> 'c list) res" and R :: epoch
    and cap :: "'s \<Rightarrow> epoch option" and buf :: "'s \<Rightarrow> (worker \<times> 'k \<times> 'v state_change) in_buffer"
    and good :: "'s \<Rightarrow> bool" and fits :: "worker \<times> 'k \<times> 'v state_change \<Rightarrow> bool" and held :: "'s \<Rightarrow> 'k \<Rightarrow> 'v state_change"
  assumes load: "good s \<Longrightarrow> cap s = Some c \<Longrightarrow> c \<le> e \<Longrightarrow>
      \<forall>x \<in> set (inbuf_items (buf s) e). fits x \<and> held s (fst (snd x)) = state_change.Discard \<Longrightarrow>
      distinct (map (\<lambda>x. fst (snd x)) (inbuf_items (buf s) e)) \<Longrightarrow>
      \<exists>s'. ep (s, out, chg) e = Inr (s', out, chg) \<and> good s' \<and> cap s' = Some e \<and>
        buf s' = (if e < R then bt_remove e (buf s) else buf s) \<and>
        (\<forall>k. held s' k = (case map_of (if e < R then map snd (inbuf_items (buf s) e) else []) k of
          Some ch \<Rightarrow> ch | None \<Rightarrow> held s k))"
begin

lemma loop:
  assumes "good s" and "cap s = Some c" and "sorted_wrt (<) es" and "\<forall>e \<in> set es. c \<le> e"
    and "\<forall>e \<in> set es. \<forall>x \<in> set (inbuf_items (buf s) e). fits x \<and> held s (fst (snd x)) = state_change.Discard"
    and "distinct (map (\<lambda>x. fst (snd x)) (concat (map (inbuf_items (buf s)) es)))"
  shows "\<exists>s'. efold ep (s, out, chg) es = Inr (s', out, chg) \<and> good s' \<and> cap s' = Some (last (c # es)) \<and>
    buf s' = filter (\<lambda>(e, _). \<not> (e \<in> set es \<and> e < R)) (buf s) \<and>
    (\<forall>k. held s' k = (case map_of (map snd (concat (map (inbuf_items (buf s)) (filter (\<lambda>e. e < R) es)))) k of
         Some ch \<Rightarrow> ch | None \<Rightarrow> held s k))"
  using assms
proof (induction es arbitrary: s c)
  case Nil
  then show ?case by (intro exI [of _ s]) (simp add: filter_id_conv)
next
  case (Cons e es)
  let ?ls = "inbuf_items (buf s) e" and ?rest = "concat (map (inbuf_items (buf s)) (filter (\<lambda>e. e < R) es))"
  have "c \<le> e" "\<forall>x \<in> set ?ls. fits x \<and> held s (fst (snd x)) = state_change.Discard" "distinct (map (\<lambda>x. fst (snd x)) ?ls)"
    using Cons.prems(4-6) by auto
  from load [OF Cons.prems(1,2) this, of out chg] obtain s1 where
    s1: "ep (s, out, chg) e = Inr (s1, out, chg)" "good s1" "cap s1 = Some e"
      "buf s1 = (if e < R then bt_remove e (buf s) else buf s)"
      "\<forall>k. held s1 k = (case map_of (if e < R then map snd ?ls else []) k of Some ch \<Rightarrow> ch | None \<Rightarrow> held s k)" by blast
  have later: "sorted_wrt (<) es" "\<forall>e' \<in> set es. e < e'" using Cons.prems(3) by auto
  have items: "inbuf_items (buf s1) e' = inbuf_items (buf s) e'" if "e' \<in> set es" for e'
    using later(2) that by (auto simp: s1(4) inbuf_items_def)
  then have m: "map (inbuf_items (buf s1)) es = map (inbuf_items (buf s)) es"
    "map (inbuf_items (buf s1)) (filter (\<lambda>e. e < R) es) = map (inbuf_items (buf s)) (filter (\<lambda>e. e < R) es)"
    by simp_all
  have apart: "fst (snd x) \<notin> (\<lambda>x. fst (snd x)) ` set ?ls" if "e' \<in> set es" "x \<in> set (inbuf_items (buf s) e')" for e' x
    using Cons.prems(6) that by auto
  have "\<forall>e' \<in> set es. \<forall>x \<in> set (inbuf_items (buf s1) e'). fits x \<and> held s1 (fst (snd x)) = state_change.Discard"
  proof (intro ballI)
    fix e' x assume x: "e' \<in> set es" "x \<in> set (inbuf_items (buf s1) e')"
    then have x': "x \<in> set (inbuf_items (buf s) e')" using items by simp
    from apart [OF x(1) this] have "map_of (map snd ?ls) (fst (snd x)) = None" by (simp add: map_of_eq_None_iff image_image)
    then have "held s1 (fst (snd x)) = held s (fst (snd x))" using s1(5) by simp
    with Cons.prems(5) x(1) x' show "fits x \<and> held s1 (fst (snd x)) = state_change.Discard" by simp
  qed
  note g2 = this
  have g1: "\<forall>e' \<in> set es. e \<le> e'" using later(2) by (simp add: less_imp_le)
  have g3: "distinct (map (\<lambda>x. fst (snd x)) (concat (map (inbuf_items (buf s1)) es)))"
    unfolding m using Cons.prems(6) by simp
  from Cons.IH [OF s1(2,3) later(1) g1 g2 g3] obtain s' where s': "efold ep (s1, out, chg) es = Inr (s', out, chg)"
    "good s'" "cap s' = Some (last (e # es))" "buf s' = filter (\<lambda>(e, _). \<not> (e \<in> set es \<and> e < R)) (buf s1)"
    "\<forall>k. held s' k = (case map_of (map snd ?rest) k of Some ch \<Rightarrow> ch | None \<Rightarrow> held s1 k)"
    unfolding m by (elim exE conjE) (rule that)
  have "held s' k = (case map_of (map snd (concat (map (inbuf_items (buf s)) (filter (\<lambda>e. e < R) (e # es))))) k of
         Some ch \<Rightarrow> ch | None \<Rightarrow> held s k)" for k
  proof (cases "e < R")
    case False
    with s'(5) s1(5) show ?thesis by (simp split: option.splits)
  next
    case True
    have "map_of (map snd ?ls) k = None" if "map_of (map snd ?rest) k \<noteq> None"
    proof -
      from that obtain e' x where x: "e' \<in> set es" "x \<in> set (inbuf_items (buf s) e')" "fst (snd x) = k"
        by (auto simp: map_of_eq_None_iff image_image)
      with apart [OF x(1,2)] show ?thesis by (simp add: map_of_eq_None_iff image_image)
    qed
    with True s'(5) s1(5) show ?thesis by (auto simp: map_add_def split: option.splits)
  qed
  moreover have "buf s' = filter (\<lambda>(e', _). \<not> (e' \<in> set (e # es) \<and> e' < R)) (buf s)"
    unfolding s'(4) s1(4) by (auto simp: bt_remove_def intro!: filter_cong)
  ultimately show ?case using s1(1) s'(1-3) by (intro exI [of _ s']) simp
qed

text \<open>The activation that closes the epochs of all loads leaves none of them in the buffer.\<close>

lemma loading:
  assumes s: "good s" "cap s = Some 0" "buf s = buffer_all msgs []" "\<forall>k. held s k = state_change.Discard"
    and ld: "\<forall>(e, x) \<in> set (msg_items msgs). e < R \<and> fits x"
    and d: "distinct (map (\<lambda>(e, w, k, ch). k) (msg_items msgs))" and some: "\<forall>(e, xs) \<in> set msgs. xs \<noteq> []" and ib: "ib = []"
  shows "\<exists>s'. efold ep (s, out, chg) (su_epochs resume (Some R) 0 ib (buffer_all msgs [])) = Inr (s', out, chg) \<and>
    good s' \<and> (\<exists>c \<le> R. cap s' = Some c) \<and> buf s' = [] \<and>
    (\<forall>k. held s' k = (case map_of (map (\<lambda>(e, w, kc). kc) (msg_items msgs)) k of
       Some ch \<Rightarrow> ch | None \<Rightarrow> state_change.Discard))"
proof -
  let ?F = "msg_items msgs" and ?lb = "buffer_all msgs []"
  let ?es = "su_epochs resume (Some R) 0 ib ?lb"
  let ?at = "\<lambda>e. map snd (filter (\<lambda>(e', _). e' = e) ?F)"
  have lb: "inbuf_items ?lb = ?at"
    using buffer_all_items [of msgs "[]"] by (simp add: fun_eq_iff inbuf_items_def [of "[]"])
  note props = su_epochs_props [where lo = 0 and cap = 0 and fr = "Some R" and buf = ib and loads = ?lb and resume = resume]
  have es: "sorted_wrt (<) ?es" by (rule props(1)) (simp_all add: inbuf_epochs_def ib)
  have l1: "\<forall>e \<in> set ?es. \<forall>x \<in> set (inbuf_items (buf s) e). fits x \<and> held s (fst (snd x)) = state_change.Discard"
    using ld by (fastforce simp: s(3,4) lb)
  have l2: "distinct (map (\<lambda>x. fst (snd x)) (concat (map (inbuf_items (buf s)) ?es)))"
    unfolding s(3) lb by (rule by_epoch_distinct) (use d es in \<open>auto simp: split_def strict_sorted_iff\<close>)
  have ge: "\<forall>e \<in> set ?es. 0 \<le> e" by simp
  from loop [OF s(1,2) es ge l1 l2, of out chg] obtain s' where
    s': "efold ep (s, out, chg) ?es = Inr (s', out, chg)" "good s'" "cap s' = Some (last (0 # ?es))"
      "buf s' = filter (\<lambda>(e, _). \<not> (e \<in> set ?es \<and> e < R)) ?lb"
      "\<forall>k. held s' k = (case map_of (map snd (concat (map ?at (filter (\<lambda>e. e < R) ?es)))) k of
         Some ch \<Rightarrow> ch | None \<Rightarrow> held s k)"
    unfolding s(3) lb by (elim exE conjE) (rule that)
  have cov: "e \<in> set (filter (\<lambda>e. e < R) ?es)" if "(e, x) \<in> set ?F" for e x
  proof -
    have "x \<in> set (inbuf_items ?lb e)" using that by (force simp: lb)
    then have "e \<in> set (inbuf_epochs ?lb)" by (cases "bt_get ?lb e") (auto simp: inbuf_items_def inbuf_epochs_def bt_dom)
    moreover have "e < R" using ld that by auto
    ultimately show ?thesis by (simp add: su_epochs_def Let_def is_closed_def)
  qed
  have "e \<in> set ?es \<and> e < R" if e: "e \<in> fst ` set ?lb" for e
  proof -
    from e have "e \<in> fst ` set msgs" by (simp add: buffer_all_epochs)
    then obtain x where "(e, x) \<in> set ?F" using some by (fastforce simp: msg_items_def neq_Nil_conv)
    from cov [OF this] show ?thesis by simp
  qed
  then have "\<forall>(e, xs) \<in> set ?lb. e \<in> set ?es \<and> e < R" by (metis (mono_tags, lifting) case_prodI2 fst_conv image_eqI)
  then have empty: "buf s' = []" unfolding s'(4) filter_empty_conv by blast
  have "map_of (map snd (concat (map ?at (filter (\<lambda>e. e < R) ?es)))) = map_of (map (\<lambda>(e, w, kc). kc) ?F)"
    by (rule by_epoch_map_of [OF d]) (use es cov in \<open>auto simp: strict_sorted_iff\<close>)
  then have "\<forall>k. held s' k = (case map_of (map (\<lambda>(e, w, kc). kc) ?F) k of Some ch \<Rightarrow> ch | None \<Rightarrow> state_change.Discard)"
    using s'(5) s(4) by (simp split: option.split)
  moreover have "last (0 # ?es) \<le> R" using props(2) by (auto simp: inbuf_epochs_def ib)
  ultimately show ?thesis using s'(1-3) empty by blast
qed

end

end
