(* ===== verification/Durable_Step.thy ===== *)
theory Durable_Step
  imports Recovery_Runs Epoch_Order
begin

text \<open>
  From the snapshots a step emits to the state it has in the next execution: they are serialized
  and routed to a partition, written with whatever else the cluster writes until it stops, loaded below the
  resume epoch, and given to the operators of the step on the workers their keys go to. The locale
  \<open>durable_operator\<close> is what a stateful operator promises of its snapshots and loads; its theorem joins it with the
  recovery system (theory \<open>Recovery_Runs\<close>). Both stateful operators meet it, in the theories \<open>Step_Restart\<close>
  and \<open>Unary_Restart\<close>.
\<close>

section \<open>The last change of a key\<close>

lemma apply_snaps_last:
  "apply_snaps m sns k = (case filter (\<lambda>x. sn_key x = k) sns of [] \<Rightarrow> m k
     | x # xs \<Rightarrow> Some (sn_change (last (x # xs))))"
proof (induction sns rule: rev_induct)
  case (snoc x sns)
  then show ?case by (cases "filter (\<lambda>x. sn_key x = k) sns") (auto simp: apply_snaps_def)
qed simp

section \<open>Where the snapshots of a key are\<close>

lemma stage_activate_in: "stage_activate C W w msgs fs st store = Inr (st', store', out) \<Longrightarrow> st_in st' = st_in st"
  by (auto simp: stage_activate_def emap_eq_Inr_iff split: prod.splits)

lemma commit_stage_in: "commit_stage C w msgs fs s = Inr (s', out) \<Longrightarrow> sy_snap s' = sy_snap s"
  by (auto simp: commit_stage_def emap_eq_Inr_iff split: prod.splits)

text \<open>Every snapshot was sent under its own key, to the partition its key names.\<close>

lemma snaps_routed:
  assumes C: "config_ok C" and "(wr_step C)\<^sup>*\<^sup>* (wr_init C base) s"
  shows "\<forall>(e, w, p, k, r) \<in> set (st_in (sy_snap s)). k = ss_id r \<and> route_kv C (wc_pf_snap C) (k, r) = Inr (w, p, k, r)"
  using assms(2)
proof (induction rule: rtranclp_induct)
  case base
  then show ?case by (simp add: wr_init_def stage_start_def)
next
  case (step s t)
  from step.hyps(2) show ?case
  proof cases
    case (snap w c e ss rows routed)
    have "k = ss_id r \<and> route_kv C (wc_pf_snap C) (k, r) = Inr (v, p, k, r)" if x: "(v, p, k, r) \<in> set routed" for v p k r
    proof -
      from x snap(5) obtain y where y: "y \<in> set rows" "route_kv C (wc_pf_snap C) y = Inr (v, p, k, r)"
        using emapM_Inr_set [OF snap(6)] by blast
      obtain k' r' where y': "y = (k', r')" by fastforce
      with route_kv_home [OF C] y(2) have "k' = k" "r' = r" by fastforce+
      with y y' ser_snap_rows [OF snap(5)] show ?thesis by auto
    qed
    with step.IH show ?thesis unfolding snap(1) by (auto simp: send_routed_def)
  next
    case write_snap
    with step.IH show ?thesis by (simp add: stage_activate_in)
  next
    case commit
    with step.IH show ?thesis by (simp add: commit_stage_in)
  qed (use step.IH in simp_all)
qed

text \<open>
  The snapshots of a step are where their keys are routed, and the next execution loads, for each key, the last one
  before the epoch it resumes at.
\<close>

definition loaded_rows ::
  "('s, 'k, 'v) wr_config \<Rightarrow> (part_index \<Rightarrow> ('s, 'k) recovery_part) \<Rightarrow> epoch \<Rightarrow> ('s, 'k) serialized_snapshot list" where
  "loaded_rows C store R = concat (map (\<lambda>p. latest_snaps R (snaps (store p))) (all_known C))"

definition homes :: "('s, 'k, 'v) wr_config \<Rightarrow> (part_index \<Rightarrow> ('s, 'k) recovery_part) \<Rightarrow> 's \<Rightarrow> bool" where
  "homes C store step \<longleftrightarrow> (\<forall>p \<in> set (all_known C). snaps_wf (store p) \<and>
     (\<forall>r \<in> set (snaps (store p)). ss_step r = step \<longrightarrow> (\<exists>w. route_kv C (wc_pf_snap C) (ss_id r, r) = Inr (w, p, ss_id r, r))))"

definition rows_at ::
  "('s, 'k, 'v) wr_config \<Rightarrow> (part_index \<Rightarrow> ('s, 'k) recovery_part) \<Rightarrow> epoch \<Rightarrow> 's \<times> 'k \<Rightarrow> ('s, 'k) serialized_snapshot set" where
  "rows_at C store R i = {r. (\<exists>p \<in> set (all_known C). r \<in> set (snaps (store p))) \<and> ss_id r = i \<and> ss_epoch r < R}"

definition sent_for :: "('s, 'k) wr_sys \<Rightarrow> 's \<times> 'k \<Rightarrow> ('s, 'k) serialized_snapshot set" where
  "sent_for s i = {r. (\<exists>p. r \<in> sent_snaps s p) \<and> ss_id r = i}"

lemma route_home:
  fixes C :: "('s, 'k, 'v) wr_config"
  assumes C: "config_ok C"
  obtains h where "h \<in> set (all_known C)"
    and "\<And>(r :: ('s, 'k) serialized_snapshot) w p. route_kv C (wc_pf_snap C) (i, r) = Inr (w, p, i, r) \<Longrightarrow> p = h"
proof -
  from route_kv_ok [OF C, of "wc_pf_snap C" i] obtain h w where
    h: "h \<in> mine C w" "\<And>r :: ('s, 'k) serialized_snapshot. route_kv C (wc_pf_snap C) (i, r) = Inr (w, h, i, r)" by (elim exE conjE) (rule that, auto)
  have "h \<in> fst ` set (wc_prim C)" using h(1) by (auto simp: mine_def bt_dom)
  then have "h \<in> set (all_known C)" using config_primaries(2) [OF C] by (simp add: all_known_def)
  with h(2) show thesis by (intro that) auto
qed

lemma homes_home:
  fixes C :: "('s, 'k, 'v) wr_config"
  assumes C: "config_ok C" and H: "homes C store step" and i: "fst i = step"
  obtains h where "h \<in> set (all_known C)"
    and "\<And>r p. p \<in> set (all_known C) \<Longrightarrow> r \<in> set (snaps (store p)) \<Longrightarrow> ss_id r = i \<Longrightarrow> p = h"
proof (rule route_home [OF C, of i])
  fix h assume h: "h \<in> set (all_known C)"
    and r: "\<And>(r :: ('s, 'k) serialized_snapshot) w p. route_kv C (wc_pf_snap C) (i, r) = Inr (w, p, i, r) \<Longrightarrow> p = h"
  have "p = h" if "p \<in> set (all_known C)" "r \<in> set (snaps (store p))" "ss_id r = i" for r p
  proof -
    have "ss_step r = step" using that(3) i by (auto simp: ss_id_def)
    with H that(1,2) obtain w where "route_kv C (wc_pf_snap C) (ss_id r, r) = Inr (w, p, ss_id r, r)" by (auto simp: homes_def)
    then show ?thesis unfolding that(3) by (rule r)
  qed
  with h show thesis by (rule that)
qed

lemma loaded_iff:
  assumes C: "config_ok C" and H: "homes C store step" and i: "fst i = step"
  shows "r \<in> set (loaded_rows C store R) \<and> ss_id r = i \<longleftrightarrow>
    r \<in> rows_at C store R i \<and> (\<forall>r' \<in> rows_at C store R i. ss_epoch r' \<le> ss_epoch r)"
proof (rule homes_home [OF assms])
  fix h assume h: "h \<in> set (all_known C)"
    and home: "\<And>r p. p \<in> set (all_known C) \<Longrightarrow> r \<in> set (snaps (store p)) \<Longrightarrow> ss_id r = i \<Longrightarrow> p = h"
  have at: "x \<in> rows_at C store R i \<longleftrightarrow> x \<in> set (snaps (store h)) \<and> ss_id x = i \<and> ss_epoch x < R" for x
    using h home by (auto simp: rows_at_def)
  have "r \<in> set (loaded_rows C store R) \<and> ss_id r = i \<longleftrightarrow> r \<in> set (latest_snaps R (snaps (store h))) \<and> ss_id r = i"
    using h home by (auto simp: loaded_rows_def latest_snaps_def)
  also have "\<dots> \<longleftrightarrow> r \<in> rows_at C store R i \<and> (\<forall>r' \<in> rows_at C store R i. ss_epoch r' \<le> ss_epoch r)"
    unfolding at Ball_def by (auto simp: latest_snaps_def latest_def list_all_iff)
  finally show ?thesis .
qed

lemma one_row:
  assumes C: "config_ok C" and H: "homes C store step" and i: "fst i = step"
    and r: "r \<in> rows_at C store R i" "r' \<in> rows_at C store R i" "ss_epoch r = ss_epoch r'"
  shows "r = r'"
proof (rule homes_home [OF assms(1-3)])
  fix h assume h: "h \<in> set (all_known C)"
    and home: "\<And>r p. p \<in> set (all_known C) \<Longrightarrow> r \<in> set (snaps (store p)) \<Longrightarrow> ss_id r = i \<Longrightarrow> p = h"
  have "r \<in> set (snaps (store h))" "r' \<in> set (snaps (store h))" "snap_pk r = snap_pk r'" using r home by (auto simp: rows_at_def)
  moreover have "distinct (map snap_pk (snaps (store h)))" using H h by (simp add: homes_def snaps_wf_def)
  ultimately show ?thesis by (auto simp: distinct_map inj_on_def)
qed

text \<open>A cluster keeps its databases so.\<close>

lemma store_homes:
  assumes B: "starts_from C base" and reach: "(wr_step C)\<^sup>*\<^sup>* (wr_init C base) s" and H: "homes C base step"
  shows "homes C (sy_store s) step"
  unfolding homes_def
proof (intro ballI conjI impI)
  fix p assume p: "p \<in> set (all_known C)"
  have C: "config_ok C" using B by (simp add: starts_from_def)
  from reach_rows [OF B reach] obtain lx ls lf where I: "wr_inv C base s lx ls lf" by blast
  from known_mine [OF C p] obtain w where w: "p \<in> mine C w" "w < wc_workers C" by blast
  have St: "snap_rows.stage_inv C (\<lambda>p. snaps (base p)) (sy_snap s) (sy_store s) ls" using I by (simp add: wr_inv_defs)
  then have tab: "snaps (sy_store s p) = foldl (upsert_row snap_pk) (snaps (base p)) (rows_of p (ls w))"
    using w by (simp add: snap_rows.stage_inv_def snap_rows.worker_inv_def)
  show "snaps_wf (sy_store s p)" using H p unfolding snaps_wf_def tab homes_def by (intro upserts_distinct) blast
  fix r assume r: "r \<in> set (snaps (sy_store s p))" "ss_step r = step"
  from r(1) have "r \<in> set (snaps (base p)) \<union> set (rows_of p (ls w))" unfolding tab by (rule subsetD [OF upserts_subset])
  then show "\<exists>w. route_kv C (wc_pf_snap C) (ss_id r, r) = Inr (w, p, ss_id r, r)"
  proof
    assume "r \<in> set (snaps (base p))"
    with H p r(2) show ?thesis by (simp add: homes_def)
  next
    assume "r \<in> set (rows_of p (ls w))"
    then obtain e where "(p, e, r) \<in> set (ls w)" by (auto simp: rows_of_def)
    from snap_rows.stage_log_sent [OF St w(2) this] obtain k where "(e, w, p, k, r) \<in> set (st_in (sy_snap s))" by auto
    with snaps_routed [OF C reach] have "k = ss_id r \<and> route_kv C (wc_pf_snap C) (k, r) = Inr (w, p, k, r)" by blast
    then show ?thesis by blast
  qed
qed

text \<open>
  The rows of a key before the next resume epoch are those before the last one and those sent, if no row
  left at or after the last resume epoch comes into sight again.
\<close>

definition no_stale ::
  "('s, 'k, 'v) wr_config \<Rightarrow> (part_index \<Rightarrow> ('s, 'k) recovery_part) \<Rightarrow> ('s, 'k) wr_sys \<Rightarrow> 's \<Rightarrow> epoch \<Rightarrow> bool" where
  "no_stale C base s step R \<longleftrightarrow> (\<forall>p \<in> set (all_known C). \<forall>r \<in> set (snaps (base p)).
     ss_step r = step \<and> rf_epoch (wc_from C) \<le> ss_epoch r \<and> ss_epoch r < R \<longrightarrow> snap_pk r \<in> snap_pk ` sent_snaps s p)"

lemma sent_known:
  assumes "config_ok C" and "(wr_step C)\<^sup>*\<^sup>* (wr_init C base) s" and r: "r \<in> sent_snaps s p"
  shows "p \<in> set (all_known C)"
proof -
  from r obtain e v k where "(e, v, p, k, r) \<in> set (st_in (sy_snap s))" by (auto simp: sent_snaps_def)
  with snaps_routed [OF assms(1,2)] have x: "route_kv C (wc_pf_snap C) (k, r) = Inr (v, p, k, r)" by blast
  from route_kv_home [OF assms(1) x] have "p \<in> mine C v" by auto
  then have "p \<in> fst ` set (wc_prim C)" by (auto simp: mine_def bt_dom)
  then show ?thesis using config_primaries(2) [OF assms(1)] by (simp add: all_known_def)
qed

lemma rows_below:
  assumes B: "starts_from C base" and reach: "(wr_step C)\<^sup>*\<^sup>* (wr_init C base) s" and u: "one_per_epoch s"
    and R: "part_resume_from (gathered C (sy_store s)) = Inr rf" and fresh: "no_stale C base s step (rf_epoch rf)" and i: "fst i = step"
  shows "rows_at C (sy_store s) (rf_epoch rf) i = rows_at C base (rf_epoch (wc_from C)) i \<union> {r \<in> sent_for s i. ss_epoch r < rf_epoch rf}"
    and "r \<in> sent_for s i \<Longrightarrow> rf_epoch (wc_from C) \<le> ss_epoch r"
proof -
  have C: "config_ok C" using B by (simp add: starts_from_def)
  from reach_rows [OF B reach] obtain lx ls lf where I: "wr_inv C base s lx ls lf" by blast
  have ep: "rf_epoch (wc_from C) \<le> ss_epoch r" if "r \<in> sent_snaps s p" for r p
    using I that by (auto simp: sent_snaps_def wr_inv_def rows_inv_def)
  then show "rf_epoch (wc_from C) \<le> ss_epoch r" if "r \<in> sent_for s i" using that by (auto simp: sent_for_def)
  have tab: "r \<in> set (snaps (sy_store s p)) \<longleftrightarrow> r \<in> set (snaps (base p)) \<and> ss_epoch r < rf_epoch (wc_from C) \<or> r \<in> sent_snaps s p"
    if p: "p \<in> set (all_known C)" and r: "ss_id r = i" "ss_epoch r < rf_epoch rf" for p r
  proof -
    note b = stored_below [OF B I u R p]
    have le: "rf_epoch (wc_from C) \<le> rf_epoch rf" using b by blast
    have "r \<in> set (snaps (sy_store s p)) \<longleftrightarrow>
        r \<in> set (snaps (base p)) \<and> snap_pk r \<notin> snap_pk ` sent_snaps s p \<or> r \<in> sent_snaps s p"
      using conjunct2 [OF b] r(2) by blast
    moreover have "snap_pk r \<notin> snap_pk ` sent_snaps s p" if "ss_epoch r < rf_epoch (wc_from C)"
      using ep that by fastforce
    moreover have "snap_pk r \<in> snap_pk ` sent_snaps s p"
      if "r \<in> set (snaps (base p))" "\<not> ss_epoch r < rf_epoch (wc_from C)"
    proof -
      have "ss_step r = step" using r(1) i by (auto simp: ss_id_def)
      with fresh p that r(2) show ?thesis by (simp add: no_stale_def)
    qed
    ultimately show ?thesis by blast
  qed
  have le: "rf_epoch (wc_from C) \<le> rf_epoch rf" if "p \<in> set (all_known C)" for p using stored_below [OF B I u R that] by blast
  show "rows_at C (sy_store s) (rf_epoch rf) i = rows_at C base (rf_epoch (wc_from C)) i \<union> {r \<in> sent_for s i. ss_epoch r < rf_epoch rf}"
  proof (rule Set.set_eqI)
    fix r
    show "r \<in> rows_at C (sy_store s) (rf_epoch rf) i \<longleftrightarrow>
        r \<in> rows_at C base (rf_epoch (wc_from C)) i \<union> {r \<in> sent_for s i. ss_epoch r < rf_epoch rf}"
      using tab [of _ r] le sent_known [OF C reach, of r] less_le_trans [of "ss_epoch r" "rf_epoch (wc_from C)" "rf_epoch rf"]
      unfolding rows_at_def sent_for_def by blast
  qed
qed

section \<open>What a key's snapshots become\<close>

lemma sorted_last_ge: "sorted (map f xs) \<Longrightarrow> x \<in> set xs \<Longrightarrow> f x \<le> f (last xs)"
  by (induction xs rule: rev_induct) (auto simp: sorted_append)

text \<open>The row \<^verbatim>\<open>ser_snap\<close> makes of a snapshot.\<close>

definition row_of ::
  "('s, 'k, 'v) wr_config \<Rightarrow> epoch \<times> ('s, 'k, 'v) snapshot \<Rightarrow> ('s, 'k) serialized_snapshot \<Rightarrow> bool" where
  "row_of C x r \<longleftrightarrow> ser_snap (wc_ser C) (fst x) [snd x] = Inr [(ss_id r, r)]"

definition codec :: "('s, 'k, 'v) wr_config \<Rightarrow> (string \<Rightarrow> 'v res) \<Rightarrow> bool" where
  "codec C de \<longleftrightarrow> (\<forall>v str. wc_ser C v = Inr str \<longrightarrow> de str = Inr v)"

lemma row_of_D:
  assumes "row_of C x r"
  shows "ss_epoch r = fst x" and "ss_id r = (sn_step (snd x), sn_key (snd x))" and "codec C de \<Longrightarrow> de_snap de r = Inr (snd x)"
  using assms by (auto simp: row_of_def ser_snap_def codec_def de_snap_def emap_eq_Inr_iff elim!: ebind_InrE
      split: snapshot.splits state_change.splits)

text \<open>All snapshots the step emitted for a key were sent.\<close>

definition step_sent ::
  "('s, 'k, 'v) wr_config \<Rightarrow> ('s, 'k) wr_sys \<Rightarrow> 's \<Rightarrow> 'k \<Rightarrow> (epoch \<times> ('s, 'k, 'v) snapshot) list \<Rightarrow> bool" where
  "step_sent C s step k chg \<longleftrightarrow>
     (\<forall>x \<in> set chg. sn_key (snd x) = k \<longrightarrow> sn_step (snd x) = step \<and> (\<exists>r. row_of C x r)) \<and>
     sent_for s (step, k) = {r. \<exists>x \<in> set chg. sn_key (snd x) = k \<and> row_of C x r}"

lemma load_snaps_set:
  assumes "load_snaps de (map (Pair 0) rows) = Inr loaded"
  shows "(e, sn) \<in> set loaded \<longleftrightarrow> (\<exists>r \<in> set rows. e = ss_epoch r \<and> de_snap de r = Inr sn)"
  using emapM_Inr_set [OF assms [unfolded load_snaps_def], of "(e, sn)"]
  by (auto simp: cap_downgrade_def emap_eq_Inr_iff split: if_splits)

text \<open>The change loaded for a key.\<close>

definition loaded_for :: "'s \<Rightarrow> (epoch \<times> ('s, 'k, 'v) snapshot) list \<Rightarrow> 'k \<Rightarrow> 'v state_change option" where
  "loaded_for step loaded k = map_of (map (\<lambda>(e, sn). ((sn_step sn, sn_key sn), sn_change sn)) loaded) (step, k)"

lemma loaded_for_iff:
  assumes C: "config_ok C" and H: "homes C store step"
    and ld: "load_snaps de (map (Pair 0) (loaded_rows C store R)) = Inr loaded"
  shows "loaded_for step loaded k = Some ch \<longleftrightarrow> (\<exists>e. (e, Snapshot step k ch) \<in> set loaded)"
    and "loaded_for step loaded k = Some ch \<longleftrightarrow> (\<exists>r \<in> rows_at C store R (step, k).
      (\<forall>r' \<in> rows_at C store R (step, k). ss_epoch r' \<le> ss_epoch r) \<and> de_snap de r = Inr (Snapshot step k ch))"
proof -
  note max = loaded_iff [OF C H, of "(step, k)" _ R, unfolded fst_conv, OF refl]
  have id: "ss_id r = (step, k)" if "de_snap de r = Inr (Snapshot step k ch)" for r ch
    using that by (cases r) (auto simp: de_snap_def emap_eq_Inr_iff ss_id_def)
  have mem: "(\<exists>e. (e, Snapshot step k ch) \<in> set loaded) \<longleftrightarrow> (\<exists>r \<in> rows_at C store R (step, k).
      (\<forall>r' \<in> rows_at C store R (step, k). ss_epoch r' \<le> ss_epoch r) \<and> de_snap de r = Inr (Snapshot step k ch))" for ch
    unfolding load_snaps_set [OF ld] using max id by blast
  have some: "\<exists>e. (e, Snapshot step k ch) \<in> set loaded" if "loaded_for step loaded k = Some ch" for ch
  proof -
    from map_of_SomeD [OF that [unfolded loaded_for_def]] obtain e sn where
      "(e, sn) \<in> set loaded" "sn_step sn = step" "sn_key sn = k" "sn_change sn = ch" by auto
    then show ?thesis by (cases sn) auto
  qed
  moreover have "loaded_for step loaded k = Some ch" if x: "\<exists>e. (e, Snapshot step k ch) \<in> set loaded"
  proof -
    from x obtain e where "(e, Snapshot step k ch) \<in> set loaded" by blast
    then have "((step, k), ch) \<in> set (map (\<lambda>(e, sn). ((sn_step sn, sn_key sn), sn_change sn)) loaded)" by force
    from weak_map_of_SomeI [OF this] obtain ch' where ch': "loaded_for step loaded k = Some ch'" by (auto simp: loaded_for_def)
    from x [unfolded mem] some [OF ch', unfolded mem] obtain r r' where
      "r \<in> rows_at C store R (step, k)" "r' \<in> rows_at C store R (step, k)" "ss_epoch r = ss_epoch r'"
      "de_snap de r = Inr (Snapshot step k ch)" "de_snap de r' = Inr (Snapshot step k ch')" by (meson order_antisym)
    with one_row [OF C H, of "(step, k)" r R r'] ch' show ?thesis by simp
  qed
  ultimately show "loaded_for step loaded k = Some ch \<longleftrightarrow> (\<exists>e. (e, Snapshot step k ch) \<in> set loaded)" by blast
  then show "loaded_for step loaded k = Some ch \<longleftrightarrow> (\<exists>r \<in> rows_at C store R (step, k).
      (\<forall>r' \<in> rows_at C store R (step, k). ss_epoch r' \<le> ss_epoch r) \<and> de_snap de r = Inr (Snapshot step k ch))" unfolding mem .
qed

text \<open>A step that emitted \<open>chg\<close> before the next resume epoch: the last of them counts, else what was loaded before.\<close>

lemma loaded_change:
  assumes B: "starts_from C base" and reach: "(wr_step C)\<^sup>*\<^sup>* (wr_init C base) s" and u: "one_per_epoch s"
    and R: "part_resume_from (gathered C (sy_store s)) = Inr rf"
    and H: "homes C base step" and fresh: "no_stale C base s step (rf_epoch rf)"
    and ord: "sorted (map fst chg)" "\<forall>x \<in> set chg. fst x < rf_epoch rf" "\<forall>x \<in> set later. rf_epoch rf \<le> fst x"
    and sent: "step_sent C s step k (chg @ later)" and de: "codec C de"
    and ld0: "load_snaps de (map (Pair 0) (loaded_rows C base (rf_epoch (wc_from C)))) = Inr loaded0"
    and ld: "load_snaps de (map (Pair 0) (loaded_rows C (sy_store s) (rf_epoch rf))) = Inr loaded"
  shows "loaded_for step loaded k = apply_snaps (loaded_for step loaded0) (map snd chg) k"
proof -
  have C: "config_ok C" using B by (simp add: starts_from_def)
  let ?H = "filter (\<lambda>x. sn_key (snd x) = k) chg" and ?i = "(step, k)"
  let ?base = "rows_at C base (rf_epoch (wc_from C)) ?i" and ?store = "rows_at C (sy_store s) (rf_epoch rf) ?i"
  let ?S = "{r \<in> sent_for s ?i. ss_epoch r < rf_epoch rf}"
  note store = rows_below [OF B reach u R fresh, of ?i, unfolded fst_conv, OF refl]
  note loaded0 = loaded_for_iff(2) [OF C H ld0] and loaded = loaded_for_iff(2) [OF C store_homes [OF B reach H] ld]
  have S: "sent_for s ?i = {r. \<exists>x \<in> set (chg @ later). sn_key (snd x) = k \<and> row_of C x r}" using sent by (simp add: step_sent_def)
  have below: "r \<in> ?S \<longleftrightarrow> (\<exists>x \<in> set ?H. row_of C x r)" for r
  proof
    assume "r \<in> ?S"
    then obtain x where x: "x \<in> set (chg @ later)" "sn_key (snd x) = k" "row_of C x r" "ss_epoch r < rf_epoch rf"
      unfolding S by blast
    from x(4) row_of_D(1) [OF x(3)] have "fst x < rf_epoch rf" by simp
    with ord(3) have "x \<notin> set later" by (meson leD)
    with x have "x \<in> set ?H" by simp
    with x(3) show "\<exists>x \<in> set ?H. row_of C x r" by blast
  next
    assume "\<exists>x \<in> set ?H. row_of C x r"
    then obtain x where x: "x \<in> set chg" "sn_key (snd x) = k" "row_of C x r" by auto
    then have "r \<in> sent_for s ?i" unfolding S set_append by blast
    with x(1) ord(2) row_of_D(1) [OF x(3)] show "r \<in> ?S" by simp
  qed
  have app: "apply_snaps (loaded_for step loaded0) (map snd chg) k =
      (if ?H = [] then loaded_for step loaded0 k else Some (sn_change (snd (last ?H))))"
    by (cases ?H) (auto simp: apply_snaps_last filter_map comp_def last_map)
  show ?thesis
  proof (cases "?H = []")
    case True
    with below have "?S = {}" by auto
    with store(1) have "?store = ?base" by simp
    then have "loaded_for step loaded k = Some ch \<longleftrightarrow> loaded_for step loaded0 k = Some ch" for ch
      unfolding loaded loaded0 by (simp only:)
    then show ?thesis unfolding app using True by (metis option.exhaust)
  next
    case False
    let ?x = "last ?H"
    have x: "?x \<in> set ?H" using False by (rule last_in_set)
    then have sk: "sn_step (snd ?x) = step" "sn_key (snd ?x) = k" "\<exists>r. row_of C ?x r" using sent by (auto simp: step_sent_def)
    then obtain r where r: "row_of C ?x r" by blast
    then have rS: "r \<in> ?S" unfolding below using x by blast
    have "ss_epoch r' \<le> ss_epoch r" if r': "r' \<in> ?store" for r'
    proof (cases "r' \<in> ?S")
      case True
      then obtain y where y: "y \<in> set ?H" "row_of C y r'" unfolding below by blast
      from sorted_last_ge [OF sorted_filter [OF ord(1)] y(1)] show ?thesis unfolding row_of_D(1) [OF r] row_of_D(1) [OF y(2)] .
    next
      case False
      with r' have "r' \<in> ?base" unfolding store(1) by blast
      then have "ss_epoch r' < rf_epoch (wc_from C)" by (simp add: rows_at_def)
      with store(2) [of r] rS show ?thesis by simp
    qed
    moreover have "de_snap de r = Inr (Snapshot step k (sn_change (snd ?x)))"
      unfolding row_of_D(3) [OF r de] using sk(1,2) by (cases "snd ?x") auto
    moreover have "r \<in> ?store" using rS unfolding store(1) by blast
    ultimately have "loaded_for step loaded k = Some (sn_change (snd ?x))" unfolding loaded by blast
    with False show ?thesis unfolding app by simp
  qed
qed

text \<open>What the step of the next execution is given: its snapshots of the keys routed to worker \<open>w\<close>.\<close>

definition step_loads ::
  "'s \<Rightarrow> ('k \<Rightarrow> bool) \<Rightarrow> worker \<Rightarrow> (epoch \<times> ('s, 'k, 'v) snapshot) list \<Rightarrow> (epoch \<times> worker \<times> 'k \<times> 'v state_change) list" where
  "step_loads step here w loaded = concat (map (\<lambda>(e, sn). map (\<lambda>(k, ch). (e, w, k, ch))
     (filter (\<lambda>(k, ch). here k) (filter_snaps step [sn]))) loaded)"

lemma step_loads_one:
  "step_loads step here w [(e, Snapshot st k ch)] = (if st = step \<and> here k then [(e, w, k, ch)] else [])"
  by (simp add: step_loads_def filter_snaps_def List.map_filter_def)

lemma step_loads_Cons: "step_loads step here w (x # xs) = step_loads step here w [x] @ step_loads step here w xs"
  by (simp add: step_loads_def)

lemma step_loads_set: "(e, v, k, ch) \<in> set (step_loads step here w loaded) \<longleftrightarrow> v = w \<and> here k \<and> (e, Snapshot step k ch) \<in> set loaded"
proof (induction loaded)
  case (Cons x loaded)
  obtain e' st k' ch' where "x = (e', Snapshot st k' ch')" by (metis prod.exhaust snapshot.exhaust)
  then show ?case unfolding step_loads_Cons [of step here w x loaded] using Cons by (auto simp: step_loads_one)
qed (simp add: step_loads_def)

lemma step_loads_keys:
  "map (\<lambda>(e, v, k, ch). k) (step_loads step here w loaded) =
    map sn_key (filter (\<lambda>sn. sn_step sn = step \<and> here (sn_key sn)) (map snd loaded))"
proof (induction loaded)
  case (Cons x loaded)
  obtain e st k ch where "x = (e, Snapshot st k ch)" by (metis prod.exhaust snapshot.exhaust)
  then show ?case unfolding step_loads_Cons [of step here w x loaded] using Cons by (simp add: step_loads_one)
qed (simp add: step_loads_def)

lemma load_snaps_ids:
  assumes "load_snaps de (map (Pair 0) rows) = Inr loaded"
  shows "map (\<lambda>x. (sn_step (snd x), sn_key (snd x))) loaded = map ss_id rows"
  using assms
proof (induction rows arbitrary: loaded)
  case (Cons r rows)
  then show ?case by (cases r) (auto simp: load_snaps_def de_snap_def cap_downgrade_def emap_eq_Inr_iff elim!: ebind_InrE)
qed (simp add: load_snaps_def)

lemma distinct_concat_map:
  assumes "distinct ps" and "\<forall>p \<in> set ps. distinct (map f (xs p))"
    and "\<And>p p' x x'. p \<in> set ps \<Longrightarrow> p' \<in> set ps \<Longrightarrow> x \<in> set (xs p) \<Longrightarrow> x' \<in> set (xs p') \<Longrightarrow> f x = f x' \<Longrightarrow> p = p'"
  shows "distinct (map f (concat (map xs ps)))"
  using assms
proof (induction ps)
  case (Cons p ps)
  have "distinct (map f (concat (map xs ps)))" by (rule Cons.IH) (use Cons.prems in \<open>auto 4 4\<close>)
  moreover have "f ` set (xs p) \<inter> f ` set (concat (map xs ps)) = {}"
  proof (rule ccontr)
    assume "f ` set (xs p) \<inter> f ` set (concat (map xs ps)) \<noteq> {}"
    then obtain x p' x' where x: "x \<in> set (xs p)" "p' \<in> set ps" "x' \<in> set (xs p')" "f x = f x'" by auto
    with Cons.prems(3) [of p p' x x'] have "p = p'" by simp
    with x(2) Cons.prems(1) show False by simp
  qed
  ultimately show ?case using Cons.prems(2) by auto
qed simp

text \<open>No key is loaded twice.\<close>

lemma loads_distinct:
  assumes C: "config_ok C" and H: "homes C store step"
    and ld: "load_snaps de (map (Pair 0) (loaded_rows C store R)) = Inr loaded"
  shows "distinct (map (\<lambda>(e, v, k, ch). k) (step_loads step here w loaded))"
proof -
  let ?xs = "\<lambda>p. filter (\<lambda>r. ss_step r = step) (latest_snaps R (snaps (store p)))"
  have wf: "distinct (map ss_id (?xs p))" if p: "p \<in> set (all_known C)" for p
  proof -
    have "distinct (map snap_pk (snaps (store p)))" using H p by (simp add: homes_def snaps_wf_def)
    from latest_unique [OF this] show ?thesis by (rule distinct_map_filter)
  qed
  have home: "p = p'" if p: "p \<in> set (all_known C)" "p' \<in> set (all_known C)"
    and x: "x \<in> set (?xs p)" "x' \<in> set (?xs p')" "ss_id x = ss_id x'" for p p' x x'
  proof (rule homes_home [OF C H, of "ss_id x"])
    show "fst (ss_id x) = step" using x(1) by (simp add: ss_id_def)
    fix h assume "\<And>r p. p \<in> set (all_known C) \<Longrightarrow> r \<in> set (snaps (store p)) \<Longrightarrow> ss_id r = ss_id x \<Longrightarrow> p = h"
    from this [of p x] this [of p' x'] p x show ?thesis by (auto simp: latest_snaps_def)
  qed
  have "distinct (all_known C)" by (rule bs_wf_distinct) (simp add: all_known_def)
  then have "distinct (map ss_id (concat (map ?xs (all_known C))))" using wf home by (intro distinct_concat_map) auto
  then have "distinct (map ss_id (filter (\<lambda>r. ss_step r = step) (loaded_rows C store R)))"
    by (simp add: loaded_rows_def filter_concat comp_def)
  then have "distinct (filter (\<lambda>i. fst i = step) (map ss_id (loaded_rows C store R)))"
    by (simp add: filter_map comp_def ss_id_def)
  then have d: "distinct (filter (\<lambda>i. fst i = step) (map (\<lambda>x. (sn_step (snd x), sn_key (snd x))) loaded))"
    unfolding load_snaps_ids [OF ld] .
  have "map sn_key (filter (\<lambda>sn. sn_step sn = step \<and> here (sn_key sn)) (map snd loaded)) =
    map snd (filter (\<lambda>i. here (snd i)) (filter (\<lambda>i. fst i = step) (map (\<lambda>x. (sn_step (snd x), sn_key (snd x))) loaded)))"
    by (simp add: filter_map comp_def conj_commute)
  moreover have "distinct \<dots>" unfolding distinct_map using distinct_filter [OF d, of "\<lambda>i. here (snd i)"]
    by (auto simp: inj_on_def simp del: filter_filter)
  ultimately show ?thesis unfolding step_loads_keys by simp
qed

section \<open>A stateful operator across a crash\<close>

text \<open>
  \<open>held s k\<close> is what a snapshot of key \<open>k\<close> would hold in state \<open>s\<close>, and \<open>awake s\<close> the keys with calls since the last
  snapshot. \<open>ran v res R s0 s chg later\<close>: on worker \<open>v\<close>, in an execution resumed at \<open>res\<close>, the operator had loaded and
  was in state \<open>s0\<close>; it ran up to an activation at frontier \<open>R\<close>, where its state was \<open>s\<close> and it had emitted \<open>chg\<close>, and then
  went on and emitted \<open>later\<close>. \<open>begun w R m s\<close>: the first activation of a new operator on worker \<open>w\<close>, with
  messages \<open>m\<close> whose loads are \<open>loads m\<close>, emits nothing and ends in state \<open>s\<close>.
\<close>

locale durable_operator =
  fixes held :: "'st \<Rightarrow> 'k \<Rightarrow> 'v state_change" and awake :: "'st \<Rightarrow> 'k set"
    and good :: "'st \<Rightarrow> bool" and kept :: "'v state_change \<Rightarrow> bool"
    and ran :: "worker \<Rightarrow> epoch \<Rightarrow> epoch \<Rightarrow> 'st \<Rightarrow> 'st \<Rightarrow> (epoch \<times> ('s, 'k, 'v) snapshot) list \<Rightarrow>
      (epoch \<times> ('s, 'k, 'v) snapshot) list \<Rightarrow> bool"
    and loads :: "'m \<Rightarrow> (epoch \<times> (worker \<times> 'k \<times> 'v state_change) list) list" and first :: "'m \<Rightarrow> epoch \<Rightarrow> bool"
    and asleep :: "'m \<Rightarrow> 'v state_change \<Rightarrow> bool" and begun :: "worker \<Rightarrow> epoch \<Rightarrow> 'm \<Rightarrow> 'st \<Rightarrow> bool"
  assumes ran_good: "ran v res R s0 s chg later \<Longrightarrow> res \<le> R \<Longrightarrow> good s0 \<and> good s"
    and ran_kept: "ran v res R s0 s chg later \<Longrightarrow> res \<le> R \<Longrightarrow> \<forall>x \<in> set chg. kept (sn_change (snd x))"
    and ran_order: "ran v res R s0 s chg later \<Longrightarrow> res \<le> R \<Longrightarrow>
      sorted (map fst chg) \<and> (\<forall>x \<in> set chg. fst x < R) \<and> (\<forall>x \<in> set later. R \<le> fst x)"
    and ran_held: "ran v res R s0 s chg later \<Longrightarrow> res \<le> R \<Longrightarrow> k \<notin> awake s \<Longrightarrow>
      held s k = stored (apply_snaps (\<lambda>k. Some (held s0 k)) (map snd chg)) k"
    and held_kept: "good s \<Longrightarrow> kept (held s k)"
    and begin_loads: "first m R \<Longrightarrow> \<forall>(e, xs) \<in> set (loads m). xs \<noteq> [] \<Longrightarrow>
      \<forall>(e, v, k, ch) \<in> set (msg_items (loads m)). e < R \<and> v = w \<and> kept ch \<and> asleep m ch \<Longrightarrow>
      distinct (map (\<lambda>(e, v, k, ch). k) (msg_items (loads m))) \<Longrightarrow>
      \<exists>s. begun w R m s \<and> good s \<and> (\<forall>k. held s k =
        (case map_of (map (\<lambda>(e, v, kc). kc) (msg_items (loads m))) k of Some ch \<Rightarrow> ch | None \<Rightarrow> state_change.Discard))"
begin

text \<open>What the next execution loads for a key is its state on its old worker at frontier \<open>R\<close>.\<close>

lemma loaded_for_key:
  assumes B: "starts_from C base" and reach: "(wr_step C)\<^sup>*\<^sup>* (wr_init C base) s" and u: "one_per_epoch s"
    and R: "part_resume_from (gathered C (sy_store s)) = Inr rf"
    and H: "homes C base step" and fresh: "no_stale C base s step (rf_epoch rf)" and de: "codec C de"
    and ran: "ran v (rf_epoch (wc_from C)) (rf_epoch rf) s0 st chg later"
    and init: "held s0 k = stored (loaded_for step loaded0) k"
    and sent: "step_sent C s step k (chg @ later)"
    and ld0: "load_snaps de (map (Pair 0) (loaded_rows C base (rf_epoch (wc_from C)))) = Inr loaded0"
    and ld: "load_snaps de (map (Pair 0) (loaded_rows C (sy_store s) (rf_epoch rf))) = Inr loaded"
  shows "loaded_for step loaded k = Some ch \<Longrightarrow> kept ch" and "good st"
    and "k \<notin> awake st \<Longrightarrow> held st k = stored (loaded_for step loaded) k"
proof -
  from reach_rows [OF B reach] obtain lx ls lf where I: "wr_inv C base s lx ls lf" by blast
  have C: "config_ok C" using B by (simp add: starts_from_def)
  have "\<exists>p. p \<in> set (all_known C)" using route_home [OF C] by metis
  then have le: "rf_epoch (wc_from C) \<le> rf_epoch rf" using stored_below [OF B I u R] by blast
  have ord: "sorted (map fst chg)" "\<forall>x \<in> set chg. fst x < rf_epoch rf" "\<forall>x \<in> set later. rf_epoch rf \<le> fst x"
    using ran_order [OF ran le] by blast+
  note change = loaded_change [OF B reach u R H fresh ord sent de ld0 ld]
  show "kept ch" if x: "loaded_for step loaded k = Some ch"
  proof -
    from apply_snaps_Some [OF trans [OF change [symmetric] x]]
    show ?thesis
    proof
      assume "loaded_for step loaded0 k = Some ch"
      with init have "ch = held s0 k" by (simp add: stored_def)
      then show ?thesis using held_kept ran_good [OF ran le] by simp
    next
      assume "\<exists>x \<in> set (map snd chg). sn_change x = ch"
      with ran_kept [OF ran le] show ?thesis by auto
    qed
  qed
  show "good st" using ran_good [OF ran le] by blast
  assume "k \<notin> awake st"
  from ran_held [OF ran le this] init show "held st k = stored (loaded_for step loaded) k"
    by (simp add: stored_def change apply_snaps_last split: list.split)
qed

text \<open>A new operator that is given the snapshots of its keys has what was loaded for them, which is what they had.\<close>

lemma restored:
  assumes B: "starts_from C base" and reach: "(wr_step C)\<^sup>*\<^sup>* (wr_init C base) s" and u: "one_per_epoch s"
    and R: "part_resume_from (gathered C (sy_store s)) = Inr rf"
    and H: "homes C base step" and fresh: "no_stale C base s step (rf_epoch rf)" and de: "codec C de"
    and ld0: "load_snaps de (map (Pair 0) (loaded_rows C base (rf_epoch (wc_from C)))) = Inr loaded0"
    and ld: "load_snaps de (map (Pair 0) (loaded_rows C (sy_store s) (rf_epoch rf))) = Inr loaded"
    and ran: "\<forall>v < wc_workers C. ran v (rf_epoch (wc_from C)) (rf_epoch rf) (s0 v) (st v) (chg v) (later v)"
    and keys: "\<forall>k. here k \<longrightarrow> old k < wc_workers C \<and> held (s0 (old k)) k = stored (loaded_for step loaded0) k \<and>
      step_sent C s step k (chg (old k) @ later (old k))"
    and m: "first m (rf_epoch rf)" "\<forall>(e, xs) \<in> set (loads m). xs \<noteq> []"
      "mset (msg_items (loads m)) = mset (step_loads step here new loaded)"
    and due: "\<forall>(e, w, k, ch) \<in> set (step_loads step here new loaded). asleep m ch"
  shows "\<exists>s'. begun new (rf_epoch rf) m s' \<and> good s' \<and>
    (\<forall>k. here k \<longrightarrow> good (st (old k)) \<and> held s' k = stored (loaded_for step loaded) k \<and>
      (k \<notin> awake (st (old k)) \<longrightarrow> held s' k = held (st (old k)) k))"
proof -
  let ?F = "msg_items (loads m)"
  have C: "config_ok C" using B by (simp add: starts_from_def)
  have old: "old k < wc_workers C" "held (s0 (old k)) k = stored (loaded_for step loaded0) k"
    "step_sent C s step k (chg (old k) @ later (old k))" if "here k" for k using keys that by blast+
  note key = loaded_for_key [OF B reach u R H fresh de ran [rule_format, OF old(1)] old(2,3) ld0 ld]
  note H' = store_homes [OF B reach H]
  have inF: "(e, v, k, ch) \<in> set ?F \<longleftrightarrow> v = new \<and> here k \<and> (e, Snapshot step k ch) \<in> set loaded" for e v k ch
    using step_loads_set [of e v k ch step here new loaded] by (simp only: set_mset_mset [symmetric] m(3))
  have ok: "\<forall>(e, v, k, ch) \<in> set ?F. e < rf_epoch rf \<and> v = new \<and> kept ch \<and> asleep m ch"
  proof clarify
    fix e v k ch assume x: "(e, v, k, ch) \<in> set ?F"
    then have h: "v = new" "here k" "(e, Snapshot step k ch) \<in> set loaded" unfolding inF by blast+
    then have "e < rf_epoch rf" unfolding load_snaps_set [OF ld] by (auto simp: loaded_rows_def latest_snaps_def latest_def)
    moreover have "loaded_for step loaded k = Some ch" using loaded_for_iff(1) [OF C H' ld] h(3) by blast
    then have "kept ch" using key(1) [OF h(2) h(2) h(2)] by blast
    moreover have "asleep m ch" using due x unfolding inF step_loads_set [symmetric] by blast
    ultimately show "e < rf_epoch rf \<and> v = new \<and> kept ch \<and> asleep m ch" using h(1) by blast
  qed
  have "mset (map (\<lambda>(e, w, k, ch). k) ?F) = mset (map (\<lambda>(e, w, k, ch). k) (step_loads step here new loaded))"
    using m(3) by simp
  with loads_distinct [OF C H' ld] have d: "distinct (map (\<lambda>(e, w, k, ch). k) ?F)" by (metis mset_eq_imp_distinct_iff)
  from begin_loads [OF m(1,2) ok d] obtain s' where s': "begun new (rf_epoch rf) m s'" "good s'"
    "\<forall>k. held s' k = (case map_of (map (\<lambda>(e, w, kc). kc) ?F) k of Some ch \<Rightarrow> ch | None \<Rightarrow> state_change.Discard)" by blast
  have k: "held s' k = stored (loaded_for step loaded) k" if "here k" for k
  proof -
    have "distinct (map fst (map (\<lambda>(e, w, kc). kc) ?F))" using d by (simp add: comp_def split_def)
    then have "map_of (map (\<lambda>(e, w, kc). kc) ?F) k = Some ch \<longleftrightarrow> (\<exists>e. (e, new, k, ch) \<in> set ?F)" for ch
      using inF by (subst map_of_eq_Some_iff) force+
    then have "map_of (map (\<lambda>(e, w, kc). kc) ?F) k = loaded_for step loaded k"
      using loaded_for_iff(1) [OF C H' ld] that unfolding inF by (metis option.exhaust)
    with s'(3) show ?thesis by (simp add: stored_def)
  qed
  then show ?thesis using s'(1,2) key(2,3) by (intro exI [of _ s']) auto
qed

end

end
