(* ===== verification/Window_Spec.thy ===== *)
theory Window_Spec
  imports BTree
begin

text \<open>
  The windowing interfaces of \<^verbatim>\<open>src/src/window/mod.rs\<close>: window keys and metadata, the
  \<^verbatim>\<open>Windower\<close> trait as a record of operations (a trait object is a record of functions
  over its state), and the locale \<open>windower\<close> with what the window driver relies on. The
  sliding and the session windower interpret it in their own theories; the driver
  (theory \<open>Window_Logic\<close>) is verified against it.
\<close>

section \<open>Keys, metadata and errors\<close>

text \<open>\<^verbatim>\<open>WindowKey(i64)\<close>: only compared, ordered and incremented by one per session.\<close>

type_synonym wkey = int

record window_metadata =
  open_time :: time
  close_time :: time

datatype insert_error = Late wkey

text \<open>\<^verbatim>\<open>WindowError::Late(value)\<close>, the error emitted downstream.\<close>

datatype 'v window_error = LateValue 'v

text \<open>\<^verbatim>\<open>From<(&WindowKey, &(DateTime, DateTime))> for WindowMetadata\<close>\<close>

definition meta_of :: "wkey \<times> time \<times> time \<Rightarrow> window_metadata" where
  "meta_of kv = (case kv of (_, op, cl) \<Rightarrow> \<lparr>open_time = op, close_time = cl\<rparr>)"

datatype compare_op = OpLt | OpLe | OpEq | OpNe | OpGt | OpGe

text \<open>\<^verbatim>\<open>WindowMetadata.__richcmp__\<close>\<close>

fun meta_richcmp :: "window_metadata \<Rightarrow> window_metadata \<Rightarrow> compare_op \<Rightarrow> bool" where
  "meta_richcmp a b OpLt = (close_time a < close_time b)"
| "meta_richcmp a b OpLe = (close_time a \<le> close_time b)"
| "meta_richcmp a b OpEq = (close_time a = close_time b \<and> open_time a = open_time b)"
| "meta_richcmp a b OpNe = (close_time a \<noteq> close_time b \<and> open_time a \<noteq> open_time b)"
| "meta_richcmp a b OpGt = (close_time a > close_time b)"
| "meta_richcmp a b OpGe = (close_time a \<ge> close_time b)"

section \<open>The \<^verbatim>\<open>Windower\<close> trait\<close>

record 'w windower_ops =
  w_insert :: "'w \<Rightarrow> time \<Rightarrow> time \<Rightarrow> ('w \<times> (insert_error + wkey) list) res"
  w_drain_closed :: "'w \<Rightarrow> time \<Rightarrow> 'w \<times> (wkey \<times> window_metadata) list"
  w_is_empty :: "'w \<Rightarrow> bool"
  w_get_metadata :: "'w \<Rightarrow> wkey \<Rightarrow> window_metadata option"
  w_next_close :: "'w \<Rightarrow> time option"

text \<open>The keys a windower knows, as the driver can observe them.\<close>

definition tracked :: "('w, 'x) windower_ops_scheme \<Rightarrow> 'w \<Rightarrow> wkey set" where
  "tracked W w = {k. w_get_metadata W w k \<noteq> None}"

definition ok_keys :: "(insert_error + wkey) list \<Rightarrow> wkey set" where
  "ok_keys rs = {k. Inr k \<in> set rs}"

lemma ok_keys_Nil [simp]: "ok_keys [] = {}"
  by (simp add: ok_keys_def)

lemma ok_keys_Cons [simp]:
  "ok_keys (Inl e # rs) = ok_keys rs" "ok_keys (Inr k # rs) = insert k (ok_keys rs)"
  by (auto simp: ok_keys_def)

text \<open>
  The contract: inserting never panics, reports only keys it has metadata for, and starts
  tracking no other key; draining removes exactly the keys it returns, each once, with the
  metadata it had; emptiness is seen through the keys; and there is a next close time
  exactly when some window is open.
\<close>

locale windower =
  fixes W :: "'w windower_ops" and inv :: "'w \<Rightarrow> bool"
  assumes insert_total: "inv w \<Longrightarrow> \<exists>w' rs. w_insert W w wm t = Inr (w', rs) \<and> inv w'"
    and insert_tracks: "inv w \<Longrightarrow> w_insert W w wm t = Inr (w', rs) \<Longrightarrow> ok_keys rs \<subseteq> tracked W w'"
    and insert_new: "inv w \<Longrightarrow> w_insert W w wm t = Inr (w', rs) \<Longrightarrow>
      tracked W w' \<subseteq> tracked W w \<union> ok_keys rs"
    and drain_inv: "inv w \<Longrightarrow> inv (fst (w_drain_closed W w wm))"
    and drain_tracked: "inv w \<Longrightarrow> w_drain_closed W w wm = (w', ds) \<Longrightarrow>
      tracked W w' = tracked W w - fst ` set ds"
    and drain_meta: "inv w \<Longrightarrow> w_drain_closed W w wm = (w', ds) \<Longrightarrow>
      (k, m) \<in> set ds \<Longrightarrow> w_get_metadata W w k = Some m"
    and drain_distinct: "inv w \<Longrightarrow> w_drain_closed W w wm = (w', ds) \<Longrightarrow> distinct (map fst ds)"
    and is_empty_tracked: "inv w \<Longrightarrow> w_is_empty W w \<longleftrightarrow> tracked W w = {}"
    and next_close_empty: "inv w \<Longrightarrow> w_next_close W w = None \<longleftrightarrow> w_is_empty W w"
begin

lemma insert_inv: "inv w \<Longrightarrow> w_insert W w wm t = Inr (w', rs) \<Longrightarrow> inv w'"
  using insert_total [of w wm t] by auto

lemma drain_keys_tracked:
  "inv w \<Longrightarrow> w_drain_closed W w wm = (w', ds) \<Longrightarrow> fst ` set ds \<subseteq> tracked W w"
  by (auto simp: tracked_def dest: drain_meta)

lemma drain_nothing:
  "inv w \<Longrightarrow> w_is_empty W w \<Longrightarrow> w_drain_closed W w wm = (w', ds) \<Longrightarrow> ds = []"
  using drain_keys_tracked [of w wm w' ds] is_empty_tracked by auto

end

text \<open>
  A windower that never forgets an open window except by draining it. The session windower
  is not one: merging two sessions forgets the key of the later one.
\<close>

locale keeping_windower = windower +
  assumes insert_keeps: "inv w \<Longrightarrow> w_insert W w wm t = Inr (w', rs) \<Longrightarrow> tracked W w \<subseteq> tracked W w'"
begin

lemma insert_tracked_eq:
  "inv w \<Longrightarrow> w_insert W w wm t = Inr (w', rs) \<Longrightarrow> tracked W w' = tracked W w \<union> ok_keys rs"
  using insert_keeps insert_tracks insert_new by blast

end

text \<open>The contract with a further invariant of the windower, such as its configuration.\<close>

lemma windower_conj:
  assumes "windower W winv"
    and "\<And>w wm t w' rs. P w \<Longrightarrow> winv w \<Longrightarrow> w_insert W w wm t = Inr (w', rs) \<Longrightarrow> P w'"
    and "\<And>w wm. P w \<Longrightarrow> winv w \<Longrightarrow> P (fst (w_drain_closed W w wm))"
  shows "windower W (\<lambda>w. winv w \<and> P w)"
proof -
  note tot = windower.insert_total [OF assms(1)]
  show ?thesis
  proof
    fix w wm t assume w: "winv w \<and> P w"
    from tot [of w wm t] w obtain w' rs where "w_insert W w wm t = Inr (w', rs)" "winv w'" by blast
    with assms(2) [of w wm t w' rs] w
    show "\<exists>w' rs. w_insert W w wm t = Inr (w', rs) \<and> winv w' \<and> P w'" by blast
  next
    show "\<And>w wm t w' rs. winv w \<and> P w \<Longrightarrow> w_insert W w wm t = Inr (w', rs) \<Longrightarrow>
        ok_keys rs \<subseteq> tracked W w'"
      using windower.insert_tracks [OF assms(1)] by blast
    show "\<And>w wm w' ds. winv w \<and> P w \<Longrightarrow> w_drain_closed W w wm = (w', ds) \<Longrightarrow>
        distinct (map fst ds)"
      using windower.drain_distinct [OF assms(1)] by blast
  qed (simp_all add: assms(3) windower.drain_inv [OF assms(1)] windower.is_empty_tracked [OF assms(1)]
      windower.next_close_empty [OF assms(1)] windower.drain_tracked [OF assms(1)]
      windower.drain_meta [OF assms(1)] windower.insert_new [OF assms(1)])
qed

section \<open>Comparison of metadata\<close>

text \<open>\<open>==\<close> is equality, the order comparisons look at the close time only.\<close>

lemma richcmp_Eq: "meta_richcmp a b OpEq \<longleftrightarrow> a = b"
  by auto

lemma richcmp_Lt_Ge: "meta_richcmp a b OpLt \<longleftrightarrow> \<not> meta_richcmp a b OpGe"
  by auto

end
