(* ===== verification/Sliding.thy ===== *)
theory Sliding
  imports Window_Spec "HOL-Library.Word"
begin

text \<open>
  \<^verbatim>\<open>src/src/window/sliding_window.rs\<close> and \<^verbatim>\<open>tumbling_window.rs\<close>. A window with index
  \<open>k\<close> opens at \<open>align_to + offset * k\<close> and closes \<open>length\<close> later; \<open>intersects\<close>
  computes the windows around a time from whole milliseconds and an index cut to 32 bits,
  as the code does. The lemmas show when that is the set of windows containing the time,
  what is lost otherwise, and that the windower keeps the contract of theory
  \<open>Window_Spec\<close>.
\<close>

section \<open>Durations in milliseconds and 32-bit indices\<close>

text \<open>
  \<^verbatim>\<open>Duration::num_milliseconds\<close> counts whole milliseconds, truncating towards zero;
  \<^verbatim>\<open>Integer::div_floor\<close> and \<^verbatim>\<open>div_ceil\<close> round as their names say and panic on zero.
\<close>

abbreviation ns_per_ms :: int where
  "ns_per_ms \<equiv> 1000000"

definition num_milliseconds :: "dur \<Rightarrow> int" where
  "num_milliseconds d = trunc_div d ns_per_ms"

definition div_ceil :: "int \<Rightarrow> int \<Rightarrow> int" where
  "div_ceil a b = - ((- a) div b)"

text \<open>\<^verbatim>\<open>idx as i32\<close>\<close>

definition as_i32 :: "int \<Rightarrow> int" where
  "as_i32 k = sint (word_of_int k :: 32 word)"

lemma as_i32_id: "- (2 ^ 31) \<le> k \<Longrightarrow> k < 2 ^ 31 \<Longrightarrow> as_i32 k = k"
  by (simp add: as_i32_def sint_sbintrunc' signed_take_bit_int_eq_self)

lemma num_milliseconds_exact [simp]: "num_milliseconds (ns_per_ms * x) = x"
  by (simp add: num_milliseconds_def mult.commute [of ns_per_ms])

section \<open>State and operations\<close>

record sliding_windower =
  length' :: dur
  offset :: dur
  align_to :: time
  close_times :: "(wkey, time \<times> time) btree"

text \<open>
  \<^verbatim>\<open>SlidingWindower::builder\<close>: a fresh windower, or one with the snapshotted windows.
  \<open>of_py\<close> is PyO3's conversion of a Python \<^verbatim>\<open>datetime\<close>.
\<close>

definition sliding_builder ::
  "('p \<Rightarrow> time) \<Rightarrow> dur \<Rightarrow> dur \<Rightarrow> time \<Rightarrow> (wkey \<times> 'p \<times> 'p) list option \<Rightarrow> sliding_windower" where
  "sliding_builder of_py len off align resume =
     \<lparr>length' = len, offset = off, align_to = align,
      close_times = (case resume of None \<Rightarrow> []
        | Some snap \<Rightarrow> bt_extend [] (map (\<lambda>(k, op, cl). (k, of_py op, of_py cl)) snap))\<rparr>"

text \<open>\<^verbatim>\<open>TumblingWindow::build\<close>\<close>

definition tumbling_builder ::
  "('p \<Rightarrow> time) \<Rightarrow> dur \<Rightarrow> time \<Rightarrow> (wkey \<times> 'p \<times> 'p) list option \<Rightarrow> sliding_windower" where
  "tumbling_builder of_py len align = sliding_builder of_py len len align"

definition intersects :: "sliding_windower \<Rightarrow> time \<Rightarrow> (wkey \<times> time \<times> time) list res" where
  "intersects s t =
     (if num_milliseconds (offset s) = 0 then Inl (PanicMsg ''attempt to divide by zero'')
      else
        let since_close_of_first_window = t - (align_to s + length' s);
            first_window_idx =
              num_milliseconds since_close_of_first_window div num_milliseconds (offset s) + 1;
            num_windows = div_ceil (num_milliseconds (length' s)) (num_milliseconds (offset s))
        in Inr (concat (map (\<lambda>i.
             let window_idx = first_window_idx + i;
                 op = align_to s + offset s * as_i32 window_idx
             in if t < op then [] else [(window_idx, op, op + length' s)])
           [0..num_windows - 1])))"

definition insert_window ::
  "sliding_windower \<Rightarrow> wkey \<Rightarrow> time \<Rightarrow> time \<Rightarrow> sliding_windower res" where
  "insert_window s key op cl =
     (case bt_get (close_times s) key of
        Some (current_op, current_cl) \<Rightarrow>
          if cl = current_cl \<and> current_op = op then Inr s
          else Inl (AssertFail ''SlidingWindower is not generating consistent boundaries'')
      | None \<Rightarrow> Inr (s\<lparr>close_times := bt_insert key (op, cl) (close_times s)\<rparr>))"

text \<open>The closure \<^verbatim>\<open>Windower::insert\<close> maps over the intersecting windows.\<close>

fun insert_step ::
  "time \<Rightarrow> sliding_windower \<times> (insert_error + wkey) list \<Rightarrow> wkey \<times> time \<times> time \<Rightarrow>
    (sliding_windower \<times> (insert_error + wkey) list) res" where
  "insert_step wm (s, rs) (key, op, cl) =
     (if cl < wm then Inr (s, rs @ [Inl (Late key)])
      else emap (\<lambda>s'. (s', rs @ [Inr key])) (insert_window s key op cl))"

definition sliding_insert ::
  "sliding_windower \<Rightarrow> time \<Rightarrow> time \<Rightarrow> (sliding_windower \<times> (insert_error + wkey) list) res" where
  "sliding_insert s wm t = ebind (intersects s t) (efold (insert_step wm) (s, []))"

definition sliding_get_metadata :: "sliding_windower \<Rightarrow> wkey \<Rightarrow> window_metadata option" where
  "sliding_get_metadata s key =
     map_option (\<lambda>oc. meta_of (key, oc)) (bt_get (close_times s) key)"

text \<open>The loop of \<^verbatim>\<open>drain_closed\<close> over the map, with both accumulators.\<close>

fun drain_step ::
  "time \<Rightarrow> (wkey, time \<times> time) btree \<times> (wkey \<times> window_metadata) list \<Rightarrow> wkey \<times> time \<times> time \<Rightarrow>
    (wkey, time \<times> time) btree \<times> (wkey \<times> window_metadata) list" where
  "drain_step wm (future_close_times, closed_keys) (key, op, cl) =
     (if cl < wm
      then (future_close_times, closed_keys @ [(key, \<lparr>open_time = op, close_time = cl\<rparr>)])
      else (bt_insert key (op, cl) future_close_times, closed_keys))"

definition sliding_drain_closed ::
  "sliding_windower \<Rightarrow> time \<Rightarrow> sliding_windower \<times> (wkey \<times> window_metadata) list" where
  "sliding_drain_closed s wm =
     (let (future_close_times, closed_keys) = foldl (drain_step wm) ([], []) (close_times s)
      in (s\<lparr>close_times := future_close_times\<rparr>, closed_keys))"

definition sliding_is_empty :: "sliding_windower \<Rightarrow> bool" where
  "sliding_is_empty s \<longleftrightarrow> close_times s = []"

definition sliding_next_close :: "sliding_windower \<Rightarrow> time option" where
  "sliding_next_close s =
     (if close_times s = [] then None
      else Some (min_list (map (\<lambda>(_, _, cl). cl) (close_times s))))"

definition sliding_snapshot :: "(time \<Rightarrow> 'p) \<Rightarrow> sliding_windower \<Rightarrow> (wkey \<times> 'p \<times> 'p) list" where
  "sliding_snapshot to_py s = map (\<lambda>(k, op, cl). (k, to_py op, to_py cl)) (close_times s)"

definition sliding_ops :: "sliding_windower windower_ops" where
  "sliding_ops =
     \<lparr>w_insert = sliding_insert, w_drain_closed = sliding_drain_closed,
      w_is_empty = sliding_is_empty, w_get_metadata = sliding_get_metadata,
      w_next_close = sliding_next_close\<rparr>"

section \<open>Which windows a time intersects\<close>

text \<open>The documented windows: inclusive start, exclusive end.\<close>

definition open_at :: "sliding_windower \<Rightarrow> wkey \<Rightarrow> time" where
  "open_at s k = align_to s + offset s * k"

definition in_window :: "sliding_windower \<Rightarrow> time \<Rightarrow> wkey \<Rightarrow> bool" where
  "in_window s t k \<longleftrightarrow> open_at s k \<le> t \<and> t < open_at s k + length' s"

text \<open>Configurations the millisecond arithmetic represents exactly.\<close>

definition whole_ms :: "sliding_windower \<Rightarrow> bool" where
  "whole_ms s \<longleftrightarrow> ns_per_ms dvd length' s \<and> ns_per_ms dvd offset s \<and> 0 < length' s \<and> 0 < offset s"

definition first_idx :: "sliding_windower \<Rightarrow> time \<Rightarrow> int" where
  "first_idx s t = (t - (align_to s + length' s)) div offset s + 1"

definition idx_fits_i32 :: "sliding_windower \<Rightarrow> time \<Rightarrow> bool" where
  "idx_fits_i32 s t \<longleftrightarrow>
     - (2 ^ 31) \<le> first_idx s t \<and> first_idx s t + div_ceil (length' s) (offset s) \<le> 2 ^ 31"

text \<open>The item's distance to the close of window 0 is whole, or not negative.\<close>

definition exact_ms :: "sliding_windower \<Rightarrow> time \<Rightarrow> bool" where
  "exact_ms s t \<longleftrightarrow> ns_per_ms dvd (t - (align_to s + length' s)) \<or> align_to s + length' s \<le> t"

lemma ms_div_offset:
  assumes "whole_ms s" and "exact_ms s t"
  shows "num_milliseconds (t - (align_to s + length' s)) div num_milliseconds (offset s) + 1
       = first_idx s t"
proof -
  let ?x = "t - (align_to s + length' s)"
  from assms(1) obtain o' where o': "offset s = ns_per_ms * o'" and "0 < o'"
    by (auto simp: whole_ms_def elim!: dvdE)
  have "num_milliseconds ?x div o' = ?x div offset s"
  proof (cases "ns_per_ms dvd ?x")
    case True
    then obtain y where y: "?x = ns_per_ms * y" by (elim dvdE)
    show ?thesis unfolding y o' by (simp only: num_milliseconds_exact) simp
  next
    case False
    with assms(2) have "0 \<le> ?x" by (simp add: exact_ms_def)
    then have "num_milliseconds ?x = ?x div ns_per_ms"
      unfolding num_milliseconds_def by (rule trunc_div_nonneg) simp
    then show ?thesis using \<open>0 < o'\<close> by (simp add: o' zdiv_zmult2_eq)
  qed
  then show ?thesis by (simp add: first_idx_def o')
qed

lemma ms_num_windows:
  assumes "whole_ms s"
  shows "div_ceil (num_milliseconds (length' s)) (num_milliseconds (offset s))
       = div_ceil (length' s) (offset s)"
proof -
  from assms obtain o' l' where "offset s = ns_per_ms * o'" and "length' s = ns_per_ms * l'"
    by (auto simp: whole_ms_def elim!: dvdE)
  then show ?thesis
    by (simp add: div_ceil_def)
qed

text \<open>The indices between the first and the last candidate that open by \<open>t\<close>.\<close>

lemma candidate_iff_in_window:
  assumes "0 < offset s" and "0 < length' s"
  shows "in_window s t k \<longleftrightarrow>
    first_idx s t \<le> k \<and> k < first_idx s t + div_ceil (length' s) (offset s) \<and> open_at s k \<le> t"
proof -
  let ?o = "offset s" and ?l = "length' s" and ?x = "t - (align_to s + length' s)"
  have lower: "first_idx s t \<le> k \<longleftrightarrow> t < open_at s k + ?l"
  proof -
    have "?x div ?o < k \<longleftrightarrow> ?x < ?o * k"
      using assms(1) by (rule div_less_iff_less_mult)
    then show ?thesis by (auto simp: first_idx_def open_at_def)
  qed
  have upper: "k < first_idx s t + div_ceil ?l ?o" if "open_at s k \<le> t"
  proof -
    have "?l \<le> ?o * div_ceil ?l ?o"
      using mult_le_iff_le_div [of ?o "(- ?l) div ?o" "- ?l"] assms(1) by (simp add: div_ceil_def)
    moreover have "?x < ?o * first_idx s t"
      using div_less_iff_less_mult [of ?o ?x "first_idx s t"] assms(1) by (simp add: first_idx_def)
    ultimately have "?x + ?l < ?o * (first_idx s t + div_ceil ?l ?o)"
      by (simp add: distrib_left)
    moreover have "?o * k \<le> ?x + ?l" using that by (simp add: open_at_def)
    ultimately have "?o * k < ?o * (first_idx s t + div_ceil ?l ?o)" by linarith
    then show ?thesis using assms(1) by simp
  qed
  show ?thesis using lower upper by (auto simp: in_window_def)
qed


lemma intersects_eq:
  assumes "whole_ms s" and "exact_ms s t" and "idx_fits_i32 s t"
  shows "intersects s t = Inr (map (\<lambda>k. (k, open_at s k, open_at s k + length' s))
    (filter (\<lambda>k. open_at s k \<le> t)
      [first_idx s t..first_idx s t + (div_ceil (length' s) (offset s) - 1)]))"
proof -
  let ?n = "div_ceil (length' s) (offset s)" and ?f = "first_idx s t"
  let ?w = "\<lambda>k. if t < open_at s k then [] else [(k, open_at s k, open_at s k + length' s)]"
  have nz: "num_milliseconds (offset s) \<noteq> 0"
    using assms(1) by (auto simp: whole_ms_def elim!: dvdE)
  have idx: "as_i32 (?f + i) = ?f + i" if "i \<in> set [0..?n - 1]" for i
    using that assms(3) by (intro as_i32_id) (auto simp: idx_fits_i32_def)
  let ?v = "\<lambda>i. let k = ?f + i; op = align_to s + offset s * as_i32 k
      in if t < op then [] else [(k, op, op + length' s)]"
  have "intersects s t = Inr (concat (map ?v [0..?n - 1]))"
    unfolding intersects_def Let_def ms_div_offset [OF assms(1,2)] ms_num_windows [OF assms(1)]
    using nz by simp
  also have "map ?v [0..?n - 1] = map (\<lambda>i. ?w (?f + i)) [0..?n - 1]"
    by (rule map_cong [OF refl]) (simp only: idx Let_def open_at_def)
  also have "map (\<lambda>i. ?w (?f + i)) [0..?n - 1] = map ?w [?f..?f + (?n - 1)]"
    by (simp add: map_shift_upto [symmetric])
  finally show ?thesis by (simp add: concat_map_guard not_less)
qed

lemma in_window_candidates:
  assumes "0 < offset s" and "0 < length' s"
  shows "set (filter (\<lambda>k. open_at s k \<le> t)
      [first_idx s t..first_idx s t + (div_ceil (length' s) (offset s) - 1)]) = {k. in_window s t k}"
  using candidate_iff_in_window [OF assms] by auto



section \<open>Tumbling windows\<close>

lemma div_ceil_self [simp]: "0 < b \<Longrightarrow> div_ceil b b = 1"
  by (simp add: div_ceil_def zdiv_zminus1_eq_if)

text \<open>With tumbling windows (offset = length) every time lies in exactly one window,
  the one whose index is the floor of its distance from the alignment over the length.\<close>

theorem tumbling_exactly_one:
  assumes "whole_ms s" and "exact_ms s t" and "offset s = length' s"
    and "- (2 ^ 31) \<le> (t - align_to s) div length' s"
    and "(t - align_to s) div length' s < 2 ^ 31"
  shows "let k = (t - align_to s) div length' s; op = align_to s + length' s * k
    in intersects s t = Inr [(k, op, op + length' s)] \<and> op \<le> t \<and> t < op + length' s"
proof -
  let ?l = "length' s" and ?k = "(t - align_to s) div length' s"
  have l: "0 < ?l" using assms(1) by (simp add: whole_ms_def)
  have "t - (align_to s + ?l) = (t - align_to s) + (- 1) * ?l" by simp
  then have f: "first_idx s t = ?k"
    using l by (simp only: first_idx_def assms(3)) (subst div_mult_self1, simp_all)
  have op: "align_to s + ?l * ?k \<le> t" and cl: "t < align_to s + ?l * ?k + ?l"
    using mult_le_iff_le_div [OF l, of ?k "t - align_to s"]
      div_less_iff_less_mult [OF l, of "t - align_to s" "?k + 1"]
    by (simp_all add: distrib_left)
  have "idx_fits_i32 s t"
    using assms(4,5) l by (simp add: idx_fits_i32_def f assms(3))
  from intersects_eq [OF assms(1,2) this] op l
  have "intersects s t = Inr [(?k, align_to s + ?l * ?k, align_to s + ?l * ?k + ?l)]"
    by (simp add: f assms(3) open_at_def)
  with op cl show ?thesis by (simp add: Let_def)
qed

theorem tumbling_exactly_one_witness:
  "let s = \<lparr>length' = 10000000000, offset = 10000000000, align_to = 0, close_times = []\<rparr>;
       t = - 3000000000
   in whole_ms s \<and> exact_ms s t \<and>
      intersects s t = Inr [(- 1, - 10000000000, 0)] \<and> - 10000000000 \<le> t \<and> t < 0"
proof -
  let ?s = "\<lparr>length' = 10000000000, offset = 10000000000, align_to = 0, close_times = []\<rparr>"
  have h: "whole_ms ?s" "exact_ms ?s (- 3000000000)" "offset ?s = length' ?s"
    by (simp_all add: whole_ms_def exact_ms_def)
  show ?thesis using h tumbling_exactly_one [OF h] by (simp add: Let_def)
qed

section \<open>Where the arithmetic leaves the documented windows\<close>

text \<open>An item in the last fraction of a millisecond before window 0 of a tumbling
  configuration closes is assigned to no window at all: the truncation towards zero skips the
  window, the item is neither inserted nor reported late, whatever the watermark.\<close>

theorem sub_millisecond_items_dropped:
  assumes "whole_ms s" and "offset s = length' s"
    and "align_to s + length' s - ns_per_ms < t" and "t < align_to s + length' s"
  shows "in_window s t 0 \<and> sliding_insert s wm t = Inr (s, [])"
proof -
  let ?x = "t - (align_to s + length' s)"
  from assms(1,2) obtain o' where o': "offset s = ns_per_ms * o'" and "0 < o'"
    by (auto simp: whole_ms_def elim!: dvdE)
  have "num_milliseconds ?x = 0"
    using assms(3,4) by (simp add: num_milliseconds_def trunc_div_def)
  then have "intersects s t = Inr []"
    using \<open>0 < o'\<close> assms(4) o' assms(2)
    by (simp add: intersects_def Let_def as_i32_id)
  moreover have "in_window s t 0"
    using assms \<open>0 < o'\<close> o' by (simp add: in_window_def open_at_def)
  ultimately show ?thesis by (simp add: sliding_insert_def)
qed


theorem sub_millisecond_items_dropped_witness:
  "let s = \<lparr>length' = 10000000000, offset = 10000000000, align_to = 0, close_times = []\<rparr>
   in whole_ms s \<and> in_window s 9999999500 0 \<and> sliding_insert s 0 9999999500 = Inr (s, [])"
proof -
  let ?s = "\<lparr>length' = 10000000000, offset = 10000000000, align_to = 0, close_times = []\<rparr>"
  have h: "whole_ms ?s" "offset ?s = length' ?s"
    by (simp_all add: whole_ms_def)
  show ?thesis using h sub_millisecond_items_dropped [OF h, of 9999999500 0] by simp
qed




section \<open>The windower contract\<close>

text \<open>Every recorded window has the bounds its index gives.\<close>

definition idx_bounds :: "sliding_windower \<Rightarrow> wkey \<Rightarrow> time \<times> time" where
  "idx_bounds s k = (let op = align_to s + offset s * as_i32 k in (op, op + length' s))"

definition sliding_inv :: "sliding_windower \<Rightarrow> bool" where
  "sliding_inv s \<longleftrightarrow> num_milliseconds (offset s) \<noteq> 0 \<and> bt_wf (close_times s) \<and>
     (\<forall>k oc. bt_get (close_times s) k = Some oc \<longrightarrow> oc = idx_bounds s k)"

lemma idx_bounds_update [simp]: "idx_bounds (s\<lparr>close_times := m\<rparr>) = idx_bounds s"
  by (simp add: idx_bounds_def fun_eq_iff Let_def)

lemma intersects_bounds:
  "intersects s t = Inr ws \<Longrightarrow> (k, oc) \<in> set ws \<Longrightarrow> oc = idx_bounds s k"
  by (auto simp: intersects_def idx_bounds_def Let_def split: if_splits)

lemma intersects_total: "sliding_inv s \<Longrightarrow> \<exists>ws. intersects s t = Inr ws"
  by (simp add: intersects_def sliding_inv_def)

text \<open>Inserting a window with the bounds of its index: the assertion holds, and the map has
  the window afterwards whether or not it was there.\<close>

lemma insert_window_inv:
  assumes "sliding_inv s" and "(op, cl) = idx_bounds s k"
  shows "\<exists>m. insert_window s k op cl = Inr (s\<lparr>close_times := m\<rparr>) \<and>
    sliding_inv (s\<lparr>close_times := m\<rparr>) \<and> bt_get m = (bt_get (close_times s))(k \<mapsto> (op, cl))"
proof (cases "bt_get (close_times s) k")
  case None
  then show ?thesis
    using assms by (intro exI [of _ "bt_insert k (op, cl) (close_times s)"])
      (auto simp: insert_window_def sliding_inv_def)
next
  case (Some oc)
  then have "oc = idx_bounds s k" using assms(1) by (cases oc) (auto simp: sliding_inv_def)
  then have "oc = (op, cl)" using assms(2) by simp
  with Some assms(1) show ?thesis
    by (intro exI [of _ "close_times s"]) (auto simp: insert_window_def fun_eq_iff)
qed

text \<open>What the loop of \<^verbatim>\<open>insert\<close> keeps.\<close>

definition insert_loop ::
  "sliding_windower \<Rightarrow> sliding_windower \<times> (insert_error + wkey) list \<Rightarrow> bool" where
  "insert_loop s0 = (\<lambda>(s, rs). sliding_inv s \<and> idx_bounds s = idx_bounds s0 \<and>
     dom (bt_get (close_times s)) = dom (bt_get (close_times s0)) \<union> ok_keys rs)"

lemma ok_keys_append [simp]: "ok_keys (rs @ rs') = ok_keys rs \<union> ok_keys rs'"
  by (auto simp: ok_keys_def)

lemma insert_step_loop:
  assumes "insert_loop s0 (s, rs)" and "oc = idx_bounds s0 k"
  shows "\<exists>p. insert_step wm (s, rs) (k, oc) = Inr p \<and> insert_loop s0 p"
proof -
  obtain op cl where oc: "oc = (op, cl)" by force
  from assms have "sliding_inv s" and b: "(op, cl) = idx_bounds s k"
    by (auto simp: insert_loop_def oc)
  from insert_window_inv [OF this] obtain m where
    "insert_window s k op cl = Inr (s\<lparr>close_times := m\<rparr>)"
    "sliding_inv (s\<lparr>close_times := m\<rparr>)" "bt_get m = (bt_get (close_times s))(k \<mapsto> (op, cl))"
    by blast
  with assms(1) show ?thesis by (auto simp: oc insert_loop_def)
qed

lemma sliding_insert_loop:
  assumes "sliding_inv s"
  shows "\<exists>p. sliding_insert s wm t = Inr p \<and> insert_loop s p"
proof -
  from intersects_total [OF assms] obtain ws where ws: "intersects s t = Inr ws" by blast
  have "insert_loop s (s, [])" using assms by (simp add: insert_loop_def)
  then have "\<exists>p. efold (insert_step wm) (s, []) ws = Inr p \<and> insert_loop s p"
  proof (rule efold_total)
    fix p x
    assume "insert_loop s p" and "x \<in> set ws"
    then show "\<exists>p'. insert_step wm p x = Inr p' \<and> insert_loop s p'"
      using intersects_bounds [OF ws] insert_step_loop [of s "fst p" "snd p" "snd x" "fst x" wm]
      by simp
  qed
  with ws show ?thesis by (simp add: sliding_insert_def)
qed

text \<open>Draining is a partition of the map by the close time, in key order.\<close>

lemma drain_steps:
  assumes "bt_wf (f @ m)"
  shows "foldl (drain_step wm) (f, c) m =
    (f @ filter (\<lambda>(k, op, cl). \<not> cl < wm) m,
     c @ map (\<lambda>(k, op, cl). (k, \<lparr>open_time = op, close_time = cl\<rparr>)) (filter (\<lambda>(k, op, cl). cl < wm) m))"
  using assms
proof (induction m arbitrary: f c)
  case Nil
  then show ?case by simp
next
  case (Cons p m)
  obtain k op cl where p: "p = (k, op, cl)" by (cases p)
  from Cons.prems have "\<And>a. a \<in> fst ` set f \<Longrightarrow> a < k"
    by (auto simp: p bt_wf_def sorted_wrt_append)
  then have "bt_insert k (op, cl) f = f @ [(k, op, cl)]" by (rule bt_insert_last)
  moreover have "bt_wf (f @ m)"
    using Cons.prems by (auto simp: bt_wf_def sorted_wrt_append)
  ultimately show ?case using Cons.IH Cons.prems by (simp add: p)
qed

text \<open>Claim C26. Draining returns, in key order, exactly the windows that closed strictly before
  the watermark, with their bounds, and keeps exactly the others.\<close>

theorem sliding_drain_partition:
  assumes "bt_wf (close_times s)"
  shows "sliding_drain_closed s wm =
    (s\<lparr>close_times := filter (\<lambda>(k, op, cl). wm \<le> cl) (close_times s)\<rparr>,
     map (\<lambda>(k, op, cl). (k, \<lparr>open_time = op, close_time = cl\<rparr>))
       (filter (\<lambda>(k, op, cl). cl < wm) (close_times s)))"
  using drain_steps [of "[]" "close_times s" wm "[]"] assms
  by (simp add: sliding_drain_closed_def not_less)

theorem sliding_drain_partition_witness:
  "let s = \<lparr>length' = 10, offset = 10, align_to = 0, close_times = [(0, 0, 10), (1, 10, 20)]\<rparr>
   in bt_wf (close_times s) \<and>
      sliding_drain_closed s 15 =
        (s\<lparr>close_times := [(1, 10, 20)]\<rparr>, [(0, \<lparr>open_time = 0, close_time = 10\<rparr>)])"
  using sliding_drain_partition
    [of "\<lparr>length' = 10, offset = 10, align_to = 0, close_times = [(0, 0, 10), (1, 10, 20)]\<rparr>" 15]
  by (simp add: bt_wf_def)

lemma sliding_tracked: "tracked sliding_ops s = dom (bt_get (close_times s))"
  by (auto simp: tracked_def sliding_ops_def sliding_get_metadata_def)

lemma sliding_drain:
  assumes "sliding_inv s" and "sliding_drain_closed s wm = (s', ds)"
  shows "sliding_inv s'"
    and "dom (bt_get (close_times s')) = dom (bt_get (close_times s)) - fst ` set ds"
    and "(k, m) \<in> set ds \<Longrightarrow> sliding_get_metadata s k = Some m"
    and "distinct (map fst ds)"
proof -
  let ?m = "close_times s"
  have wf: "bt_wf ?m" using assms(1) by (simp add: sliding_inv_def)
  from sliding_drain_partition [OF this, of wm] assms(2)
  have s': "s' = s\<lparr>close_times := filter (\<lambda>(k, op, cl). wm \<le> cl) ?m\<rparr>"
    and ds: "ds = map (\<lambda>(k, op, cl). (k, \<lparr>open_time = op, close_time = cl\<rparr>))
      (filter (\<lambda>(k, op, cl). cl < wm) ?m)" by simp_all
  show "sliding_inv s'"
    using assms(1) wf by (auto simp: s' sliding_inv_def bt_get_filter split: option.splits if_splits)
  have keys: "fst ` set ds = {k. \<exists>op cl. bt_get ?m k = Some (op, cl) \<and> cl < wm}"
    unfolding bt_get_eq_Some_iff [OF wf] by (force simp: ds)
  show "dom (bt_get (close_times s')) = dom (bt_get ?m) - fst ` set ds"
    unfolding keys by (auto simp: s' bt_get_filter [OF wf] dom_def not_le
        split: option.splits if_splits)
  show "(k, m) \<in> set ds \<Longrightarrow> sliding_get_metadata s k = Some m"
    using wf by (auto simp: ds sliding_get_metadata_def meta_of_def bt_get_eq_Some_iff
        simp del: map_of_eq_Some_iff)
  have "map fst ds = map fst (filter (\<lambda>(k, op, cl). cl < wm) ?m)"
    by (simp add: ds comp_def case_prod_beta)
  then show "distinct (map fst ds)"
    using bt_wf_distinct [OF bt_wf_filter [OF wf]] by simp
qed

interpretation sliding: keeping_windower sliding_ops sliding_inv
proof unfold_locales
  fix s s' :: sliding_windower and wm t rs ds k m
  assume inv: "sliding_inv s"
  from sliding_insert_loop [OF this, of wm t] obtain s1 rs1 where
    ins: "sliding_insert s wm t = Inr (s1, rs1)" and inv1: "sliding_inv s1" and
    dom1: "dom (bt_get (close_times s1)) = dom (bt_get (close_times s)) \<union> ok_keys rs1"
    by (auto simp: insert_loop_def)
  from ins inv1 show "\<exists>w' rs. w_insert sliding_ops s wm t = Inr (w', rs) \<and> sliding_inv w'"
    by (simp add: sliding_ops_def)
  show "sliding_inv (fst (w_drain_closed sliding_ops s wm))"
    using sliding_drain(1) [OF inv, of wm "fst (sliding_drain_closed s wm)"
        "snd (sliding_drain_closed s wm)"] by (simp add: sliding_ops_def)
  show "w_is_empty sliding_ops s \<longleftrightarrow> tracked sliding_ops s = {}"
    by (simp add: sliding_tracked) (simp add: sliding_ops_def sliding_is_empty_def)
  show "w_next_close sliding_ops s = None \<longleftrightarrow> w_is_empty sliding_ops s"
    by (simp add: sliding_ops_def sliding_next_close_def sliding_is_empty_def)
  {
    assume "w_insert sliding_ops s wm t = Inr (s', rs)"
    with ins have "s' = s1" and "rs = rs1" by (simp_all add: sliding_ops_def)
    with dom1 show "ok_keys rs \<subseteq> tracked sliding_ops s'"
      and "tracked sliding_ops s' \<subseteq> tracked sliding_ops s \<union> ok_keys rs"
      and "tracked sliding_ops s \<subseteq> tracked sliding_ops s'"
      by (simp_all add: sliding_tracked)
  }
  {
    assume "w_drain_closed sliding_ops s wm = (s', ds)"
    then have "sliding_drain_closed s wm = (s', ds)" by (simp add: sliding_ops_def)
    note d = sliding_drain [OF inv this]
    from d(2) show "tracked sliding_ops s' = tracked sliding_ops s - fst ` set ds"
      by (simp add: sliding_tracked)
    from d(4) show "distinct (map fst ds)" .
    assume "(k, m) \<in> set ds"
    with d(3) show "w_get_metadata sliding_ops s k = Some m" by (simp add: sliding_ops_def)
  }
qed

section \<open>Snapshots\<close>

text \<open>Rebuilding a windower from its snapshot gives it back, when the stored times
  survive the conversion to and from Python datetimes.\<close>

lemma sliding_rebuild:
  assumes "bt_wf (close_times s)"
    and "\<And>k op cl. (k, op, cl) \<in> set (close_times s) \<Longrightarrow> of_py (to_py op) = op \<and> of_py (to_py cl) = cl"
  shows "sliding_builder of_py (length' s) (offset s) (align_to s)
    (Some (sliding_snapshot to_py s)) = s"
proof -
  have "map (\<lambda>(k, op, cl). (k, of_py op, of_py cl)) (sliding_snapshot to_py s) = close_times s"
    using assms(2) by (auto simp: sliding_snapshot_def comp_def case_prod_beta intro!: map_idI)
  moreover have "bt_extend [] (close_times s) = close_times s"
    using bt_extend_sorted [of "[]" "close_times s"] assms(1) by simp
  ultimately show ?thesis by (simp add: sliding_builder_def)
qed

end
