(* ===== verification/Session.thy ===== *)
theory Session
  imports Window_Spec "HOL-Library.Multiset"
begin

text \<open>
  \<^verbatim>\<open>src/src/window/session_window.rs\<close>: sessions, kept sorted by start, merged whenever the
  next one starts within the gap of the previous one. \<^verbatim>\<open>sort_unstable\<close> promises a sorted
  permutation and nothing about equal starts, so it is an argument \<open>us\<close> of the
  definitions, with that promise (\<open>unstable_sort\<close>) as a hypothesis. The lemmas show that
  the open sessions are the clusters of the inserted times, that the windower keeps the
  contract of theory \<open>Window_Spec\<close>, and which keys a merge forgets.
\<close>

section \<open>The \<^verbatim>\<open>session\<close> module\<close>

record session =
  key :: wkey
  start :: time
  latest_event_time :: time

definition session_meta :: "session \<Rightarrow> window_metadata" where
  "session_meta s = \<lparr>open_time = start s, close_time = latest_event_time s\<rparr>"

definition session_new :: "wkey \<Rightarrow> time \<Rightarrow> session" where
  "session_new k t = \<lparr>key = k, start = t, latest_event_time = t\<rparr>"

definition current_close_time :: "session \<Rightarrow> dur \<Rightarrow> time" where
  "current_close_time s gap = latest_event_time s + gap"

definition is_open_at :: "session \<Rightarrow> time \<Rightarrow> dur \<Rightarrow> bool" where
  "is_open_at s t gap \<longleftrightarrow> current_close_time s gap > t"

definition contains :: "session \<Rightarrow> time \<Rightarrow> dur \<Rightarrow> bool" where
  "contains s t gap \<longleftrightarrow> t \<ge> start s \<and> is_open_at s t gap"

text \<open>\<^verbatim>\<open>try_insert\<close>: \<^verbatim>\<open>None\<close> for \<^verbatim>\<open>false\<close>, else the updated session.\<close>

definition try_insert :: "session \<Rightarrow> time \<Rightarrow> dur \<Rightarrow> session option" where
  "try_insert s t gap =
     (if contains s t gap
      then Some (s\<lparr>latest_event_time := max (latest_event_time s) t\<rparr>) else None)"

definition merge_with :: "session \<Rightarrow> session \<Rightarrow> session" where
  "merge_with s other =
     \<lparr>key = key s, start = min (start s) (start other),
      latest_event_time = max (latest_event_time s) (latest_event_time other)\<rparr>"

lemma contains_iff: "contains s t gap \<longleftrightarrow> start s \<le> t \<and> t < latest_event_time s + gap"
  by (simp add: contains_def is_open_at_def current_close_time_def)

section \<open>The windower\<close>

record session_windower =
  gap :: dur
  sessions :: "session list"
  max_key :: wkey

text \<open>The snapshot of one session and of the windower, as Python dicts; \<open>'p\<close> is a datetime.\<close>

record 'p session_snap =
  snap_key :: wkey
  snap_start :: 'p
  snap_latest :: 'p

record 'p session_windower_snap =
  snap_sessions :: "'p session_snap list"
  snap_max_key :: wkey

definition session_from_snap :: "('p \<Rightarrow> time) \<Rightarrow> 'p session_snap \<Rightarrow> session" where
  "session_from_snap of_py d =
     \<lparr>key = snap_key d, start = of_py (snap_start d), latest_event_time = of_py (snap_latest d)\<rparr>"

definition session_snapshot :: "(time \<Rightarrow> 'p) \<Rightarrow> session \<Rightarrow> 'p session_snap" where
  "session_snapshot to_py s =
     \<lparr>snap_key = key s, snap_start = to_py (start s), snap_latest = to_py (latest_event_time s)\<rparr>"

text \<open>\<^verbatim>\<open>SessionWindower::builder\<close>; whole milliseconds of the gap must be positive.\<close>

definition session_builder ::
  "('p \<Rightarrow> time) \<Rightarrow> dur \<Rightarrow> 'p session_windower_snap option \<Rightarrow> session_windower res" where
  "session_builder of_py g resume =
     (if \<not> trunc_div g 1000000 > 0
      then Inl (AssertFail ''gap in WindowSession cannot be negative'')
      else let (ss, mk) = (case resume of None \<Rightarrow> ([], 0)
             | Some st \<Rightarrow> (map (session_from_snap of_py) (snap_sessions st), snap_max_key st))
        in Inr \<lparr>gap = g, sessions = ss, max_key = mk\<rparr>)"

definition next_key :: "session_windower \<Rightarrow> session_windower \<times> wkey" where
  "next_key w = (let w' = w\<lparr>max_key := max_key w + 1\<rparr> in (w', max_key w'))"

definition add_session ::
  "(session list \<Rightarrow> session list) \<Rightarrow> session_windower \<Rightarrow> time \<Rightarrow> session_windower" where
  "add_session us w t =
     (let (w', k) = next_key w
      in w'\<lparr>sessions := us (sessions w' @ [session_new k t])\<rparr>)"

text \<open>The closure folded over the drained sessions.\<close>

definition merge_step :: "dur \<Rightarrow> session list \<Rightarrow> session \<Rightarrow> session list" where
  "merge_step g acc s =
     (if acc = [] then [s]
      else let prev = last acc; acc' = butlast acc
        in if contains prev (start s) g then acc' @ [merge_with prev s]
           else acc' @ [prev, s])"

definition merge_sessions :: "session_windower \<Rightarrow> session_windower" where
  "merge_sessions w = w\<lparr>sessions := foldl (merge_step (gap w)) [] (sessions w)\<rparr>"

text \<open>\<^verbatim>\<open>iter_mut().find_map(try_insert)\<close>: the first session that takes the item.\<close>

fun find_insert :: "dur \<Rightarrow> time \<Rightarrow> session list \<Rightarrow> (session list \<times> wkey) option" where
  "find_insert g t [] = None"
| "find_insert g t (s # ss) =
     (case try_insert s t g of
        Some s' \<Rightarrow> Some (s' # ss, key s')
      | None \<Rightarrow> map_option (\<lambda>(ss', k). (s # ss', k)) (find_insert g t ss))"

definition session_insert ::
  "(session list \<Rightarrow> session list) \<Rightarrow> session_windower \<Rightarrow> time \<Rightarrow> time \<Rightarrow>
    (session_windower \<times> (insert_error + wkey) list) res" where
  "session_insert us w wm t =
     (if t < wm then Inr (w, [Inl (Late (max_key w))])
      else let w' = merge_sessions (add_session us w t)
        in emap (\<lambda>(ss, k). (w'\<lparr>sessions := ss\<rparr>, [Inr k]))
             (expect ''SessionWindower is not generating consistent sessions''
               (find_insert (gap w') t (sessions w'))))"

definition session_get_metadata :: "session_windower \<Rightarrow> wkey \<Rightarrow> window_metadata option" where
  "session_get_metadata w k = map_option session_meta (find (\<lambda>s. key s = k) (sessions w))"

definition session_drain_closed ::
  "session_windower \<Rightarrow> time \<Rightarrow> session_windower \<times> (wkey \<times> window_metadata) list" where
  "session_drain_closed w wm =
     (w\<lparr>sessions := filter (\<lambda>s. is_open_at s wm (gap w)) (sessions w)\<rparr>,
      map (\<lambda>s. (key s, session_meta s))
        (filter (\<lambda>s. \<not> is_open_at s wm (gap w)) (sessions w)))"

definition session_is_empty :: "session_windower \<Rightarrow> bool" where
  "session_is_empty w \<longleftrightarrow> sessions w = []"

definition session_next_close :: "session_windower \<Rightarrow> time option" where
  "session_next_close w =
     (if sessions w = [] then None
      else Some (current_close_time (last (sessions w)) (gap w)))"

definition session_windower_snapshot ::
  "(time \<Rightarrow> 'p) \<Rightarrow> session_windower \<Rightarrow> 'p session_windower_snap" where
  "session_windower_snapshot to_py w =
     \<lparr>snap_sessions = map (session_snapshot to_py) (sessions w), snap_max_key = max_key w\<rparr>"

definition session_ops :: "(session list \<Rightarrow> session list) \<Rightarrow> session_windower windower_ops" where
  "session_ops us =
     \<lparr>w_insert = session_insert us, w_drain_closed = session_drain_closed,
      w_is_empty = session_is_empty, w_get_metadata = session_get_metadata,
      w_next_close = session_next_close\<rparr>"

section \<open>Merging\<close>

text \<open>What \<^verbatim>\<open>sort_unstable\<close> documents: a permutation, sorted by start.\<close>

definition unstable_sort :: "(session list \<Rightarrow> session list) \<Rightarrow> bool" where
  "unstable_sort us \<longleftrightarrow> (\<forall>xs. mset (us xs) = mset xs \<and> sorted (map start (us xs)))"

lemma unstable_sort_sort_key: "unstable_sort (sort_key start)"
  by (simp add: unstable_sort_def)

definition sep :: "dur \<Rightarrow> session \<Rightarrow> session \<Rightarrow> bool" where
  "sep g a b \<longleftrightarrow> latest_event_time a + g \<le> start b"

definition separated :: "dur \<Rightarrow> session list \<Rightarrow> bool" where
  "separated g ss \<longleftrightarrow>
     (\<forall>s \<in> set ss. start s \<le> latest_event_time s) \<and> sorted_wrt (sep g) ss"

text \<open>The session is a cluster of the times \<open>T\<close>: it starts and ends in one of them, and
  from each but its last the next is less than the gap away.\<close>

definition cluster :: "dur \<Rightarrow> time set \<Rightarrow> session \<Rightarrow> bool" where
  "cluster g T s \<longleftrightarrow> start s \<le> latest_event_time s \<and> start s \<in> T \<and> latest_event_time s \<in> T \<and>
     (\<forall>t \<in> T. start s \<le> t \<and> t < latest_event_time s \<longrightarrow>
        (\<exists>t' \<in> T. t < t' \<and> t' < t + g \<and> t' \<le> latest_event_time s))"

definition covers :: "time set \<Rightarrow> session list \<Rightarrow> bool" where
  "covers T ss \<longleftrightarrow> (\<forall>t \<in> T. \<exists>s \<in> set ss. start s \<le> t \<and> t \<le> latest_event_time s)"

lemma merge_step_snoc:
  "merge_step g (acc @ [p]) s =
     (if contains p (start s) g then acc @ [merge_with p s] else acc @ [p, s])"
  by (simp add: merge_step_def)

lemma merge_step_Nil [simp]: "merge_step g [] s = [s]"
  by (simp add: merge_step_def)

lemma merge_step_separated:
  assumes "0 < g" and "separated g acc" and "start s \<le> latest_event_time s"
    and "\<forall>a \<in> set acc. start a \<le> start s"
  shows "separated g (merge_step g acc s) \<and> (\<forall>a \<in> set (merge_step g acc s). start a \<le> start s)"
  using assms
proof (cases acc rule: rev_cases)
  case Nil
  then show ?thesis using assms by (simp add: separated_def)
next
  case (snoc acc' p)
  with assms have "separated g (merge_step g acc s)"
    by (fastforce simp: merge_step_snoc separated_def sorted_wrt_append sep_def contains_iff
        merge_with_def)
  moreover have "\<forall>a \<in> set (merge_step g acc s). start a \<le> start s"
    using assms(4) by (auto simp: snoc merge_step_snoc merge_with_def)
  ultimately show ?thesis by blast
qed

lemma merge_step_keys: "key ` set (merge_step g acc s) \<subseteq> insert (key s) (key ` set acc)"
  by (cases acc rule: rev_cases) (auto simp: merge_step_snoc merge_with_def)

lemma merge_step_distinct:
  "distinct (map key acc) \<Longrightarrow> key s \<notin> key ` set acc \<Longrightarrow> distinct (map key (merge_step g acc s))"
  by (cases acc rule: rev_cases) (auto simp: merge_step_snoc merge_with_def)

lemma merge_cluster:
  assumes "cluster g T p" and "cluster g T s" and "contains p (start s) g"
  shows "cluster g T (merge_with p s)"
proof -
  have le: "start p \<le> start s" and gap: "start s < latest_event_time p + g"
    using assms(3) by (simp_all add: contains_iff)
  have "\<exists>t' \<in> T. t < t' \<and> t' < t + g \<and> t' \<le> max (latest_event_time p) (latest_event_time s)"
    if t: "t \<in> T" "start p \<le> t" "t < max (latest_event_time p) (latest_event_time s)" for t
  proof -
    consider "t < latest_event_time p" | "latest_event_time p \<le> t" "start s \<le> t"
      | "latest_event_time p \<le> t" "t < start s" by linarith
    then show ?thesis
    proof cases
      case 1
      with assms(1) t show ?thesis unfolding cluster_def by fastforce
    next
      case 2
      with t have "t < latest_event_time s" by simp
      with 2 assms(2) t show ?thesis unfolding cluster_def by fastforce
    next
      case 3
      with gap t assms(2) show ?thesis
        by (intro bexI [of _ "start s"]) (auto simp: cluster_def)
    qed
  qed
  with assms le show ?thesis
    by (auto simp: cluster_def merge_with_def max_def min_def)
qed

lemma merge_step_cluster:
  assumes "\<forall>a \<in> set acc. cluster g T a" and "cluster g T s"
  shows "\<forall>a \<in> set (merge_step g acc s). cluster g T a"
  using assms by (cases acc rule: rev_cases) (auto simp: merge_step_snoc intro: merge_cluster)

lemma merge_step_covers:
  assumes "covers T (acc @ s # rest)"
  shows "covers T (merge_step g acc s @ rest)"
proof (cases acc rule: rev_cases)
  case Nil
  with assms show ?thesis by simp
next
  case (snoc acc' p)
  show ?thesis
  proof (cases "contains p (start s) g")
    case True
    have "\<exists>x \<in> set (acc' @ merge_with p s # rest). start x \<le> t \<and> t \<le> latest_event_time x"
      if "t \<in> T" for t
    proof -
      from assms that snoc obtain x where
        x: "x \<in> set (acc' @ p # s # rest)" "start x \<le> t" "t \<le> latest_event_time x"
        by (auto simp: covers_def)
      show ?thesis
      proof (cases "x = p \<or> x = s")
        case True
        with x(2,3) show ?thesis by (intro bexI [of _ "merge_with p s"]) (auto simp: merge_with_def)
      next
        case False
        with x show ?thesis by auto
      qed
    qed
    with True show ?thesis by (auto simp: snoc merge_step_snoc covers_def)
  next
    case False
    with assms show ?thesis by (simp add: snoc merge_step_snoc)
  qed
qed


text \<open>What the fold keeps: a separated accumulator that starts no later than the rest.\<close>

definition mergeable :: "dur \<Rightarrow> session list \<Rightarrow> session list \<Rightarrow> bool" where
  "mergeable g acc ss \<longleftrightarrow> 0 < g \<and> separated g acc \<and> sorted (map start ss) \<and>
     (\<forall>s \<in> set ss. start s \<le> latest_event_time s) \<and>
     (\<forall>a \<in> set acc. \<forall>s \<in> set ss. start a \<le> start s) \<and> distinct (map key (acc @ ss))"

lemma mergeable_step:
  assumes "mergeable g acc (s # ss)"
  shows "mergeable g (merge_step g acc s) ss"
proof -
  from assms have "separated g (merge_step g acc s)"
    and le: "\<forall>a \<in> set (merge_step g acc s). start a \<le> start s"
    using merge_step_separated [of g acc s] by (auto simp: mergeable_def)
  moreover have "\<forall>a \<in> set (merge_step g acc s). \<forall>x \<in> set ss. start a \<le> start x"
  proof (intro ballI)
    fix a x assume "a \<in> set (merge_step g acc s)" and "x \<in> set ss"
    with le assms have "start a \<le> start s" and "start s \<le> start x"
      by (simp_all add: mergeable_def)
    then show "start a \<le> start x" by (rule order_trans)
  qed
  moreover have "distinct (map key (merge_step g acc s))"
    using assms by (intro merge_step_distinct) (auto simp: mergeable_def)
  moreover have "key ` set (merge_step g acc s) \<inter> key ` set ss = {}"
  proof -
    have "insert (key s) (key ` set acc) \<inter> key ` set ss = {}"
      using assms by (auto simp: mergeable_def)
    with merge_step_keys [of g acc s] show ?thesis by blast
  qed
  ultimately show ?thesis
    using assms by (simp add: mergeable_def)
qed

lemma foldl_merge:
  assumes "mergeable g acc ss"
  shows "separated g (foldl (merge_step g) acc ss) \<and>
    distinct (map key (foldl (merge_step g) acc ss)) \<and>
    key ` set (foldl (merge_step g) acc ss) \<subseteq> key ` set (acc @ ss)"
  using assms
proof (induction ss arbitrary: acc)
  case Nil
  then show ?case by (simp add: mergeable_def)
next
  case (Cons s ss)
  let ?acc = "merge_step g acc s"
  have "key ` set (?acc @ ss) \<subseteq> key ` set (acc @ s # ss)"
    using merge_step_keys [of g acc s] by (simp add: image_Un) blast
  with Cons.IH [OF mergeable_step [OF Cons.prems]] show ?case
    by (simp only: foldl_Cons) (blast intro: subset_trans)
qed

lemma foldl_merge_clusters:
  assumes "\<forall>a \<in> set (acc @ ss). cluster g T a" and "covers T (acc @ ss)"
  shows "(\<forall>a \<in> set (foldl (merge_step g) acc ss). cluster g T a) \<and>
    covers T (foldl (merge_step g) acc ss)"
  using assms
proof (induction ss arbitrary: acc)
  case Nil
  then show ?case by simp
next
  case (Cons s ss)
  have "\<forall>a \<in> set (merge_step g acc s). cluster g T a"
    using Cons.prems(1) by (intro merge_step_cluster) auto
  moreover have "covers T (merge_step g acc s @ ss)"
    using Cons.prems(2) by (rule merge_step_covers)
  ultimately show ?case using Cons.IH [of "merge_step g acc s"] Cons.prems(1) by auto
qed

section \<open>The invariant and the insertion\<close>

definition session_inv :: "session_windower \<Rightarrow> bool" where
  "session_inv w \<longleftrightarrow> 0 < gap w \<and> separated (gap w) (sessions w) \<and>
     distinct (map key (sessions w)) \<and> (\<forall>s \<in> set (sessions w). key s \<le> max_key w)"

lemma separated_sorted: "0 < g \<Longrightarrow> separated g ss \<Longrightarrow> sorted (map start ss)"
proof (induction ss)
  case Nil
  then show ?case by simp
next
  case (Cons s ss)
  then show ?case by (fastforce simp: separated_def sep_def)
qed

lemma us_props:
  assumes "unstable_sort us"
  shows "set (us xs) = set xs" and "mset (us xs) = mset xs" and "sorted (map start (us xs))"
  using assms mset_eq_setD [of "us xs" xs] by (auto simp: unstable_sort_def)

text \<open>The windower between adding the new session and looking for the item's session.\<close>

abbreviation added :: "(session list \<Rightarrow> session list) \<Rightarrow> session_windower \<Rightarrow> time \<Rightarrow> session list" where
  "added us w t \<equiv> us (sessions w @ [session_new (max_key w + 1) t])"

lemma add_merge:
  "merge_sessions (add_session us w t) =
     w\<lparr>sessions := foldl (merge_step (gap w)) [] (added us w t), max_key := max_key w + 1\<rparr>"
  by (simp add: merge_sessions_def add_session_def next_key_def Let_def)

lemma merged_inv:
  assumes us: "unstable_sort us" and inv: "session_inv w"
  shows "session_inv (merge_sessions (add_session us w t))"
    and "key ` set (sessions (merge_sessions (add_session us w t))) \<subseteq>
      insert (max_key w + 1) (key ` set (sessions w))"
proof -
  let ?ss = "added us w t" and ?g = "gap w"
  have set: "set ?ss = insert (session_new (max_key w + 1) t) (set (sessions w))"
    by (simp add: us_props(1) [OF us])
  have "mset (map key ?ss) = mset (map key (sessions w @ [session_new (max_key w + 1) t]))"
    by (simp add: us_props(2) [OF us])
  moreover have "distinct (map key (sessions w @ [session_new (max_key w + 1) t]))"
    using inv by (auto simp: session_inv_def session_new_def)
  ultimately have dist: "distinct (map key ([] @ ?ss))"
    by (metis append_Nil mset_eq_imp_distinct_iff)
  have "0 < ?g" using inv by (simp add: session_inv_def)
  moreover have "separated ?g []" by (simp add: separated_def)
  moreover have "sorted (map start ?ss)" by (rule us_props(3) [OF us])
  moreover have "\<forall>s \<in> set ?ss. start s \<le> latest_event_time s"
    using inv unfolding set by (auto simp: session_new_def session_inv_def separated_def)
  ultimately have "mergeable ?g [] ?ss" using dist by (simp add: mergeable_def)
  from foldl_merge [OF this] have m: "separated ?g (foldl (merge_step ?g) [] ?ss)"
      "distinct (map key (foldl (merge_step ?g) [] ?ss))"
      "key ` set (foldl (merge_step ?g) [] ?ss) \<subseteq> key ` set ([] @ ?ss)"
    by blast+
  show "key ` set (sessions (merge_sessions (add_session us w t))) \<subseteq>
      insert (max_key w + 1) (key ` set (sessions w))"
    using m(3) unfolding append_Nil set by (simp add: add_merge) (simp add: session_new_def)
  with m inv show "session_inv (merge_sessions (add_session us w t))"
    by (fastforce simp: session_inv_def add_merge)
qed

lemma find_insert_SomeD:
  "find_insert g t ss = Some (ss', k) \<Longrightarrow>
     \<exists>xs s ys. ss = xs @ s # ys \<and> contains s t g \<and> k = key s \<and>
       ss' = xs @ s\<lparr>latest_event_time := max (latest_event_time s) t\<rparr> # ys"
proof (induction ss arbitrary: ss')
  case Nil
  then show ?case by simp
next
  case (Cons s ss)
  show ?case
  proof (cases "contains s t g")
    case True
    with Cons.prems show ?thesis
      by (intro exI [of _ "[]"] exI [of _ s] exI [of _ ss]) (auto simp: try_insert_def)
  next
    case False
    with Cons.prems obtain ss1 where "find_insert g t ss = Some (ss1, k)" and ss': "ss' = s # ss1"
      by (auto simp: try_insert_def)
    from Cons.IH [OF this(1)] obtain xs s1 ys where
      "ss = xs @ s1 # ys" "contains s1 t g" "k = key s1"
      "ss1 = xs @ s1\<lparr>latest_event_time := max (latest_event_time s1) t\<rparr> # ys" by blast
    with ss' show ?thesis
      by (intro exI [of _ "s # xs"] exI [of _ s1] exI [of _ ys]) simp
  qed
qed

lemma find_insert_None: "find_insert g t ss = None \<longleftrightarrow> (\<forall>s \<in> set ss. \<not> contains s t g)"
  by (induction ss) (auto simp: try_insert_def)

text \<open>Where the item is already covered, taking it in changes nothing.\<close>

lemma find_insert_covered:
  assumes "0 < g" and "separated g ss" and "s \<in> set ss" and "start s \<le> t" and "t \<le> latest_event_time s"
  shows "find_insert g t ss = Some (ss, key s)"
  using assms
proof (induction ss)
  case Nil
  then show ?case by simp
next
  case (Cons a ss)
  show ?case
  proof (cases "a = s")
    case True
    with Cons.prems show ?thesis
      by (simp add: try_insert_def contains_iff max_absorb1)
  next
    case False
    with Cons.prems have "s \<in> set ss" and "sep g a s" by (auto simp: separated_def)
    with Cons.prems have "\<not> contains a t g" by (auto simp: contains_iff sep_def)
    moreover have "separated g ss" using Cons.prems(2) by (auto simp: separated_def)
    ultimately show ?thesis
      using Cons.IH [OF Cons.prems(1) _ \<open>s \<in> set ss\<close> Cons.prems(4,5)] by (simp add: try_insert_def)
  qed
qed


lemma clusters_add:
  assumes us: "unstable_sort us" and T: "finite T"
    and cl: "\<forall>s \<in> set (sessions w). cluster (gap w) T s" and cov: "covers T (sessions w)"
    and g: "0 < gap w"
  shows "(\<forall>s \<in> set (sessions (merge_sessions (add_session us w t))). cluster (gap w) (insert t T) s) \<and>
    covers (insert t T) (sessions (merge_sessions (add_session us w t)))"
proof -
  let ?ss = "added us w t" and ?T = "insert t T"
  have set: "set ?ss = insert (session_new (max_key w + 1) t) (set (sessions w))"
    by (simp add: us_props(1) [OF us])
  have "cluster (gap w) ?T s" if s: "s \<in> set (sessions w)" for s
  proof -
    from cl s have c: "cluster (gap w) T s" by blast
    have "\<exists>t' \<in> ?T. t < t' \<and> t' < t + gap w \<and> t' \<le> latest_event_time s"
      if t: "start s \<le> t" "t < latest_event_time s"
    proof -
      \<comment> \<open>the last time of \<open>T\<close> up to \<open>t\<close> has a successor less than the gap away\<close>
      let ?B = "{x \<in> T. start s \<le> x \<and> x \<le> t}"
      have fin: "finite ?B" and ne: "?B \<noteq> {}" using T c t by (auto simp: cluster_def)
      then have m: "Max ?B \<in> ?B" by (rule Max_in)
      with c t obtain x where x: "x \<in> T" "Max ?B < x" "x < Max ?B + gap w" "x \<le> latest_event_time s"
        unfolding cluster_def by fastforce
      have "t < x"
      proof (rule ccontr)
        assume "\<not> t < x"
        with x m have "x \<in> ?B" by auto
        then have "x \<le> Max ?B" using fin by simp
        with x show False by simp
      qed
      with x m show ?thesis by (intro bexI [of _ x]) auto
    qed
    with c show ?thesis by (auto simp: cluster_def)
  qed
  moreover have "cluster (gap w) ?T (session_new (max_key w + 1) t)"
    by (simp add: cluster_def session_new_def)
  ultimately have "\<forall>s \<in> set ([] @ ?ss). cluster (gap w) ?T s" unfolding append_Nil set by blast
  moreover have "covers ?T ([] @ ?ss)"
    using cov unfolding covers_def append_Nil set by (auto simp: session_new_def)
  ultimately show ?thesis
    using foldl_merge_clusters [of "[]" ?ss "gap w" ?T] by (simp add: add_merge)
qed

text \<open>An item that is not late: some session takes it, and the invariant holds again.\<close>

lemma session_insert_ok:
  assumes us: "unstable_sort us" and inv: "session_inv w" and t: "wm \<le> t"
  shows "\<exists>s. session_insert us w wm t = Inr (merge_sessions (add_session us w t), [Inr (key s)]) \<and>
    session_inv (merge_sessions (add_session us w t)) \<and>
    s \<in> set (sessions (merge_sessions (add_session us w t))) \<and>
    start s \<le> t \<and> t \<le> latest_event_time s"
proof -
  let ?w = "merge_sessions (add_session us w t)"
  have inv': "session_inv ?w" by (rule merged_inv(1) [OF us inv])
  have gap: "gap ?w = gap w" by (simp add: add_merge)
  have "covers {t} (added us w t)"
    using us_props(1) [OF us] by (auto simp: covers_def session_new_def)
  then have "covers {t} (sessions ?w)"
  proof -
    have "covers {t} (acc @ ss) \<Longrightarrow> covers {t} (foldl (merge_step (gap w)) acc ss)" for acc ss
      by (induction ss arbitrary: acc) (auto dest: merge_step_covers)
    from this [of "[]"] show "covers {t} (added us w t) \<Longrightarrow> ?thesis" by (simp add: add_merge)
  qed
  then obtain s where s: "s \<in> set (sessions ?w)" "start s \<le> t" "t \<le> latest_event_time s"
    by (auto simp: covers_def)
  have "find_insert (gap ?w) t (sessions ?w) = Some (sessions ?w, key s)"
    using inv' s by (intro find_insert_covered) (auto simp: session_inv_def)
  with t have "session_insert us w wm t = Inr (?w, [Inr (key s)])"
    by (simp add: session_insert_def Let_def)
  with inv' s show ?thesis by blast
qed

lemma session_insert_late: "t < wm \<Longrightarrow> session_insert us w wm t = Inr (w, [Inl (Late (max_key w))])"
  by (simp add: session_insert_def)

text \<open>Every item gets exactly one verdict and the windower never panics: an item before
  the watermark is late and leaves the windower as it was; any other item lands in one open
  session, which contains its time, and the sessions stay sorted, separated by at least the
  gap, and uniquely keyed.\<close>

theorem session_insert_total:
  assumes "unstable_sort us" and "session_inv w"
  shows "(t < wm \<and> session_insert us w wm t = Inr (w, [Inl (Late (max_key w))])) \<or>
    (wm \<le> t \<and> (\<exists>w' s. session_insert us w wm t = Inr (w', [Inr (key s)]) \<and> session_inv w' \<and>
      s \<in> set (sessions w') \<and> start s \<le> t \<and> t \<le> latest_event_time s))"
  using session_insert_late [of t wm us w] session_insert_ok [OF assms, of wm t] by fastforce

theorem session_insert_total_witness:
  "let w = \<lparr>gap = 5, sessions = [], max_key = 0\<rparr>
   in unstable_sort (sort_key start) \<and> session_inv w \<and>
     (\<exists>w' s. session_insert (sort_key start) w 0 3 = Inr (w', [Inr (key s)]) \<and> session_inv w' \<and>
      s \<in> set (sessions w') \<and> start s \<le> 3 \<and> 3 \<le> latest_event_time s)"
proof -
  let ?w = "\<lparr>gap = 5, sessions = [], max_key = 0\<rparr>"
  have inv: "session_inv ?w" by (simp add: session_inv_def separated_def)
  show ?thesis
    using unstable_sort_sort_key inv session_insert_total [OF unstable_sort_sort_key inv, of 3 0]
    by simp
qed

text \<open>Inserting a list of times, each with the watermark of its moment.\<close>

definition session_insert_all ::
  "(session list \<Rightarrow> session list) \<Rightarrow> session_windower \<Rightarrow> (time \<times> time) list \<Rightarrow> session_windower res" where
  "session_insert_all us w xs = efold (\<lambda>w (wm, t). emap fst (session_insert us w wm t)) w xs"

text \<open>Claim C25. The open sessions are the clusters of the items: after inserting times that are
  not late, each session starts and ends at an item and has no inner gap of the configured
  length, every item lies in a session, and sessions are at least the gap apart.\<close>

theorem sessions_are_clusters:
  assumes "unstable_sort us" and "0 < g" and "\<forall>(wm, t) \<in> set xs. wm \<le> t"
  shows "\<exists>w. session_insert_all us \<lparr>gap = g, sessions = [], max_key = 0\<rparr> xs = Inr w \<and>
    separated g (sessions w) \<and> (\<forall>s \<in> set (sessions w). cluster g (snd ` set xs) s) \<and>
    covers (snd ` set xs) (sessions w)"
  using assms(3)
proof (induction xs rule: rev_induct)
  case Nil
  then show ?case by (simp add: session_insert_all_def separated_def covers_def)
next
  case (snoc x xs)
  obtain wm t where x: "x = (wm, t)" by force
  define P where "P = (\<lambda>w. session_inv w \<and> gap w = g)"
  let ?w0 = "\<lparr>gap = g, sessions = [], max_key = 0\<rparr>"
  have "P ?w0" using assms(2) by (simp add: P_def session_inv_def separated_def)
  then have "\<exists>w. session_insert_all us ?w0 xs = Inr w \<and> P w"
    unfolding session_insert_all_def
  proof (rule efold_total)
    fix w y assume "P w" and "y \<in> set xs"
    moreover from this snoc.prems have "fst y \<le> snd y" by fastforce
    ultimately show "\<exists>w'. (case y of (wm, t) \<Rightarrow> emap fst (session_insert us w wm t)) = Inr w' \<and> P w'"
      using session_insert_ok [OF assms(1), of w "fst y" "snd y"]
      by (auto simp: P_def add_merge case_prod_beta)
  qed
  with snoc obtain w where w: "session_insert_all us ?w0 xs = Inr w" and P: "P w"
    and cl: "\<forall>s \<in> set (sessions w). cluster g (snd ` set xs) s"
    and cov: "covers (snd ` set xs) (sessions w)"
    by auto
  have "session_inv w" and "wm \<le> t" using P x snoc.prems by (simp_all add: P_def)
  from session_insert_ok [OF assms(1) this] obtain s :: session where
    ins: "session_insert us w wm t = Inr (merge_sessions (add_session us w t), [Inr (key s)])"
    and inv': "session_inv (merge_sessions (add_session us w t))" by blast
  have "session_insert_all us ?w0 (xs @ [x]) = Inr (merge_sessions (add_session us w t))"
    using w ins by (simp add: session_insert_all_def efold_append x)
  moreover have "separated g (sessions (merge_sessions (add_session us w t)))"
    using inv' P by (simp add: session_inv_def P_def add_merge)
  ultimately show ?case
    using clusters_add [OF assms(1), of "snd ` set xs" w t] cl cov P assms(2)
    by (simp add: P_def x)
qed

theorem sessions_are_clusters_witness:
  "\<exists>w. session_insert_all (sort_key start) \<lparr>gap = 5, sessions = [], max_key = 0\<rparr>
      [(0, 0), (0, 6), (0, 1)] = Inr w \<and>
    separated 5 (sessions w) \<and> (\<forall>s \<in> set (sessions w). cluster 5 {0, 6, 1} s) \<and>
    covers {0, 6, 1} (sessions w)"
  using sessions_are_clusters [OF unstable_sort_sort_key, of 5 "[(0, 0), (0, 6), (0, 1)]"] by simp


section \<open>The windower contract\<close>

lemma find_key:
  assumes "distinct (map key ss)" and "s \<in> set ss"
  shows "find (\<lambda>x. key x = key s) ss = Some s"
  using assms
proof (induction ss)
  case Nil
  then show ?case by simp
next
  case (Cons a ss)
  then show ?case by (cases "a = s") auto
qed

text \<open>If the new session's key survives the merge, its session is the one taking the item.\<close>

lemma foldl_merge_key_at:
  assumes "\<forall>a \<in> set (acc @ ss). key a = k \<longrightarrow> start a \<le> t \<and> t \<le> latest_event_time a"
  shows "\<forall>a \<in> set (foldl (merge_step g) acc ss). key a = k \<longrightarrow> start a \<le> t \<and> t \<le> latest_event_time a"
  using assms
proof (induction ss arbitrary: acc)
  case Nil
  then show ?case by simp
next
  case (Cons s ss)
  let ?ok = "\<lambda>a. key a = k \<longrightarrow> start a \<le> t \<and> t \<le> latest_event_time a"
  have merged: "?ok a \<Longrightarrow> ?ok (merge_with a b)" for a b
    by (simp add: merge_with_def min_le_iff_disj le_max_iff_disj)
  have "\<forall>a \<in> set (merge_step g acc s). ?ok a"
  proof (cases acc rule: rev_cases)
    case Nil
    with Cons.prems show ?thesis by simp
  next
    case (snoc acc' a)
    with Cons.prems have "?ok a" "?ok s" "\<forall>b \<in> set acc'. ?ok b" by simp_all
    with merged [of a s] show ?thesis unfolding snoc merge_step_snoc by simp
  qed
  with Cons.prems have "\<forall>a \<in> set (merge_step g acc s @ ss). ?ok a" by (simp add: ball_Un)
  then show ?case unfolding foldl_Cons by (rule Cons.IH)
qed

lemma separated_unique:
  assumes "0 < g" and "separated g ss" and "a \<in> set ss" and "b \<in> set ss"
    and "start a \<le> t" and "t \<le> latest_event_time a" and "start b \<le> t" and "t \<le> latest_event_time b"
  shows "a = b"
  using assms
proof (induction ss)
  case Nil
  then show ?case by simp
next
  case (Cons x ss)
  then have "separated g ss" by (simp add: separated_def)
  moreover have "\<not> sep g a b" and "\<not> sep g b a" using Cons.prems by (auto simp: sep_def)
  ultimately show ?case using Cons by (auto simp: separated_def)
qed

lemma new_key_is_ok:
  assumes us: "unstable_sort us" and inv: "session_inv w"
    and inv': "session_inv (merge_sessions (add_session us w t))"
    and s: "s \<in> set (sessions (merge_sessions (add_session us w t)))" "start s \<le> t"
      "t \<le> latest_event_time s"
    and k: "max_key w + 1 \<in> key ` set (sessions (merge_sessions (add_session us w t)))"
  shows "key s = max_key w + 1"
proof -
  from k obtain a where a: "a \<in> set (sessions (merge_sessions (add_session us w t)))"
    "key a = max_key w + 1" by auto
  have "\<forall>a \<in> set ([] @ added us w t). key a = max_key w + 1 \<longrightarrow> start a \<le> t \<and> t \<le> latest_event_time a"
    unfolding append_Nil us_props(1) [OF us] using inv by (auto simp: session_new_def session_inv_def)
  from foldl_merge_key_at [OF this, of "gap w"] a have "start a \<le> t \<and> t \<le> latest_event_time a"
    by (simp add: add_merge)
  then have "a = s"
    using separated_unique [OF _ _ a(1) s(1), of "gap w" t] inv' s(2,3)
    by (simp add: session_inv_def add_merge)
  with a show ?thesis by simp
qed

lemma session_tracked: "tracked (session_ops us) w = key ` set (sessions w)"
proof -
  have "find (\<lambda>s. key s = k) ss \<noteq> None \<longleftrightarrow> k \<in> key ` set ss" for k and ss :: "session list"
    by (induction ss) auto
  then show ?thesis by (auto simp: tracked_def session_ops_def session_get_metadata_def)
qed

lemma session_drain:
  assumes "session_inv w" and "session_drain_closed w wm = (w', ds)"
  shows "session_inv w'"
    and "key ` set (sessions w') = key ` set (sessions w) - fst ` set ds"
    and "(k, m) \<in> set ds \<Longrightarrow> session_get_metadata w k = Some m"
    and "distinct (map fst ds)"
proof -
  let ?P = "\<lambda>s. is_open_at s wm (gap w)"
  have w': "w' = w\<lparr>sessions := filter ?P (sessions w)\<rparr>"
    and ds: "ds = map (\<lambda>s. (key s, session_meta s)) (filter (\<lambda>s. \<not> ?P s) (sessions w))"
    using assms(2) by (simp_all add: session_drain_closed_def)
  have dist: "distinct (map key (sessions w))" using assms(1) by (simp add: session_inv_def)
  show "session_inv w'"
    using assms(1) by (auto simp: w' session_inv_def separated_def distinct_map_filter
        intro: sorted_wrt_filter)
  show "key ` set (sessions w') = key ` set (sessions w) - fst ` set ds"
    using dist by (force simp: w' ds distinct_map inj_on_def)
  show "session_get_metadata w k = Some m" if "(k, m) \<in> set ds"
  proof -
    from that obtain s where "s \<in> set (sessions w)" "k = key s" "m = session_meta s"
      by (auto simp: ds)
    with find_key [OF dist] show ?thesis by (simp add: session_get_metadata_def)
  qed
  show "distinct (map fst ds)"
    using distinct_map_filter [OF dist, of "\<lambda>s. \<not> ?P s"] by (simp add: ds comp_def)
qed

text \<open>The contract for every unstable sort; the sort of \<^verbatim>\<open>sort_unstable\<close> is fixed below by its
  stable instance, which is what the standard library does for short slices.\<close>

lemma session_windower:
  assumes us: "unstable_sort us"
  shows "windower (session_ops us) session_inv"
proof unfold_locales
  fix w w' :: session_windower and wm t rs ds k m
  assume inv: "session_inv w"
  note ok = session_insert_ok [OF us inv, of wm t] and late = session_insert_late [of t wm us w]
  show "\<exists>w' rs. w_insert (session_ops us) w wm t = Inr (w', rs) \<and> session_inv w'"
    using ok late inv by (cases "t < wm") (auto simp: session_ops_def)
  show "session_inv (fst (w_drain_closed (session_ops us) w wm))"
    using session_drain(1) [OF inv, of wm "fst (session_drain_closed w wm)"
        "snd (session_drain_closed w wm)"] by (simp add: session_ops_def)
  show "w_is_empty (session_ops us) w \<longleftrightarrow> tracked (session_ops us) w = {}"
    by (simp add: session_tracked) (simp add: session_ops_def session_is_empty_def)
  show "w_next_close (session_ops us) w = None \<longleftrightarrow> w_is_empty (session_ops us) w"
    by (simp add: session_ops_def session_next_close_def session_is_empty_def)
  {
    assume ins: "w_insert (session_ops us) w wm t = Inr (w', rs)"
    show "ok_keys rs \<subseteq> tracked (session_ops us) w'"
      using ins ok late by (cases "t < wm") (auto simp: session_tracked, auto simp: session_ops_def)
    show "tracked (session_ops us) w' \<subseteq> tracked (session_ops us) w \<union> ok_keys rs"
    proof (cases "t < wm")
      case True
      with ins late show ?thesis by (auto simp: session_ops_def)
    next
      case False
      with ok obtain s :: session where
        r: "session_insert us w wm t = Inr (merge_sessions (add_session us w t), [Inr (key s)])"
        and inv': "session_inv (merge_sessions (add_session us w t))"
        and s: "s \<in> set (sessions (merge_sessions (add_session us w t)))"
          "start s \<le> t" "t \<le> latest_event_time s"
        by auto
      with ins have w': "w' = merge_sessions (add_session us w t)" and rs: "rs = [Inr (key s)]"
        by (simp_all add: session_ops_def)
      show ?thesis
        unfolding session_tracked w' rs
      proof
        fix x assume x: "x \<in> key ` set (sessions (merge_sessions (add_session us w t)))"
        then have "x = max_key w + 1 \<or> x \<in> key ` set (sessions w)"
          using merged_inv(2) [OF us inv, of t] by blast
        then show "x \<in> key ` set (sessions w) \<union> ok_keys [Inr (key s)]"
          using new_key_is_ok [OF us inv inv' s] x by (elim disjE) simp_all
      qed
    qed
  }
  {
    assume "w_drain_closed (session_ops us) w wm = (w', ds)"
    then have "session_drain_closed w wm = (w', ds)" by (simp add: session_ops_def)
    note d = session_drain [OF inv this]
    from d(2) show "tracked (session_ops us) w' = tracked (session_ops us) w - fst ` set ds"
      by (simp add: session_tracked)
    from d(4) show "distinct (map fst ds)" .
    assume "(k, m) \<in> set ds"
    with d(3) show "w_get_metadata (session_ops us) w k = Some m" by (simp add: session_ops_def)
  }
qed

interpretation session: windower "session_ops (sort_key start)" session_inv
  by (rule session_windower) (rule unstable_sort_sort_key)


section \<open>What merging and the wake-up time lose\<close>

lemma unstable_sort_strict:
  assumes "unstable_sort us" and "mset xs = mset ys" and "sorted_wrt (\<lambda>x y. start x < start y) ys"
  shows "us xs = ys"
proof -
  have "sorted_wrt (<) (map start ys)" using assms(3) by (simp add: sorted_wrt_map)
  then have "distinct (map start ys)" and sorted: "sorted (map start ys)"
    by (simp_all add: strict_sorted_iff)
  then have inj: "inj_on start (set ys)" by (simp add: distinct_map)
  have "sort_key start xs = ys" and "sort_key start xs = us xs"
    using inj sorted us_props(2,3) [OF assms(1), of xs] assms(2)
    by (auto intro!: sort_key_inj_key_eq simp: mset_eq_setD [OF assms(2)])
  then show ?thesis by simp
qed

text \<open>An item that bridges two open sessions merges them and the windower forgets the
  later session's key, although it was never closed: no later drain can return it.\<close>

theorem merge_forgets_key:
  assumes "unstable_sort us" and "session_inv w" and "sessions w = [a, b]" and "wm \<le> t"
    and "start a < t" and "t < latest_event_time a + gap w"
    and "t < start b" and "start b < t + gap w"
  shows "\<exists>w'. session_insert us w wm t = Inr (w', [Inr (key a)]) \<and>
    tracked (session_ops us) w' = {key a} \<and> key b \<notin> tracked (session_ops us) w'"
proof -
  let ?n = "session_new (max_key w + 1) t"
  let ?m = "\<lparr>key = key a, start = start a, latest_event_time = latest_event_time b\<rparr>"
  have order: "latest_event_time a \<le> latest_event_time b" and le: "start b \<le> latest_event_time b"
    using assms(2,3) by (auto simp: session_inv_def separated_def sep_def)
  have "added us w t = [a, ?n, b]"
    using assms by (intro unstable_sort_strict [OF assms(1)]) (simp_all add: session_new_def)
  then have m: "sessions (merge_sessions (add_session us w t)) = [?m]"
    using assms(5-8) order le
    by (auto simp: add_merge merge_step_def contains_iff merge_with_def session_new_def Let_def)
  from session_insert_ok [OF assms(1,2,4)] m assms(2,3) show ?thesis
    by (auto simp: session_tracked session_inv_def)
qed

theorem merge_forgets_key_witness:
  "let w = \<lparr>gap = 5, sessions = [\<lparr>key = 1, start = 0, latest_event_time = 0\<rparr>,
             \<lparr>key = 2, start = 8, latest_event_time = 8\<rparr>], max_key = 2\<rparr>
   in session_inv w \<and> tracked (session_ops (sort_key start)) w = {1, 2} \<and>
     (\<exists>w'. session_insert (sort_key start) w 0 4 = Inr (w', [Inr 1]) \<and>
       tracked (session_ops (sort_key start)) w' = {1} \<and>
       2 \<notin> tracked (session_ops (sort_key start)) w')"
proof -
  let ?a = "\<lparr>key = 1, start = 0, latest_event_time = 0\<rparr>"
  let ?b = "\<lparr>key = 2, start = 8, latest_event_time = 8\<rparr>"
  let ?w = "\<lparr>gap = 5, sessions = [?a, ?b], max_key = 2\<rparr>"
  have inv: "session_inv ?w" by (simp add: session_inv_def separated_def sep_def)
  show ?thesis
    using inv merge_forgets_key [OF unstable_sort_sort_key inv, of ?a ?b 0 4]
    by (simp add: session_tracked)
qed

text \<open>The system time the windower asks to be woken at is the close of the last
  session; with several open sessions every other one has closed before that.\<close>

theorem session_next_close_is_last:
  assumes "session_inv w" and "sessions w = ss @ [b]" and "a \<in> set ss"
  shows "session_next_close w = Some (current_close_time b (gap w)) \<and>
    current_close_time a (gap w) < current_close_time b (gap w) \<and>
    \<not> is_open_at a (current_close_time a (gap w)) (gap w)"
proof -
  have "sep (gap w) a b" and "start b \<le> latest_event_time b" and "0 < gap w"
    using assms by (auto simp: session_inv_def separated_def sorted_wrt_append)
  then show ?thesis
    using assms(2) by (simp add: session_next_close_def current_close_time_def sep_def is_open_at_def)
qed

theorem session_next_close_is_last_witness:
  "let a = \<lparr>key = 1, start = 0, latest_event_time = 0\<rparr>;
       b = \<lparr>key = 2, start = 8, latest_event_time = 8\<rparr>;
       w = \<lparr>gap = 5, sessions = [a, b], max_key = 2\<rparr>
   in session_inv w \<and> session_next_close w = Some 13 \<and> current_close_time a 5 = 5"
proof -
  let ?a = "\<lparr>key = 1, start = 0, latest_event_time = 0\<rparr>"
  let ?b = "\<lparr>key = 2, start = 8, latest_event_time = 8\<rparr>"
  let ?w = "\<lparr>gap = 5, sessions = [?a, ?b], max_key = 2\<rparr>"
  have inv: "session_inv ?w" by (simp add: session_inv_def separated_def sep_def)
  show ?thesis
    using inv session_next_close_is_last [OF inv, of "[?a]" ?b ?a]
    by (simp add: current_close_time_def)
qed

section \<open>Snapshots\<close>

text \<open>Rebuilding a session windower from its snapshot gives it back, when its times
  survive the conversion to and from Python datetimes and the gap passes the builder's check.\<close>

lemma session_rebuild:
  assumes "0 < trunc_div (gap w) 1000000"
    and "\<And>s. s \<in> set (sessions w) \<Longrightarrow> of_py (to_py (start s)) = start s \<and>
      of_py (to_py (latest_event_time s)) = latest_event_time s"
  shows "session_builder of_py (gap w) (Some (session_windower_snapshot to_py w)) = Inr w"
proof -
  have "map (session_from_snap of_py) (map (session_snapshot to_py) (sessions w)) = sessions w"
    using assms(2) by (auto simp: session_from_snap_def session_snapshot_def intro!: map_idI)
  then show ?thesis
    using assms(1) by (simp add: session_builder_def session_windower_snapshot_def)
qed

end
