(* ===== verification/Window_Logic.thy ===== *)
theory Window_Logic
  imports Stateful_Spec Sliding Session
begin

text \<open>
  The window driver of \<^verbatim>\<open>src/src/window/mod.rs\<close> (\<^verbatim>\<open>WindowStatefulLogic\<close>): it owns a clock, a
  windower and one \<^verbatim>\<open>WindowLogic\<close> per open window, and is itself a \<^verbatim>\<open>StatefulLogic\<close>. Also
  \<^verbatim>\<open>src/src/operators/fold_window.rs\<close>, the one window logic of the program. The driver is
  verified against the contracts of clock and windower (locale \<open>window_driver\<close>), then used on
  the sliding and the session windower.
\<close>

section \<open>\<^verbatim>\<open>WindowLogic\<close> and its fold instance\<close>

record ('a, 'v, 'r, 'q) window_logic_ops =
  wl_with_next :: "'a \<Rightarrow> ('v \<times> time) option \<Rightarrow> ('a \<times> 'r list) res"
  wl_snapshot :: "'a \<Rightarrow> 'q"
  wl_builder :: "'q option \<Rightarrow> 'a"

text \<open>
  \<^verbatim>\<open>FoldWindowLogic\<close>: the Python callables are functions that may raise; \<open>pynone\<close> is Python's
  \<^verbatim>\<open>None\<close> among the Python values \<open>'x\<close>.
\<close>

record ('x, 'v) fold_window_logic =
  fw_builder :: "'x res"
  fw_folder :: "'x \<Rightarrow> 'v \<Rightarrow> 'x res"
  fw_acc :: "'x option"

text \<open>\<^verbatim>\<open>FoldWindowLogic::new\<close>: extracting an \<^verbatim>\<open>Option<Option<_>>\<close> maps \<^verbatim>\<open>None\<close> to the outer one.\<close>

definition fold_window_new ::
  "'x \<Rightarrow> 'x res \<Rightarrow> ('x \<Rightarrow> 'v \<Rightarrow> 'x res) \<Rightarrow> 'x option \<Rightarrow> ('x, 'v) fold_window_logic" where
  "fold_window_new pynone b f resume =
     \<lparr>fw_builder = b, fw_folder = f,
      fw_acc = (case resume of None \<Rightarrow> None | Some st \<Rightarrow> if st = pynone then None else Some st)\<rparr>"

definition fold_with_next ::
  "('x, 'v) fold_window_logic \<Rightarrow> ('v \<times> time) option \<Rightarrow> (('x, 'v) fold_window_logic \<times> 'x list) res" where
  "fold_with_next l next_value = (case next_value of
       Some (v, item_time) \<Rightarrow>
         ebind (case fw_acc l of Some a \<Rightarrow> Inr a | None \<Rightarrow> fw_builder l) (\<lambda>acc.
         ebind (fw_folder l acc v) (\<lambda>updated_acc. Inr (l\<lparr>fw_acc := Some updated_acc\<rparr>, [])))
     | None \<Rightarrow> Inr (l\<lparr>fw_acc := None\<rparr>, case fw_acc l of None \<Rightarrow> [] | Some a \<Rightarrow> [a]))"

definition fold_snapshot :: "'x \<Rightarrow> ('x, 'v) fold_window_logic \<Rightarrow> 'x" where
  "fold_snapshot pynone l = (case fw_acc l of None \<Rightarrow> pynone | Some a \<Rightarrow> a)"

definition fold_ops ::
  "'x \<Rightarrow> 'x res \<Rightarrow> ('x \<Rightarrow> 'v \<Rightarrow> 'x res) \<Rightarrow>
    (('x, 'v) fold_window_logic, 'v, 'x, 'x) window_logic_ops" where
  "fold_ops pynone b f =
     \<lparr>wl_with_next = fold_with_next, wl_snapshot = fold_snapshot pynone,
      wl_builder = fold_window_new pynone b f\<rparr>"

section \<open>The driver\<close>

record ('c, 'w, 'a) window_stateful_logic =
  clock' :: 'c
  windower' :: 'w
  current_state :: "(wkey, 'a) btree"

type_synonym ('v, 'r) window_output = "'v window_error + window_metadata \<times> 'r"

text \<open>
  \<^verbatim>\<open>WindowStatefulLogic::builder\<close>; the snapshot is the dict with the three parts.
\<close>

record ('p, 'u, 'q) window_snap =
  snap_clock :: 'p
  snap_windower :: 'u
  snap_logic :: "(wkey, 'q) btree"

definition window_builder ::
  "('p option \<Rightarrow> 'c res) \<Rightarrow> ('u option \<Rightarrow> 'w res) \<Rightarrow> ('q option \<Rightarrow> 'a) \<Rightarrow>
    ('p, 'u, 'q) window_snap option \<Rightarrow> ('c, 'w, 'a) window_stateful_logic res" where
  "window_builder clock_builder windower_builder logic_builder resume =
     (let (cs, ws, ls) = (case resume of
          Some st \<Rightarrow> (Some (snap_clock st), Some (snap_windower st), snap_logic st)
        | None \<Rightarrow> (None, None, []))
      in ebind (clock_builder cs) (\<lambda>c. ebind (windower_builder ws) (\<lambda>w.
         Inr \<lparr>clock' = c, windower' = w,
              current_state = bt_extend [] (map (\<lambda>(k, st). (k, logic_builder (Some st))) ls)\<rparr>)))"

text \<open>The body of the loop over the windower's verdicts on an item.\<close>

fun deliver ::
  "'w windower_ops \<Rightarrow> ('a, 'v, 'r, 'q) window_logic_ops \<Rightarrow> 'w \<Rightarrow> 'v \<Rightarrow> time \<Rightarrow>
    (wkey, 'a) btree \<times> ('v, 'r) window_output list \<Rightarrow> insert_error + wkey \<Rightarrow>
    ((wkey, 'a) btree \<times> ('v, 'r) window_output list) res" where
  "deliver W L w v t (cs, out) (Inl (Late k)) = Inr (cs, out @ [Inl (LateValue v)])"
| "deliver W L w v t (cs, out) (Inr k) =
     (let logic = (case bt_get cs k of Some l \<Rightarrow> l | None \<Rightarrow> wl_builder L None)
      in ebind (expect ''No window metadata found'' (w_get_metadata W w k)) (\<lambda>metadata.
         ebind (wl_with_next L logic (Some (v, t))) (\<lambda>(logic', os).
         Inr (bt_insert k logic' cs, out @ map (\<lambda>o'. Inr (metadata, o')) os))))"

text \<open>The body of the loop over the windows that closed.\<close>

fun close_window ::
  "('a, 'v, 'r, 'q) window_logic_ops \<Rightarrow> (wkey, 'a) btree \<times> ('v, 'r) window_output list \<Rightarrow>
    wkey \<times> window_metadata \<Rightarrow> ((wkey, 'a) btree \<times> ('v, 'r) window_output list) res" where
  "close_window L (cs, out) (k, metadata) =
     ebind (expect ''No logic for closed window'' (bt_get cs k)) (\<lambda>logic.
     ebind (wl_with_next L logic None) (\<lambda>(logic', os).
     Inr (bt_remove k cs, out @ map (\<lambda>o'. Inr (metadata, o')) os)))"

text \<open>The first half of \<^verbatim>\<open>on_awake\<close>: an incoming value goes to its windows.\<close>

definition take_item ::
  "('c, 'v) clock_ops \<Rightarrow> 'w windower_ops \<Rightarrow> ('a, 'v, 'r, 'q) window_logic_ops \<Rightarrow>
    ('c, 'w, 'a) window_stateful_logic \<Rightarrow> time \<Rightarrow> time \<Rightarrow> 'v poll \<Rightarrow>
    (('c, 'w, 'a) window_stateful_logic \<times> ('v, 'r) window_output list) res" where
  "take_item C W L s watermark now' next_value = (case next_value of
       Ready (Some v) \<Rightarrow>
         ebind (c_time_for C (clock' s) now' v) (\<lambda>(c, item_time).
         ebind (w_insert W (windower' s) watermark item_time) (\<lambda>(w, rs).
         emap (\<lambda>(cs, out). (\<lparr>clock' = c, windower' = w, current_state = cs\<rparr>, out))
           (efold (deliver W L w v item_time) (current_state s, []) rs)))
     | _ \<Rightarrow> Inr (s, []))"

text \<open>The second half: the windows that closed emit and are dropped.\<close>

definition close_closed ::
  "'w windower_ops \<Rightarrow> ('a, 'v, 'r, 'q) window_logic_ops \<Rightarrow> time \<Rightarrow>
    ('c, 'w, 'a) window_stateful_logic \<times> ('v, 'r) window_output list \<Rightarrow>
    (('c, 'w, 'a) window_stateful_logic \<times> ('v, 'r) window_output list) res" where
  "close_closed W L watermark = (\<lambda>(s, out).
     let (w, closed) = w_drain_closed W (windower' s) watermark
     in emap (\<lambda>(cs, out'). (s\<lparr>windower' := w, current_state := cs\<rparr>, out'))
          (efold (close_window L) (current_state s, out) closed))"

text \<open>
  \<^verbatim>\<open>on_awake\<close>; the clock may read the system time twice, for the watermark and for the item.
\<close>

definition window_on_awake ::
  "('c, 'v) clock_ops \<Rightarrow> 'w windower_ops \<Rightarrow> ('a, 'v, 'r, 'q) window_logic_ops \<Rightarrow>
    ('c, 'w, 'a) window_stateful_logic \<Rightarrow> time \<times> time \<Rightarrow> 'v poll \<Rightarrow>
    (('c, 'w, 'a) window_stateful_logic \<times> ('v, 'r) window_output list) res" where
  "window_on_awake C W L s = (\<lambda>(now, now') next_value.
     ebind (c_watermark C (clock' s) now next_value) (\<lambda>(c, watermark).
     ebind (take_item C W L (s\<lparr>clock' := c\<rparr>) watermark now' next_value)
       (close_closed W L watermark)))"

definition window_fate :: "'w windower_ops \<Rightarrow> ('c, 'w, 'a) window_stateful_logic \<Rightarrow> logic_fate" where
  "window_fate W s = (if w_is_empty W (windower' s) then Discard else Retain)"

definition window_next_awake ::
  "'w windower_ops \<Rightarrow> ('c, 'w, 'a) window_stateful_logic \<Rightarrow> time option" where
  "window_next_awake W s = w_next_close W (windower' s)"

definition window_snapshot ::
  "('c \<Rightarrow> 'p) \<Rightarrow> ('w \<Rightarrow> 'u) \<Rightarrow> ('a, 'v, 'r, 'q) window_logic_ops \<Rightarrow>
    ('c, 'w, 'a) window_stateful_logic \<Rightarrow> ('p, 'u, 'q) window_snap" where
  "window_snapshot clock_snap windower_snap L s =
     \<lparr>snap_clock = clock_snap (clock' s), snap_windower = windower_snap (windower' s),
      snap_logic = bt_extend [] (map (\<lambda>(k, l). (k, wl_snapshot L l)) (current_state s))\<rparr>"

text \<open>The driver as a \<^verbatim>\<open>StatefulLogic\<close>.\<close>

definition window_ops ::
  "('c, 'v) clock_ops \<Rightarrow> ('p option \<Rightarrow> 'c res) \<Rightarrow> ('c \<Rightarrow> 'p) \<Rightarrow>
    'w windower_ops \<Rightarrow> ('u option \<Rightarrow> 'w res) \<Rightarrow> ('w \<Rightarrow> 'u) \<Rightarrow> ('a, 'v, 'r, 'q) window_logic_ops \<Rightarrow>
    (('c, 'w, 'a) window_stateful_logic, time \<times> time, 'v, ('v, 'r) window_output,
     ('p, 'u, 'q) window_snap) stateful_logic_ops" where
  "window_ops C cb csnap W wb wsnap L =
     \<lparr>sl_on_awake = window_on_awake C W L, sl_fate = window_fate W,
      sl_next_awake = window_next_awake W, sl_snapshot = window_snapshot csnap wsnap L,
      sl_builder = window_builder cb wb (wl_builder L)\<rparr>"

section \<open>The driver against the contracts\<close>

locale window_logic =
  fixes L :: "('a, 'v, 'r, 'q) window_logic_ops" and linv :: "'a \<Rightarrow> bool" and ok :: "'v \<Rightarrow> bool"
  assumes logic_new: "linv (wl_builder L None)"
    and with_next_total: "linv l \<Longrightarrow> (\<forall>v t. nv = Some (v, t) \<longrightarrow> ok v) \<Longrightarrow>
      \<exists>l' os. wl_with_next L l nv = Inr (l', os) \<and> linv l'"

text \<open>Every logic of a map of logics is good.\<close>

definition logics_ok :: "('a \<Rightarrow> bool) \<Rightarrow> (wkey, 'a) btree \<Rightarrow> bool" where
  "logics_ok linv cs \<longleftrightarrow> bt_wf cs \<and> (\<forall>k l. bt_get cs k = Some l \<longrightarrow> linv l)"

locale window_driver = windower W winv + total_clock C ctot okn ok + window_logic L linv ok
  for W :: "'w windower_ops" and winv and C :: "('c, 'v) clock_ops" and ctot okn ok
    and L :: "('a, 'v, 'r, 'q) window_logic_ops" and linv
begin

definition driver_inv :: "('c, 'w, 'a) window_stateful_logic \<Rightarrow> bool" where
  "driver_inv s \<longleftrightarrow> winv (windower' s) \<and> ctot (clock' s) \<and> logics_ok linv (current_state s) \<and>
     tracked W (windower' s) \<subseteq> fst ` set (current_state s)"

text \<open>How one activation moves the windower and the keys the driver has logics for.\<close>

definition key_step ::
  "('c, 'w, 'a) window_stateful_logic \<Rightarrow> ('c, 'w, 'a) window_stateful_logic \<Rightarrow> bool" where
  "key_step s s' \<longleftrightarrow> (\<exists>w ks wm ds.
     (w = windower' s \<and> ks = {} \<or>
      (\<exists>wm' t rs. w_insert W (windower' s) wm' t = Inr (w, rs) \<and> ks = ok_keys rs)) \<and>
     winv w \<and> w_drain_closed W w wm = (windower' s', ds) \<and>
     fst ` set (current_state s') = fst ` set (current_state s) \<union> ks - fst ` set ds)"

lemma deliver_one:
  assumes "logics_ok linv cs" and "ok v" and "ok_keys [r] \<subseteq> tracked W w"
  shows "\<exists>cs' out'. deliver W L w v t (cs, out) r = Inr (cs', out') \<and> logics_ok linv cs' \<and>
    fst ` set cs' = fst ` set cs \<union> ok_keys [r]"
proof (cases r)
  case (Inl e)
  then show ?thesis using assms(1) by (cases e) simp
next
  case (Inr k)
  from assms(3) Inr obtain m where m: "w_get_metadata W w k = Some m" by (auto simp: tracked_def)
  let ?l = "case bt_get cs k of Some l \<Rightarrow> l | None \<Rightarrow> wl_builder L None"
  have "linv ?l" using assms(1) logic_new by (auto simp: logics_ok_def split: option.splits)
  then obtain l' os where l': "wl_with_next L ?l (Some (v, t)) = Inr (l', os)" "linv l'"
    using with_next_total [of ?l "Some (v, t)"] assms(2) by auto
  have "deliver W L w v t (cs, out) r = Inr (bt_insert k l' cs, out @ map (\<lambda>o'. Inr (m, o')) os)"
    using m l' by (simp add: Inr)
  moreover have "logics_ok linv (bt_insert k l' cs)" using assms(1) l'(2) by (simp add: logics_ok_def)
  ultimately show ?thesis by (simp add: Inr)
qed

lemma deliver_all:
  assumes "logics_ok linv cs" and "ok v" and "ok_keys rs \<subseteq> tracked W w"
  shows "\<exists>cs' out'. efold (deliver W L w v t) (cs, out) rs = Inr (cs', out') \<and> logics_ok linv cs' \<and>
    fst ` set cs' = fst ` set cs \<union> ok_keys rs"
  using assms
proof (induction rs arbitrary: cs out)
  case Nil
  then show ?case by simp
next
  case (Cons r rs)
  have sub: "ok_keys [r] \<subseteq> tracked W w" "ok_keys rs \<subseteq> tracked W w"
    using Cons.prems(3) by (cases r; simp)+
  from deliver_one [OF Cons.prems(1,2) sub(1)] obtain cs1 out1 where
    d: "deliver W L w v t (cs, out) r = Inr (cs1, out1)" "logics_ok linv cs1"
      "fst ` set cs1 = fst ` set cs \<union> ok_keys [r]" by blast
  from Cons.IH [OF d(2) Cons.prems(2) sub(2), of out1] obtain cs' out' where
    "efold (deliver W L w v t) (cs1, out1) rs = Inr (cs', out')" "logics_ok linv cs'"
    "fst ` set cs' = fst ` set cs1 \<union> ok_keys rs" by blast
  moreover have "ok_keys (r # rs) = ok_keys [r] \<union> ok_keys rs" by (cases r) simp_all
  ultimately show ?case using d by auto
qed

lemma close_all:
  assumes "logics_ok linv cs" and "distinct (map fst ds)" and "fst ` set ds \<subseteq> fst ` set cs"
  shows "\<exists>cs' out'. efold (close_window L) (cs, out) ds = Inr (cs', out') \<and> logics_ok linv cs' \<and>
    fst ` set cs' = fst ` set cs - fst ` set ds"
  using assms
proof (induction ds arbitrary: cs out)
  case Nil
  then show ?case by simp
next
  case (Cons d ds)
  obtain k m where d: "d = (k, m)" by fastforce
  from Cons.prems(3) have "k \<in> dom (bt_get cs)" by (simp add: d flip: bt_dom)
  then obtain l where l: "bt_get cs k = Some l" by blast
  with Cons.prems(1) have "linv l" by (simp add: logics_ok_def)
  with with_next_total [of l None] obtain l' os where l': "wl_with_next L l None = Inr (l', os)" by auto
  let ?cs = "bt_remove k cs"
  have "logics_ok linv ?cs" using Cons.prems(1) by (simp add: logics_ok_def)
  moreover have "fst ` set ds \<subseteq> fst ` set ?cs"
    using Cons.prems(2,3) by (force simp: d)
  ultimately obtain cs' out' where
    "efold (close_window L) (?cs, out @ map (\<lambda>o'. Inr (m, o')) os) ds = Inr (cs', out')"
    "logics_ok linv cs'" "fst ` set cs' = fst ` set ?cs - fst ` set ds"
    using Cons.IH [of ?cs "out @ map (\<lambda>o'. Inr (m, o')) os"] Cons.prems(2) by auto
  with l l' show ?case by (auto simp: d)
qed

text \<open>
  The driver never panics, and keeps a logic for every window the windower tracks: \<open>keys\<close> says
  which logics it keeps.
\<close>

lemma on_awake_total:
  assumes inv: "driver_inv s" and okn: "okn (fst e)" and v: "\<forall>v. p = Ready (Some v) \<longrightarrow> ok v"
  shows "\<exists>s' out. window_on_awake C W L s e p = Inr (s', out) \<and> driver_inv s' \<and>
    key_step s s'"
proof -
  obtain now now' where e: "e = (now, now')" by fastforce
  from inv okn v watermark_total [of "clock' s" now p] obtain c wm where
    wm: "c_watermark C (clock' s) now p = Inr (c, wm)" and c: "ctot c"
    by (auto simp: e driver_inv_def)
  have cs: "logics_ok linv (current_state s)" and tr: "tracked W (windower' s) \<subseteq> fst ` set (current_state s)"
    and w: "winv (windower' s)" using inv by (simp_all add: driver_inv_def)
  let ?s = "s\<lparr>clock' := c\<rparr>"
  obtain c' w' cs' out ks where
    ins: "take_item C W L ?s wm now' p = Inr (\<lparr>clock' = c', windower' = w', current_state = cs'\<rparr>, out)"
    and c': "ctot c'" and w': "winv w'" and cs': "logics_ok linv cs'" and tr': "tracked W w' \<subseteq> fst ` set cs'"
    and ks: "w' = windower' s \<and> ks = {} \<or>
      (\<exists>wm' t rs. w_insert W (windower' s) wm' t = Inr (w', rs) \<and> ks = ok_keys rs)"
      "fst ` set cs' = fst ` set (current_state s) \<union> ks"
  proof (cases "\<exists>v. p = Ready (Some v)")
    case True
    then obtain v where p: "p = Ready (Some v)" by blast
    with \<open>\<forall>v. p = Ready (Some v) \<longrightarrow> ok v\<close> have "ok v" by simp
    from time_for_total [OF c this, of now'] obtain c1 t where
      t: "c_time_for C c now' v = Inr (c1, t)" "ctot c1" by blast
    from insert_total [OF w, of wm t] obtain w1 rs where
      i: "w_insert W (windower' s) wm t = Inr (w1, rs)" "winv w1" by blast
    from deliver_all [OF cs \<open>ok v\<close> insert_tracks [OF w i(1)], of t "[]"] obtain cs1 out1 where
      d: "efold (deliver W L w1 v t) (current_state s, []) rs = Inr (cs1, out1)" "logics_ok linv cs1"
        "fst ` set cs1 = fst ` set (current_state s) \<union> ok_keys rs" by blast
    have "tracked W w1 \<subseteq> fst ` set cs1" using insert_new [OF w i(1)] tr d(3) by blast
    have ex: "w1 = windower' s \<and> ok_keys rs = {} \<or>
      (\<exists>wm' t rs'. w_insert W (windower' s) wm' t = Inr (w1, rs') \<and> ok_keys rs = ok_keys rs')"
      using i(1) by blast
    show thesis
      by (rule that [of c1 w1 cs1 out1 "ok_keys rs", OF _ t(2) i(2) d(2) _ ex d(3)])
        (use t i d \<open>tracked W w1 \<subseteq> fst ` set cs1\<close> in \<open>simp_all add: p take_item_def\<close>)
  next
    case False
    with c w cs tr show thesis
      by (intro that [of c "windower' s" "current_state s" "[]" "{}"])
        (auto simp: take_item_def split: poll.splits option.splits)
  qed
  obtain w2 ds where dr: "w_drain_closed W w' wm = (w2, ds)" by fastforce
  from drain_keys_tracked [OF w' dr] tr' have "fst ` set ds \<subseteq> fst ` set cs'" by blast
  from close_all [OF cs' drain_distinct [OF w' dr] this, of out] obtain cs2 out2 where
    cl: "efold (close_window L) (cs', out) ds = Inr (cs2, out2)" "logics_ok linv cs2"
      "fst ` set cs2 = fst ` set cs' - fst ` set ds" by blast
  have "driver_inv \<lparr>clock' = c', windower' = w2, current_state = cs2\<rparr>"
    using drain_inv [OF w', of wm] drain_tracked [OF w' dr] dr c' cl(2,3) tr'
    by (auto simp: driver_inv_def)
  moreover have "window_on_awake C W L s e p =
      Inr (\<lparr>clock' = c', windower' = w2, current_state = cs2\<rparr>, out2)"
    using wm ins dr cl(1) by (simp add: window_on_awake_def close_closed_def e)
  moreover have "key_step s \<lparr>clock' = c', windower' = w2, current_state = cs2\<rparr>"
    unfolding key_step_def
    by (rule exI [of _ w'], rule exI [of _ ks], rule exI [of _ wm], rule exI [of _ ds])
      (use ks(1) w' dr in \<open>simp add: cl(3) ks(2)\<close>)
  ultimately show ?thesis by blast
qed

lemma run_total:
  assumes "driver_inv s" and "\<forall>(e, p) \<in> set evs. okn (fst e) \<and> (\<forall>v. p = Ready (Some v) \<longrightarrow> ok v)"
    and "\<And>s s'. driver_inv s \<Longrightarrow> Q s \<Longrightarrow> key_step s s' \<Longrightarrow> Q s'" and "Q s"
  shows "\<exists>s' out. logic_run (window_ops C cb csnap W wb wsnap L) s evs = Inr (s', out) \<and>
    driver_inv s' \<and> Q s'"
  using assms(1,2,4)
proof (induction evs arbitrary: s)
  case Nil
  then show ?case by simp
next
  case (Cons ev evs)
  obtain e p where ev: "ev = (e, p)" by fastforce
  with Cons.prems on_awake_total [of s e p] obtain s1 out1 where
    a: "window_on_awake C W L s e p = Inr (s1, out1)" "driver_inv s1" "key_step s s1" by auto
  from Cons.IH [OF a(2)] Cons.prems(2) assms(3) [OF Cons.prems(1,3) a(3)] obtain s' out where
    "logic_run (window_ops C cb csnap W wb wsnap L) s1 evs = Inr (s', out)" "driver_inv s'" "Q s'"
    by auto
  with a show ?case by (simp add: ev window_ops_def)
qed

text \<open>A key is discarded exactly when no window is open; then there is no time to wake up at.\<close>

lemma fate_iff: "driver_inv s \<Longrightarrow> window_fate W s = Discard \<longleftrightarrow> tracked W (windower' s) = {}"
  by (simp add: window_fate_def driver_inv_def is_empty_tracked)

lemma fate_next_awake:
  "driver_inv s \<Longrightarrow> window_fate W s = Discard \<longleftrightarrow> window_next_awake W s = None"
  by (simp add: window_fate_def window_next_awake_def driver_inv_def next_close_empty)

end

text \<open>
  Over a windower that forgets nothing, the driver has a logic for exactly the open windows: no
  logic outlives its window.
\<close>

locale keeping_window_driver = window_driver W winv C ctot okn ok L linv + keeping_windower W winv
  for W :: "'w windower_ops" and winv and C :: "('c, 'v) clock_ops" and ctot okn ok
    and L :: "('a, 'v, 'r, 'q) window_logic_ops" and linv
begin

definition exact :: "('c, 'w, 'a) window_stateful_logic \<Rightarrow> bool" where
  "exact s \<longleftrightarrow> fst ` set (current_state s) = tracked W (windower' s)"

lemma key_step_exact:
  assumes "driver_inv s" and "exact s" and "key_step s s'"
  shows "exact s'"
proof -
  from assms(3) obtain w ks wm ds where
    w: "w = windower' s \<and> ks = {} \<or>
      (\<exists>wm' t rs. w_insert W (windower' s) wm' t = Inr (w, rs) \<and> ks = ok_keys rs)"
    and wi: "winv w" and dr: "w_drain_closed W w wm = (windower' s', ds)"
    and keys: "fst ` set (current_state s') = fst ` set (current_state s) \<union> ks - fst ` set ds"
    unfolding key_step_def by (elim exE conjE) (rule that)
  have winv_s: "winv (windower' s)" using assms(1) by (simp add: driver_inv_def)
  from w have "tracked W w = tracked W (windower' s) \<union> ks"
  proof
    assume "w = windower' s \<and> ks = {}"
    then show ?thesis by simp
  next
    assume "\<exists>wm' t rs. w_insert W (windower' s) wm' t = Inr (w, rs) \<and> ks = ok_keys rs"
    then obtain wm' t rs where "w_insert W (windower' s) wm' t = Inr (w, rs)" "ks = ok_keys rs"
      by blast
    with insert_tracked_eq [OF winv_s this(1)] show ?thesis by simp
  qed
  with drain_tracked [OF wi dr] keys assms(2) show ?thesis by (simp add: exact_def)
qed

end

section \<open>Drivers with related window logics\<close>

text \<open>
  Two window logics that agree step by step give drivers that emit the same output. \<open>rel_res\<close>
  relates results: the same panic, or related states and equal output.
\<close>

abbreviation rel_res :: "('a \<Rightarrow> 'b \<Rightarrow> bool) \<Rightarrow> ('a \<times> 'r) res \<Rightarrow> ('b \<times> 'r) res \<Rightarrow> bool" where
  "rel_res R \<equiv> rel_sum (=) (rel_prod R (=))"

abbreviation rel_logics :: "('a \<Rightarrow> 'b \<Rightarrow> bool) \<Rightarrow> (wkey, 'a) btree \<Rightarrow> (wkey, 'b) btree \<Rightarrow> bool" where
  "rel_logics R \<equiv> list_all2 (rel_prod (=) R)"

lemma rel_get: "rel_logics R cs hs \<Longrightarrow> rel_option R (bt_get cs k) (bt_get hs k)"
  by (induction rule: list_all2_induct) auto

lemma rel_insert: "rel_logics R cs hs \<Longrightarrow> R l h \<Longrightarrow> rel_logics R (bt_insert k l cs) (bt_insert k h hs)"
  by (induction rule: list_all2_induct) auto

lemma rel_remove: "rel_logics R cs hs \<Longrightarrow> rel_logics R (bt_remove k cs) (bt_remove k hs)"
  by (induction rule: list_all2_induct) (auto simp: bt_remove_def)

lemma rel_res_bind:
  assumes "rel_res R m n" and "\<And>x y z. R x y \<Longrightarrow> rel_res Q (f (x, z)) (g (y, z))"
  shows "rel_res Q (ebind m f) (ebind n g)"
  using assms by (cases m; cases n) auto

lemma rel_res_efold:
  assumes "\<And>s t x out. R s t \<Longrightarrow> rel_res R (f (s, out) x) (g (t, out) x)" and "R s t"
  shows "rel_res R (efold f (s, out) xs) (efold g (t, out) xs)"
  using assms(2)
proof (induction xs arbitrary: s t out)
  case Nil
  then show ?case by simp
next
  case (Cons x xs)
  show ?case unfolding efold.simps
    by (rule rel_res_bind [OF assms(1) [OF Cons.prems]]) (rule Cons.IH)
qed

definition rel_drivers ::
  "('a \<Rightarrow> 'b \<Rightarrow> bool) \<Rightarrow> ('c, 'w, 'a) window_stateful_logic \<Rightarrow> ('c, 'w, 'b) window_stateful_logic \<Rightarrow> bool" where
  "rel_drivers R s t \<longleftrightarrow> clock' s = clock' t \<and> windower' s = windower' t \<and>
     rel_logics R (current_state s) (current_state t)"

lemma rel_deliver:
  assumes new: "R (wl_builder L None) (wl_builder H None)"
    and step: "\<forall>l h nv. R l h \<longrightarrow> rel_res R (wl_with_next L l nv) (wl_with_next H h nv)"
    and cs: "rel_logics R cs hs"
  shows "rel_res (rel_logics R) (deliver W L w v t (cs, out) r) (deliver W H w v t (hs, out) r)"
proof (cases r)
  case (Inl e)
  with cs show ?thesis by (cases e) simp
next
  case (Inr k)
  let ?l = "case bt_get cs k of Some l \<Rightarrow> l | None \<Rightarrow> wl_builder L None"
  let ?h = "case bt_get hs k of Some l \<Rightarrow> l | None \<Rightarrow> wl_builder H None"
  have "R ?l ?h" using rel_get [OF cs, of k] new by (auto split: option.splits)
  with step have "rel_res R (wl_with_next L ?l (Some (v, t))) (wl_with_next H ?h (Some (v, t)))" by blast
  then show ?thesis
    by (cases "w_get_metadata W w k") (auto simp: Inr ebind_def rel_insert [OF cs] split: sum.splits)
qed

lemma rel_close:
  assumes step: "\<forall>l h nv. R l h \<longrightarrow> rel_res R (wl_with_next L l nv) (wl_with_next H h nv)"
    and cs: "rel_logics R cs hs"
  shows "rel_res (rel_logics R) (close_window L (cs, out) d) (close_window H (hs, out) d)"
proof -
  obtain k m where d: "d = (k, m)" by fastforce
  show ?thesis
  proof (cases "bt_get cs k")
    case None
    with rel_get [OF cs, of k] show ?thesis by (simp add: d)
  next
    case (Some l)
    with rel_get [OF cs, of k] obtain h where h: "bt_get hs k = Some h" "R l h"
      by (auto simp: option_rel_Some1)
    from step h(2) have "rel_res R (wl_with_next L l None) (wl_with_next H h None)" by blast
    with Some h(1) show ?thesis
      by (auto simp: d ebind_def rel_remove [OF cs] split: sum.splits)
  qed
qed

lemma rel_take_item:
  assumes new: "R (wl_builder L None) (wl_builder H None)"
    and step: "\<forall>l h nv. R l h \<longrightarrow> rel_res R (wl_with_next L l nv) (wl_with_next H h nv)"
    and st: "rel_drivers R s t"
  shows "rel_res (rel_drivers R) (take_item C W L s wm now' p) (take_item C W H t wm now' p)"
proof (cases "\<exists>v. p = Ready (Some v)")
  case True
  then obtain v where p: "p = Ready (Some v)" by blast
  have eqs: "clock' s = clock' t" "windower' s = windower' t"
    and cs: "rel_logics R (current_state s) (current_state t)"
    using st by (simp_all add: rel_drivers_def)
  have "rel_res (rel_logics R) (efold (deliver W L w v it) (current_state s, []) rs)
      (efold (deliver W H w v it) (current_state t, []) rs)" for w it rs
    by (intro rel_res_efold rel_deliver [of R, OF new step] cs)
  note del = this
  show ?thesis
  proof (cases "c_time_for C (clock' t) now' v")
    case (Inl x)
    then show ?thesis by (simp add: take_item_def p eqs)
  next
    case (Inr ct)
    obtain c it where ct: "ct = (c, it)" by fastforce
    show ?thesis
    proof (cases "w_insert W (windower' t) wm it")
      case (Inl x)
      with Inr ct show ?thesis by (simp add: take_item_def p eqs)
    next
      case ins: (Inr wr)
      obtain w rs where wr: "wr = (w, rs)" by fastforce
      have "rel_res (rel_drivers R)
         (emap (\<lambda>(cs, out). (\<lparr>clock' = c, windower' = w, current_state = cs\<rparr>, out))
            (efold (deliver W L w v it) (current_state s, []) rs))
         (emap (\<lambda>(cs, out). (\<lparr>clock' = c, windower' = w, current_state = cs\<rparr>, out))
            (efold (deliver W H w v it) (current_state t, []) rs))"
        unfolding emap_def by (rule rel_res_bind [OF del]) (simp add: rel_drivers_def)
      with Inr ct ins wr show ?thesis by (simp add: take_item_def p eqs)
    qed
  qed
next
  case False
  with st show ?thesis by (auto simp: take_item_def split: poll.splits option.splits)
qed

lemma rel_close_closed:
  assumes step: "\<forall>l h nv. R l h \<longrightarrow> rel_res R (wl_with_next L l nv) (wl_with_next H h nv)"
    and st: "rel_drivers R s t"
  shows "rel_res (rel_drivers R) (close_closed W L wm (s, out)) (close_closed W H wm (t, out))"
proof -
  have eqs: "clock' s = clock' t" "windower' s = windower' t"
    and cs: "rel_logics R (current_state s) (current_state t)"
    using st by (simp_all add: rel_drivers_def)
  obtain w ds where d: "w_drain_closed W (windower' t) wm = (w, ds)" by fastforce
  have "rel_res (rel_logics R) (efold (close_window L) (current_state s, out) ds)
      (efold (close_window H) (current_state t, out) ds)"
    by (intro rel_res_efold rel_close [of R, OF step] cs)
  then show ?thesis
    unfolding close_closed_def prod.case eqs d Let_def emap_def
    by (rule rel_res_bind) (simp add: rel_drivers_def eqs)
qed

lemma rel_on_awake:
  assumes new: "R (wl_builder L None) (wl_builder H None)"
    and step: "\<forall>l h nv. R l h \<longrightarrow> rel_res R (wl_with_next L l nv) (wl_with_next H h nv)"
    and st: "rel_drivers R s t"
  shows "rel_res (rel_drivers R) (window_on_awake C W L s e p) (window_on_awake C W H t e p)"
proof -
  obtain now now' where e: "e = (now, now')" by fastforce
  have eq: "clock' s = clock' t" using st by (simp add: rel_drivers_def)
  show ?thesis
  proof (cases "c_watermark C (clock' t) now p")
    case (Inl x)
    then show ?thesis by (simp add: window_on_awake_def e eq)
  next
    case (Inr cw)
    obtain c wm where cw: "cw = (c, wm)" by fastforce
    have st': "rel_drivers R (s\<lparr>clock' := c\<rparr>) (t\<lparr>clock' := c\<rparr>)" using st by (simp add: rel_drivers_def)
    have "rel_res (rel_drivers R)
        (ebind (take_item C W L (s\<lparr>clock' := c\<rparr>) wm now' p) (close_closed W L wm))
        (ebind (take_item C W H (t\<lparr>clock' := c\<rparr>) wm now' p) (close_closed W H wm))"
      by (rule rel_res_bind, rule rel_take_item [of R, OF new step st'])
        (rule rel_close_closed [of R, OF step])
    then show ?thesis by (simp add: window_on_awake_def e eq Inr cw)
  qed
qed

lemma rel_logic_run:
  assumes "\<And>s t e p. Q s t \<Longrightarrow> rel_res Q (sl_on_awake A s e p) (sl_on_awake B t e p)" and "Q s t"
  shows "rel_res Q (logic_run A s evs) (logic_run B t evs)"
  using assms(2)
proof (induction evs arbitrary: s t)
  case Nil
  then show ?case by simp
next
  case (Cons ev evs)
  obtain e p where ev: "ev = (e, p)" by fastforce
  have "rel_res Q (emap (\<lambda>(l'', rs'). (l'', rs @ rs')) (logic_run A s' evs))
      (emap (\<lambda>(l'', rs'). (l'', rs @ rs')) (logic_run B t' evs))" if "Q s' t'" for s' t' rs
    unfolding emap_def by (rule rel_res_bind [OF Cons.IH [OF that]]) simp
  then show ?case unfolding ev logic_run.simps
    by (intro rel_res_bind [OF assms(1) [OF Cons.prems]]) simp
qed

section \<open>The fold as a function of a window's history\<close>

text \<open>
  What folding a window promises: the logic below only remembers the values its window was
  given, in order, and at the close emits their left fold once, or nothing if there were none.
\<close>

definition history_with_next ::
  "'x \<Rightarrow> ('x \<Rightarrow> 'v \<Rightarrow> 'x) \<Rightarrow> 'v list \<Rightarrow> ('v \<times> time) option \<Rightarrow> ('v list \<times> 'x list) res" where
  "history_with_next b f h nv = (case nv of
      Some (v, t) \<Rightarrow> Inr (h @ [v], [])
    | None \<Rightarrow> Inr ([], if h = [] then [] else [foldl f b h]))"

definition history_ops ::
  "'x \<Rightarrow> ('x \<Rightarrow> 'v \<Rightarrow> 'x) \<Rightarrow> ('v list, 'v, 'x, 'v list) window_logic_ops" where
  "history_ops b f = \<lparr>wl_with_next = history_with_next b f, wl_snapshot = (\<lambda>h. h),
     wl_builder = (\<lambda>r. case r of None \<Rightarrow> [] | Some h \<Rightarrow> h)\<rparr>"

definition folds_history ::
  "'x \<Rightarrow> ('x \<Rightarrow> 'v \<Rightarrow> 'x) \<Rightarrow> ('x, 'v) fold_window_logic \<Rightarrow> 'v list \<Rightarrow> bool" where
  "folds_history b f l h \<longleftrightarrow> fw_builder l = Inr b \<and> fw_folder l = (\<lambda>a v. Inr (f a v)) \<and>
     fw_acc l = (if h = [] then None else Some (foldl f b h))"

abbreviation pure_fold ::
  "'x \<Rightarrow> 'x \<Rightarrow> ('x \<Rightarrow> 'v \<Rightarrow> 'x) \<Rightarrow> (('x, 'v) fold_window_logic, 'v, 'x, 'x) window_logic_ops" where
  "pure_fold pynone b f \<equiv> fold_ops pynone (Inr b) (\<lambda>a v. Inr (f a v))"

lemma folds_history_step:
  assumes "folds_history b f l h"
  shows "rel_res (folds_history b f) (wl_with_next (pure_fold pynone b f) l nv)
    (wl_with_next (history_ops b f) h nv)"
  using assms by (cases nv)
    (auto simp: folds_history_def fold_ops_def history_ops_def fold_with_next_def history_with_next_def)

lemma folds_history_new:
  "folds_history b f (wl_builder (pure_fold pynone b f) None) (wl_builder (history_ops b f) None)"
  by (simp add: folds_history_def fold_ops_def history_ops_def fold_window_new_def)

lemma fold_driver_run:
  assumes "rel_drivers (folds_history b f) s t"
  shows "rel_res (rel_drivers (folds_history b f))
    (logic_run (window_ops C cb cs W wb ws (pure_fold pynone b f)) s evs)
    (logic_run (window_ops C cb cs W wb ws (history_ops b f)) t evs)"
proof (rule rel_logic_run [where Q = "rel_drivers (folds_history b f)"])
  show "rel_drivers (folds_history b f) s t" by (rule assms)
next
  show "\<And>s t e p. rel_drivers (folds_history b f) s t \<Longrightarrow> rel_res (rel_drivers (folds_history b f))
      (sl_on_awake (window_ops C cb cs W wb ws (pure_fold pynone b f)) s e p)
      (sl_on_awake (window_ops C cb cs W wb ws (history_ops b f)) t e p)"
    unfolding window_ops_def stateful_logic_ops.select_convs
    by (intro rel_on_awake folds_history_new) (auto intro: folds_history_step)
qed

section \<open>The fold as a window logic; the drivers of the program\<close>

definition fold_inv :: "'x \<Rightarrow> 'x \<Rightarrow> ('x \<Rightarrow> 'v \<Rightarrow> 'x) \<Rightarrow> ('x, 'v) fold_window_logic \<Rightarrow> bool" where
  "fold_inv pynone b f l \<longleftrightarrow> fw_builder l = Inr b \<and> fw_folder l = (\<lambda>a v. Inr (f a v))"

interpretation fold_logic: window_logic "pure_fold pynone b f" "fold_inv pynone b f" "\<lambda>_. True"
  for pynone b f
  by unfold_locales
    (auto simp: fold_inv_def fold_ops_def fold_window_new_def fold_with_next_def split: option.splits)

interpretation sliding_driver: keeping_window_driver sliding_ops sliding_inv "event_ops mn mx"
    "event_total mn mx lo hi a b (\<lambda>_. True)" "\<lambda>now. a \<le> now \<and> now \<le> b" "\<lambda>_. True"
    "pure_fold pynone b0 f" "fold_inv pynone b0 f"
  for mn mx lo hi a b pynone b0 f ..

interpretation session_driver: window_driver "session_ops (sort_key start)" session_inv "event_ops mn mx"
    "event_total mn mx lo hi a b (\<lambda>_. True)" "\<lambda>now. a \<le> now \<and> now \<le> b" "\<lambda>_. True"
    "pure_fold pynone b0 f" "fold_inv pynone b0 f"
  for mn mx lo hi a b pynone b0 f ..

text \<open>\<^verbatim>\<open>fold_window\<close> over sliding windows and over sessions, on event time.\<close>

definition sliding_fold_window where
  "sliding_fold_window mn mx of_py to_py getter wait len off al pynone b f =
     window_ops (event_ops mn mx) (\<lambda>r. Inr (event_clock_builder of_py getter wait r)) (event_snapshot to_py)
       sliding_ops (\<lambda>r. Inr (sliding_builder of_py len off al r)) (sliding_snapshot to_py)
       (fold_ops pynone b f)"

definition session_fold_window where
  "session_fold_window mn mx us of_py to_py getter wait g pynone b f =
     window_ops (event_ops mn mx) (\<lambda>r. Inr (event_clock_builder of_py getter wait r)) (event_snapshot to_py)
       (session_ops us) (session_builder of_py g) (session_windower_snapshot to_py)
       (fold_ops pynone b f)"

text \<open>
  The driver is a \<^verbatim>\<open>StatefulLogic\<close> in the sense of the interface, once its parts can be built.
\<close>

lemma driver_stateful_logic:
  assumes drv: "window_driver W winv C ctot okn ok L linv"
    and "cb None = Inr c0" and "ctot c0" and "wb None = Inr w0" and "winv w0" and "tracked W w0 = {}"
  shows "stateful_logic (window_ops C cb csnap W wb wsnap L)
    (window_driver.driver_inv W winv ctot linv) (\<lambda>e. okn (fst e)) ok"
proof
  show "\<exists>l. sl_builder (window_ops C cb csnap W wb wsnap L) None = Inr l \<and>
      window_driver.driver_inv W winv ctot linv l"
    using assms by (simp add: window_ops_def window_builder_def window_driver.driver_inv_def [OF drv]
        logics_ok_def)
  show "\<And>l e p. window_driver.driver_inv W winv ctot linv l \<Longrightarrow> okn (fst e) \<Longrightarrow>
      (\<forall>v. p = Ready (Some v) \<longrightarrow> ok v) \<Longrightarrow>
      \<exists>l' rs. sl_on_awake (window_ops C cb csnap W wb wsnap L) l e p = Inr (l', rs) \<and>
        window_driver.driver_inv W winv ctot linv l'"
    using window_driver.on_awake_total [OF drv] by (simp add: window_ops_def) blast
qed

text \<open>\<^verbatim>\<open>fold_window\<close> over tumbling windows on system time, of \<open>n + 1\<close> milliseconds.\<close>

interpretation tumbling_system: window_driver sliding_ops sliding_inv "system_ops mx" "\<lambda>_. True" "\<lambda>_. True"
    "\<lambda>_. True" "pure_fold pynone b f" "fold_inv pynone b f" for mx pynone b f ..

interpretation tumbling_logic: stateful_logic
    "window_ops (system_ops mx) (\<lambda>r. Inr (system_clock_builder r)) system_snapshot
       sliding_ops (\<lambda>r. Inr (tumbling_builder id (ns_per_ms * (1 + int n)) al r)) (sliding_snapshot id)
       (pure_fold pynone b f)"
    "tumbling_system.driver_inv pynone b f" "\<lambda>_. True" "\<lambda>_. True"
  for mx n al pynone b f
  by (rule driver_stateful_logic [OF tumbling_system.window_driver_axioms])
    (auto simp: tumbling_builder_def sliding_builder_def sliding_inv_def sliding_tracked
      simp del: distrib_left_numeral)

end
