(* ===== verification/Window_Resumable.thy ===== *)
theory Window_Resumable
  imports Window_Runs Stateful_Unary
begin

text \<open>
  The window fold as a logic that can be resumed: \<^verbatim>\<open>fold_window\<close> over sliding windows on event
  time, whose accumulators are never Python's \<^verbatim>\<open>None\<close>, interprets the locale \<open>resumable_logic\<close> of
  the stateful operator. Its invariant adds to the driver's that the configuration of clock,
  windower and fold is the one it was built with, since a snapshot does not carry it.
\<close>

section \<open>The configuration is constant\<close>

definition sliding_config :: "dur \<Rightarrow> dur \<Rightarrow> time \<Rightarrow> sliding_windower \<Rightarrow> bool" where
  "sliding_config len off al w \<longleftrightarrow> length' w = len \<and> offset w = off \<and> align_to w = al"

lemma sliding_config_insert:
  assumes "sliding_config len off al w" and "w_insert sliding_ops w wm t = Inr (w', rs)"
  shows "sliding_config len off al w'"
proof -
  from assms(2) obtain ws where "efold (insert_step wm) (w, []) ws = Inr (w', rs)"
    by (auto simp: sliding_ops_def sliding_insert_def elim: ebind_InrE)
  then have "(\<lambda>(s, _). sliding_config len off al s) (w', rs)"
  proof (rule efold_invariant)
    show "case (w, []) of (s, _) \<Rightarrow> sliding_config len off al s" using assms(1) by simp
  next
    fix s x s'
    assume "case s of (s, _) \<Rightarrow> sliding_config len off al s" and "insert_step wm s x = Inr s'"
    then show "case s' of (s, _) \<Rightarrow> sliding_config len off al s"
      by (cases s; cases x)
        (auto simp: insert_window_def sliding_config_def emap_eq_Inr_iff split: if_splits option.splits)
  qed
  then show ?thesis by simp
qed

lemma sliding_config_drain:
  "sliding_config len off al w \<Longrightarrow> sliding_config len off al (fst (w_drain_closed sliding_ops w wm))"
  by (simp add: sliding_ops_def sliding_drain_closed_def sliding_config_def split: prod.split)

interpretation sliding_conf: windower sliding_ops "\<lambda>w. sliding_inv w \<and> sliding_config len off al w"
  for len off al
  by (rule windower_conj [OF sliding.windower_axioms]) (auto intro: sliding_config_insert sliding_config_drain)

definition event_config :: "('v \<Rightarrow> time res) \<Rightarrow> dur \<Rightarrow> 'v event_clock \<Rightarrow> bool" where
  "event_config getter w c \<longleftrightarrow> dt_getter c = getter \<and> wait_for_system_duration c = w"

lemma event_config_watermark:
  "event_config getter w c \<Longrightarrow> event_watermark mn mx c now p = Inr (c', wm) \<Longrightarrow> event_config getter w c'"
  by (erule event_watermark_cases) (auto simp: event_config_def)

interpretation event_conf: total_clock "event_ops mn mx"
    "\<lambda>c. event_total mn mx lo hi a b ok c \<and> event_config getter w c" "\<lambda>now. a \<le> now \<and> now \<le> b" ok
  for mn mx lo hi a b ok getter w
proof
  fix c now p
  assume c: "event_total mn mx lo hi a b ok c \<and> event_config getter w c" and n: "a \<le> now \<and> now \<le> b"
    and p: "\<forall>v. p = Ready (Some v) \<longrightarrow> ok v"
  from event_total.watermark_total [OF conjunct1 [OF c] n p] obtain c' wm where
    "c_watermark (event_ops mn mx) c now p = Inr (c', wm)" "event_total mn mx lo hi a b ok c'" by blast
  with c show "\<exists>c' wm. c_watermark (event_ops mn mx) c now p = Inr (c', wm) \<and>
      event_total mn mx lo hi a b ok c' \<and> event_config getter w c'"
    by (auto simp: event_ops_def dest: event_config_watermark)
next
  fix c v now
  assume c: "event_total mn mx lo hi a b ok c \<and> event_config getter w c" and "ok v"
  from event_total.time_for_total [OF conjunct1 [OF c] this(2)] obtain c' t where
    "c_time_for (event_ops mn mx) c now v = Inr (c', t)" "event_total mn mx lo hi a b ok c'" by blast
  with c show "\<exists>c' t. c_time_for (event_ops mn mx) c now v = Inr (c', t) \<and>
      event_total mn mx lo hi a b ok c' \<and> event_config getter w c'"
    by (auto simp: event_ops_def event_time_for_def emap_eq_Inr_iff)
qed

text \<open>A fold whose accumulators are never \<^verbatim>\<open>None\<close>.\<close>

definition some_inv where
  "some_inv b f l \<longleftrightarrow> fold_inv None (Some b) (\<lambda>x v. Some (f x v)) l \<and> fw_acc l \<noteq> Some None"

interpretation some_fold: window_logic "pure_fold None (Some b) (\<lambda>x v. Some (f x v))" "some_inv b f" "\<lambda>_. True"
  for b f
  by unfold_locales
    (auto simp: some_inv_def fold_inv_def fold_ops_def fold_window_new_def fold_with_next_def split: option.splits)

section \<open>The resumable window fold\<close>

lemma some_fold_ok: "window_logic (pure_fold None (Some b) (\<lambda>x v. Some (f x v))) (some_inv b f) ok"
  using some_fold.window_logic_axioms [of b f] unfolding window_logic_def by blast

text \<open>
  Windows of length \<open>len\<close> every \<open>n + 1\<close> milliseconds; event times between \<open>lo\<close> and \<open>lo + h\<close>, system
  times between \<open>a\<close> and \<open>a + d\<close>.
\<close>

definition resumable_fold where
  "resumable_fold g lo h w d n len al b0 f =
     sliding_fold_window (lo - w - int d) (lo + int h - w + int d) id id (\<lambda>v. Inr (g v)) w
       len (ns_per_ms * (1 + int n)) al None (Inr (Some b0)) (\<lambda>x v. Inr (Some (f x v)))"

abbreviation fold_times :: "('v \<Rightarrow> time) \<Rightarrow> time \<Rightarrow> nat \<Rightarrow> 'v \<Rightarrow> bool" where
  "fold_times g lo h v \<equiv> lo \<le> g v \<and> g v \<le> lo + int h"

lemma fold_driver_ok:
  "window_driver sliding_ops (\<lambda>w. sliding_inv w \<and> sliding_config len off al w) (event_ops mn mx)
     (\<lambda>c. event_total mn mx lo hi a b ok c \<and> event_config getter w c) (\<lambda>now. a \<le> now \<and> now \<le> b) ok
     (pure_fold None (Some b0) (\<lambda>x v. Some (f x v))) (some_inv b0 f)"
  by (intro window_driver.intro sliding_conf.windower_axioms event_conf.total_clock_axioms some_fold_ok)

definition fold_state_ok where
  "fold_state_ok g lo h w a d n len al b0 f =
     window_driver.driver_inv sliding_ops (\<lambda>x. sliding_inv x \<and> sliding_config len (ns_per_ms * (1 + int n)) al x)
       (\<lambda>c. event_total (lo - w - int d) (lo + int h - w + int d) lo (lo + int h) a (a + int d) (fold_times g lo h) c \<and>
            event_config (\<lambda>v. Inr (g v)) w c) (some_inv b0 f)"

lemma resumable_fold_logic:
  "stateful_logic (resumable_fold g lo h w d n len al b0 f) (fold_state_ok g lo h w a d n len al b0 f)
     (\<lambda>e. a \<le> fst e \<and> fst e \<le> a + int d) (fold_times g lo h)"
  unfolding resumable_fold_def sliding_fold_window_def fold_state_ok_def
  by (rule driver_stateful_logic [OF fold_driver_ok])
    (auto simp: event_total_def event_config_def event_clock_builder_def sliding_builder_def sliding_inv_def
      sliding_config_def sliding_tracked simp del: distrib_left_numeral)

lemma resumable_fold_rebuild:
  assumes "fold_state_ok g lo h w a d n len al b0 f s"
  shows "sl_builder (resumable_fold g lo h w d n len al b0 f)
    (Some (sl_snapshot (resumable_fold g lo h w d n len al b0 f) s)) = Inr s"
proof -
  let ?off = "ns_per_ms * (1 + int n)"
  from assms have inv: "sliding_inv (windower' s)" "sliding_config len ?off al (windower' s)"
    "event_config (\<lambda>v. Inr (g v)) w (clock' s)" "logics_ok (some_inv b0 f) (current_state s)"
    by (simp_all add: fold_state_ok_def window_driver.driver_inv_def [OF fold_driver_ok])
  have cfg: "length' (windower' s) = len" "offset (windower' s) = ?off" "align_to (windower' s) = al"
    "dt_getter (clock' s) = (\<lambda>v. Inr (g v))" "wait_for_system_duration (clock' s) = w"
    using inv(2,3) by (simp_all add: sliding_config_def event_config_def)
  have wf: "bt_wf (current_state s)" using inv(4) by (simp add: logics_ok_def)
  have "event_clock_builder id (\<lambda>v. Inr (g v)) w (Some (event_snapshot id (clock' s))) = clock' s"
    unfolding cfg(4,5) [symmetric]
    by (cases "clock' s"; cases "max_event_time_system_time (clock' s)")
      (auto simp: event_clock_builder_def event_snapshot_def)
  moreover have "sliding_builder id len ?off al (Some (sliding_snapshot id (windower' s))) = windower' s"
    unfolding cfg(1-3) [symmetric] using inv(1) by (intro sliding_rebuild) (simp_all add: sliding_inv_def)
  moreover have "bt_extend [] (map (\<lambda>(k, st). (k, fold_window_new None (Inr (Some b0)) (\<lambda>x v. Inr (Some (f x v))) (Some st)))
      (bt_extend [] (map (\<lambda>(k, l). (k, fold_snapshot None l)) (current_state s)))) = current_state s"
    using inv(4) by (intro logics_rebuild fold_rebuild)
      (auto simp: logics_ok_def some_inv_def fold_inv_def bt_get_eq_Some_iff)
  ultimately show ?thesis
    by (simp add: resumable_fold_def sliding_fold_window_def window_ops_def window_builder_def window_snapshot_def
        fold_ops_def wf)
qed

interpretation window_fold: resumable_logic "resumable_fold g lo h w d n len al b0 f"
    "fold_state_ok g lo h w a d n len al b0 f" "\<lambda>e. a \<le> fst e \<and> fst e \<le> a + int d" "fold_times g lo h"
  for g lo h w a d n len al b0 f
  by (rule resumable_logic.intro [OF resumable_fold_logic])
    (simp add: resumable_logic_axioms_def resumable_fold_rebuild)

end
