(* ===== verification/Stateful_Runs.thy ===== *)
theory Stateful_Runs
  imports Window_Resumable
begin

text \<open>
  Whole runs of the stateful operator (\<^verbatim>\<open>src/src/operators/stateful_unary.rs\<close>): no run panics, at
  the end of input nothing is left behind, each key is awoken by its own items and times only, the
  snapshots emitted determine the state, and an operator that is loaded with them continues with
  it. The properties hold of every logic that meets its contract (locale \<open>resumable_logic\<close>); their
  witnesses use the window fold of theory \<open>Window_Resumable\<close>.
\<close>

section \<open>Runs\<close>

context resumable_logic
begin

lemma su_run_done:
  "su_done s \<Longrightarrow> \<forall>m \<in> set acts. simplify (su_frontiers m) = None \<Longrightarrow> su_run L this step resume s acts = Inr (s, [], [])"
proof (induction acts)
  case Nil
  then show ?case by simp
next
  case (Cons m acts)
  have "s\<lparr>output_cap := None, change_cap := None\<rparr> = s" using Cons.prems(1) by (cases s) (simp add: su_done_def)
  then have "su_activate L this step resume s m = Inr (s, [], [], None)"
    using Cons.prems by (simp add: su_activate_def su_done_def Let_def is_eof_def)
  with Cons show ?case by simp
qed

lemma su_run_ok:
  assumes "su_inv this lo s" and "su_timely (item_ok ok this) (load_ok L linv this) okenv lo acts"
  shows "\<exists>s' out chg. su_run L this step resume s acts = Inr (s', out, chg) \<and> core_ok linv (core s') \<and>
    (acts \<noteq> [] \<longrightarrow> simplify (su_frontiers (last acts)) = None \<longrightarrow> su_done s') \<and>
    (\<forall>x \<in> set chg. ok_change L linv (sn_change (snd x))) \<and>
    (loads_inbuf s = [] \<and> (\<forall>m \<in> set acts. su_loads m = []) \<longrightarrow>
      (\<forall>store. tracks L store (core s) \<longrightarrow> tracks L (apply_snaps store (map snd chg)) (core s')))"
  using assms
proof (induction acts arbitrary: s lo)
  case Nil
  then show ?case by (simp add: su_inv_def)
next
  case (Cons m acts)
  from su_activate_ok [OF Cons.prems, of step resume] obtain s1 o1 c1 nx where
    a: "su_activate L this step resume s m = Inr (s1, o1, c1, nx)"
    and st: "case simplify (su_frontiers m) of Some f \<Rightarrow> su_inv this f s1 | None \<Rightarrow> su_done s1"
    and ch: "\<forall>x \<in> set c1. ok_change L linv (sn_change (snd x))"
    and tr: "loads_inbuf s = [] \<and> su_loads m = [] \<longrightarrow> loads_inbuf s1 = [] \<and>
      (\<forall>store. tracks L store (core s) \<longrightarrow> tracks L (apply_snaps store (map snd c1)) (core s1))" by blast
  show ?case
  proof (cases "simplify (su_frontiers m)")
    case None
    with st Cons.prems(2) have dn: "su_done s1" and fin: "\<forall>m \<in> set acts. simplify (su_frontiers m) = None" by auto
    have "su_run L this step resume s (m # acts) = Inr (s1, o1, c1)" by (simp add: a su_run_done [OF dn fin])
    moreover have "core_ok linv (core s1)" using dn by (simp add: su_done_def)
    ultimately show ?thesis using dn tr ch by (intro exI [of _ s1] exI [of _ o1] exI [of _ c1]) simp
  next
    case (Some f)
    with st Cons.prems(2) have "su_inv this f s1" and
      t: "su_timely (item_ok ok this) (load_ok L linv this) okenv f acts" by simp_all
    from Cons.IH [OF this] obtain s' o2 c2 where r: "su_run L this step resume s1 acts = Inr (s', o2, c2)"
      "core_ok linv (core s')" "acts \<noteq> [] \<longrightarrow> simplify (su_frontiers (last acts)) = None \<longrightarrow> su_done s'"
      "\<forall>x \<in> set c2. ok_change L linv (sn_change (snd x))"
      "loads_inbuf s1 = [] \<and> (\<forall>m \<in> set acts. su_loads m = []) \<longrightarrow>
        (\<forall>store. tracks L store (core s1) \<longrightarrow> tracks L (apply_snaps store (map snd c2)) (core s'))"
      by (elim exE conjE) (rule that)
    have "su_run L this step resume s (m # acts) = Inr (s', o1 @ o2, c1 @ c2)" using a r(1) by simp
    moreover have "\<forall>store. tracks L store (core s) \<longrightarrow> tracks L (apply_snaps store (map snd (c1 @ c2))) (core s')"
      if "loads_inbuf s = [] \<and> (\<forall>m \<in> set (m # acts). su_loads m = [])"
      using that tr r(5) by (simp add: apply_snaps_append)
    ultimately show ?thesis using r(2-4) ch Some
      by (intro exI [of _ s'] exI [of _ "o1 @ o2"] exI [of _ "c1 @ c2"]) (simp add: ball_Un)
  qed
qed

text \<open>A good state is known from its snapshots.\<close>

lemma key_change_inj:
  assumes "core_ok linv c" and "core_ok linv d" and "key_change L c k = key_change L d k"
  shows "same_key k c d"
proof (cases "bt_get (logics c) k")
  case None
  with assms(3) have d: "bt_get (logics d) k = None" by (simp add: key_change_def split: option.splits)
  have "bt_get (awakes c) k = None" "bt_get (awakes d) k = None"
    using assms(1,2) None d by (auto simp: core_ok_def)
  with None d show ?thesis by (simp add: same_key_def)
next
  case (Some l)
  with assms(3) obtain l' where d: "bt_get (logics d) k = Some l'" "sl_snapshot L l = sl_snapshot L l'"
    "bt_get (awakes c) k = bt_get (awakes d) k"
    by (simp add: key_change_def split: option.splits)
  have "linv l" "linv l'" using assms(1,2) Some d(1) by (auto simp: core_ok_def)
  with d(2) have "l = l'" by (metis rebuild Inr_inject)
  with Some d show ?thesis by (simp add: same_key_def)
qed

text \<open>An epoch in which the changes of a store are loaded into an operator without state.\<close>

lemma su_load_epoch:
  assumes caps: "output_cap s = Some cap" "change_cap s = Some cap" "cap \<le> e"
    and core: "core s = core_new" and buf: "inbuf s = []"
    and loads: "loads_inbuf s = [(e, map (\<lambda>(k, ch). (this, k, ch)) kcs)]" "distinct (map fst kcs)"
    and ok: "\<forall>(k, ch) \<in> set kcs. ok_change L linv ch" and env: "\<forall>i. okenv (env e i)" and f: "e < f"
  shows "\<exists>s'. su_epoch L this step env now (Some f) (s, [], []) e = Inr (s', [], []) \<and> core_ok linv (core s') \<and>
    (\<forall>k. key_change L (core s') k = (case map_of kcs k of None \<Rightarrow> state_change.Discard | Some ch \<Rightarrow> ch))"
proof -
  let ?ls = "map (\<lambda>(k, ch). (this, k, ch)) kcs"
  have down: "downgrade_all e [cap] = Inr [e]" using caps(3) by (simp add: downgrade_all_def cap_downgrade_def)
  have lok: "\<forall>x \<in> set ?ls. load_ok L linv this x" using ok by (auto simp: load_ok_def)
  from su_loads_ok [OF core_ok_new this] obtain c where c: "efold (su_load L this) core_new ?ls = Inr c"
    "core_ok linv c" "\<forall>k. k \<notin> (\<lambda>x. fst (snd x)) ` set ?ls \<longrightarrow> same_key k c core_new"
    "distinct (map (\<lambda>x. fst (snd x)) ?ls) \<longrightarrow> (\<forall>(w, k, ch) \<in> set ?ls. key_change L c k = ch)" by blast
  have keys: "map (\<lambda>x. fst (snd x)) ?ls = map fst kcs" by (simp add: comp_def case_prod_beta)
  have "key_change L c k = (case map_of kcs k of None \<Rightarrow> state_change.Discard | Some ch \<Rightarrow> ch)" for k
  proof (cases "map_of kcs k")
    case None
    then have "k \<notin> set (map (\<lambda>x. fst (snd x)) ?ls)" unfolding keys by (simp add: map_of_eq_None_iff)
    with c(3) have "key_change L c k = key_change L core_new k" by (intro key_change_same) (simp add: image_image)
    with None show ?thesis by (simp add: key_change_def core_new_def)
  next
    case (Some ch)
    then have "(this, k, ch) \<in> set ?ls" by (force dest: map_of_SomeD)
    with c(4) loads(2) Some show ?thesis unfolding keys by auto
  qed
  moreover have "su_epoch L this step env now (Some f) (s, [], []) e =
      Inr (s\<lparr>output_cap := Some e, change_cap := Some e, inbuf := [], core := c, loads_inbuf := []\<rparr>, [], [])"
    using f c(1) by (simp add: su_epoch_def caps down inbuf_remove_def buf loads(1) core su_incoming_def su_awake_list_def
        is_eof_def su_awake_all_def su_snapshots_def core_new_def bt_remove_def)
  ultimately show ?thesis using c(2)
    by (intro exI [of _ "s\<lparr>output_cap := Some e, change_cap := Some e, inbuf := [], core := c, loads_inbuf := []\<rparr>"]) simp
qed

end

section \<open>One key on its own\<close>

text \<open>
  The abstract specification of the operator: a machine per key, which knows its logic and its
  awake time and is given the polls of that key.
\<close>

type_synonym 'l solo_state = "'l option \<times> time option"

fun solo ::
  "('l, 'e, 'v, 'r, 'q) stateful_logic_ops \<Rightarrow> 'l solo_state \<Rightarrow> ('e \<times> 'v poll) list \<Rightarrow>
    ('l solo_state \<times> 'r list) res" where
  "solo L st [] = Inr (st, [])"
| "solo L (lo, na) ((e, p) # evs) =
     ebind (case lo of Some l \<Rightarrow> Inr l | None \<Rightarrow> sl_builder L None) (\<lambda>l.
     ebind (sl_on_awake L l e p) (\<lambda>(l', rs).
     emap (\<lambda>(st, rs'). (st, rs @ rs'))
       (solo L (case sl_fate L l' of logic_fate.Discard \<Rightarrow> (None, None) | Retain \<Rightarrow> (Some l', sl_next_awake L l')) evs)))"

definition at_key :: "('k, 'l) su_core \<Rightarrow> 'k \<Rightarrow> 'l solo_state" where
  "at_key c k = (bt_get (logics c) k, bt_get (awakes c) k)"

text \<open>The polls an epoch has for a key: its items, then the end of input or its awake time.\<close>

definition key_items :: "'k \<Rightarrow> (worker \<times> 'k \<times> 'v) list \<Rightarrow> 'v list" where
  "key_items k items = map (\<lambda>x. snd (snd x)) (filter (\<lambda>x. fst (snd x) = k) items)"

definition key_polls :: "bool \<Rightarrow> time \<Rightarrow> (worker \<times> 'k \<times> 'v) list \<Rightarrow> ('k, 'l) su_core \<Rightarrow> 'k \<Rightarrow> 'v poll list" where
  "key_polls ended now items c k =
     map (\<lambda>v. Ready (Some v)) (key_items k items) @
     (if ended then
        (if key_items k items \<noteq> [] \<or> k \<in> set (awoken c) \<or> bt_get (awakes c) k \<noteq> None then [Ready None] else [])
      else case bt_get (awakes c) k of Some at \<Rightarrow> if at \<le> now then [Pending] else [] | None \<Rightarrow> [])"

fun key_events :: "(nat \<Rightarrow> 'e) \<Rightarrow> nat \<Rightarrow> 'k \<Rightarrow> ('k \<times> 'v poll) list \<Rightarrow> ('e \<times> 'v poll) list" where
  "key_events env i k [] = []"
| "key_events env i k ((k', p) # xs) = (if k' = k then [(env i, p)] else []) @ key_events env (Suc i) k xs"

lemma key_events_polls: "map snd (key_events env i k xs) = map snd (filter (\<lambda>x. fst x = k) xs)"
  by (induction xs arbitrary: i) auto

lemma key_events_env: "x \<in> set (key_events env i k xs) \<Longrightarrow> fst x \<in> range env"
  by (induction xs arbitrary: i) (auto split: if_splits)

lemma solo_append:
  "solo L st (xs @ ys) =
     ebind (solo L st xs) (\<lambda>(st1, rs). emap (\<lambda>(st2, rs'). (st2, rs @ rs')) (solo L st1 ys))"
proof (induction xs arbitrary: st)
  case Nil
  then show ?case by (cases "solo L st ys") auto
next
  case (Cons x xs)
  obtain e p lo na where x: "x = (e, p)" and st: "st = (lo, na)" by (metis prod.exhaust)
  let ?b = "case lo of Some l \<Rightarrow> Inr l | None \<Rightarrow> sl_builder L None"
  show ?case
  proof (cases ?b)
    case b: (Inr l)
    show ?thesis
    proof (cases "sl_on_awake L l e p")
      case (Inr lr)
      obtain l' rs where lr: "lr = (l', rs)" by fastforce
      let ?st = "case sl_fate L l' of logic_fate.Discard \<Rightarrow> (None, None) | Retain \<Rightarrow> (Some l', sl_next_awake L l')"
      show ?thesis
        by (cases "solo L ?st xs") (auto simp: x st b Inr lr Cons.IH emap_def ebind_assoc case_prod_beta)
    qed (simp add: x st b)
  qed (simp add: x st)
qed

lemma su_awake_solo:
  assumes "su_awake L env (i, c, out) (ky, p) = Inr (j, c', out')"
  shows "j = Suc i \<and> (\<exists>rs. out' = out @ map (Pair ky) rs \<and> solo L (at_key c ky) [(env i, p)] = Inr (at_key c' ky, rs)) \<and>
    (\<forall>k. k \<noteq> ky \<longrightarrow> at_key c' k = at_key c k)"
proof -
  from assms obtain l l' rs where
    l: "(case bt_get (logics c) ky of Some l \<Rightarrow> Inr l | None \<Rightarrow> sl_builder L None) = Inr l"
    and a: "sl_on_awake L l (env i) p = Inr (l', rs)"
    by (auto simp: su_awake_def emap_eq_Inr_iff elim!: ebind_InrE)
  show ?thesis
  proof (cases "sl_fate L l'")
    case Retain
    then show ?thesis using assms l a by (auto simp: su_awake_def at_key_def split: option.splits)
  next
    case Discard
    then show ?thesis using assms l a by (auto simp: su_awake_def at_key_def)
  qed
qed

lemma su_awakes_solo:
  "efold (su_awake L env) (i, c, out) xs = Inr (j, c', out') \<Longrightarrow>
    \<exists>os. out' = out @ os \<and>
      solo L (at_key c k) (key_events env i k xs) = Inr (at_key c' k, map snd (filter (\<lambda>x. fst x = k) os))"
proof (induction xs arbitrary: i c out)
  case Nil
  then show ?case by simp
next
  case (Cons x xs)
  obtain ky p where x: "x = (ky, p)" by fastforce
  from Cons.prems obtain j1 c1 out1 where a: "su_awake L env (i, c, out) (ky, p) = Inr (j1, c1, out1)"
    and r: "efold (su_awake L env) (j1, c1, out1) xs = Inr (j, c', out')" by (auto simp: x elim: ebind_InrE)
  from su_awake_solo [OF a] obtain rs where s: "j1 = Suc i" "out1 = out @ map (Pair ky) rs"
    "solo L (at_key c ky) [(env i, p)] = Inr (at_key c1 ky, rs)" "\<forall>k. k \<noteq> ky \<longrightarrow> at_key c1 k = at_key c k" by blast
  from Cons.IH [OF r] obtain os where os: "out' = out1 @ os"
    "solo L (at_key c1 k) (key_events env j1 k xs) = Inr (at_key c' k, map snd (filter (\<lambda>x. fst x = k) os))" by blast
  have f: "filter (\<lambda>x. fst x = k) (map (Pair ky) rs) = (if ky = k then map (Pair ky) rs else [])"
    by (simp add: filter_map comp_def)
  show ?case
  proof (cases "ky = k")
    case True
    have "solo L (at_key c k) ((env i, p) # key_events env (Suc i) k xs) =
      Inr (at_key c' k, rs @ map snd (filter (\<lambda>x. fst x = k) os))"
      using solo_append [of L "at_key c k" "[(env i, p)]" "key_events env (Suc i) k xs"] s os(2) True by simp
    with True s os(1) show ?thesis by (auto simp: x f comp_def simp del: solo.simps)
  next
    case False
    with s os show ?thesis by (auto simp: x f)
  qed
qed

lemma filter_eq_distinct: "distinct xs \<Longrightarrow> filter (\<lambda>x. x = k) xs = (if k \<in> set xs then [k] else [])"
  by (induction xs) auto

lemma filter_key_btree:
  "bt_wf m \<Longrightarrow> filter (\<lambda>x. fst x = k) m = (case bt_get m k of Some v \<Rightarrow> [(k, v)] | None \<Rightarrow> [])"
proof (induction m)
  case (Cons x m)
  then have "fst x = k \<Longrightarrow> bt_get m k = None" by (cases x) (auto simp: bt_wf_Cons map_of_eq_None_iff)
  with Cons show ?case by (cases x) (auto simp: bt_wf_Cons)
qed simp

lemma su_incoming_items:
  "su_incoming this items = Inr incoming \<Longrightarrow>
    incoming = map (\<lambda>x. (fst (snd x), Ready (Some (snd (snd x))))) (case items of None \<Rightarrow> [] | Some ys \<Rightarrow> ys)"
proof -
  have "emapM (\<lambda>(w, k, v). if w = this then Inr (k, Ready (Some v)) else Inl (AssertFail ''worker == this_worker'')) ys = Inr inc
    \<Longrightarrow> inc = map (\<lambda>x. (fst (snd x), Ready (Some (snd (snd x))))) ys" for ys and inc :: "('a \<times> 'b poll) list"
    by (induction ys arbitrary: inc) (auto split: if_splits elim!: ebind_InrE)
  then show "su_incoming this items = Inr incoming \<Longrightarrow> ?thesis" by (simp add: su_incoming_def)
qed

lemma awake_list_polls:
  fixes c :: "('k::linorder, 'l) su_core" and items :: "(worker \<times> 'k \<times> 'v) list option"
  assumes "core_ok P c" and "su_incoming this items = Inr incoming"
    and "su_awake_list ended now incoming c = (c1, xs)"
  shows "map snd (filter (\<lambda>x. fst x = k) xs) = key_polls ended now (case items of None \<Rightarrow> [] | Some ys \<Rightarrow> ys) c k"
proof -
  let ?ys = "case items of None \<Rightarrow> [] | Some ys \<Rightarrow> ys"
  note inc = su_incoming_items [OF assms(2)]
  have wf: "bs_wf (awoken c)" "bt_wf (awakes c)" using assms(1) by (simp_all add: core_ok_def)
  have items: "map snd (filter (\<lambda>x. fst x = k) incoming) = map (\<lambda>v. Ready (Some v)) (key_items k ?ys)"
    by (simp add: inc key_items_def filter_map comp_def)
  show ?thesis
  proof (cases ended)
    case True
    let ?aw = "bs_extend (bs_extend (awoken c) (map fst incoming)) (bt_keys (awakes c))"
    have "distinct ?aw" by (intro bs_wf_distinct bs_wf_extend wf)
    then have f: "filter (\<lambda>x. x = k) ?aw = (if k \<in> set ?aw then [k] else [])" by (rule filter_eq_distinct)
    have "k \<in> set ?aw \<longleftrightarrow> key_items k ?ys \<noteq> [] \<or> k \<in> set (awoken c) \<or> bt_get (awakes c) k \<noteq> None"
      by (force simp: inc key_items_def filter_empty_conv map_of_eq_None_iff)
    note f [unfolded this]
    then have "map snd (filter (\<lambda>x. fst x = k) (map (\<lambda>k. (k, Ready None)) ?aw)) =
      (if key_items k ?ys \<noteq> [] \<or> k \<in> set (awoken c) \<or> bt_get (awakes c) k \<noteq> None then [Ready None :: 'v poll] else [])"
      by (simp only: filter_map comp_def fst_conv) (simp split: if_split)
    moreover have "xs = incoming @ map (\<lambda>k. (k, Ready None)) ?aw"
      using assms(3) True by (simp add: su_awake_list_def Let_def)
    ultimately show ?thesis using True items by (simp only: filter_append map_append key_polls_def if_True)
  next
    case False
    have "filter (\<lambda>x. fst x = k) (filter (\<lambda>(_, at). at \<le> now) (awakes c)) =
      filter (\<lambda>(_, at). at \<le> now) (filter (\<lambda>x. fst x = k) (awakes c))" by (simp add: filter_filter conj_commute)
    then have "filter (\<lambda>x. fst x = k) (map (\<lambda>(k, _). (k, Pending)) (filter (\<lambda>(_, at). at \<le> now) (awakes c))) =
      (case bt_get (awakes c) k of Some at \<Rightarrow> if at \<le> now then [(k, Pending)] else [] | None \<Rightarrow> [])"
      by (simp add: filter_map comp_def case_prod_beta filter_key_btree [OF wf(2)] split: option.split)
    with False assms(3) items show ?thesis
      by (auto simp: su_awake_list_def key_polls_def split: option.splits)
  qed
qed

lemma at_key_same: "same_key k c d \<longleftrightarrow> at_key c k = at_key d k"
  by (simp add: same_key_def at_key_def)

lemma apply_snaps_list: "\<exists>kcs. distinct (map fst kcs) \<and> map_of kcs = apply_snaps Map.empty sns"
  for sns :: "('s, 'k::linorder, 'q key_state) snapshot list"
proof (induction sns rule: rev_induct)
  case Nil
  then show ?case by (intro exI [of _ "[]"]) simp
next
  case (snoc x sns)
  then obtain kcs where "distinct (map fst kcs)" "map_of kcs = apply_snaps Map.empty sns" by blast
  moreover have "sn_key x \<notin> fst ` set (bt_remove (sn_key x) kcs)" by (auto simp: bt_remove_def)
  moreover have "distinct (map fst (bt_remove (sn_key x) kcs))" if "distinct (map fst kcs)"
    using that by (simp add: bt_remove_def distinct_map_filter)
  ultimately show ?case
    by (intro exI [of _ "(sn_key x, sn_change x) # bt_remove (sn_key x) kcs"]) (simp add: apply_snaps_def)
qed

section \<open>Properties\<close>

text \<open>A logic that emits what it is given.\<close>

abbreviation echo_ops :: "(unit, unit, 'v, 'v poll, unit) stateful_logic_ops" where
  "echo_ops \<equiv> \<lparr>sl_on_awake = (\<lambda>l e p. Inr (l, [p])), sl_fate = (\<lambda>l. Retain), sl_next_awake = (\<lambda>l. None),
     sl_snapshot = (\<lambda>l. l), sl_builder = (\<lambda>r. Inr ())\<rparr>"

lemmas su_eval = su_activate_def su_start_def simplify_def simplify_one_def List.map_filter_def Let_def buffer_all_def
  inbuf_extend_def bt_entry_def inbuf_new_def su_epochs_def inbuf_epochs_def su_epoch_def downgrade_all_def
  cap_downgrade_def inbuf_remove_def bt_remove_def su_incoming_def su_awake_list_def core_new_def is_eof_def
  su_awake_all_def su_awake_def su_snapshots_def

text \<open>Claim C12. No run of the stateful operator panics: under Timely's promises, with a logic that
  meets its contract, every run from the start succeeds, through any items, loads, wake-ups and end
  of input, and the maps of logics and awake times stay consistent.\<close>

theorem stateful_never_panics:
  assumes "resumable_logic L linv okenv ok"
    and "su_timely (item_ok ok this) (load_ok L linv this) okenv 0 acts"
  shows "\<exists>s out chg. su_run L this step resume (su_start [0, 0]) acts = Inr (s, out, chg) \<and> core_ok linv (core s)"
  using resumable_logic.su_run_ok [OF assms(1) resumable_logic.su_inv_start [OF assms(1)] assms(2), of step resume] by blast

abbreviation sum_fold where
  "sum_fold \<equiv> resumable_fold (\<lambda>v :: int. v) 0 100 0 10 0 (ms 10) 0 (0 :: int) (\<lambda>x v. the x + v)"

abbreviation sum_fold_ok where
  "sum_fold_ok \<equiv> fold_state_ok (\<lambda>v :: int. v) 0 100 0 0 10 0 (ms 10) 0 (0 :: int) (\<lambda>x v. the x + v)"

text \<open>Two items for key 7, then the end of input.\<close>

abbreviation two_items where
  "two_items \<equiv>
     [\<lparr>su_items = [(0, [(3, 7 :: nat, 5 :: int)])], su_loads = [], su_now = 1, su_env = (\<lambda>_ _. (1, 1)),
       su_frontiers = [[1], [1]]\<rparr>,
      \<lparr>su_items = [(1, [(3, 7, 6)])], su_loads = [], su_now = 2, su_env = (\<lambda>_ _. (2, 2)), su_frontiers = [[], []]\<rparr>]"

theorem stateful_never_panics_witness:
  "\<exists>s out chg. su_run sum_fold 3 ''step'' 0 (su_start [0, 0]) two_items = Inr (s, out, chg) \<and> core_ok sum_fold_ok (core s)"
  by (rule stateful_never_panics [OF window_fold.resumable_logic_axioms [where a = 0]])
    (simp add: simplify_def simplify_one_def List.map_filter_def item_ok_def)



text \<open>Claim C6. There is no interaction across keys: in every epoch, what is emitted for a key and
  the state left for it are those of a machine that knows this key only, run on the key's own items
  in order, followed by the end of input or by the wake-up the key asked for.\<close>

theorem keys_are_independent:
  assumes "core_ok P (core s)" and "output_cap s = Some cap"
    and "su_epoch L this step env now fr (s, out, chg) e = Inr (s', out', chg')"
    and "inbuf_items (loads_inbuf s) e = []"
  shows "\<exists>os evs. out' = out @ map (Pair e) os \<and>
    map snd evs = key_polls (is_eof fr) now (inbuf_items (inbuf s) e) (core s) k \<and> fst ` set evs \<subseteq> range (env e) \<and>
    solo L (at_key (core s) k) evs = Inr (at_key (core s') k, map snd (filter (\<lambda>x. fst x = k) os))"
proof -
  have down: "downgrade_all e [cap] = (if cap \<le> e then Inr [e] else Inl (PanicMsg ''Attempted to downgrade to a time not in the future''))"
    by (simp add: downgrade_all_def cap_downgrade_def)
  have loads: "(case bt_get (loads_inbuf s) e of None \<Rightarrow> [] | Some ls \<Rightarrow> ls) = []"
    using assms(4) by (simp add: inbuf_items_def)
  obtain incoming c1 xs where inc: "su_incoming this (bt_get (inbuf s) e) = Inr incoming"
    and aw: "su_awake_list (is_eof fr) now incoming (core s) = (c1, xs)"
    using assms(2,3) by (auto simp: su_epoch_def down inbuf_remove_def split: if_splits prod.splits elim!: ebind_InrE)
  obtain c2 rs where run: "su_awake_all L (env e) c1 xs = Inr (c2, rs)"
    using assms(2,3) inc aw by (auto simp: su_epoch_def down inbuf_remove_def split: if_splits prod.splits elim!: ebind_InrE)
  have out: "out' = out @ map (Pair e) rs" and st: "at_key (core s') k = at_key c2 k"
    using assms(2,3) inc aw run loads
    by (auto simp: su_epoch_def down inbuf_remove_def su_snapshots_def at_key_def Let_def split: if_splits prod.splits elim!: ebind_InrE)
  from run obtain j where "efold (su_awake L (env e)) (0, c1, []) xs = Inr (j, c2, rs)"
    by (auto simp: su_awake_all_def emap_eq_Inr_iff)
  from su_awakes_solo [OF this] have "solo L (at_key c1 k) (key_events (env e) 0 k xs) = Inr (at_key c2 k, map snd (filter (\<lambda>x. fst x = k) rs))"
    by simp
  moreover have "at_key c1 k = at_key (core s) k"
    using aw by (auto simp: su_awake_list_def Let_def at_key_def split: if_splits)
  moreover have "map snd (key_events (env e) 0 k xs) = key_polls (is_eof fr) now (inbuf_items (inbuf s) e) (core s) k"
    unfolding key_events_polls inbuf_items_def by (rule awake_list_polls [OF assms(1) inc aw])
  moreover have "fst ` set (key_events (env e) 0 k xs) \<subseteq> range (env e)" by (auto dest: key_events_env)
  ultimately show ?thesis using out st
    by (intro exI [of _ rs] exI [of _ "key_events (env e) 0 k xs"]) simp
qed

theorem keys_are_independent_witness:
  "let s = (su_start [0, 0])\<lparr>inbuf := [(1, [(3, 7 :: nat, 5 :: int), (3, 8, 6)])]\<rparr> in
   \<exists>os evs. [(1, 7 :: nat, Ready (Some 5)), (1, 8, Ready (Some 6)), (1, 7, Ready None), (1, 8, Ready None)]
     = [] @ map (Pair (1 :: epoch)) os \<and>
   map snd evs = key_polls (is_eof None) 0 (inbuf_items (inbuf s) 1) (core s) 8 \<and>
   fst ` set evs \<subseteq> range (\<lambda>_ :: nat. ()) \<and>
   solo echo_ops (at_key (core s) 8) evs =
     Inr (at_key (core (s\<lparr>core := \<lparr>logics = [(7, ()), (8, ())], awakes = [], awoken = []\<rparr>\<rparr>)) 8,
       map snd (filter (\<lambda>x. fst x = 8) os))"
proof -
  let ?s = "(su_start [0, 0])\<lparr>inbuf := [(1, [(3, 7 :: nat, 5 :: int), (3, 8, 6)])]\<rparr>"
  have "su_epoch echo_ops 3 ''step'' (\<lambda>_ _. ()) 0 None (?s, [], []) 1 =
    Inr (?s\<lparr>output_cap := Some 1, change_cap := Some 1, inbuf := [],
        core := \<lparr>logics = [(7, ()), (8, ())], awakes = [], awoken = []\<rparr>\<rparr>,
      [(1, 7, Ready (Some 5)), (1, 8, Ready (Some 6)), (1, 7, Ready None), (1, 8, Ready None)],
      [(1, Snapshot ''step'' 7 (Upsert ((), None))), (1, Snapshot ''step'' 8 (Upsert ((), None)))])"
    by (simp add: su_eval key_change_def)
  from keys_are_independent [where P = "\<lambda>_. True" and cap = 0, OF _ _ this, of 8] show ?thesis
    by (simp add: su_start_def inbuf_items_def inbuf_new_def Let_def)
qed

text \<open>Loading a store of changes into a new operator gives every key of it the logic and the awake time of any
  operator the store tracks.\<close>

lemma load_restores:
  assumes L: "resumable_logic L linv okenv ok" and core: "core_ok linv (core s)" and tr: "tracks L store (core s)"
    and d: "distinct (map fst kcs)" and ch: "\<forall>(k, ch) \<in> set kcs. ok_change L linv ch"
    and env: "\<forall>i. okenv (env e i)" and "e < f"
  shows "\<exists>s'. su_epoch L this step env now (Some f)
      ((su_start [0, 0])\<lparr>loads_inbuf := [(e, map (\<lambda>(k, ch). (this, k, ch)) kcs)]\<rparr>, [], []) e = Inr (s', [], []) \<and>
    (\<forall>k. map_of kcs k = store k \<longrightarrow> k \<notin> set (awoken (core s)) \<longrightarrow> at_key (core s') k = at_key (core s) k)"
proof -
  let ?s = "(su_start [0, 0])\<lparr>loads_inbuf := [(e, map (\<lambda>(k, ch). (this, k, ch)) kcs)]\<rparr>"
  have s: "output_cap ?s = Some 0" "change_cap ?s = Some 0" "0 \<le> e" "core ?s = core_new" "inbuf ?s = []"
    "loads_inbuf ?s = [(e, map (\<lambda>(k, ch). (this, k, ch)) kcs)]" by (simp_all add: su_start_def inbuf_new_def)
  from resumable_logic.su_load_epoch [where env = env and e = e and step = step and now = now, OF L s d ch env \<open>e < f\<close>] obtain s' where
    s': "su_epoch L this step env now (Some f) (?s, [], []) e = Inr (s', [], [])" "core_ok linv (core s')"
    "\<forall>k. key_change L (core s') k = (case map_of kcs k of None \<Rightarrow> state_change.Discard | Some ch \<Rightarrow> ch)" by blast
  have "at_key (core s') k = at_key (core s) k" if "map_of kcs k = store k" "k \<notin> set (awoken (core s))" for k
    unfolding at_key_same [symmetric]
    by (rule resumable_logic.key_change_inj [OF L s'(2) core])
      (use tr that in \<open>simp add: s'(3) tracks_def stored_def\<close>)
  with s'(1) show ?thesis by blast
qed

text \<open>Recovery restores the state of one operator: after any run without loads, load the last snapshot
  emitted for each key into a new operator in one epoch; it emits nothing and every key, except
  those awoken in an epoch that was still open, has the logic and the awake time it had.\<close>

theorem resume_restores_state:
  assumes "resumable_logic L linv okenv ok"
    and "su_timely (item_ok ok this) (load_ok L linv this) okenv 0 acts" and "\<forall>m \<in> set acts. su_loads m = []"
    and "su_run L this step resume (su_start [0, 0]) acts = Inr (s, out, chg)"
    and "distinct (map fst kcs)" and "map_of kcs = apply_snaps Map.empty (map snd chg)"
    and "\<forall>i. okenv (env e i)" and "e < f"
  shows "\<exists>s'. su_epoch L this step env now (Some f)
      ((su_start [0, 0])\<lparr>loads_inbuf := [(e, map (\<lambda>(k, ch). (this, k, ch)) kcs)]\<rparr>, [], []) e = Inr (s', [], []) \<and>
    (\<forall>k. k \<notin> set (awoken (core s)) \<longrightarrow> at_key (core s') k = at_key (core s) k)"
proof -
  note inv = resumable_logic.su_inv_start [OF assms(1)]
  have init: "loads_inbuf (su_start [0, 0]) = []" "tracks L Map.empty (core (su_start [0, 0]))"
    by (simp_all add: su_start_def inbuf_new_def tracks_def core_new_def key_change_def stored_def)
  from resumable_logic.su_run_ok [OF assms(1) inv assms(2), of step resume] assms(3,4) init
  have core: "core_ok linv (core s)" and chg: "\<forall>x \<in> set chg. ok_change L linv (sn_change (snd x))"
    and tr: "tracks L (apply_snaps Map.empty (map snd chg)) (core s)" by auto
  have ok: "\<forall>(k, ch) \<in> set kcs. ok_change L linv ch"
  proof clarify
    fix k ch assume "(k, ch) \<in> set kcs"
    then have "apply_snaps Map.empty (map snd chg) k = Some ch" using assms(5,6) by (metis map_of_eq_Some_iff)
    from apply_snaps_Some [OF this] have "\<exists>x \<in> set (map snd chg). sn_change x = ch" by simp
    with chg show "ok_change L linv ch" by auto
  qed
  from load_restores [where env = env and e = e and f = f and this = this and step = step and now = now,
      OF assms(1) core tr assms(5) ok assms(7,8)] show ?thesis using assms(6) by auto
qed

theorem resume_restores_state_witness:
  "\<exists>s out chg kcs s'. su_run sum_fold 3 ''step'' 0 (su_start [0, 0]) two_items = Inr (s, out, chg) \<and>
    su_epoch sum_fold 3 ''step'' (\<lambda>_ _. (3, 3)) 5 (Some 6)
      ((su_start [0, 0])\<lparr>loads_inbuf := [(4, map (\<lambda>(k, ch). (3, k, ch)) kcs)]\<rparr>, [], []) 4 = Inr (s', [], []) \<and>
    at_key (core s') (7 :: nat) = at_key (core s) 7"
proof -
  note res = window_fold.resumable_logic_axioms [where a = 0 and d = 10 and lo = 0 and h = 100 and w = 0 and n = 0
      and len = "ms 10" and al = 0 and ?b0.0 = 0 and g = "\<lambda>v. v" and f = "\<lambda>x v. the x + v"]
  have t: "su_timely (item_ok (fold_times (\<lambda>v. v) 0 100) 3) (load_ok sum_fold sum_fold_ok 3)
      (\<lambda>e. 0 \<le> fst e \<and> fst e \<le> 0 + int 10) 0 two_items"
    by (simp add: simplify_def simplify_one_def List.map_filter_def item_ok_def)
  from resumable_logic.su_run_ok [OF res resumable_logic.su_inv_start [OF res] t, of "''step''" 0]
  obtain s out chg where run: "su_run sum_fold 3 ''step'' 0 (su_start [0, 0]) two_items = Inr (s, out, chg)"
    and fin: "resumable_logic.su_done sum_fold_ok s"
    by (auto simp: simplify_def simplify_one_def List.map_filter_def)
  from fin have "awoken (core s) = []" by (simp add: window_fold.su_done_def)
  moreover obtain kcs where kcs: "distinct (map fst kcs)" "map_of kcs = apply_snaps Map.empty (map snd chg)"
    using apply_snaps_list by blast
  moreover from resume_restores_state [OF res t _ run kcs, of "\<lambda>_ _. (3, 3)" 4 6 5] obtain s' where
    "su_epoch sum_fold 3 ''step'' (\<lambda>_ _. (3, 3)) 5 (Some 6)
      ((su_start [0, 0])\<lparr>loads_inbuf := [(4, map (\<lambda>(k, ch). (3, k, ch)) kcs)]\<rparr>, [], []) 4 = Inr (s', [], [])"
    "\<forall>k. k \<notin> set (awoken (core s)) \<longrightarrow> at_key (core s') k = at_key (core s) k" by auto
  ultimately show ?thesis using run
    by (intro exI [of _ s] exI [of _ out] exI [of _ chg] exI [of _ kcs] exI [of _ s'] conjI) simp_all
qed

text \<open>A key can be given values after its end of input: when the end of input is reached
  with items of two epochs still buffered, the logic of a key (here one that emits what it is given)
  sees its first value, the end, then its second value and the end again.\<close>

theorem eof_then_values:
  "emap (\<lambda>(s, out, _). out)
     (su_activate echo_ops this step 0 (su_start [0, 0])
       \<lparr>su_items = [(1, [(this, k, v)]), (2, [(this, k, v')])], su_loads = [], su_now = t, su_env = (\<lambda>_ _. ()),
        su_frontiers = [[], []]\<rparr>) =
   Inr [(1, k, Ready (Some v)), (1, k, Ready None), (2, k, Ready (Some v')), (2, k, Ready None)]"
  by (simp add: su_eval)

end
