(* ===== verification/Stateful_Load.thy ===== *)
theory Stateful_Load
  imports Stateful_Runs Epoch_Order
begin

text \<open>
  The stateful operator (\<^verbatim>\<open>src/src/operators/stateful_unary.rs\<close>) meets the contracts of theory \<open>Epoch_Order\<close>:
  its snapshots are in the order of their epochs, and a new operator that is given the snapshots of a store rebuilds
  every key, in silence unless a key is due.
\<close>

section \<open>The snapshots of a run are in the order of their epochs\<close>

lemma su_epoch_change:
  assumes "su_epoch L this step env now fr (s, out, chg) e = Inr (s', out', chg')"
    and "output_cap s = Some c" and "change_cap s = output_cap s \<and> init_caps s = []"
  shows "c \<le> e \<and> output_cap s' = Some e \<and> (change_cap s' = output_cap s' \<and> init_caps s' = []) \<and>
    (\<exists>sns. chg' = chg @ map (Pair e) sns \<and> (\<not> is_closed fr e \<longrightarrow> sns = []))"
  using assms
  by (auto simp: su_epoch_def Let_def downgrade_one emap_eq_Inr_iff split: prod.splits if_splits elim!: ebind_InrE) (rule exI, rule refl)

lemma su_activate_change:
  assumes act: "su_activate L this step resume s m = Inr (s', out, chg, nx)"
    and c: "output_cap s = Some c" "change_cap s = output_cap s \<and> init_caps s = []"
    and es: "sorted_wrt (<) (su_epochs resume (simplify (su_frontiers m)) c (buffer_all (su_items m) (inbuf s)) (buffer_all (su_loads m) (loads_inbuf s)))"
  shows "sorted (map fst chg) \<and> (\<forall>x \<in> set chg. c \<le> fst x \<and> is_closed (simplify (su_frontiers m)) (fst x)) \<and>
    (case simplify (su_frontiers m) of None \<Rightarrow> output_cap s' = None
      | Some f \<Rightarrow> \<exists>c'. output_cap s' = Some c' \<and> c \<le> c' \<and> (\<forall>x \<in> set chg. fst x \<le> c') \<and> (resume \<le> f \<longrightarrow> f \<le> c'))"
proof -
  let ?fr = "simplify (su_frontiers m)"
  let ?es = "su_epochs resume ?fr c (buffer_all (su_items m) (inbuf s)) (buffer_all (su_loads m) (loads_inbuf s))"
  let ?s = "s\<lparr>inbuf := buffer_all (su_items m) (inbuf s), loads_inbuf := buffer_all (su_loads m) (loads_inbuf s)\<rparr>"
  have "change_cap s = Some c" using c by simp
  with act c(1) obtain s1 where
    run: "efold (su_epoch L this step (su_env m) (su_now m) ?fr) (?s, [], []) ?es = Inr (s1, out, chg)"
    and s1: "\<exists>caps. (if is_eof (simplify_one (su_frontiers m ! 1)) then downgrade_all resume (init_caps s1) else Inr (init_caps s1)) = Inr caps \<and>
      s' = (if is_eof ?fr then s1\<lparr>init_caps := caps, output_cap := None, change_cap := None\<rparr> else s1\<lparr>init_caps := caps\<rparr>)"
    by (auto simp: su_activate_def Let_def emap_eq_Inr_iff elim!: ebind_InrE split: if_splits)
  from s1 have s': "output_cap s' = (if is_eof ?fr then None else output_cap s1)" by auto
  have "output_cap ?s = Some c" "change_cap ?s = output_cap ?s \<and> init_caps ?s = []" using c by simp_all
  note c' = this
  have "\<exists>sns. chg = [] @ sns \<and> output_cap s1 = Some (last (c # ?es)) \<and> (change_cap s1 = output_cap s1 \<and> init_caps s1 = []) \<and>
      c \<le> last (c # ?es) \<and> sorted (map fst sns) \<and> (\<forall>x \<in> set sns. c \<le> fst x \<and> fst x \<le> last (c # ?es) \<and> is_closed ?fr (fst x))"
    by (rule epochs_in_order [where P = "\<lambda>s. change_cap s = output_cap s \<and> init_caps s = []" and cap = output_cap and fr = ?fr, OF _ run c' es]) (erule (2) su_epoch_change)
  then have l: "output_cap s1 = Some (last (c # ?es))" "c \<le> last (c # ?es)" "sorted (map fst chg)"
    "\<forall>x \<in> set chg. c \<le> fst x \<and> fst x \<le> last (c # ?es) \<and> is_closed ?fr (fst x)" by simp_all
  with su_epochs_last [OF es] s' show ?thesis by (cases ?fr) (auto simp: is_eof_def)
qed

text \<open>Loading, when nothing of what is loaded is due yet.\<close>

definition quiet :: "time \<Rightarrow> ('k, 'l) su_core \<Rightarrow> bool" where
  "quiet now c \<longleftrightarrow> (\<forall>(k, at) \<in> set (awakes c). now < at)"

text \<open>An operator between two activations at frontier \<open>R\<close>, with nothing buffered and nothing left to snapshot.\<close>

definition idle_at :: "('l \<Rightarrow> bool) \<Rightarrow> epoch \<Rightarrow> ('k::linorder, 'v, 'l, 'q) su_state \<Rightarrow> bool" where
  "idle_at linv R s \<longleftrightarrow> (\<exists>cap \<le> R. output_cap s = Some cap \<and> change_cap s = Some cap) \<and> init_caps s = [] \<and>
     core_ok linv (core s) \<and> awoken (core s) = [] \<and> inbuf s = [] \<and> loads_inbuf s = []"

lemma idle_start: "idle_at linv 0 (su_start [0, 0])"
  by (simp add: idle_at_def su_start_def inbuf_new_def core_new_def core_ok_new [unfolded core_new_def])

definition not_due :: "time \<Rightarrow> 'q key_state state_change \<Rightarrow> bool" where
  "not_due now ch \<longleftrightarrow> (\<forall>q at. ch = Upsert (q, Some at) \<longrightarrow> now < at)"

context resumable_logic
begin

lemma idle_inv: "idle_at linv lo s \<Longrightarrow> su_inv this lo s"
  by (auto simp: idle_at_def su_inv_def buf_ok_def)

lemma su_activate_order:
  assumes inv: "su_inv this lo s" and t: "su_timely (item_ok ok this) (load_ok L linv this) okenv lo (m # acts)"
    and act: "su_activate L this step resume s m = Inr (s', out, chg, nx)" and c: "output_cap s = Some c"
  shows "sorted (map fst chg) \<and> (\<forall>x \<in> set chg. c \<le> fst x \<and> is_closed (simplify (su_frontiers m)) (fst x)) \<and>
    (case simplify (su_frontiers m) of None \<Rightarrow> output_cap s' = None
      | Some f \<Rightarrow> su_inv this f s' \<and> (\<exists>c'. output_cap s' = Some c' \<and> c \<le> c' \<and> (\<forall>x \<in> set chg. fst x \<le> c') \<and> (resume \<le> f \<longrightarrow> f \<le> c')))"
proof -
  let ?fr = "simplify (su_frontiers m)"
  have caps: "change_cap s = output_cap s \<and> init_caps s = []" "c \<le> lo" using inv c by (auto simp: su_inv_def)
  have "buf_ok (item_ok ok this) lo (buffer_all (su_items m) (inbuf s))" "buf_ok (load_ok L linv this) lo (buffer_all (su_loads m) (loads_inbuf s))"
    using inv t by (auto simp: su_inv_def intro!: buf_ok_all)
  note b = buf_ok_epochs [OF this(1)] buf_ok_epochs [OF this(2)]
  have fr: "case ?fr of Some f \<Rightarrow> lo \<le> f | None \<Rightarrow> True" using t by (simp split: option.splits)
  note o = su_activate_change [OF act c caps(1) su_epochs_props(1) [OF b caps(2) fr]]
  from su_activate_ok [OF inv t, of step resume] act have "case ?fr of Some f \<Rightarrow> su_inv this f s' | None \<Rightarrow> su_done s'" by auto
  with o show ?thesis by (cases ?fr) auto
qed

lemma quiet_changes: "core_ok linv c \<Longrightarrow> quiet now c \<longleftrightarrow> (\<forall>k. not_due now (key_change L c k))"
proof
  assume c: "core_ok linv c" and q: "\<forall>k. not_due now (key_change L c k)"
  have "now < at" if "(k, at) \<in> set (awakes c)" for k at
  proof -
    have a: "bt_get (awakes c) k = Some at" using c that by (simp add: core_ok_def bt_get_eq_Some_iff)
    then obtain l where "bt_get (logics c) k = Some l" using c by (auto simp: core_ok_def)
    with a have "key_change L c k = Upsert (sl_snapshot L l, Some at)" by (simp add: key_change_def)
    with q show ?thesis by (auto simp: not_due_def)
  qed
  then show "quiet now c" by (auto simp: quiet_def)
qed (auto simp: quiet_def not_due_def key_change_def core_ok_def bt_get_eq_Some_iff split: option.splits)

lemma su_epoch_load:
  assumes core: "core_ok linv (core s)" and caps: "output_cap s = Some c" "change_cap s = Some c" "c \<le> e"
    and idle: "awoken (core s) = []" "inbuf s = []" "quiet now (core s)" "\<not> is_eof fr"
    and ok: "\<forall>x \<in> set (inbuf_items (loads_inbuf s) e). load_ok L linv this x"
    and d: "distinct (map (\<lambda>x. fst (snd x)) (inbuf_items (loads_inbuf s) e))"
    and nd: "\<forall>(w, k, ch) \<in> set (inbuf_items (loads_inbuf s) e). not_due now ch"
  shows "\<exists>s'. su_epoch L this step env now fr (s, out, chg) e = Inr (s', out, chg) \<and>
    output_cap s' = Some e \<and> change_cap s' = Some e \<and> core_ok linv (core s') \<and> awoken (core s') = [] \<and> inbuf s' = [] \<and>
    quiet now (core s') \<and> init_caps s' = init_caps s \<and>
    loads_inbuf s' = (if is_closed fr e then bt_remove e (loads_inbuf s) else loads_inbuf s) \<and>
    (\<forall>k. key_change L (core s') k = (case map_of (if is_closed fr e then map snd (inbuf_items (loads_inbuf s) e) else []) k of
       Some ch \<Rightarrow> ch | None \<Rightarrow> key_change L (core s) k))"
proof -
  have down: "downgrade_all e [c] = Inr [e]" using caps(3) by (simp add: downgrade_one)
  have none: "filter (\<lambda>(_, at). at \<le> now) (awakes (core s)) = []"
    using idle(3) by (fastforce simp: quiet_def filter_empty_conv)
  have inc: "su_incoming this None = Inr []" by (simp add: su_incoming_def)
  let ?s = "s\<lparr>output_cap := Some e, change_cap := Some e, inbuf := []\<rparr>"
  let ?ls = "inbuf_items (loads_inbuf s) e"
  have lds: "(case bt_get (loads_inbuf s) e of None \<Rightarrow> [] | Some ls \<Rightarrow> ls) = ?ls" by (simp add: inbuf_items_def)
  have same: "core s\<lparr>awoken := []\<rparr> = core s" using idle(1) by simp
  show ?thesis
  proof (cases "is_closed fr e")
    case False
    then have "su_epoch L this step env now fr (s, out, chg) e = Inr (?s\<lparr>core := core s\<rparr>, out, chg)"
      using idle(2,4) none by (simp add: su_epoch_def caps down inbuf_remove_def inc su_awake_list_def su_awake_all_def bt_remove_def)
    with False core idle show ?thesis by (intro exI [of _ "?s\<lparr>core := core s\<rparr>"]) simp
  next
    case True
    from su_loads_ok [OF core ok] obtain c' where
      c': "efold (su_load L this) (core s) ?ls = Inr c'" "core_ok linv c'" "awoken c' = awoken (core s)"
        "\<forall>k. k \<notin> (\<lambda>x. fst (snd x)) ` set ?ls \<longrightarrow> same_key k c' (core s)"
        "distinct (map (\<lambda>x. fst (snd x)) ?ls) \<longrightarrow> (\<forall>(w, k, ch) \<in> set ?ls. key_change L c' k = ch)" by blast
    let ?s' = "?s\<lparr>core := c', loads_inbuf := bt_remove e (loads_inbuf s)\<rparr>"
    have run: "su_epoch L this step env now fr (s, out, chg) e = Inr (?s', out, chg)"
      using True idle(2,4) none
      by (simp add: same su_epoch_def caps down inbuf_remove_def inc su_awake_list_def su_awake_all_def bt_remove_def su_snapshots_def idle(1) lds c'(1))
    have ch: "key_change L c' k = (case map_of (map snd ?ls) k of Some ch \<Rightarrow> ch | None \<Rightarrow> key_change L (core s) k)" for k
    proof (cases "map_of (map snd ?ls) k")
      case None
      then have "k \<notin> (\<lambda>x. fst (snd x)) ` set ?ls" by (simp add: map_of_eq_None_iff image_image)
      with c'(4) key_change_same None show ?thesis by fastforce
    next
      case (Some ch)
      then have "(k, ch) \<in> snd ` set ?ls" by (auto dest: map_of_SomeD)
      with c'(5) d Some show ?thesis by auto
    qed
    have "not_due now (key_change L c' k)" for k
    proof (cases "map_of (map snd ?ls) k")
      case None
      with ch [of k] idle(3) quiet_changes [OF core] show ?thesis by simp
    next
      case (Some x)
      then have "(k, x) \<in> snd ` set ?ls" by (auto dest: map_of_SomeD)
      with nd ch [of k] Some show ?thesis by auto
    qed
    then have "quiet now c'" using quiet_changes [OF c'(2)] by blast
    with run c' ch True idle(1) show ?thesis by (intro exI [of _ ?s']) simp
  qed
qed

text \<open>The contracts of theory \<open>Epoch_Order\<close>.\<close>

lemma su_epoch_order:
  "epoch_order (su_activate L this step resume) (su_run L this step resume) output_cap (\<lambda>m. simplify (su_frontiers m)) resume
    (su_inv this) (su_timely (item_ok ok this) (load_ok L linv this) okenv)"
proof (unfold_locales, goal_cases)
  case (3 s m s' out chg n)
  then show ?case by (auto simp: su_activate_def Let_def)
next
  case (4 lo m acts)
  then show ?case by (auto split: option.splits)
next
  case (5 lo s m acts s' out chg n c)
  then show ?case by (rule su_activate_order)
qed simp_all

lemmas su_run_split = epoch_order.run_split [OF su_epoch_order] and su_run_order = epoch_order.run_order [OF su_epoch_order]

lemma su_epoch_loads:
  "epoch_loads (su_epoch L this step env now (Some R)) R output_cap loads_inbuf
    (\<lambda>s. core_ok linv (core s) \<and> change_cap s = output_cap s \<and> init_caps s = [] \<and> awoken (core s) = [] \<and> inbuf s = [] \<and> quiet now (core s))
    (\<lambda>x. load_ok L linv this x \<and> not_due now (snd (snd x))) (\<lambda>s. key_change L (core s))"
proof (unfold_locales, goal_cases)
  case (1 s c e out chg)
  have "\<not> is_eof (Some R)" by (simp add: is_eof_def)
  from su_epoch_load [of s c e now "Some R" this step env out chg] 1 this show ?case by (auto simp: is_closed_def split_def)
qed

lemmas su_loading = epoch_loads.loading [OF su_epoch_loads]

text \<open>The activation that closes the epochs of all loads leaves the operator with nothing buffered.\<close>

lemma su_activate_load:
  assumes it: "su_items m = []" and fr: "simplify (su_frontiers m) = Some R" and "resume \<le> R"
    and ld: "\<forall>(e, x) \<in> set (msg_items (su_loads m)). e < R \<and> load_ok L linv this x \<and> not_due (su_now m) (snd (snd x))"
    and d: "distinct (map (\<lambda>(e, w, k, ch). k) (msg_items (su_loads m)))"
    and some: "\<forall>(e, xs) \<in> set (su_loads m). xs \<noteq> []"
  shows "\<exists>s' nx. su_activate L this step resume (su_start [0, 0]) m = Inr (s', [], [], nx) \<and>
    idle_at linv R s' \<and>
    (\<forall>k. key_change L (core s') k = (case map_of (map (\<lambda>(e, w, kc). kc) (msg_items (su_loads m))) k of
       Some ch \<Rightarrow> ch | None \<Rightarrow> state_change.Discard))"
proof -
  let ?ib = "buffer_all (su_items m) []" and ?lb = "buffer_all (su_loads m) []"
  let ?s = "(su_start [0, 0])\<lparr>inbuf := ?ib, loads_inbuf := ?lb\<rparr>"
  have ib: "?ib = []" by (simp add: it buffer_all_def)
  have s: "core_ok linv (core ?s) \<and> change_cap ?s = output_cap ?s \<and> init_caps ?s = [] \<and> awoken (core ?s) = [] \<and> inbuf ?s = [] \<and> quiet (su_now m) (core ?s)"
    "output_cap ?s = Some 0" "loads_inbuf ?s = ?lb" "\<forall>k. key_change L (core ?s) k = state_change.Discard"
    by (simp_all add: ib su_start_def quiet_def core_new_def key_change_def core_ok_new [unfolded core_new_def])
  from su_loading [where s = ?s and now = "su_now m" and env = "su_env m" and this = this and step = step and R = R and
      msgs = "su_loads m" and ib = ?ib and out = "[]" and chg = "[]" and resume = resume, OF s ld d some ib] obtain s' c where
    s': "efold (su_epoch L this step (su_env m) (su_now m) (Some R)) (?s, [], []) (su_epochs resume (Some R) 0 ?ib ?lb) = Inr (s', [], [])"
      "core_ok linv (core s')" "change_cap s' = output_cap s'" "init_caps s' = []" "awoken (core s') = []" "inbuf s' = []"
      "c \<le> R" "output_cap s' = Some c" "loads_inbuf s' = []"
      "\<forall>k. key_change L (core s') k = (case map_of (map (\<lambda>(e, w, kc). kc) (msg_items (su_loads m))) k of
         Some ch \<Rightarrow> ch | None \<Rightarrow> state_change.Discard)" by (elim exE conjE) (rule that)
  have "su_activate L this step resume (su_start [0, 0]) m = Inr (s'\<lparr>init_caps := []\<rparr>, [], [], su_next_activation (su_now m) (core s'))"
    using s'(1,4) by (simp add: su_activate_def Let_def fr it su_start_def inbuf_new_def buffer_all_def [of "[]"] is_eof_def downgrade_all_def)
  moreover have "idle_at linv R (s'\<lparr>init_caps := []\<rparr>)" using s' by (auto simp: idle_at_def)
  ultimately show ?thesis using s'(10) by (intro exI) (rule conjI, assumption, simp)
qed

end

interpretation window_order: epoch_order "su_activate (resumable_fold g lo h w d n len al b0 f) this step resume"
    "su_run (resumable_fold g lo h w d n len al b0 f) this step resume" output_cap "\<lambda>m. simplify (su_frontiers m)" resume
    "resumable_logic.su_inv (resumable_fold g lo h w d n len al b0 f) (fold_state_ok g lo h w a d n len al b0 f) (fold_times g lo h) this"
    "su_timely (item_ok (fold_times g lo h) this)
      (load_ok (resumable_fold g lo h w d n len al b0 f) (fold_state_ok g lo h w a d n len al b0 f) this) (\<lambda>e. a \<le> fst e \<and> fst e \<le> a + int d)"
  for g lo h w a d n len al b0 f this step resume
  by (rule window_fold.su_epoch_order)

interpretation window_loads: epoch_loads "su_epoch (resumable_fold g lo h w d n len al b0 f) this step env now (Some R)" R output_cap loads_inbuf
    "\<lambda>s. core_ok (fold_state_ok g lo h w a d n len al b0 f) (core s) \<and> change_cap s = output_cap s \<and> init_caps s = [] \<and>
      awoken (core s) = [] \<and> inbuf s = [] \<and> quiet now (core s)"
    "\<lambda>x. load_ok (resumable_fold g lo h w d n len al b0 f) (fold_state_ok g lo h w a d n len al b0 f) this x \<and> not_due now (snd (snd x))"
    "\<lambda>s. key_change (resumable_fold g lo h w d n len al b0 f) (core s)"
  for g lo h w a d n len al b0 f this step env now R
  by (rule window_fold.su_epoch_loads)

section \<open>Loading when a key is due\<close>

text \<open>Loads wake the logic before the resume epoch: the operator resumes at epoch 10 and loads a key from
  epoch 3, whose awake time has passed, and another from epoch 4. In epoch 4 the first key is awoken,
  and both what it emits and its snapshot carry that epoch, which the execution before had finished.\<close>

theorem loads_wake_before_resume:
  "emap (\<lambda>(s, out, chg, nx). (out, chg))
     (su_activate echo_ops this step 10 (su_start [0, 0])
       \<lparr>su_items = [], su_loads = [(3, [(this, 0 :: nat, Upsert ((), Some 5))]), (4, [(this, 1, Upsert ((), None))])],
        su_now = 7, su_env = (\<lambda>_ _. ()), su_frontiers = [[10], [10]]\<rparr>) =
   Inr ([(4, 0, Pending)], [(4, Snapshot step 0 (Upsert ((), None)))])"
  by (simp add: su_eval su_load_def key_change_def)

end
