(* ===== verification/Step_Restart.thy ===== *)
theory Step_Restart
  imports Durable_Step Stateful_Load
begin

text \<open>
  The stateful operator (\<^verbatim>\<open>src/src/operators/stateful_unary.rs\<close>) across a crash of the cluster: it meets the
  contract of theory \<open>Durable_Step\<close>, so recovery restores the logic and the awake time of each key.
\<close>

section \<open>The state after a crash\<close>

text \<open>
  The operator on worker \<open>this\<close> had loaded and was in state \<open>s0\<close>; it ran up to an activation at frontier \<open>R\<close>,
  where its state was \<open>s\<close> and it had emitted \<open>chg\<close>, and then went on and emitted \<open>later\<close>.
\<close>

definition ran_past where
  "ran_past L linv okenv ok this step resume R s0 s chg later \<longleftrightarrow>
     (\<exists>lo acts acts' out s2 out2. idle_at linv lo s0 \<and>
       su_timely (item_ok ok this) (load_ok L linv this) okenv lo (acts @ acts') \<and>
       acts \<noteq> [] \<and> (\<forall>m \<in> set acts. su_loads m = []) \<and> simplify (su_frontiers (last acts)) = Some R \<and>
       su_run L this step resume s0 acts = Inr (s, out, chg) \<and>
       su_run L this step resume s0 (acts @ acts') = Inr (s2, out2, chg @ later))"

lemma su_timely_prefix: "su_timely P Q E lo (acts @ acts') \<Longrightarrow> su_timely P Q E lo acts"
  by (induction acts arbitrary: lo) (auto split: option.splits)

lemma ran_past_ok:
  assumes L: "resumable_logic L linv okenv ok"
    and ran: "ran_past L linv okenv ok this step resume R s0 s chg later" and "resume \<le> R"
  shows "core_ok linv (core s0)" and "core_ok linv (core s)"
    and "tracks L (apply_snaps (\<lambda>k. Some (key_change L (core s0) k)) (map snd chg)) (core s)"
    and "\<forall>x \<in> set chg. ok_change L linv (sn_change (snd x))"
    and "sorted (map fst chg)" and "\<forall>x \<in> set chg. fst x < R" and "\<forall>x \<in> set later. R \<le> fst x"
proof -
  from ran obtain lo acts acts' out s2 out2 where
    idle: "idle_at linv lo s0" and t: "su_timely (item_ok ok this) (load_ok L linv this) okenv lo (acts @ acts')" and
    a: "acts \<noteq> []" "\<forall>m \<in> set acts. su_loads m = []" "simplify (su_frontiers (last acts)) = Some R" and
    r: "su_run L this step resume s0 acts = Inr (s, out, chg)"
      "su_run L this step resume s0 (acts @ acts') = Inr (s2, out2, chg @ later)"
    unfolding ran_past_def by (elim exE conjE) (rule that)
  note start = resumable_logic.idle_inv [OF L idle] and t1 = su_timely_prefix [OF t]
  from idle obtain c where c: "output_cap s0 = Some c" "loads_inbuf s0 = []" and core: "core_ok linv (core s0)" by (auto simp: idle_at_def)
  then show "core_ok linv (core s0)" by simp
  have tr: "tracks L (\<lambda>k. Some (key_change L (core s0) k)) (core s0)" by (simp add: tracks_def stored_def)
  from resumable_logic.su_run_ok [OF L start t1, of step resume] r(1) a(2) c(2) tr
  show "core_ok linv (core s)" "tracks L (apply_snaps (\<lambda>k. Some (key_change L (core s0) k)) (map snd chg)) (core s)"
    "\<forall>x \<in> set chg. ok_change L linv (sn_change (snd x))" by auto
  show "sorted (map fst chg)" using resumable_logic.su_run_order [OF L start t1 r(1) c(1)] by blast
  from resumable_logic.su_run_split [OF L start t a(1,3) \<open>resume \<le> R\<close> r(1) c(1) r(2)]
  show "\<forall>x \<in> set chg. fst x < R" "\<forall>x \<in> set later. R \<le> fst x" by auto
qed

text \<open>The first activation of a new operator: it emits nothing and is then idle.\<close>

definition begun_idle where
  "begun_idle L linv step w R m s \<longleftrightarrow>
     (\<exists>nx. su_activate L w step R (su_start [0, 0]) m = Inr (s, [], [], nx)) \<and> idle_at linv R s"

lemma su_durable:
  assumes L: "resumable_logic L linv okenv ok"
  shows "durable_operator (\<lambda>s. key_change L (core s)) (\<lambda>s. set (awoken (core s))) (\<lambda>s. core_ok linv (core s)) (ok_change L linv)
    (\<lambda>v. ran_past L linv okenv ok v step) su_loads (\<lambda>m R. su_items m = [] \<and> simplify (su_frontiers m) = Some R)
    (\<lambda>m. not_due (su_now m)) (begun_idle L linv step)"
proof (unfold_locales, goal_cases)
  case (1 v res R s0 s chg later)
  show ?case using ran_past_ok(1,2) [OF L 1] by (rule conjI)
next
  case (2 v res R s0 s chg later)
  show ?case by (rule ran_past_ok(4) [OF L 2])
next
  case (3 v res R s0 s chg later)
  show ?case using ran_past_ok(5-7) [OF L 3] by (intro conjI)
next
  case (4 v res R s0 s chg later k)
  from ran_past_ok(3) [OF L 4(1,2)] 4(3) show ?case by (simp add: tracks_def)
next
  case (5 s k)
  then show ?case by (rule resumable_logic.key_change_ok [OF L])
next
  case (6 m R w)
  then have "\<forall>(e, x) \<in> set (msg_items (su_loads m)). e < R \<and> load_ok L linv w x \<and> not_due (su_now m) (snd (snd x))"
    by (auto simp: load_ok_def)
  from resumable_logic.su_activate_load [OF L conjunct1 [OF 6(1)] conjunct2 [OF 6(1)] order_refl this 6(4,2), of step]
  show ?case unfolding begun_idle_def by (auto simp: idle_at_def)
qed


text \<open>The window folds of theory \<open>Window_Resumable\<close> are such operators.\<close>

interpretation window_durable: durable_operator "\<lambda>s. key_change (resumable_fold g lo h w d n len al b0 f) (core s)" "\<lambda>s. set (awoken (core s))"
    "\<lambda>s. core_ok (fold_state_ok g lo h w a d n len al b0 f) (core s)"
    "ok_change (resumable_fold g lo h w d n len al b0 f) (fold_state_ok g lo h w a d n len al b0 f)"
    "\<lambda>v. ran_past (resumable_fold g lo h w d n len al b0 f) (fold_state_ok g lo h w a d n len al b0 f)
      (\<lambda>e. a \<le> fst e \<and> fst e \<le> a + int d) (fold_times g lo h) v step"
    su_loads "\<lambda>m R. su_items m = [] \<and> simplify (su_frontiers m) = Some R" "\<lambda>m. not_due (su_now m)"
    "begun_idle (resumable_fold g lo h w d n len al b0 f) (fold_state_ok g lo h w a d n len al b0 f) step"
  for g lo h w a d n len al b0 f step
  by (rule su_durable [OF window_fold.resumable_logic_axioms])

text \<open>A step that counts what it is given, on one worker; its key is awoken in epochs 1 and 2, where the cluster stops.\<close>

abbreviation tally_ops :: "(nat, unit, nat, nat, nat) stateful_logic_ops" where
  "tally_ops \<equiv> \<lparr>sl_on_awake = (\<lambda>l e p. Inr (Suc l, [l])), sl_fate = (\<lambda>l. Retain), sl_next_awake = (\<lambda>l. None),
     sl_snapshot = (\<lambda>l. l), sl_builder = (\<lambda>r. Inr (case r of None \<Rightarrow> 0 | Some n \<Rightarrow> n))\<rparr>"

text \<open>A cluster of one worker and one partition, with any serializer; key 8 of step 7 has a snapshot in epochs 1 and 2.\<close>

definition one_worker :: "('v \<Rightarrow> string res) \<Rightarrow> (nat, nat, 'v) wr_config" where
  "one_worker ser = \<lparr>wc_workers = 1, wc_local = (\<lambda>w. if w = 0 then [0] else []), wc_prim = [(0, 0)],
     wc_pf_ex = (\<lambda>_. 0), wc_pf_snap = (\<lambda>_. 0), wc_pf_front = (\<lambda>_. 0), wc_ser = ser, wc_from = resume_default, wc_delay = 0\<rparr>"

lemma one_worker_fields [simp]: "wc_workers (one_worker ser) = 1" "wc_from (one_worker ser) = resume_default"
  "wc_prim (one_worker ser) = [(0, 0)]" "wc_ser (one_worker ser) = ser"
  by (simp_all add: one_worker_def)

lemma one_worker_start: "starts_from (one_worker ser) fresh_store"
proof -
  have "announced (one_worker ser) = [(0, 0)]" by (simp add: announced_def one_worker_def w_iter_def)
  moreover have "calc_primaries (\<lambda>f. sort_key f) (\<lambda>f ws. hd (sort_key f ws)) (foldl learn_part [] [(0 :: part_index, 0)]) = Inr [(0, 0)]"
    by code_simp
  ultimately have "config_ok (one_worker ser)"
    using sorts_by_sort_key picks_least_hd by (auto simp: config_ok_def)
  moreover have g: "gathered (one_worker ser) fresh_store = empty_part\<lparr>parts := [PartitionMeta 0 1]\<rparr>" by code_simp
  moreover have "part_resume_from (empty_part\<lparr>parts := [PartitionMeta 0 1]\<rparr> :: (nat, nat) recovery_part) = Inr resume_default" by code_simp
  moreover have "all_parts 1 (empty_part\<lparr>parts := [PartitionMeta 0 1]\<rparr> :: (nat, nat) recovery_part)"
    by (simp add: all_parts_def empty_part_def)
  ultimately show ?thesis
    unfolding starts_from_def g by (auto simp: base_ok_def fresh_store_def empty_part_def exs_wf_def)
qed

abbreviation two_rows :: "(part_index \<times> (nat, nat) serialized_snapshot) list" where
  "two_rows \<equiv> [(0, SerializedSnapshot 7 8 1 (Some ''x'')), (0, SerializedSnapshot 7 8 2 (Some ''xx''))]"

definition two_snaps :: "'v \<Rightarrow> 'v \<Rightarrow> (nat, nat, 'v) wr_event list" where
  "two_snaps v v' = [Snap 0 1 [Snapshot 7 8 (Upsert v)], Advance 0 (Some 2),
     WriteEx 0 [(1, [(0, 0, 0, ExecutionMeta 0 1 1)])] [],
     WriteSnap 0 [(1, [(0, 0, (7, 8), SerializedSnapshot 7 8 1 (Some ''x''))])] [[2]], Report 0 [[2]],
     WriteFront 0 [(1, [(0, 0, (0, 0), FrontierMeta 0 0 2)])] [[2]], Snap 0 2 [Snapshot 7 8 (Upsert v')]]"

lemma two_snaps_crash:
  assumes "map_option (\<lambda>s. (part_resume_from (gathered C (sy_store s)),
      load_snaps de (map (Pair 0) (loaded_rows C (sy_store s) 2)), map (\<lambda>(e, w, p, k, r). (p, r)) (st_in (sy_snap s))))
      (wr_run C (wr_init C fresh_store) (two_snaps v v')) =
    Some (Inr (ResumeFrom 1 2), Inr [(1, Snapshot 7 8 (Upsert v))], two_rows)"
  obtains s where "(wr_step C)\<^sup>*\<^sup>* (wr_init C fresh_store) s" and "part_resume_from (gathered C (sy_store s)) = Inr (ResumeFrom 1 2)"
    and "load_snaps de (map (Pair 0) (loaded_rows C (sy_store s) 2)) = Inr [(1, Snapshot 7 8 (Upsert v))]"
    and "map (\<lambda>(e, w, p, k, r). (p, r)) (st_in (sy_snap s)) = two_rows"
proof -
  from assms obtain s where s: "(wr_step C)\<^sup>*\<^sup>* (wr_init C fresh_store) s" and
    "(part_resume_from (gathered C (sy_store s)), load_snaps de (map (Pair 0) (loaded_rows C (sy_store s) 2)),
      map (\<lambda>(e, w, p, k, r). (p, r)) (st_in (sy_snap s))) = (Inr (ResumeFrom 1 2), Inr [(1, Snapshot 7 8 (Upsert v))], two_rows)"
    by (rule run_obtain)
  from this(2) show thesis unfolding prod.inject by (elim conjE) (rule that [OF s])
qed

lemma two_snaps_sent:
  assumes "map (\<lambda>(e, w, p, k, r). (p, r)) (st_in (sy_snap s)) = two_rows" and "ser v = Inr ''x''" and "ser v' = Inr ''xx''"
  shows "one_per_epoch s" and "no_stale (one_worker ser) fresh_store s 7 R"
    and "step_sent (one_worker ser) s 7 8 ([(1, Snapshot 7 8 (Upsert v))] @ [(2, Snapshot 7 8 (Upsert v'))])"
proof -
  have sent: "sent_snaps s p = (if p = 0 then {SerializedSnapshot 7 8 1 (Some ''x''), SerializedSnapshot 7 8 2 (Some ''xx'')} else {})" for p
    unfolding sent_snaps_map assms(1) by auto
  then show "one_per_epoch s" by (simp add: one_per_epoch_def)
  show "no_stale (one_worker ser) fresh_store s 7 R" by (simp add: no_stale_def fresh_store_def empty_part_def)
  have row: "row_of (one_worker ser) (e, Snapshot 7 8 (Upsert q)) r \<longleftrightarrow> (\<exists>str. ser q = Inr str \<and> r = SerializedSnapshot 7 8 e (Some str))" for e q r
    by (cases r) (auto simp: row_of_def ser_snap_def emap_eq_Inr_iff elim!: ebind_InrE)
  show "step_sent (one_worker ser) s 7 8 ([(1, Snapshot 7 8 (Upsert v))] @ [(2, Snapshot 7 8 (Upsert v'))])"
    using assms(2,3) by (auto simp: step_sent_def row sent_for_def sent)
qed

lemma fresh_homes: "homes C fresh_store step"
  by (simp add: homes_def fresh_store_def empty_part_def snaps_wf_def)

lemma fresh_loaded: "load_snaps de (map (Pair 0) (loaded_rows C fresh_store R)) = Inr []"
proof -
  have "loaded_rows C fresh_store R = []"
    by (simp add: loaded_rows_def fresh_store_def empty_part_def latest_snaps_def concat_eq_Nil_conv)
  then show ?thesis by (simp add: load_snaps_def)
qed

abbreviation tally_ser :: "nat key_state \<Rightarrow> string res" where
  "tally_ser \<equiv> (\<lambda>(n, at). if at = None then Inr (replicate n CHR ''x'') else Inl (PanicMsg ''no awake times''))"

lemma tally_logic: "resumable_logic tally_ops (\<lambda>_. True) (\<lambda>_. True) (\<lambda>_. True)"
  by unfold_locales auto

abbreviation tally_at where
  "tally_at n \<equiv> (su_start [0, 0] :: (nat, nat, nat, nat) su_state)
     \<lparr>output_cap := Some (Suc n), change_cap := Some (Suc n), core := \<lparr>logics = [(8, n)], awakes = [], awoken = []\<rparr>\<rparr>"

abbreviation tally_items :: "nat \<Rightarrow> (nat, nat, nat, unit) su_msgs" where
  "tally_items n \<equiv> \<lparr>su_items = [(n, [(0, 8, 5)])], su_loads = [], su_now = 0, su_env = (\<lambda>_ _. ()), su_frontiers = [[Suc n], [Suc n]]\<rparr>"

lemma tally_run:
  "su_run tally_ops 0 (7 :: nat) 1 (su_start [0, 0]) [tally_items 1] =
    Inr (tally_at 1, [(1, 8, 0)], [(1, Snapshot 7 8 (Upsert (1, None)))])"
  "su_run tally_ops 0 (7 :: nat) 1 (su_start [0, 0]) [tally_items 1, tally_items 2] =
    Inr (tally_at 2, [(1, 8, 0), (2, 8, 1)], [(1, Snapshot 7 8 (Upsert (1, None))), (2, Snapshot 7 8 (Upsert (2, None)))])"
  by (simp_all add: su_eval key_change_def)


end
