(* ===== verification/Py_Errors.thy ===== *)
theory Py_Errors
  imports Prelude
begin

text \<open>
  The error adaptors of \<^verbatim>\<open>src/src/errors.rs\<close>: a Python exception is \<open>PyErr\<close> with its type; the
  messages, locations and tracebacks the adaptors add are left to theory \<open>Error_Messages\<close>. A panic of Rust itself is never
  caught by them.
\<close>

text \<open>\<^verbatim>\<open>raise\<close> and \<^verbatim>\<open>raise_with\<close>: the exception becomes one of the given type.\<close>

definition raise_as :: "string \<Rightarrow> 'a res \<Rightarrow> 'a res" where
  "raise_as ty r = (case r of Inl (PyErr _) \<Rightarrow> Inl (PyErr ty) | _ \<Rightarrow> r)"

text \<open>
  \<^verbatim>\<open>reraise\<close> and \<^verbatim>\<open>reraise_with\<close>: the type is kept, except that Python would quote the message of a
  \<^verbatim>\<open>KeyError\<close>.
\<close>

definition reraise :: "'a res \<Rightarrow> 'a res" where
  "reraise r = (case r of
       Inl (PyErr ty) \<Rightarrow> Inl (PyErr (if ty = ''KeyError'' then ''RuntimeError'' else ty))
     | _ \<Rightarrow> r)"

lemma raise_as_Inr [simp, res_simps]: "raise_as ty (Inr x) = Inr x"
  by (simp add: raise_as_def)

lemma raise_as_eq_Inr_iff [simp]: "raise_as ty r = Inr x \<longleftrightarrow> r = Inr x"
  by (auto simp: raise_as_def split: sum.splits panic.splits)

lemma reraise_Inr [simp, res_simps]: "reraise (Inr x) = Inr x"
  by (simp add: reraise_def)

lemma reraise_eq_Inr_iff [simp]: "reraise r = Inr x \<longleftrightarrow> r = Inr x"
  by (auto simp: reraise_def split: sum.splits panic.splits)

lemma reraise_reraise [simp]: "reraise (reraise r) = reraise r"
  by (auto simp: reraise_def split: sum.splits panic.splits)

section \<open>Operations on one key at a time\<close>

text \<open>
  A loop whose every step touches the state of one key, seen from one key \<open>k\<close>: \<open>at\<close> projects the
  state of a key out of the whole, \<open>ky\<close> is the key a step is about, \<open>sol\<close> the step on that key alone.
\<close>

fun sfold :: "('st \<Rightarrow> 'x \<Rightarrow> ('st \<times> 'r list) res) \<Rightarrow> 'st \<Rightarrow> 'x list \<Rightarrow> ('st \<times> 'r list) res" where
  "sfold sol st [] = Inr (st, [])"
| "sfold sol st (x # xs) =
     ebind (sol st x) (\<lambda>(st', rs). emap (\<lambda>(st'', rs'). (st'', rs @ rs')) (sfold sol st' xs))"

lemma keyed_fold:
  assumes step: "\<And>c out x c' out'. x \<in> set xs \<Longrightarrow> f (c, out) x = Inr (c', out') \<Longrightarrow>
      \<exists>rs. out' = out @ map (Pair (ky x)) rs \<and> sol (at c (ky x)) x = Inr (at c' (ky x), rs) \<and>
        (\<forall>k. k \<noteq> ky x \<longrightarrow> at c' k = at c k)"
    and "efold f (c, out) xs = Inr (c', out')"
  shows "\<exists>os. out' = out @ os \<and>
    sfold sol (at c k) (filter (\<lambda>x. ky x = k) xs) = Inr (at c' k, map snd (filter (\<lambda>p. fst p = k) os))"
  using assms
proof (induction xs arbitrary: c out)
  case Nil
  then show ?case by simp
next
  case (Cons x xs)
  from Cons.prems(2) obtain c1 out1 where a: "f (c, out) x = Inr (c1, out1)"
    and r: "efold f (c1, out1) xs = Inr (c', out')" by (auto elim: ebind_InrE)
  from Cons.prems(1) [OF _ a] obtain rs where s: "out1 = out @ map (Pair (ky x)) rs"
    "sol (at c (ky x)) x = Inr (at c1 (ky x), rs)" "\<forall>k. k \<noteq> ky x \<longrightarrow> at c1 k = at c k" by auto
  have "\<exists>os. out' = out1 @ os \<and>
    sfold sol (at c1 k) (filter (\<lambda>x. ky x = k) xs) = Inr (at c' k, map snd (filter (\<lambda>p. fst p = k) os))"
    by (rule Cons.IH [OF _ r]) (rule Cons.prems(1), auto)
  then obtain os where os: "out' = out1 @ os"
    "sfold sol (at c1 k) (filter (\<lambda>x. ky x = k) xs) = Inr (at c' k, map snd (filter (\<lambda>p. fst p = k) os))"
    by blast
  have f: "filter (\<lambda>p. fst p = k) (map (Pair (ky x)) rs) = (if ky x = k then map (Pair k) rs else [])"
    by (auto simp: filter_map comp_def)
  show ?case
  proof (cases "ky x = k")
    case True
    with s os f show ?thesis by (auto simp: comp_def)
  next
    case False
    with s os f show ?thesis by auto
  qed
qed

text \<open>A loop that keeps an invariant of its state and cannot fail under it, whatever it emits.\<close>

lemma efold_out_total:
  fixes f :: "'c \<times> 'o \<Rightarrow> 'x \<Rightarrow> 'e + 'c \<times> 'o"
  assumes "I c" and "\<And>c out x. I c \<Longrightarrow> x \<in> set xs \<Longrightarrow> \<exists>c' out'. f (c, out) x = Inr (c', out') \<and> I c'"
  shows "\<exists>c' out'. efold f (c, out) xs = Inr (c', out') \<and> I c'"
proof -
  have "\<exists>s'. efold f (c, out) xs = Inr s' \<and> I (fst s')"
  proof (rule efold_total)
    show "I (fst (c, out))" using assms(1) by simp
  next
    fix s :: "'c \<times> 'o" and x assume "I (fst s)" "x \<in> set xs"
    with assms(2) [of "fst s" x "snd s"] show "\<exists>s'. f s x = Inr s' \<and> I (fst s')" by force
  qed
  then show ?thesis by force
qed

end
