(* ===== verification/Unary_Op.thy ===== *)
theory Unary_Op
  imports Py_Errors Stateful_Unary
begin

text \<open>
  The operators of \<^verbatim>\<open>src/src/operators/mod.rs\<close> that run Python code: \<^verbatim>\<open>branch\<close>, \<^verbatim>\<open>flat_map_batch\<close>,
  \<^verbatim>\<open>inspect_debug\<close>, \<^verbatim>\<open>extract_key\<close>, \<^verbatim>\<open>wrap_key\<close> and \<^verbatim>\<open>unary\<close>, the stateful operator that all keyed
  operators of the Python library are built on. A Python object is a value of a type parameter and
  its methods are functions of a record; one that may raise returns a result. The state of a Python
  logic is returned updated by \<^verbatim>\<open>on_item\<close>, \<^verbatim>\<open>on_notify\<close> and \<^verbatim>\<open>on_eof\<close>; \<^verbatim>\<open>notify_at\<close> and \<^verbatim>\<open>snapshot\<close>
  only read it. Metrics and trace spans are left out.
\<close>

section \<open>Stateless operators\<close>

text \<open>\<^verbatim>\<open>branch\<close>: the results of the predicate must be booleans.\<close>

definition branch_test :: "('x \<Rightarrow> 'p res) \<Rightarrow> ('p \<Rightarrow> bool res) \<Rightarrow> 'x \<Rightarrow> bool res" where
  "branch_test predicate as_bool item = ebind (reraise (predicate item)) (\<lambda>p. reraise (as_bool p))"

definition branch :: "('x \<Rightarrow> 'p res) \<Rightarrow> ('p \<Rightarrow> bool res) \<Rightarrow> 'x list \<Rightarrow> ('x list \<times> 'x list) res" where
  "branch predicate as_bool items = efold (\<lambda>(trues, falses) item.
     emap (\<lambda>b. if b then (trues @ [item], falses) else (trues, falses @ [item]))
       (branch_test predicate as_bool item)) ([], []) items"

text \<open>\<^verbatim>\<open>next_batch\<close>: the mapper returns an iterable, whose iterator may raise.\<close>

definition next_batch ::
  "'y list \<Rightarrow> ('x list \<Rightarrow> 'm res) \<Rightarrow> ('m \<Rightarrow> 'y res list res) \<Rightarrow> 'x list \<Rightarrow> 'y list res" where
  "next_batch outbuf mapper py_iter in_batch =
     ebind (reraise (mapper in_batch)) (\<lambda>res.
     ebind (reraise (py_iter res)) (\<lambda>iter.
     efold (\<lambda>buf res. emap (\<lambda>out_item. buf @ [out_item]) (reraise res)) outbuf iter))"

text \<open>
  \<^verbatim>\<open>flat_map_batch\<close>: the eager logic of its notificator; the closing logic does nothing. The closures
  share the input buffer; \<^verbatim>\<open>outbuf\<close> is empty between calls, as \<^verbatim>\<open>give_vec\<close> drains it.
\<close>

definition flat_map_batch_eager ::
  "('x list \<Rightarrow> 'm res) \<Rightarrow> ('m \<Rightarrow> 'y res list res) \<Rightarrow> (unit, 'x in_buffer, epoch \<times> 'y) epoch_logic" where
  "flat_map_batch_eager mapper py_iter caps = (\<lambda>(u, inbuf).
     let cap = caps ! 0; (inbuf', batch) = inbuf_remove inbuf cap
     in case batch of
          None \<Rightarrow> Inr ((u, inbuf'), [])
        | Some batch \<Rightarrow> emap (\<lambda>outbuf. ((u, inbuf'), map (Pair cap) outbuf)) (reraise (next_batch [] mapper py_iter batch)))"

definition no_close :: "('d, 'b, 'o) epoch_logic" where
  "no_close caps s = Inr (s, [])"

text \<open>\<^verbatim>\<open>inspect_debug\<close>: the items pass through, and the clock stream ticks once per batch.\<close>

definition inspect_debug_eager ::
  "(epoch \<Rightarrow> 'x \<Rightarrow> unit res) \<Rightarrow> (unit, 'x in_buffer, epoch \<times> 'x + epoch) epoch_logic" where
  "inspect_debug_eager inspector caps = (\<lambda>(u, inbuf).
     let downstream_cap = caps ! 0; clock_cap = caps ! 1; (inbuf', items) = inbuf_remove inbuf downstream_cap
     in case items of
          None \<Rightarrow> Inr ((u, inbuf'), [])
        | Some items \<Rightarrow>
            ebind (efold (\<lambda>_ item. reraise (inspector downstream_cap item)) () items) (\<lambda>_.
            Inr ((u, inbuf'), map (\<lambda>x. Inl (downstream_cap, x)) items @ [Inr clock_cap])))"

text \<open>\<^verbatim>\<open>extract_key\<close> needs a pair with a string; \<^verbatim>\<open>wrap_key\<close> makes such a pair again.\<close>

definition extract_key :: "('x \<Rightarrow> ('x \<times> 'x) res) \<Rightarrow> ('x \<Rightarrow> string res) \<Rightarrow> 'x \<Rightarrow> (string \<times> 'x) res" where
  "extract_key as_pair as_str item =
     ebind (raise_as ''TypeError'' (as_pair item)) (\<lambda>(key, v).
     ebind (raise_as ''TypeError'' (as_str key)) (\<lambda>key. Inr (key, v)))"

definition wrap_key :: "('x \<Rightarrow> 'x \<Rightarrow> 'x) \<Rightarrow> (string \<Rightarrow> 'x) \<Rightarrow> string \<times> 'x \<Rightarrow> 'x" where
  "wrap_key mk_pair of_str = (\<lambda>(key, v). mk_pair (of_str key) v)"

section \<open>\<^verbatim>\<open>UnaryLogic\<close>\<close>

datatype is_complete = IcRetain | IcDiscard

text \<open>Python's \<^verbatim>\<open>DISCARD\<close> is \<^verbatim>\<open>True\<close>.\<close>

definition extract_is_complete :: "('p \<Rightarrow> bool res) \<Rightarrow> 'p \<Rightarrow> is_complete res" where
  "extract_is_complete as_bool ob = emap (\<lambda>b. if b then IcDiscard else IcRetain) (reraise (as_bool ob))"

definition extract_ret ::
  "('p \<Rightarrow> ('p \<times> 'p) res) \<Rightarrow> ('p \<Rightarrow> bool res) \<Rightarrow> ('p \<Rightarrow> 'r list res) \<Rightarrow> 'p \<Rightarrow> ('r list \<times> is_complete) res" where
  "extract_ret as_pair as_bool as_list res =
     ebind (reraise (as_pair res)) (\<lambda>(iter, ic).
     ebind (extract_is_complete as_bool ic) (\<lambda>ic.
     ebind (reraise (as_list iter)) (\<lambda>emit. Inr (emit, ic))))"

definition extract_unary_logic :: "('p \<Rightarrow> bool) \<Rightarrow> 'p \<Rightarrow> 'p res" where
  "extract_unary_logic is_logic ob = (if is_logic ob then Inr ob else Inl (PyErr ''TypeError''))"

text \<open>The methods as the operator calls them; building takes the current time and the resume state.\<close>

record ('l, 'v, 'r, 'q) unary_ops =
  ul_build :: "time \<Rightarrow> 'q option \<Rightarrow> 'l res"
  ul_on_item :: "'l \<Rightarrow> time \<Rightarrow> 'v \<Rightarrow> ('l \<times> 'r list \<times> is_complete) res"
  ul_on_notify :: "'l \<Rightarrow> time \<Rightarrow> ('l \<times> 'r list \<times> is_complete) res"
  ul_on_eof :: "'l \<Rightarrow> ('l \<times> 'r list \<times> is_complete) res"
  ul_notify_at :: "'l \<Rightarrow> time option res"
  ul_snapshot :: "'l \<Rightarrow> 'q res"

text \<open>A Python class as such a record: each call returns the object after it and a value to extract.\<close>

definition unary_logic_of where
  "unary_logic_of is_logic as_pair as_bool as_list as_time build on_item on_notify on_eof notify_at' snap =
     (let ret = (\<lambda>(l', res). emap (\<lambda>(emit, ic). (l', emit, ic)) (reraise (extract_ret as_pair as_bool as_list res)))
      in \<lparr>ul_build = (\<lambda>now st. ebind (build now st) (extract_unary_logic is_logic)),
          ul_on_item = (\<lambda>l now v. ebind (on_item l now v) ret), ul_on_notify = (\<lambda>l sched. ebind (on_notify l sched) ret),
          ul_on_eof = (\<lambda>l. ebind (on_eof l) ret),
          ul_notify_at = (\<lambda>l. ebind (notify_at' l) (\<lambda>res. reraise (as_time res))),
          ul_snapshot = snap\<rparr>)"

section \<open>\<^verbatim>\<open>unary\<close>: one epoch\<close>

record ('k, 'l) un_core =
  un_logics :: "('k, 'l) btree"
  sched_cache :: "('k, time) btree"
  un_awoken :: "'k bset"

record ('k, 'v, 'l, 'q) un_state =
  un_init_caps :: "epoch list"
  kv_downstream_cap :: "epoch option"
  snap_cap :: "epoch option"
  un_core :: "('k, 'l) un_core"
  un_inbuf :: "(worker \<times> 'k \<times> 'v) in_buffer"
  un_loads :: "(worker \<times> 'k \<times> 'q state_change) in_buffer"

definition un_new :: "('k, 'l) un_core" where
  "un_new = \<lparr>un_logics = [], sched_cache = [], un_awoken = []\<rparr>"

definition un_start :: "epoch list \<Rightarrow> ('k, 'v, 'l, 'q) un_state" where
  "un_start caps =
     (let pop = (\<lambda>xs. if xs = [] then (xs, None) else (butlast xs, Some (last xs)));
          (caps, snap) = pop caps;
          (caps, kv) = pop caps
      in \<lparr>un_init_caps = caps, kv_downstream_cap = kv, snap_cap = snap, un_core = un_new,
          un_inbuf = inbuf_new, un_loads = inbuf_new\<rparr>)"

text \<open>What an \<^verbatim>\<open>on_*\<close> call leaves: the logic itself is mutated in place, then perhaps removed.\<close>

definition un_forget :: "'k \<Rightarrow> ('k, 'l) un_core \<Rightarrow> ('k, 'l) un_core" where
  "un_forget key c = c\<lparr>un_logics := bt_remove key (un_logics c), sched_cache := bt_remove key (sched_cache c)\<rparr>"

definition un_touch :: "'k::linorder \<Rightarrow> 'l \<Rightarrow> ('k, 'l) un_core \<Rightarrow> ('k, 'l) un_core" where
  "un_touch key l c = c\<lparr>un_logics := bt_insert key l (un_logics c), un_awoken := bs_insert key (un_awoken c)\<rparr>"

text \<open>First the items.\<close>

definition un_item ::
  "('l, 'v, 'r, 'q) unary_ops \<Rightarrow> worker \<Rightarrow> time \<Rightarrow> ('k::linorder, 'l) un_core \<times> ('k \<times> 'r) list \<Rightarrow>
    worker \<times> 'k \<times> 'v \<Rightarrow> (('k, 'l) un_core \<times> ('k \<times> 'r) list) res" where
  "un_item L this now = (\<lambda>(c, out) (w, key, v).
     ebind (eguard (w = this) (AssertFail ''worker == this_worker'')) (\<lambda>_.
     ebind (case bt_get (un_logics c) key of Some l \<Rightarrow> Inr l | None \<Rightarrow> ul_build L now None) (\<lambda>l.
     emap (\<lambda>(l', rs, ic).
         (case ic of IcDiscard \<Rightarrow> un_forget key (un_touch key l' c) | IcRetain \<Rightarrow> un_touch key l' c,
          out @ map (Pair key) rs))
       (reraise (ul_on_item L l now v)))))"

text \<open>Then the notifications that are due; each fires once.\<close>

definition un_due :: "time \<Rightarrow> ('k, 'l) un_core \<Rightarrow> ('k \<times> time) list" where
  "un_due now c = filter (\<lambda>(_, sched). sched \<le> now) (sched_cache c)"

definition un_notify ::
  "('l, 'v, 'r, 'q) unary_ops \<Rightarrow> ('k::linorder, 'l) un_core \<times> ('k \<times> 'r) list \<Rightarrow> 'k \<times> time \<Rightarrow>
    (('k, 'l) un_core \<times> ('k \<times> 'r) list) res" where
  "un_notify L = (\<lambda>(c, out) (key, sched).
     ebind (expect ''logics.get(&key)'' (bt_get (un_logics c) key)) (\<lambda>l.
     emap (\<lambda>(l', rs, ic).
         (case ic of
            IcDiscard \<Rightarrow> un_forget key (un_touch key l' c)
          | IcRetain \<Rightarrow> (un_touch key l' c)\<lparr>sched_cache := bt_remove key (sched_cache c)\<rparr>,
          out @ map (Pair key) rs))
       (reraise (ul_on_notify L l sched))))"

text \<open>At the end of the input, all logics that still exist; the discarded ones go afterwards.\<close>

definition un_eof ::
  "('l, 'v, 'r, 'q) unary_ops \<Rightarrow> (('k::linorder, 'l) un_core \<times> 'k list) \<times> ('k \<times> 'r) list \<Rightarrow> 'k \<times> 'l \<Rightarrow>
    ((('k, 'l) un_core \<times> 'k list) \<times> ('k \<times> 'r) list) res" where
  "un_eof L = (\<lambda>((c, discarded), out) (key, l).
     emap (\<lambda>(l', rs, ic).
         ((un_touch key l' c, case ic of IcDiscard \<Rightarrow> discarded @ [key] | IcRetain \<Rightarrow> discarded),
          out @ map (Pair key) rs))
       (reraise (ul_on_eof L l)))"

definition un_eof_all ::
  "('l, 'v, 'r, 'q) unary_ops \<Rightarrow> bool \<Rightarrow> ('k::linorder, 'l) un_core \<times> ('k \<times> 'r) list \<Rightarrow>
    (('k, 'l) un_core \<times> ('k \<times> 'r) list) res" where
  "un_eof_all L ended = (\<lambda>(c, out).
     if ended then
       emap (\<lambda>((c', discarded), out'). (foldl (\<lambda>c key. un_forget key c) c' discarded, out'))
         (efold (un_eof L) ((c, []), out) (un_logics c))
     else Inr (c, out))"

text \<open>Then the next notification time of every key awoken in this epoch.\<close>

definition un_resched :: "('l, 'v, 'r, 'q) unary_ops \<Rightarrow> ('k::linorder, 'l) un_core \<Rightarrow> 'k \<Rightarrow> ('k, 'l) un_core res" where
  "un_resched L c key = (case bt_get (un_logics c) key of
       None \<Rightarrow> Inr c
     | Some l \<Rightarrow> emap (\<lambda>sched. case sched of
           Some t \<Rightarrow> c\<lparr>sched_cache := bt_insert key t (sched_cache c)\<rparr>
         | None \<Rightarrow> c) (reraise (ul_notify_at L l)))"

text \<open>At the close of the epoch, snapshots and then loads.\<close>

definition un_snap ::
  "('l, 'v, 'r, 'q) unary_ops \<Rightarrow> 's \<Rightarrow> ('k, 'l) un_core \<Rightarrow> 'k \<Rightarrow> ('s, 'k, 'q) snapshot res" where
  "un_snap L step c key = (case bt_get (un_logics c) key of
       Some l \<Rightarrow> emap (\<lambda>q. Snapshot step key (Upsert q)) (reraise (ul_snapshot L l))
     | None \<Rightarrow> Inr (Snapshot step key state_change.Discard))"

definition un_load ::
  "('l, 'v, 'r, 'q) unary_ops \<Rightarrow> worker \<Rightarrow> time \<Rightarrow> ('k::linorder, 'l) un_core \<Rightarrow> worker \<times> 'k \<times> 'q state_change \<Rightarrow>
    ('k, 'l) un_core res" where
  "un_load L this now c = (\<lambda>(w, key, change).
     ebind (eguard (w = this) (AssertFail ''worker == this_worker'')) (\<lambda>_. case change of
       Upsert q \<Rightarrow>
         ebind (ul_build L now (Some q)) (\<lambda>l. emap (\<lambda>sched.
           c\<lparr>sched_cache := (case sched of Some t \<Rightarrow> bt_insert key t (sched_cache c) | None \<Rightarrow> sched_cache c),
             un_logics := bt_insert key l (un_logics c)\<rparr>) (ul_notify_at L l))
     | state_change.Discard \<Rightarrow> Inr (un_forget key c)))"

text \<open>The calls of one epoch, in order.\<close>

definition un_calls where
  "un_calls L this now ended items c =
     ebind (efold (un_item L this now) (c, []) items) (\<lambda>(c1, out1).
     ebind (efold (un_notify L) (c1, out1) (un_due now c1)) (\<lambda>s2.
     ebind (un_eof_all L ended s2) (\<lambda>(c3, out3).
     emap (\<lambda>c4. (c4, out3)) (efold (un_resched L) c3 (un_awoken c3)))))"

definition un_epoch ::
  "('l, 'v, 'r, 'q) unary_ops \<Rightarrow> worker \<Rightarrow> 's \<Rightarrow> time \<Rightarrow> epoch option \<Rightarrow>
    ('k::linorder, 'v, 'l, 'q) un_state \<times> (epoch \<times> 'k \<times> 'r) list \<times> (epoch \<times> ('s, 'k, 'q) snapshot) list \<Rightarrow>
    epoch \<Rightarrow>
    (('k, 'v, 'l, 'q) un_state \<times> (epoch \<times> 'k \<times> 'r) list \<times> (epoch \<times> ('s, 'k, 'q) snapshot) list) res" where
  "un_epoch L this step now fr = (\<lambda>(s, out, chg) epoch.
     ebind (downgrade_all epoch (case kv_downstream_cap s of None \<Rightarrow> [] | Some c \<Rightarrow> [c])) (\<lambda>ocaps.
     ebind (downgrade_all epoch (case snap_cap s of None \<Rightarrow> [] | Some c \<Rightarrow> [c])) (\<lambda>scaps.
     let (inbuf', items) = inbuf_remove (un_inbuf s) epoch
     in ebind (un_calls L this now (is_eof fr) (case items of None \<Rightarrow> [] | Some xs \<Rightarrow> xs) (un_core s)) (\<lambda>(c, rs).
     let s' = s\<lparr>kv_downstream_cap := Some (ocaps ! 0), snap_cap := Some (scaps ! 0), un_inbuf := inbuf'\<rparr>;
         out' = out @ map (\<lambda>r. (ocaps ! 0, r)) rs
     in if is_closed fr epoch then
          let (loads', loads) = inbuf_remove (un_loads s) epoch
          in ebind (emapM (un_snap L step c) (un_awoken c)) (\<lambda>sns.
             emap (\<lambda>c'. (s'\<lparr>un_core := c', un_loads := loads'\<rparr>, out', chg @ map (\<lambda>x. (scaps ! 0, x)) sns))
               (efold (un_load L this now) (c\<lparr>un_awoken := []\<rparr>) (case loads of None \<Rightarrow> [] | Some ls \<Rightarrow> ls)))
        else Inr (s'\<lparr>un_core := c\<rparr>, out', chg)))))"

section \<open>\<^verbatim>\<open>unary\<close>: one activation\<close>

definition un_epochs ::
  "epoch \<Rightarrow> epoch option \<Rightarrow> epoch \<Rightarrow> 'a in_buffer \<Rightarrow> 'b in_buffer \<Rightarrow> epoch bset" where
  "un_epochs resume fr last_epoch buf loads =
     (let frontier_epoch = (case fr of Some f \<Rightarrow> f | None \<Rightarrow> last_epoch);
          es = filter (is_closed fr)
            (bs_extend (bs_extend (bs_insert last_epoch []) (inbuf_epochs buf)) (inbuf_epochs loads))
      in if resume \<le> frontier_epoch then bs_insert frontier_epoch es else es)"

definition un_next_activation :: "time \<Rightarrow> ('k, 'l) un_core \<Rightarrow> dur option" where
  "un_next_activation now c =
     (if sched_cache c = [] then None else Some (max 0 (min_list (map (\<lambda>(_, at). at - now) (sched_cache c)))))"

record ('k, 'v, 'q) un_msgs =
  un_items :: "(epoch \<times> (worker \<times> 'k \<times> 'v) list) list"
  un_load_msgs :: "(epoch \<times> (worker \<times> 'k \<times> 'q state_change) list) list"
  un_now :: time
  un_frontiers :: "frontier list"

definition un_activate ::
  "('l, 'v, 'r, 'q) unary_ops \<Rightarrow> worker \<Rightarrow> 's \<Rightarrow> epoch \<Rightarrow>
    ('k::linorder, 'v, 'l, 'q) un_state \<Rightarrow> ('k, 'v, 'q) un_msgs \<Rightarrow>
    (('k, 'v, 'l, 'q) un_state \<times> (epoch \<times> 'k \<times> 'r) list \<times> (epoch \<times> ('s, 'k, 'q) snapshot) list \<times> dur option) res" where
  "un_activate L this step resume s m =
     (let fr = simplify (un_frontiers m)
      in emap (\<lambda>(s', out, chg, nxt).
           (if is_eof fr then s'\<lparr>kv_downstream_cap := None, snap_cap := None\<rparr> else s', out, chg, nxt))
         (case (kv_downstream_cap s, snap_cap s) of
            (Some ocap, Some scap) \<Rightarrow>
              ebind (eguard (ocap = scap) (AssertFail ''output_cap.time() == state_update_cap.time()'')) (\<lambda>_.
              let buf = buffer_all (un_items m) (un_inbuf s);
                  loads = buffer_all (un_load_msgs m) (un_loads s);
                  epochs = un_epochs resume fr ocap buf loads
              in ebind (efold (un_epoch L this step (un_now m) fr)
                   (s\<lparr>un_inbuf := buf, un_loads := loads\<rparr>, [], []) epochs) (\<lambda>(s', out, chg).
                 emap (\<lambda>caps. (s'\<lparr>un_init_caps := caps\<rparr>, out, chg, un_next_activation (un_now m) (un_core s')))
                   (if is_eof (simplify_one (un_frontiers m ! 1))
                    then downgrade_all resume (un_init_caps s') else Inr (un_init_caps s'))))
          | _ \<Rightarrow> Inr (s, [], [], None)))"

fun un_run where
  "un_run L this step resume s [] = Inr (s, [], [])"
| "un_run L this step resume s (m # acts) =
     ebind (un_activate L this step resume s m) (\<lambda>(s', out, chg, _).
     emap (\<lambda>(s'', out', chg'). (s'', out @ out', chg @ chg')) (un_run L this step resume s' acts))"

text \<open>\<open>un_epochs\<close> is the computation of the stateful operator, written differently.\<close>

lemma un_epochs_eq: "un_epochs resume fr last_epoch buf loads = su_epochs resume fr last_epoch buf loads"
proof -
  let ?es = "filter (is_closed fr)
      (bs_extend (bs_extend (bs_insert last_epoch []) (inbuf_epochs buf)) (inbuf_epochs loads))"
  let ?es' = "bs_extend (bs_extend (if is_closed fr last_epoch then bs_insert last_epoch [] else [])
      (filter (is_closed fr) (inbuf_epochs buf))) (filter (is_closed fr) (inbuf_epochs loads))"
  have "?es = ?es'" by (rule bs_ext) (auto simp: bs_wf_Cons)
  then show ?thesis by (simp add: un_epochs_def su_epochs_def Let_def)
qed

end
