(* ===== verification/Unary_Runs.thy ===== *)
theory Unary_Runs
  imports Unary_Op Stateful_Runs
begin

text \<open>
  Runs of the \<^verbatim>\<open>unary\<close> operator (\<^verbatim>\<open>src/src/operators/mod.rs\<close>): no run panics when the Python logic
  raises nothing (locale \<open>unary_logic\<close>), in particular every key with a scheduled notification has a
  logic; each key's logic is called on its own items, its notification and the end of input, in the
  order the documentation gives; and two ways in which the calls differ from the documentation. The
  locale is interpreted on the logics behind \<^verbatim>\<open>fold_final\<close> and \<^verbatim>\<open>collect\<close> of
  \<^verbatim>\<open>src/pysrc/bytewax/operators\<close>.
\<close>

section \<open>The contract of a logic\<close>

locale unary_logic =
  fixes L :: "('l, 'v, 'r, 'q) unary_ops" and linv :: "'l \<Rightarrow> bool" and ok :: "'v \<Rightarrow> bool"
  assumes build: "\<exists>l. ul_build L now None = Inr l \<and> linv l"
    and item: "linv l \<Longrightarrow> ok v \<Longrightarrow> \<exists>l' rs ic. ul_on_item L l now v = Inr (l', rs, ic) \<and> linv l'"
    and notify: "linv l \<Longrightarrow> \<exists>l' rs ic. ul_on_notify L l t = Inr (l', rs, ic) \<and> linv l'"
    and eof: "linv l \<Longrightarrow> \<exists>l' rs ic. ul_on_eof L l = Inr (l', rs, ic) \<and> linv l'"
    and notify_at: "linv l \<Longrightarrow> \<exists>t. ul_notify_at L l = Inr t"
    and snapshot: "linv l \<Longrightarrow> \<exists>q. ul_snapshot L l = Inr q \<and> (\<exists>l'. ul_build L now (Some q) = Inr l' \<and> linv l')"

text \<open>Good maps: no notification is scheduled for a key without logic.\<close>

definition un_ok :: "('l \<Rightarrow> bool) \<Rightarrow> ('k::linorder, 'l) un_core \<Rightarrow> bool" where
  "un_ok linv c \<longleftrightarrow> bt_wf (un_logics c) \<and> bt_wf (sched_cache c) \<and> bs_wf (un_awoken c) \<and>
     dom (bt_get (sched_cache c)) \<subseteq> dom (bt_get (un_logics c)) \<and>
     (\<forall>k l. bt_get (un_logics c) k = Some l \<longrightarrow> linv l)"

lemma un_ok_new [simp]: "un_ok linv un_new"
  by (simp add: un_ok_def un_new_def)

lemma un_ok_touch: "un_ok linv c \<Longrightarrow> linv l \<Longrightarrow> un_ok linv (un_touch k l c)"
  by (auto simp: un_ok_def un_touch_def)

lemma un_ok_forget: "un_ok linv c \<Longrightarrow> un_ok linv (un_forget k c)"
  by (auto simp: un_ok_def un_forget_def)

lemma un_ok_unsched: "un_ok linv c \<Longrightarrow> un_ok linv (c\<lparr>sched_cache := bt_remove k (sched_cache c)\<rparr>)"
  by (auto simp: un_ok_def)

lemma un_ok_awoken: "un_ok linv c \<Longrightarrow> bs_wf ks \<Longrightarrow> un_ok linv (c\<lparr>un_awoken := ks\<rparr>)"
  by (simp add: un_ok_def)

lemma un_touch_sched [simp]: "sched_cache (un_touch k l c) = sched_cache c"
  by (simp add: un_touch_def)

lemma un_touch_logics [simp]: "bt_get (un_logics (un_touch k l c)) = (bt_get (un_logics c))(k \<mapsto> l)"
  by (simp add: un_touch_def)

definition change_ok :: "('l, 'v, 'r, 'q) unary_ops \<Rightarrow> ('l \<Rightarrow> bool) \<Rightarrow> 'q state_change \<Rightarrow> bool" where
  "change_ok L linv ch \<longleftrightarrow> (\<forall>q. ch = Upsert q \<longrightarrow> (\<forall>now. \<exists>l. ul_build L now (Some q) = Inr l \<and> linv l))"

definition unload_ok ::
  "('l, 'v, 'r, 'q) unary_ops \<Rightarrow> ('l \<Rightarrow> bool) \<Rightarrow> worker \<Rightarrow> worker \<times> 'k \<times> 'q state_change \<Rightarrow> bool" where
  "unload_ok L linv this = (\<lambda>(w, k, ch). w = this \<and> change_ok L linv ch)"

text \<open>What Timely promises about the activations.\<close>

fun un_timely ::
  "(worker \<times> 'k \<times> 'v \<Rightarrow> bool) \<Rightarrow> (worker \<times> 'k \<times> 'q state_change \<Rightarrow> bool) \<Rightarrow>
    epoch \<Rightarrow> ('k, 'v, 'q) un_msgs list \<Rightarrow> bool" where
  "un_timely okitem okload lo [] = True"
| "un_timely okitem okload lo (m # acts) =
     ((\<forall>(e, xs) \<in> set (un_items m). lo \<le> e \<and> (\<forall>x \<in> set xs. okitem x)) \<and>
      (\<forall>(e, xs) \<in> set (un_load_msgs m). lo \<le> e \<and> (\<forall>x \<in> set xs. okload x)) \<and>
      (case simplify (un_frontiers m) of
         Some f \<Rightarrow> lo \<le> f \<and> un_timely okitem okload f acts
       | None \<Rightarrow> \<forall>m \<in> set acts. un_items m = [] \<and> un_load_msgs m = [] \<and> simplify (un_frontiers m) = None))"

context unary_logic
begin

lemma un_item_ok:
  assumes "un_ok linv c" and "item_ok ok this x"
  shows "\<exists>c' out'. un_item L this now (c, out) x = Inr (c', out') \<and> un_ok linv c'"
proof -
  obtain k v where x: "x = (this, k, v)" "ok v" using assms(2) by (auto simp: item_ok_def)
  obtain l where l: "(case bt_get (un_logics c) k of Some l \<Rightarrow> Inr l | None \<Rightarrow> ul_build L now None) = Inr l" "linv l"
    using assms(1) build [of now] by (cases "bt_get (un_logics c) k") (auto simp: un_ok_def)
  from item [OF l(2) x(2)] obtain l' rs ic where i: "ul_on_item L l now v = Inr (l', rs, ic)" "linv l'" by blast
  show ?thesis using l i x un_ok_touch [OF assms(1) i(2), of k] un_ok_forget [OF un_ok_touch [OF assms(1) i(2)], of k k]
    by (cases ic) (simp_all add: un_item_def)
qed

lemma un_notify_ok:
  assumes "un_ok linv c" and "bt_get (un_logics c) k = Some l"
  shows "\<exists>c' out'. un_notify L (c, out) (k, t) = Inr (c', out') \<and> un_ok linv c' \<and>
    (\<forall>k'. k' \<noteq> k \<longrightarrow> bt_get (un_logics c') k' = bt_get (un_logics c) k')"
proof -
  have "linv l" using assms by (simp add: un_ok_def)
  from notify [OF this] obtain l' rs ic where i: "ul_on_notify L l t = Inr (l', rs, ic)" "linv l'" by blast
  note t = un_ok_touch [OF assms(1) i(2), of k]
  show ?thesis
    using i assms(2) un_ok_unsched [OF t, of k] un_ok_forget [OF t, of k]
    by (cases ic) (simp_all add: un_notify_def un_forget_def)
qed

lemma un_notify_all_ok:
  assumes "un_ok linv c" and "distinct (map fst due)" and "fst ` set due \<subseteq> dom (bt_get (un_logics c))"
  shows "\<exists>c' out'. efold (un_notify L) (c, out) due = Inr (c', out') \<and> un_ok linv c'"
  using assms
proof (induction due arbitrary: c out)
  case Nil
  then show ?case by simp
next
  case (Cons x due)
  obtain k t where x: "x = (k, t)" by fastforce
  from Cons.prems(3) obtain l where "bt_get (un_logics c) k = Some l" by (auto simp: x)
  from un_notify_ok [OF Cons.prems(1) this, of out t] obtain c1 out1 where
    s: "un_notify L (c, out) (k, t) = Inr (c1, out1)" "un_ok linv c1"
      "\<forall>k'. k' \<noteq> k \<longrightarrow> bt_get (un_logics c1) k' = bt_get (un_logics c) k'" by blast
  have "fst ` set due \<subseteq> dom (bt_get (un_logics c1))"
  proof
    fix k' assume k': "k' \<in> fst ` set due"
    with Cons.prems(2) have "k' \<noteq> k" by (auto simp: x)
    moreover have "k' \<in> dom (bt_get (un_logics c))" using Cons.prems(3) k' by auto
    ultimately show "k' \<in> dom (bt_get (un_logics c1))" using s(3) by (simp add: dom_def)
  qed
  with Cons.IH [OF s(2)] Cons.prems(2) s(1) show ?case by (simp add: x)
qed

lemma un_due_ok:
  assumes "un_ok linv c"
  shows "distinct (map fst (un_due now c))" and "fst ` set (un_due now c) \<subseteq> dom (bt_get (un_logics c))"
proof -
  have wf: "bt_wf (sched_cache c)" using assms by (simp add: un_ok_def)
  then have "bt_wf (un_due now c)" by (simp add: un_due_def)
  then show "distinct (map fst (un_due now c))" by (rule bt_wf_distinct)
  show "fst ` set (un_due now c) \<subseteq> dom (bt_get (un_logics c))"
    using assms wf by (auto simp: un_ok_def un_due_def dom_def bt_get_eq_Some_iff) blast
qed

lemma un_eof_all_ok:
  assumes "un_ok linv c"
  shows "\<exists>c' out'. un_eof_all L ended (c, out) = Inr (c', out') \<and> un_ok linv c'"
proof -
  have "\<exists>cd out'. efold (un_eof L) ((c, []), out) (un_logics c) = Inr (cd, out') \<and> un_ok linv (fst cd)"
  proof (rule efold_out_total [where I = "\<lambda>cd. un_ok linv (fst cd)"])
    show "un_ok linv (fst (c, []))" using assms by simp
  next
    fix cd :: "('a, 'l) un_core \<times> 'a list" and o' x
    assume c: "un_ok linv (fst cd)" and x: "x \<in> set (un_logics c)"
    obtain k l where kl: "x = (k, l)" by fastforce
    have "linv l" using assms x by (auto simp: kl un_ok_def bt_get_eq_Some_iff)
    from eof [OF this] obtain l' rs ic where "ul_on_eof L l = Inr (l', rs, ic)" "linv l'" by blast
    then show "\<exists>c' out'. un_eof L (cd, o') x = Inr (c', out') \<and> un_ok linv (fst c')"
      using un_ok_touch [OF c] by (cases cd) (simp add: un_eof_def kl)
  qed
  then obtain c1 disc o1 where e: "efold (un_eof L) ((c, []), out) (un_logics c) = Inr ((c1, disc), o1)" "un_ok linv c1"
    by fastforce
  have "un_ok linv (foldl (\<lambda>c key. un_forget key c) c1 ks)" for ks
    using e(2) by (induction ks arbitrary: c1) (simp_all add: un_ok_forget)
  then show ?thesis using assms e by (simp add: un_eof_all_def)
qed

lemma un_resched_ok:
  assumes "un_ok linv c"
  shows "\<exists>c'. efold (un_resched L) c ks = Inr c' \<and> un_ok linv c'"
proof (rule efold_total [where P = "un_ok linv", OF assms])
  fix c k assume c: "un_ok linv c"
  show "\<exists>c'. un_resched L c k = Inr c' \<and> un_ok linv c'"
  proof (cases "bt_get (un_logics c) k")
    case None
    with c show ?thesis by (simp add: un_resched_def)
  next
    case (Some l)
    then have "linv l" using c by (simp add: un_ok_def)
    from notify_at [OF this] obtain t where "ul_notify_at L l = Inr t" by blast
    moreover have "un_ok linv (c\<lparr>sched_cache := bt_insert k t (sched_cache c)\<rparr>)" for t
      using c Some by (auto simp: un_ok_def)
    ultimately show ?thesis using c Some by (cases t) (simp_all add: un_resched_def)
  qed
qed

lemma un_calls_ok:
  assumes "un_ok linv c" and "\<forall>x \<in> set items. item_ok ok this x"
  shows "\<exists>c' out. un_calls L this now ended items c = Inr (c', out) \<and> un_ok linv c'"
proof -
  from efold_out_total [where I = "un_ok linv" and f = "un_item L this now" and xs = items and out = "[]", OF assms(1)]
    un_item_ok assms(2)
  obtain c1 o1 where 1: "efold (un_item L this now) (c, []) items = Inr (c1, o1)" "un_ok linv c1" by blast
  from un_notify_all_ok [OF 1(2) un_due_ok [OF 1(2)]] obtain c2 o2 where
    2: "efold (un_notify L) (c1, o1) (un_due now c1) = Inr (c2, o2)" "un_ok linv c2" by blast
  from un_eof_all_ok [OF 2(2)] obtain c3 o3 where 3: "un_eof_all L ended (c2, o2) = Inr (c3, o3)" "un_ok linv c3" by blast
  from un_resched_ok [OF 3(2)] obtain c4 where "efold (un_resched L) c3 (un_awoken c3) = Inr c4" "un_ok linv c4" by blast
  with 1 2 3 show ?thesis by (simp add: un_calls_def)
qed

lemma un_load_ok:
  assumes "un_ok linv c" and "unload_ok L linv this x"
  shows "\<exists>c'. un_load L this now c x = Inr c' \<and> un_ok linv c' \<and> un_awoken c' = un_awoken c"
proof -
  obtain k ch where x: "x = (this, k, ch)" "change_ok L linv ch" using assms(2) by (auto simp: unload_ok_def)
  show ?thesis
  proof (cases ch)
    case Discard
    then show ?thesis using un_ok_forget [OF assms(1)] by (simp add: un_load_def x(1)) (simp add: un_forget_def)
  next
    case (Upsert q)
    with x(2) obtain l where l: "ul_build L now (Some q) = Inr l" "linv l" by (auto simp: change_ok_def)
    from notify_at [OF l(2)] obtain t where "ul_notify_at L l = Inr t" by blast
    moreover have "un_ok linv (c\<lparr>sched_cache := (case t of Some t \<Rightarrow> bt_insert k t (sched_cache c) | None \<Rightarrow> sched_cache c),
        un_logics := bt_insert k l (un_logics c)\<rparr>)"
      using assms(1) l(2) by (auto simp: un_ok_def split: option.split)
    ultimately show ?thesis using l(1) Upsert by (simp add: un_load_def x(1))
  qed
qed

lemma un_snaps_ok:
  assumes "un_ok linv c"
  shows "\<exists>sns. emapM (un_snap L step c) ks = Inr sns \<and> (\<forall>x \<in> set sns. change_ok L linv (sn_change x))"
proof (induction ks)
  case Nil
  then show ?case by simp
next
  case (Cons k ks)
  then obtain sns where r: "emapM (un_snap L step c) ks = Inr sns" "\<forall>x \<in> set sns. change_ok L linv (sn_change x)" by blast
  show ?case
  proof (cases "bt_get (un_logics c) k")
    case None
    then have "un_snap L step c k = Inr (Snapshot step k state_change.Discard)" by (simp add: un_snap_def)
    moreover have "change_ok L linv state_change.Discard" by (simp add: change_ok_def)
    ultimately show ?thesis using r by simp
  next
    case (Some l)
    with assms have "linv l" by (simp add: un_ok_def)
    note s = snapshot [OF this]
    from s [of 0] obtain q where q: "ul_snapshot L l = Inr q" by blast
    have "change_ok L linv (Upsert q)" unfolding change_ok_def using s q by simp
    moreover have "un_snap L step c k = Inr (Snapshot step k (Upsert q))" using Some q by (simp add: un_snap_def)
    ultimately show ?thesis using r by simp
  qed
qed

lemma un_epoch_ok:
  assumes core: "un_ok linv (un_core s)" and caps: "kv_downstream_cap s = Some cap" "snap_cap s = Some cap" "cap \<le> e"
    and items: "\<forall>x \<in> set (inbuf_items (un_inbuf s) e). item_ok ok this x"
    and loads: "\<forall>x \<in> set (inbuf_items (un_loads s) e). unload_ok L linv this x"
  shows "\<exists>s' out' chg'. un_epoch L this step now fr (s, out, chg) e = Inr (s', out', chg') \<and>
    kv_downstream_cap s' = Some e \<and> snap_cap s' = Some e \<and> un_init_caps s' = un_init_caps s \<and>
    un_ok linv (un_core s') \<and> un_inbuf s' = bt_remove e (un_inbuf s) \<and>
    un_loads s' = (if is_closed fr e then bt_remove e (un_loads s) else un_loads s) \<and>
    (is_closed fr e \<longrightarrow> un_awoken (un_core s') = [])"
proof -
  have down: "downgrade_all e [cap] = Inr [e]" using caps(3) by (simp add: downgrade_all_def cap_downgrade_def)
  have its: "(case bt_get (un_inbuf s) e of None \<Rightarrow> [] | Some xs \<Rightarrow> xs) = inbuf_items (un_inbuf s) e"
    and lds: "(case bt_get (un_loads s) e of None \<Rightarrow> [] | Some ls \<Rightarrow> ls) = inbuf_items (un_loads s) e"
    by (simp_all add: inbuf_items_def)
  from un_calls_ok [OF core items] obtain c rs where
    c: "un_calls L this now (is_eof fr) (inbuf_items (un_inbuf s) e) (un_core s) = Inr (c, rs)" "un_ok linv c" by blast
  let ?s = "s\<lparr>kv_downstream_cap := Some e, snap_cap := Some e, un_inbuf := bt_remove e (un_inbuf s)\<rparr>"
  show ?thesis
  proof (cases "is_closed fr e")
    case False
    have "un_epoch L this step now fr (s, out, chg) e = Inr (?s\<lparr>un_core := c\<rparr>, out @ map (Pair e) rs, chg)"
      using False by (simp add: un_epoch_def caps down inbuf_remove_def its c(1))
    then show ?thesis using c(2) False
      by (intro exI [of _ "?s\<lparr>un_core := c\<rparr>"] exI [of _ "out @ map (Pair e) rs"] exI [of _ chg]) simp
  next
    case True
    obtain sns where sns: "emapM (un_snap L step c) (un_awoken c) = Inr sns"
      using un_snaps_ok [OF c(2), of step "un_awoken c"] by (elim exE conjE)
    have "un_ok linv (c\<lparr>un_awoken := []\<rparr>) \<and> un_awoken (c\<lparr>un_awoken := []\<rparr>) = []"
      using un_ok_awoken [OF c(2)] by simp
    then have "\<exists>c'. efold (un_load L this now) (c\<lparr>un_awoken := []\<rparr>) (inbuf_items (un_loads s) e) = Inr c' \<and>
      un_ok linv c' \<and> un_awoken c' = []"
    proof (rule efold_total [where P = "\<lambda>c. un_ok linv c \<and> un_awoken c = []"], goal_cases)
      case (1 c x)
      with loads have "unload_ok L linv this x" by blast
      with un_load_ok [OF conjunct1 [OF 1(1)] this, of now] 1(1) show ?case by auto
    qed
    then obtain c' where c': "efold (un_load L this now) (c\<lparr>un_awoken := []\<rparr>) (inbuf_items (un_loads s) e) = Inr c'"
      "un_ok linv c'" "un_awoken c' = []" by blast
    let ?s' = "?s\<lparr>un_core := c', un_loads := bt_remove e (un_loads s)\<rparr>"
    have "un_epoch L this step now fr (s, out, chg) e = Inr (?s', out @ map (Pair e) rs, chg @ map (Pair e) sns)"
      using True by (simp add: un_epoch_def caps down inbuf_remove_def its lds c(1) sns c'(1))
    then show ?thesis using c'(2,3) True
      by (intro exI [of _ ?s'] exI [of _ "out @ map (Pair e) rs"] exI [of _ "chg @ map (Pair e) sns"]) simp
  qed
qed

lemma un_loop_ok:
  assumes "un_ok linv (un_core s)" and "kv_downstream_cap s = Some cap" and "snap_cap s = Some cap"
    and "sorted_wrt (<) es" and "\<forall>e \<in> set es. cap \<le> e"
    and "\<forall>e. \<forall>x \<in> set (inbuf_items (un_inbuf s) e). item_ok ok this x"
    and "\<forall>e. \<forall>x \<in> set (inbuf_items (un_loads s) e). unload_ok L linv this x"
  shows "\<exists>s' out' chg'. efold (un_epoch L this step now fr) (s, out, chg) es = Inr (s', out', chg') \<and>
    kv_downstream_cap s' = Some (last (cap # es)) \<and> snap_cap s' = Some (last (cap # es)) \<and>
    un_init_caps s' = un_init_caps s \<and> un_ok linv (un_core s') \<and>
    un_inbuf s' = filter (\<lambda>(e, _). e \<notin> set es) (un_inbuf s) \<and>
    un_loads s' = filter (\<lambda>(e, _). \<not> (e \<in> set es \<and> is_closed fr e)) (un_loads s) \<and>
    (es \<noteq> [] \<longrightarrow> is_closed fr (last es) \<longrightarrow> un_awoken (un_core s') = [])"
  using assms
proof (induction es arbitrary: s cap out chg)
  case Nil
  then show ?case by (intro exI [of _ s]) (simp add: filter_id_conv)
next
  case (Cons e es)
  from un_epoch_ok [where e = e and out = out and chg = chg and step = step and fr = fr and now = now,
      OF Cons.prems(1-3)] Cons.prems(5-7)
  obtain s1 o1 c1 where s1: "un_epoch L this step now fr (s, out, chg) e = Inr (s1, o1, c1)"
    "kv_downstream_cap s1 = Some e" "snap_cap s1 = Some e" "un_init_caps s1 = un_init_caps s" "un_ok linv (un_core s1)"
    "un_inbuf s1 = bt_remove e (un_inbuf s)" "un_loads s1 = (if is_closed fr e then bt_remove e (un_loads s) else un_loads s)"
    "is_closed fr e \<longrightarrow> un_awoken (un_core s1) = []"
    by (metis list.set_intros(1))
  have items: "\<forall>e. \<forall>x \<in> set (inbuf_items (un_inbuf s1) e). item_ok ok this x"
    using Cons.prems(6) unfolding s1(6) by (simp add: inbuf_items_def)
  have loads: "\<forall>e. \<forall>x \<in> set (inbuf_items (un_loads s1) e). unload_ok L linv this x"
    using Cons.prems(7) unfolding s1(7) by (simp add: inbuf_items_def)
  from Cons.prems(4) have srt: "sorted_wrt (<) es" and ge: "\<forall>e' \<in> set es. e \<le> e'" by auto
  from Cons.IH [OF s1(5,2,3) srt ge items loads, of o1 c1]
  obtain s' o2 c2 where s': "efold (un_epoch L this step now fr) (s1, o1, c1) es = Inr (s', o2, c2)"
    "kv_downstream_cap s' = Some (last (e # es))" "snap_cap s' = Some (last (e # es))" "un_init_caps s' = un_init_caps s1"
    "un_ok linv (un_core s')" "un_inbuf s' = filter (\<lambda>(e, _). e \<notin> set es) (un_inbuf s1)"
    "un_loads s' = filter (\<lambda>(e, _). \<not> (e \<in> set es \<and> is_closed fr e)) (un_loads s1)"
    "es \<noteq> [] \<longrightarrow> is_closed fr (last es) \<longrightarrow> un_awoken (un_core s') = []" by blast
  have "un_inbuf s' = filter (\<lambda>(e', _). e' \<notin> set (e # es)) (un_inbuf s)"
    unfolding s'(6) s1(6) bt_remove_def filter_filter by (rule filter_cong) auto
  moreover have "un_loads s' = filter (\<lambda>(e', _). \<not> (e' \<in> set (e # es) \<and> is_closed fr e')) (un_loads s)"
    unfolding s'(7) s1(7) bt_remove_def by (auto simp: filter_filter intro!: filter_cong)
  moreover have "is_closed fr (last (e # es)) \<longrightarrow> un_awoken (un_core s') = []"
  proof (cases "es = []")
    case True
    with s'(1) have "s' = s1" by simp
    with s1(8) True show ?thesis by simp
  qed (use s'(8) in simp)
  ultimately show ?case using s1(1,4) s'(1-5)
    by (intro exI [of _ s'] exI [of _ o2] exI [of _ c2]) simp
qed

text \<open>The state between activations, and after the end of input.\<close>

definition un_inv :: "worker \<Rightarrow> epoch \<Rightarrow> ('k::linorder, 'v, 'l, 'q) un_state \<Rightarrow> bool" where
  "un_inv this lo s \<longleftrightarrow> (\<exists>cap \<le> lo. kv_downstream_cap s = Some cap \<and> snap_cap s = Some cap) \<and> un_init_caps s = [] \<and>
     un_ok linv (un_core s) \<and> buf_ok (item_ok ok this) lo (un_inbuf s) \<and> buf_ok (unload_ok L linv this) lo (un_loads s)"

definition un_done :: "('k::linorder, 'v, 'l, 'q) un_state \<Rightarrow> bool" where
  "un_done s \<longleftrightarrow> kv_downstream_cap s = None \<and> snap_cap s = None \<and> un_ok linv (un_core s) \<and>
     un_awoken (un_core s) = [] \<and> un_inbuf s = [] \<and> un_loads s = []"

lemma un_inv_start: "un_inv this 0 (un_start [0, 0])"
  by (simp add: un_inv_def un_start_def)

lemma un_activate_ok:
  assumes inv: "un_inv this lo s"
    and t: "un_timely (item_ok ok this) (unload_ok L linv this) lo (m # acts)"
  shows "\<exists>s' out chg nxt. un_activate L this step resume s m = Inr (s', out, chg, nxt) \<and>
    (case simplify (un_frontiers m) of Some f \<Rightarrow> un_inv this f s' | None \<Rightarrow> un_done s')"
proof -
  define fr where "fr = simplify (un_frontiers m)"
  from inv obtain cap where cap: "cap \<le> lo" "kv_downstream_cap s = Some cap" "snap_cap s = Some cap"
    and s: "un_init_caps s = []" "un_ok linv (un_core s)" by (auto simp: un_inv_def)
  define buf where "buf = buffer_all (un_items m) (un_inbuf s)"
  define loads where "loads = buffer_all (un_load_msgs m) (un_loads s)"
  define es where "es = un_epochs resume fr cap buf loads"
  have buf: "buf_ok (item_ok ok this) lo buf" and loads: "buf_ok (unload_ok L linv this) lo loads"
    using inv t unfolding buf_def loads_def by (auto simp: un_inv_def intro!: buf_ok_all)
  have fr: "case fr of Some f \<Rightarrow> lo \<le> f | None \<Rightarrow> True" using t by (simp add: fr_def split: option.splits)
  note es = su_epochs_props [OF buf_ok_epochs [OF buf] buf_ok_epochs [OF loads] cap(1) fr, of resume,
      folded un_epochs_eq, folded es_def]
  define s0 where "s0 = s\<lparr>un_inbuf := buf, un_loads := loads\<rparr>"
  have s0: "un_ok linv (un_core s0)" "kv_downstream_cap s0 = Some cap" "snap_cap s0 = Some cap"
    "\<forall>e. \<forall>x \<in> set (inbuf_items (un_inbuf s0) e). item_ok ok this x"
    "\<forall>e. \<forall>x \<in> set (inbuf_items (un_loads s0) e). unload_ok L linv this x"
    using s cap buf_ok_items [OF buf] buf_ok_items [OF loads] by (simp_all add: s0_def)
  have ge: "\<forall>e \<in> set es. cap \<le> e" using es(2) by blast
  from un_loop_ok [OF s0(1-3) es(1) ge s0(4,5), of step "un_now m" fr "[]" "[]"] obtain s1 out chg where
    run: "efold (un_epoch L this step (un_now m) fr) (s0, [], []) es = Inr (s1, out, chg)"
    and s1: "kv_downstream_cap s1 = Some (last (cap # es))" "snap_cap s1 = Some (last (cap # es))"
    "un_init_caps s1 = un_init_caps s0" "un_ok linv (un_core s1)"
    "un_inbuf s1 = filter (\<lambda>(e, _). e \<notin> set es) (un_inbuf s0)"
    "un_loads s1 = filter (\<lambda>(e, _). \<not> (e \<in> set es \<and> is_closed fr e)) (un_loads s0)"
    "es \<noteq> [] \<longrightarrow> is_closed fr (last es) \<longrightarrow> un_awoken (un_core s1) = []" by auto
  let ?s' = "if is_eof fr then s1\<lparr>kv_downstream_cap := None, snap_cap := None\<rparr> else s1"
  have caps: "un_init_caps s1 = []" using s1(3) s by (simp add: s0_def)
  have act: "un_activate L this step resume s m = Inr (?s', out, chg, un_next_activation (un_now m) (un_core s1))"
    using run caps by (simp add: un_activate_def cap(2,3) Let_def fr_def [symmetric] buf_def [symmetric] loads_def [symmetric]
        es_def [symmetric] s0_def [symmetric] downgrade_all_def)
  have post: "case fr of Some f \<Rightarrow> un_inv this f ?s' | None \<Rightarrow> un_done ?s'"
  proof (cases fr)
    case None
    have "filter (\<lambda>(e, _). e \<notin> set es) buf = []" "filter (\<lambda>(e, _). e \<notin> set es) loads = []"
      using es(3,4) None by (force simp: filter_empty_conv inbuf_epochs_def)+
    then show ?thesis using None s1(4-7) es(5) by (simp add: un_done_def is_eof_def s0_def)
  next
    case (Some f)
    have "last (cap # es) \<le> f"
      using es(2) Some fr cap(1) by (cases "es = []") auto
    moreover have "buf_ok (item_ok ok this) f (un_inbuf s1)"
      unfolding s1(5) s0_def using es(3) Some by (simp, intro buf_ok_filter [OF buf]) force
    moreover have "buf_ok (unload_ok L linv this) f (un_loads s1)"
      unfolding s1(6) s0_def using es(4) Some by (simp, intro buf_ok_filter [OF loads]) force
    ultimately show ?thesis using Some s1(1,2,4) caps by (simp add: un_inv_def is_eof_def)
  qed
  with act show ?thesis unfolding fr_def by blast
qed

lemma un_run_done:
  "un_done s \<Longrightarrow> \<forall>m \<in> set acts. simplify (un_frontiers m) = None \<Longrightarrow> un_run L this step resume s acts = Inr (s, [], [])"
proof (induction acts)
  case Nil
  then show ?case by simp
next
  case (Cons m acts)
  have "s\<lparr>kv_downstream_cap := None, snap_cap := None\<rparr> = s" using Cons.prems(1) by (cases s) (simp add: un_done_def)
  then have "un_activate L this step resume s m = Inr (s, [], [], None)"
    using Cons.prems by (simp add: un_activate_def un_done_def Let_def is_eof_def)
  with Cons show ?case by simp
qed

lemma un_run_ok:
  assumes "un_inv this lo s" and "un_timely (item_ok ok this) (unload_ok L linv this) lo acts"
  shows "\<exists>s' out chg. un_run L this step resume s acts = Inr (s', out, chg) \<and> un_ok linv (un_core s') \<and>
    (acts \<noteq> [] \<longrightarrow> simplify (un_frontiers (last acts)) = None \<longrightarrow> un_done s')"
  using assms
proof (induction acts arbitrary: s lo)
  case Nil
  then show ?case by (simp add: un_inv_def)
next
  case (Cons m acts)
  from un_activate_ok [OF Cons.prems, of step resume] obtain s1 o1 c1 nx where
    a: "un_activate L this step resume s m = Inr (s1, o1, c1, nx)"
    and st: "case simplify (un_frontiers m) of Some f \<Rightarrow> un_inv this f s1 | None \<Rightarrow> un_done s1" by blast
  show ?case
  proof (cases "simplify (un_frontiers m)")
    case None
    with st Cons.prems(2) have dn: "un_done s1" and fin: "\<forall>m \<in> set acts. simplify (un_frontiers m) = None" by auto
    have "un_run L this step resume s (m # acts) = Inr (s1, o1, c1)" by (simp add: a un_run_done [OF dn fin])
    then show ?thesis using dn by (intro exI [of _ s1] exI [of _ o1] exI [of _ c1]) (simp add: un_done_def)
  next
    case (Some f)
    with st Cons.prems(2) have "un_inv this f s1" and
      t: "un_timely (item_ok ok this) (unload_ok L linv this) f acts" by simp_all
    from Cons.IH [OF this] obtain s' o2 c2 where r: "un_run L this step resume s1 acts = Inr (s', o2, c2)"
      "un_ok linv (un_core s')" "acts \<noteq> [] \<longrightarrow> simplify (un_frontiers (last acts)) = None \<longrightarrow> un_done s'"
      by (elim exE conjE) (rule that)
    have "un_run L this step resume s (m # acts) = Inr (s', o1 @ o2, c1 @ c2)" using a r(1) by simp
    with r(2,3) Some show ?thesis
      by (intro exI [of _ s'] exI [of _ "o1 @ o2"] exI [of _ "c1 @ c2"]) simp
  qed
qed

end

section \<open>One key on its own\<close>

text \<open>
  The specification: what an epoch is for one key. Its state is its logic, its scheduled notification
  and whether it was awoken in the epoch; the calls are \<^verbatim>\<open>on_item\<close> for each item, \<^verbatim>\<open>on_notify\<close> if one is
  due, \<^verbatim>\<open>on_eof\<close> at the end of the input, \<^verbatim>\<open>notify_at\<close> if any was called.
\<close>

type_synonym 'l un_solo = "'l option \<times> time option \<times> bool"

definition solo_after :: "'l \<Rightarrow> time option \<Rightarrow> is_complete \<Rightarrow> 'l un_solo" where
  "solo_after l sched ic = (case ic of IcDiscard \<Rightarrow> (None, None, True) | IcRetain \<Rightarrow> (Some l, sched, True))"

fun solo_item ::
  "('l, 'v, 'r, 'q) unary_ops \<Rightarrow> time \<Rightarrow> 'l un_solo \<Rightarrow> 'v \<Rightarrow> ('l un_solo \<times> 'r list) res" where
  "solo_item L now (lo, sched, aw) v =
     ebind (case lo of Some l \<Rightarrow> Inr l | None \<Rightarrow> ul_build L now None) (\<lambda>l.
     emap (\<lambda>(l', rs, ic). (solo_after l' sched ic, rs)) (reraise (ul_on_item L l now v)))"

fun solo_notify :: "('l, 'v, 'r, 'q) unary_ops \<Rightarrow> time \<Rightarrow> 'l un_solo \<Rightarrow> ('l un_solo \<times> 'r list) res" where
  "solo_notify L now (lo, Some t, aw) =
     (if t \<le> now then
        ebind (expect ''logics.get(&key)'' lo) (\<lambda>l.
        emap (\<lambda>(l', rs, ic). (solo_after l' None ic, rs)) (reraise (ul_on_notify L l t)))
      else Inr ((lo, Some t, aw), []))"
| "solo_notify L now st = Inr (st, [])"

fun solo_eof :: "('l, 'v, 'r, 'q) unary_ops \<Rightarrow> bool \<Rightarrow> 'l un_solo \<Rightarrow> ('l un_solo \<times> 'r list) res" where
  "solo_eof L True (Some l, sched, aw) =
     emap (\<lambda>(l', rs, ic). (solo_after l' sched ic, rs)) (reraise (ul_on_eof L l))"
| "solo_eof L _ st = Inr (st, [])"

fun solo_resched :: "('l, 'v, 'r, 'q) unary_ops \<Rightarrow> 'l un_solo \<Rightarrow> 'l un_solo res" where
  "solo_resched L (Some l, sched, True) =
     emap (\<lambda>t. (Some l, case t of Some _ \<Rightarrow> t | None \<Rightarrow> sched, True)) (reraise (ul_notify_at L l))"
| "solo_resched L st = Inr st"

definition solo_epoch ::
  "('l, 'v, 'r, 'q) unary_ops \<Rightarrow> time \<Rightarrow> bool \<Rightarrow> 'l un_solo \<Rightarrow> 'v list \<Rightarrow> ('l un_solo \<times> 'r list) res" where
  "solo_epoch L now ended st vs =
     ebind (sfold (solo_item L now) st vs) (\<lambda>(st1, rs1).
     ebind (solo_notify L now st1) (\<lambda>(st2, rs2).
     ebind (solo_eof L ended st2) (\<lambda>(st3, rs3).
     emap (\<lambda>st4. (st4, rs1 @ rs2 @ rs3)) (solo_resched L st3))))"

definition un_at :: "('k, 'l) un_core \<Rightarrow> 'k \<Rightarrow> 'l un_solo" where
  "un_at c k = (bt_get (un_logics c) k, bt_get (sched_cache c) k, k \<in> set (un_awoken c))"

lemma un_at_touch: "un_at (un_touch k l c) k' = (if k' = k then (Some l, bt_get (sched_cache c) k, True) else un_at c k')"
  by (simp add: un_at_def un_touch_def)

lemma un_at_forget:
  "un_at (un_forget k c) k' = (if k' = k then (None, None, k \<in> set (un_awoken c)) else un_at c k')"
  by (simp add: un_at_def un_forget_def)

lemma un_at_unsched:
  "un_at (c\<lparr>sched_cache := bt_remove k (sched_cache c)\<rparr>) k' =
    (if k' = k then (bt_get (un_logics c) k, None, k \<in> set (un_awoken c)) else un_at c k')"
  by (simp add: un_at_def)

lemma un_awoken_touch [simp]: "set (un_awoken (un_touch k l c)) = insert k (set (un_awoken c))"
  by (simp add: un_touch_def)

lemma sfold_map: "sfold sol st (map g xs) = sfold (\<lambda>st x. sol st (g x)) st xs"
  by (induction xs arbitrary: st) simp_all

lemma un_item_solo:
  assumes "un_item L this now (c, out) x = Inr (c', out')"
  shows "\<exists>rs. out' = out @ map (Pair (fst (snd x))) rs \<and>
    solo_item L now (un_at c (fst (snd x))) (snd (snd x)) = Inr (un_at c' (fst (snd x)), rs) \<and>
    (\<forall>k. k \<noteq> fst (snd x) \<longrightarrow> un_at c' k = un_at c k)"
proof -
  obtain w ky v where x: "x = (w, ky, v)" by (metis prod.exhaust)
  from assms obtain l l' rs ic where
    l: "(case bt_get (un_logics c) ky of Some l \<Rightarrow> Inr l | None \<Rightarrow> ul_build L now None) = Inr l"
    and i: "ul_on_item L l now v = Inr (l', rs, ic)"
    by (auto simp: un_item_def x emap_eq_Inr_iff elim!: ebind_InrE)
  have "solo_item L now (un_at c ky) v = Inr (solo_after l' (bt_get (sched_cache c) ky) ic, rs)"
    using l i by (simp add: un_at_def)
  with assms l i show ?thesis
    by (cases ic) (auto simp: un_item_def x un_at_touch un_at_forget solo_after_def elim!: ebind_InrE)
qed

text \<open>The notification loop, the loop at the end of input and the rescheduling loop, for one key.\<close>

definition due_step :: "('l, 'v, 'r, 'q) unary_ops \<Rightarrow> 'l un_solo \<Rightarrow> 'k \<times> time \<Rightarrow> ('l un_solo \<times> 'r list) res" where
  "due_step L st x = ebind (expect ''logics.get(&key)'' (fst st)) (\<lambda>l.
     emap (\<lambda>(l', rs, ic). (solo_after l' None ic, rs)) (reraise (ul_on_notify L l (snd x))))"

lemma un_notify_solo:
  assumes "un_notify L (c, out) x = Inr (c', out')"
  shows "\<exists>rs. out' = out @ map (Pair (fst x)) rs \<and> due_step L (un_at c (fst x)) x = Inr (un_at c' (fst x), rs) \<and>
    (\<forall>k. k \<noteq> fst x \<longrightarrow> un_at c' k = un_at c k)"
proof -
  obtain ky t where x: "x = (ky, t)" by fastforce
  from assms(1) obtain l l' rs ic where l: "bt_get (un_logics c) ky = Some l"
    and i: "ul_on_notify L l t = Inr (l', rs, ic)"
    by (auto simp: un_notify_def x emap_eq_Inr_iff elim!: ebind_InrE)
  have un: "un_at ((un_touch ky l' c)\<lparr>sched_cache := bt_remove ky (sched_cache c)\<rparr>) k =
      (if k = ky then (Some l', None, True) else un_at c k)" for k
    using un_at_unsched [where c = "un_touch ky l' c" and k = ky and k' = k] by (simp add: un_at_touch)
  have "due_step L (un_at c ky) x = Inr (solo_after l' None ic, rs)"
    using l i by (simp add: due_step_def un_at_def x)
  with assms l i show ?thesis
    by (cases ic) (auto simp: un_notify_def x un un_at_touch un_at_forget solo_after_def)
qed

lemma un_notify_all_solo:
  assumes "un_ok P c" and "efold (un_notify L) (c, out) (un_due now c) = Inr (c', out')"
  shows "\<exists>os. out' = out @ os \<and>
    solo_notify L now (un_at c k) = Inr (un_at c' k, map snd (filter (\<lambda>p. fst p = k) os))"
proof -
  have wf: "bt_wf (sched_cache c)" using assms(1) by (simp add: un_ok_def)
  from keyed_fold [where ky = fst and at = un_at and k = k and sol = "due_step L", OF un_notify_solo assms(2)] obtain os where
    os: "out' = out @ os" "sfold (due_step L) (un_at c k) (filter (\<lambda>x. fst x = k) (un_due now c)) =
      Inr (un_at c' k, map snd (filter (\<lambda>p. fst p = k) os))" by blast
  have "filter (\<lambda>x. fst x = k) (un_due now c) = (case bt_get (un_due now c) k of Some t \<Rightarrow> [(k, t)] | None \<Rightarrow> [])"
    using wf by (intro filter_key_btree) (simp add: un_due_def)
  also have "bt_get (un_due now c) k =
    (case bt_get (sched_cache c) k of Some t \<Rightarrow> if t \<le> now then Some t else None | None \<Rightarrow> None)"
    unfolding un_due_def by (auto simp: bt_get_filter [OF wf] split: option.split)
  finally have f: "filter (\<lambda>x. fst x = k) (un_due now c) =
    (case bt_get (sched_cache c) k of Some t \<Rightarrow> if t \<le> now then [(k, t)] else [] | None \<Rightarrow> [])"
    by (auto split: option.splits)
  obtain lo sched aw where at: "un_at c k = (lo, sched, aw)" by (metis prod.exhaust)
  then have sched: "bt_get (sched_cache c) k = sched" by (simp add: un_at_def)
  have "solo_notify L now (un_at c k) = sfold (due_step L) (un_at c k) (filter (\<lambda>x. fst x = k) (un_due now c))"
  proof (cases sched)
    case None
    then show ?thesis by (simp add: at f sched)
  next
    case (Some t)
    have "solo_notify L now (lo, Some t, aw) = sfold (due_step L) (lo, Some t, aw) [(k, t)]" if "t \<le> now"
      using that by (cases lo; cases "ul_on_notify L (the lo) t")
        (auto simp: due_step_def emap_def ebind_assoc case_prod_beta)
    then show ?thesis by (simp add: at f sched Some)
  qed
  with os show ?thesis by simp
qed

definition eof_step ::
  "('l, 'v, 'r, 'q) unary_ops \<Rightarrow> 'l un_solo \<times> bool \<Rightarrow> 'k \<times> 'l \<Rightarrow> (('l un_solo \<times> bool) \<times> 'r list) res" where
  "eof_step L = (\<lambda>((lo, sched, aw), dk) x.
     emap (\<lambda>(l', rs, ic). (((Some l', sched, True), dk \<or> ic = IcDiscard), rs)) (reraise (ul_on_eof L (snd x))))"

definition un_at_eof :: "('k, 'l) un_core \<times> 'k list \<Rightarrow> 'k \<Rightarrow> 'l un_solo \<times> bool" where
  "un_at_eof cd k = (un_at (fst cd) k, k \<in> set (snd cd))"

lemma un_eof_solo:
  assumes "un_eof L (cd, out) x = Inr (cd', out')"
  shows "\<exists>rs. out' = out @ map (Pair (fst x)) rs \<and> eof_step L (un_at_eof cd (fst x)) x = Inr (un_at_eof cd' (fst x), rs) \<and>
    (\<forall>k. k \<noteq> fst x \<longrightarrow> un_at_eof cd' k = un_at_eof cd k)"
proof -
  obtain c disc where cd: "cd = (c, disc)" by fastforce
  obtain ky l where x: "x = (ky, l)" by fastforce
  from assms(1) obtain l' rs ic where "ul_on_eof L l = Inr (l', rs, ic)"
    by (auto simp: un_eof_def x cd emap_eq_Inr_iff)
  with assms(1) show ?thesis
    by (cases ic) (auto simp: un_eof_def eof_step_def x cd un_at_eof_def un_at_touch un_at_def)
qed

lemma un_at_forget_all:
  "un_at (foldl (\<lambda>c key. un_forget key c) c ks) k =
    (if k \<in> set ks then (None, None, k \<in> set (un_awoken c)) else un_at c k)"
proof (induction ks arbitrary: c)
  case Nil
  then show ?case by simp
next
  case (Cons a ks)
  have "un_awoken (un_forget a c) = un_awoken c" by (simp add: un_forget_def)
  with Cons show ?case by (auto simp: un_at_forget)
qed

lemma un_eof_all_solo:
  fixes c :: "('k::linorder, 'l) un_core"
  assumes "un_ok P c" and "un_eof_all L ended (c, out) = Inr (c', out')"
  shows "\<exists>os. out' = out @ os \<and>
    solo_eof L ended (un_at c k) = Inr (un_at c' k, map snd (filter (\<lambda>p. fst p = k) os))"
proof (cases ended)
  case False
  with assms(2) show ?thesis by (simp add: un_eof_all_def)
next
  case True
  have wf: "bt_wf (un_logics c)" using assms(1) by (simp add: un_ok_def)
  from True assms(2) obtain c1 disc where run: "efold (un_eof L) ((c, []), out) (un_logics c) = Inr ((c1, disc), out')"
    and c': "c' = foldl (\<lambda>c key. un_forget key c) c1 disc" by (auto simp: un_eof_all_def emap_eq_Inr_iff)
  from keyed_fold [where ky = fst and at = un_at_eof and k = k and sol = "eof_step L", OF un_eof_solo run] obtain os where
    os: "out' = out @ os" "sfold (eof_step L) (un_at_eof (c, []) k) (filter (\<lambda>x. fst x = k) (un_logics c)) =
      Inr (un_at_eof (c1, disc) k, map snd (filter (\<lambda>p. fst p = k) os))" by blast
  note f = filter_key_btree [OF wf, of k]
  obtain lo sched aw where a: "un_at c k = (lo, sched, aw)" by (metis prod.exhaust)
  then have lo: "bt_get (un_logics c) k = lo" by (simp add: un_at_def)
  have "solo_eof L True (un_at c k) = Inr (un_at c' k, map snd (filter (\<lambda>p. fst p = k) os))"
  proof (cases lo)
    case None
    with os(2) f lo have "un_at_eof (c1, disc) k = un_at_eof (c, []) k" "map snd (filter (\<lambda>p. fst p = k) os) = []" by simp_all
    then show ?thesis using None a by (simp add: un_at_eof_def c' un_at_forget_all)
  next
    case (Some l)
    with os(2) f lo a have "ebind (eof_step L ((Some l, sched, aw), False) (k, l)) (\<lambda>(st, rs). Inr (st, rs)) =
      Inr (un_at_eof (c1, disc) k, map snd (filter (\<lambda>p. fst p = k) os))"
      by (simp add: un_at_eof_def emap_def case_prod_beta)
    then obtain l' rs ic where e: "ul_on_eof L l = Inr (l', rs, ic)" "rs = map snd (filter (\<lambda>p. fst p = k) os)"
      "un_at c1 k = (Some l', sched, True)" "k \<in> set disc \<longleftrightarrow> ic = IcDiscard"
      by (auto simp: eof_step_def un_at_eof_def emap_eq_Inr_iff elim!: ebind_InrE)
    have "k \<in> set (un_awoken c1)" using e(3) by (simp add: un_at_def)
    with e Some a show ?thesis by (cases ic) (simp_all add: c' un_at_forget_all solo_after_def)
  qed
  with os(1) True show ?thesis by auto
qed

lemma un_resched_solo:
  assumes "efold (un_resched L) c ks = Inr c'" and "distinct ks"
  shows "un_awoken c' = un_awoken c \<and>
    (if k \<in> set ks then solo_resched L (bt_get (un_logics c) k, bt_get (sched_cache c) k, True) =
        Inr (bt_get (un_logics c') k, bt_get (sched_cache c') k, True)
     else un_at c' k = un_at c k)"
  using assms
proof (induction ks arbitrary: c)
  case Nil
  then show ?case by simp
next
  case (Cons a ks)
  from Cons.prems(1) obtain c1 where c1: "un_resched L c a = Inr c1" and r: "efold (un_resched L) c1 ks = Inr c'"
    by (auto elim: ebind_InrE)
  have s: "un_awoken c1 = un_awoken c" "k \<noteq> a \<longrightarrow> un_at c1 k = un_at c k"
    "solo_resched L (bt_get (un_logics c) a, bt_get (sched_cache c) a, True) =
      Inr (bt_get (un_logics c1) a, bt_get (sched_cache c1) a, True)"
  proof -
    have "un_awoken c1 = un_awoken c \<and> (k \<noteq> a \<longrightarrow> un_at c1 k = un_at c k) \<and>
      solo_resched L (bt_get (un_logics c) a, bt_get (sched_cache c) a, True) =
        Inr (bt_get (un_logics c1) a, bt_get (sched_cache c1) a, True)"
    proof (cases "bt_get (un_logics c) a")
      case None
      with c1 show ?thesis by (simp add: un_resched_def)
    next
      case (Some l)
      with c1 obtain t where "ul_notify_at L l = Inr t"
        "c1 = (case t of Some t \<Rightarrow> c\<lparr>sched_cache := bt_insert a t (sched_cache c)\<rparr> | None \<Rightarrow> c)"
        by (auto simp: un_resched_def emap_eq_Inr_iff)
      with Some show ?thesis by (cases t) (simp_all add: un_at_def)
    qed
    then show "un_awoken c1 = un_awoken c" "k \<noteq> a \<longrightarrow> un_at c1 k = un_at c k"
      "solo_resched L (bt_get (un_logics c) a, bt_get (sched_cache c) a, True) =
        Inr (bt_get (un_logics c1) a, bt_get (sched_cache c1) a, True)" by simp_all
  qed
  from Cons.IH [OF r] Cons.prems(2) have ih: "un_awoken c' = un_awoken c1 \<and>
    (if k \<in> set ks then solo_resched L (bt_get (un_logics c1) k, bt_get (sched_cache c1) k, True) =
        Inr (bt_get (un_logics c') k, bt_get (sched_cache c') k, True)
     else un_at c' k = un_at c1 k)" by simp
  show ?case
  proof (cases "k = a")
    case True
    with ih Cons.prems(2) have "un_at c' k = un_at c1 k" by auto
    with True s ih show ?thesis by (simp add: un_at_def)
  next
    case False
    with s have "bt_get (un_logics c1) k = bt_get (un_logics c) k" "bt_get (sched_cache c1) k = bt_get (sched_cache c) k"
      by (simp_all add: un_at_def)
    with False s ih show ?thesis by auto
  qed
qed

lemma un_calls_solo:
  assumes L: "unary_logic L linv ok" and c: "un_ok linv c" and items: "\<forall>x \<in> set items. item_ok ok this x"
    and run: "un_calls L this now ended items c = Inr (c', out)"
  shows "solo_epoch L now ended (un_at c k) (key_items k items) = Inr (un_at c' k, map snd (filter (\<lambda>p. fst p = k) out))"
proof -
  from run obtain c1 o1 c2 o2 c3 where
    1: "efold (un_item L this now) (c, []) items = Inr (c1, o1)" and
    2: "efold (un_notify L) (c1, o1) (un_due now c1) = Inr (c2, o2)" and
    3: "un_eof_all L ended (c2, o2) = Inr (c3, out)" and
    4: "efold (un_resched L) c3 (un_awoken c3) = Inr c'"
    by (auto simp: un_calls_def emap_eq_Inr_iff elim!: ebind_InrE)
  from efold_out_total [where I = "un_ok linv" and f = "un_item L this now" and xs = items and out = "[]", OF c]
    unary_logic.un_item_ok [OF L] items 1 have ok1: "un_ok linv c1" by fastforce
  from unary_logic.un_notify_all_ok [OF L ok1 unary_logic.un_due_ok [OF L ok1], of o1 now] 2 have ok2: "un_ok linv c2" by simp
  from unary_logic.un_eof_all_ok [OF L ok2, of ended o2] 3 have ok3: "un_ok linv c3" by simp
  from keyed_fold [where ky = "\<lambda>x. fst (snd x)" and at = un_at and k = k and sol = "\<lambda>st x. solo_item L now st (snd (snd x))",
      OF un_item_solo 1] obtain os1 where
    s1: "o1 = os1" "sfold (\<lambda>st x. solo_item L now st (snd (snd x))) (un_at c k) (filter (\<lambda>x. fst (snd x) = k) items) =
      Inr (un_at c1 k, map snd (filter (\<lambda>p. fst p = k) os1))" by auto
  then have s1': "sfold (solo_item L now) (un_at c k) (key_items k items) = Inr (un_at c1 k, map snd (filter (\<lambda>p. fst p = k) o1))"
    by (simp add: key_items_def sfold_map)
  from un_notify_all_solo [OF ok1 2, of k] obtain os2 where
    s2: "o2 = o1 @ os2" "solo_notify L now (un_at c1 k) = Inr (un_at c2 k, map snd (filter (\<lambda>p. fst p = k) os2))" by blast
  from un_eof_all_solo [OF ok2 3, of k] obtain os3 where
    s3: "out = o2 @ os3" "solo_eof L ended (un_at c2 k) = Inr (un_at c3 k, map snd (filter (\<lambda>p. fst p = k) os3))" by blast
  have "distinct (un_awoken c3)" using ok3 by (simp add: un_ok_def bs_wf_distinct)
  from un_resched_solo [OF 4 this, of k] have s4: "solo_resched L (un_at c3 k) = Inr (un_at c' k)"
    by (cases "k \<in> set (un_awoken c3)") (simp_all add: un_at_def)
  show ?thesis using s1' s2 s3 s4 by (simp add: solo_epoch_def)
qed

section \<open>Logics of the Python library\<close>

text \<open>
  \<^verbatim>\<open>_FoldFinalLogic\<close>, behind \<^verbatim>\<open>fold_final\<close>, \<^verbatim>\<open>reduce_final\<close> and \<^verbatim>\<open>count_final\<close>; a resume state \<^verbatim>\<open>None\<close>
  (\<open>pynone\<close>) counts as none. And \<^verbatim>\<open>_CollectLogic\<close>: the values so far and the timeout.
\<close>

definition fold_final_ops ::
  "'s \<Rightarrow> 's res \<Rightarrow> ('s \<Rightarrow> 'v \<Rightarrow> 's res) \<Rightarrow> ('s, 'v, 's, 's) unary_ops" where
  "fold_final_ops pynone builder folder =
     \<lparr>ul_build = (\<lambda>now st. case st of None \<Rightarrow> builder | Some s \<Rightarrow> if s = pynone then builder else Inr s),
      ul_on_item = (\<lambda>s now v. emap (\<lambda>s'. (s', [], IcRetain)) (folder s v)),
      ul_on_notify = (\<lambda>s sched. Inr (s, [], IcRetain)),
      ul_on_eof = (\<lambda>s. Inr (s, [s], IcDiscard)),
      ul_notify_at = (\<lambda>s. Inr None),
      ul_snapshot = (\<lambda>s. Inr s)\<rparr>"

definition collect_ops ::
  "dur \<Rightarrow> nat \<Rightarrow> ('v list \<times> time option, 'v, 'v list, 'v list \<times> time option) unary_ops" where
  "collect_ops timeout max_size =
     \<lparr>ul_build = (\<lambda>now st. Inr (case st of None \<Rightarrow> ([], None) | Some s \<Rightarrow> s)),
      ul_on_item = (\<lambda>(acc, _) now v.
        let acc' = acc @ [v]; s' = (acc', Some (now + timeout))
        in if max_size \<le> length acc' then Inr (s', [acc'], IcDiscard) else Inr (s', [], IcRetain)),
      ul_on_notify = (\<lambda>s sched. Inr (s, [fst s], IcDiscard)),
      ul_on_eof = (\<lambda>s. Inr (s, [fst s], IcDiscard)),
      ul_notify_at = (\<lambda>s. Inr (snd s)),
      ul_snapshot = (\<lambda>s. Inr s)\<rparr>"

interpretation fold_final: unary_logic "fold_final_ops pynone (Inr b) (\<lambda>s v. Inr (f s v))" "\<lambda>_. True" "\<lambda>_. True"
  for pynone b f
  by unfold_locales (auto simp: fold_final_ops_def)

interpretation collect: unary_logic "collect_ops timeout max_size" "\<lambda>_. True" "\<lambda>_. True" for timeout max_size
  by unfold_locales (auto simp: collect_ops_def Let_def split: prod.split)

section \<open>Properties\<close>

lemmas un_eval = un_activate_def un_start_def simplify_def simplify_one_def List.map_filter_def Let_def buffer_all_def
  inbuf_extend_def bt_entry_def inbuf_new_def un_epochs_def inbuf_epochs_def un_epoch_def downgrade_all_def
  cap_downgrade_def inbuf_remove_def bt_remove_def un_calls_def un_item_def un_notify_def un_due_def un_eof_all_def
  un_eof_def un_resched_def un_snap_def un_touch_def un_forget_def un_new_def is_eof_def

text \<open>Claim C18. No run of \<^verbatim>\<open>unary\<close> panics when the Python logic raises nothing: the logic of a
  scheduled notification is always there, and at the end of the input no capability, buffered item
  or unsnapshotted key is left.\<close>

theorem unary_never_panics:
  assumes "unary_logic L linv ok"
    and "un_timely (item_ok ok this) (unload_ok L linv this) 0 acts"
  shows "\<exists>s out chg. un_run L this step resume (un_start [0, 0]) acts = Inr (s, out, chg) \<and>
    dom (bt_get (sched_cache (un_core s))) \<subseteq> dom (bt_get (un_logics (un_core s))) \<and>
    (acts = [] \<or> simplify (un_frontiers (last acts)) \<noteq> None \<or>
     kv_downstream_cap s = None \<and> snap_cap s = None \<and> un_inbuf s = [] \<and> un_loads s = [] \<and> un_awoken (un_core s) = [])"
  using unary_logic.un_run_ok [OF assms(1) unary_logic.un_inv_start [OF assms(1)] assms(2), of step resume]
  unfolding un_ok_def unary_logic.un_done_def [OF assms(1)] by blast

text \<open>Items for \<^verbatim>\<open>collect\<close>, a timeout, then the end of the input.\<close>

abbreviation collect_acts where
  "collect_acts \<equiv>
     [\<lparr>un_items = [(0, [(3, 7 :: nat, 5 :: int), (3, 8, 6)])], un_load_msgs = [], un_now = 1, un_frontiers = [[1], [1]]\<rparr>,
      \<lparr>un_items = [], un_load_msgs = [], un_now = 20, un_frontiers = [[2], [2]]\<rparr>,
      \<lparr>un_items = [(2, [(3, 8, 9)])], un_load_msgs = [], un_now = 21, un_frontiers = [[], []]\<rparr>]"

theorem unary_never_panics_witness:
  "\<exists>s out chg. un_run (collect_ops 10 2) 3 ''step'' 0 (un_start [0, 0]) collect_acts = Inr (s, out, chg) \<and>
    dom (bt_get (sched_cache (un_core s))) \<subseteq> dom (bt_get (un_logics (un_core s))) \<and>
    kv_downstream_cap s = None \<and> snap_cap s = None \<and> un_inbuf s = [] \<and> un_loads s = [] \<and> un_awoken (un_core s) = []"
proof -
  have "un_timely (item_ok (\<lambda>_. True) 3) (unload_ok (collect_ops 10 2) (\<lambda>_. True) 3) 0 collect_acts"
    by (simp add: simplify_def simplify_one_def List.map_filter_def item_ok_def)
  from unary_never_panics [OF collect.unary_logic_axioms this, of "''step''" 0] show ?thesis
    by (simp add: simplify_def simplify_one_def List.map_filter_def)
qed

text \<open>Claim C10. The calls are in the documented order and there is no interaction across keys: an
  epoch succeeds, and for every key it is \<^verbatim>\<open>on_item\<close> for the key's own items in order, then
  \<^verbatim>\<open>on_notify\<close> if its notification is due, then \<^verbatim>\<open>on_eof\<close> at the end of the input, then \<^verbatim>\<open>notify_at\<close>
  if the logic was called in the epoch and retained.\<close>

theorem unary_calls_in_order:
  assumes "unary_logic L linv ok" and "un_ok linv (un_core s)"
    and "kv_downstream_cap s = Some cap" and "snap_cap s = Some cap" and "cap \<le> e"
    and "\<forall>x \<in> set (inbuf_items (un_inbuf s) e). item_ok ok this x" and "inbuf_items (un_loads s) e = []"
  shows "\<exists>s' os chg' st'. un_epoch L this step now fr (s, out, chg) e = Inr (s', out @ map (Pair e) os, chg') \<and>
    solo_epoch L now (is_eof fr) (un_at (un_core s) k) (key_items k (inbuf_items (un_inbuf s) e)) =
      Inr (st', map snd (filter (\<lambda>x. fst x = k) os)) \<and>
    un_at (un_core s') k = (fst st', fst (snd st'), snd (snd st') \<and> \<not> is_closed fr e)"
proof -
  have down: "downgrade_all e [cap] = Inr [e]" using assms(5) by (simp add: downgrade_all_def cap_downgrade_def)
  have its: "(case bt_get (un_inbuf s) e of None \<Rightarrow> [] | Some xs \<Rightarrow> xs) = inbuf_items (un_inbuf s) e"
    and lds: "(case bt_get (un_loads s) e of None \<Rightarrow> [] | Some ls \<Rightarrow> ls) = []"
    using assms(7) by (simp_all add: inbuf_items_def)
  from unary_logic.un_calls_ok [OF assms(1,2,6), of now "is_eof fr"] obtain c os where
    c: "un_calls L this now (is_eof fr) (inbuf_items (un_inbuf s) e) (un_core s) = Inr (c, os)" "un_ok linv c" by blast
  note solo = un_calls_solo [OF assms(1,2,6) c(1), of k]
  obtain sns where sns: "emapM (un_snap L step c) (un_awoken c) = Inr sns"
    using unary_logic.un_snaps_ok [OF assms(1) c(2), of step "un_awoken c"] by (elim exE conjE)
  let ?s = "s\<lparr>kv_downstream_cap := Some e, snap_cap := Some e, un_inbuf := bt_remove e (un_inbuf s)\<rparr>"
  show ?thesis
  proof (cases "is_closed fr e")
    case False
    have "un_epoch L this step now fr (s, out, chg) e = Inr (?s\<lparr>un_core := c\<rparr>, out @ map (Pair e) os, chg)"
      using False by (simp add: un_epoch_def assms(3,4) down inbuf_remove_def its c(1))
    with solo False show ?thesis
      by (intro exI [of _ "?s\<lparr>un_core := c\<rparr>"] exI [of _ os] exI [of _ chg] exI [of _ "un_at c k"]) simp
  next
    case True
    let ?s' = "?s\<lparr>un_core := c\<lparr>un_awoken := []\<rparr>, un_loads := bt_remove e (un_loads s)\<rparr>"
    have "un_epoch L this step now fr (s, out, chg) e = Inr (?s', out @ map (Pair e) os, chg @ map (Pair e) sns)"
      using True by (simp add: un_epoch_def assms(3,4) down inbuf_remove_def its lds c(1) sns)
    with solo True show ?thesis
      by (intro exI [of _ ?s'] exI [of _ os] exI [of _ "chg @ map (Pair e) sns"] exI [of _ "un_at c k"])
        (simp add: un_at_def)
  qed
qed

theorem unary_calls_in_order_witness:
  "let s = (un_start [0, 0])\<lparr>un_inbuf := [(1, [(3, 7 :: nat, 5 :: int), (3, 8, 6), (3, 8, 7)])]\<rparr> in
   \<exists>s' os chg' st'. un_epoch (collect_ops 10 2) 3 ''step'' 4 (Some 1) (s, [], []) 1 = Inr (s', [] @ map (Pair 1) os, chg') \<and>
    solo_epoch (collect_ops 10 2) 4 (is_eof (Some 1)) (un_at (un_core s) 8) (key_items 8 (inbuf_items (un_inbuf s) 1)) =
      Inr (st', map snd (filter (\<lambda>x. fst x = 8) os)) \<and>
    un_at (un_core s') 8 = (fst st', fst (snd st'), snd (snd st') \<and> \<not> is_closed (Some 1) (1 :: epoch))"
  unfolding Let_def
  by (rule unary_calls_in_order [OF collect.unary_logic_axioms, where cap = 0])
    (simp_all add: un_start_def inbuf_items_def inbuf_new_def item_ok_def)


text \<open>A cancelled notification still fires: a logic asks for a notification at time 10, its
  next item makes \<^verbatim>\<open>notify_at\<close> return \<^verbatim>\<open>None\<close>, and at time 10 \<^verbatim>\<open>on_notify\<close> is called all the same,
  since the cached time is only ever overwritten by another time.\<close>

theorem cancelled_notification_fires:
  "let L = \<lparr>ul_build = (\<lambda>now st. Inr None), ul_on_item = (\<lambda>l now v. Inr (v, [], IcRetain)),
          ul_on_notify = (\<lambda>l sched. Inr (l, [sched], IcRetain)), ul_on_eof = (\<lambda>l. Inr (l, [], IcRetain)),
          ul_notify_at = (\<lambda>l. Inr l), ul_snapshot = (\<lambda>l. Inr l)\<rparr>
   in emap (\<lambda>(s, out, _). out)
     (un_run L this step 0 (un_start [0, 0])
       [\<lparr>un_items = [(0, [(this, k, Some 10)])], un_load_msgs = [], un_now = 1, un_frontiers = [[0], [0]]\<rparr>,
        \<lparr>un_items = [(0, [(this, k, None)])], un_load_msgs = [], un_now = 2, un_frontiers = [[0], [0]]\<rparr>,
        \<lparr>un_items = [], un_load_msgs = [], un_now = 10, un_frontiers = [[0], [0]]\<rparr>]) =
   Inr [(0, k, 10)]"
  by (simp add: un_eval)

end
