(* ===== verification/Unary_Load.thy ===== *)
theory Unary_Load
  imports Unary_Runs Epoch_Order
begin

text \<open>
  Snapshots and loads of the \<^verbatim>\<open>unary\<close> operator (\<^verbatim>\<open>src/src/operators/mod.rs\<close>): between epochs the cached
  notification times are those the logics ask for, the snapshots emitted determine the logics, they are in the order
  of their epochs, and a new operator that is given them rebuilds every key. The logics must be rebuilt by their
  builder and must not cancel a notification (locale \<open>durable_logic\<close>); those of \<^verbatim>\<open>fold_final\<close> and \<^verbatim>\<open>collect\<close> are
  such logics.
\<close>

section \<open>The contract\<close>

locale durable_logic = unary_logic L linv ok
  for L :: "('l, 'v, 'r, 'q) unary_ops" and linv ok +
  assumes rebuild: "linv l \<Longrightarrow> ul_snapshot L l = Inr q \<Longrightarrow> ul_build L now (Some q) = Inr l"
    and item_asks: "linv l \<Longrightarrow> ok v \<Longrightarrow> ul_on_item L l now v = Inr (l', rs, IcRetain) \<Longrightarrow>
      ul_notify_at L l' = Inr None \<Longrightarrow> ul_notify_at L l = Inr None"
    and eof_asks: "linv l \<Longrightarrow> ul_on_eof L l = Inr (l', rs, IcRetain) \<Longrightarrow>
      ul_notify_at L l' = Inr None \<Longrightarrow> ul_notify_at L l = Inr None"

interpretation collect_durable: durable_logic "collect_ops timeout max_size" "\<lambda>_. True" "\<lambda>_. True" for timeout max_size
  by unfold_locales (auto simp: collect_ops_def Let_def split: prod.splits if_splits)

text \<open>\<^verbatim>\<open>fold_final\<close> on accumulators that are never Python's \<^verbatim>\<open>None\<close>, which its builder takes for no state.\<close>

interpretation fold_unary: unary_logic "fold_final_ops None (Inr (Some b)) (\<lambda>s v. Inr (Some (f s v)))" "\<lambda>s. s \<noteq> None" "\<lambda>_. True" for b f
  by unfold_locales (auto simp: fold_final_ops_def)

interpretation fold_durable: durable_logic "fold_final_ops None (Inr (Some b)) (\<lambda>s v. Inr (Some (f s v)))" "\<lambda>s. s \<noteq> None" "\<lambda>_. True" for b f
  by unfold_locales (auto simp: fold_final_ops_def)

text \<open>What a snapshot of a key would hold, and which changes are snapshots of good logics.\<close>

definition un_change :: "('l, 'v, 'r, 'q) unary_ops \<Rightarrow> ('k, 'l) un_core \<Rightarrow> 'k \<Rightarrow> 'q state_change" where
  "un_change L c k = (case bt_get (un_logics c) k of None \<Rightarrow> state_change.Discard
     | Some l \<Rightarrow> (case ul_snapshot L l of Inr q \<Rightarrow> Upsert q | Inl _ \<Rightarrow> state_change.Discard))"

definition un_kept :: "('l, 'v, 'r, 'q) unary_ops \<Rightarrow> ('l \<Rightarrow> bool) \<Rightarrow> 'q state_change \<Rightarrow> bool" where
  "un_kept L linv ch \<longleftrightarrow> (\<forall>q. ch = Upsert q \<longrightarrow> (\<exists>l. linv l \<and> ul_snapshot L l = Inr q))"

text \<open>Every key that is not awake has what the store has last been told of it.\<close>

definition un_tracks :: "('l, 'v, 'r, 'q) unary_ops \<Rightarrow> ('k, 'q) store \<Rightarrow> ('k, 'l) un_core \<Rightarrow> bool" where
  "un_tracks L m c \<longleftrightarrow> (\<forall>k. k \<notin> set (un_awoken c) \<longrightarrow> un_change L c k = stored m k)"

text \<open>The cached times are those the logics ask for.\<close>

definition un_sync :: "('l, 'v, 'r, 'q) unary_ops \<Rightarrow> ('k, 'l) un_core \<Rightarrow> bool" where
  "un_sync L c \<longleftrightarrow> (\<forall>k l. bt_get (un_logics c) k = Some l \<longrightarrow> ul_notify_at L l = Inr (bt_get (sched_cache c) k))"

lemma un_change_at: "un_at c k = un_at d k \<Longrightarrow> un_change L c k = un_change L d k"
  by (simp add: un_change_def un_at_def)

lemma un_change_awoken [simp]: "un_change L (c\<lparr>un_awoken := ks\<rparr>) k = un_change L c k"
  by (simp add: un_change_def)

lemma un_sync_awoken [simp]: "un_sync L (c\<lparr>un_awoken := ks\<rparr>) = un_sync L c"
  by (simp add: un_sync_def)

lemma un_snaps_eq:
  assumes "unary_logic L linv ok" and "un_ok linv c" and "emapM (un_snap L step c) ks = Inr sns"
  shows "sns = map (\<lambda>k. Snapshot step k (un_change L c k)) ks"
  using assms(3)
proof (induction ks arbitrary: sns)
  case (Cons k ks)
  then obtain s sns' where s: "un_snap L step c k = Inr s" "emapM (un_snap L step c) ks = Inr sns'" "sns = s # sns'"
    by (auto elim!: ebind_InrE)
  have "s = Snapshot step k (un_change L c k)"
    using s(1) by (auto simp: un_snap_def un_change_def emap_eq_Inr_iff split: option.splits)
  with Cons.IH [OF s(2)] s(3) show ?case by simp
qed simp

section \<open>One key\<close>

context durable_logic
begin

text \<open>A key at rest, and in the course of an epoch that found it in state \<open>st0\<close>.\<close>

fun at_rest :: "'l un_solo \<Rightarrow> bool" where
  "at_rest (None, sched, aw) \<longleftrightarrow> sched = None"
| "at_rest (Some l, sched, aw) \<longleftrightarrow> linv l \<and> ul_notify_at L l = Inr sched"

fun in_course :: "'l un_solo \<Rightarrow> 'l un_solo \<Rightarrow> bool" where
  "in_course st0 (lo, sched, aw) \<longleftrightarrow> (\<not> aw \<longrightarrow> (lo, sched, aw) = st0) \<and>
     (case lo of None \<Rightarrow> sched = None | Some l \<Rightarrow> linv l \<and> (sched \<noteq> None \<longrightarrow> ul_notify_at L l \<noteq> Inr None))"

lemma in_course_start: "at_rest st0 \<Longrightarrow> in_course st0 st0"
  by (cases st0 rule: at_rest.cases) auto

lemma in_course_after:
  "linv l' \<Longrightarrow> (ic = IcRetain \<Longrightarrow> sched \<noteq> None \<Longrightarrow> ul_notify_at L l' \<noteq> Inr None) \<Longrightarrow> in_course st0 (solo_after l' sched ic)"
  by (cases ic) (auto simp: solo_after_def)

lemma solo_item_course:
  assumes "in_course st0 st" and "ok v" and "solo_item L now st v = Inr (st', rs)"
  shows "in_course st0 st'"
proof -
  obtain lo sched aw where st: "st = (lo, sched, aw)" by (metis prod.exhaust)
  from assms(3) obtain l l' ic where l: "(case lo of Some l \<Rightarrow> Inr l | None \<Rightarrow> ul_build L now None) = Inr l"
    and i: "ul_on_item L l now v = Inr (l', rs, ic)" and st': "st' = solo_after l' sched ic"
    by (auto simp: st emap_eq_Inr_iff elim!: ebind_InrE)
  have li: "linv l" using l assms(1) build [of now] by (auto simp: st split: option.splits)
  have "ul_notify_at L l' \<noteq> Inr None" if "ic = IcRetain" "sched \<noteq> None"
  proof
    assume "ul_notify_at L l' = Inr None"
    with item_asks [OF li assms(2)] i that(1) have "ul_notify_at L l = Inr None" by blast
    with assms(1) l that(2) show False by (auto simp: st split: option.splits)
  qed
  moreover have "linv l'" using item [OF li assms(2), of now] i by auto
  ultimately show ?thesis unfolding st' by (intro in_course_after)
qed

lemma solo_items_course:
  "in_course st0 st \<Longrightarrow> \<forall>v \<in> set vs. ok v \<Longrightarrow> sfold (solo_item L now) st vs = Inr (st', rs) \<Longrightarrow> in_course st0 st'"
proof (induction vs arbitrary: st rs)
  case (Cons v vs)
  from Cons.prems(3) obtain st1 rs1 rs2 where "solo_item L now st v = Inr (st1, rs1)" "sfold (solo_item L now) st1 vs = Inr (st', rs2)"
    by (auto simp: emap_eq_Inr_iff elim!: ebind_InrE)
  with Cons.IH solo_item_course Cons.prems(1,2) show ?case by (metis list.set_intros(1,2))
qed simp


lemma solo_notify_course:
  assumes "in_course st0 st" and "solo_notify L now st = Inr (st', rs)"
  shows "in_course st0 st'"
proof (cases "\<exists>lo t aw. st = (lo, Some t, aw) \<and> t \<le> now")
  case True
  then obtain lo t aw where st: "st = (lo, Some t, aw)" "t \<le> now" by blast
  from assms(2) st(2) obtain l l' ic where l: "lo = Some l" "ul_on_notify L l t = Inr (l', rs, ic)" "st' = solo_after l' None ic"
    by (auto simp: st(1) expect_def emap_eq_Inr_iff elim!: ebind_InrE split: option.splits)
  with assms(1) have "linv l" by (simp add: st(1))
  from notify [OF this, of t] l(2) have "linv l'" by auto
  then show ?thesis unfolding l(3) by (intro in_course_after) simp_all
next
  case False
  then have "st' = st" using assms(2) by (cases "(L, now, st)" rule: solo_notify.cases) (auto split: if_splits)
  with assms(1) show ?thesis by simp
qed

lemma solo_eof_course:
  assumes "in_course st0 st" and "solo_eof L ended st = Inr (st', rs)"
  shows "in_course st0 st'"
proof (cases "ended \<and> fst st \<noteq> None")
  case True
  then obtain l sched aw where st: "st = (Some l, sched, aw)" by (cases st) auto
  from assms(2) True obtain l' ic where i: "ul_on_eof L l = Inr (l', rs, ic)" "st' = solo_after l' sched ic"
    by (auto simp: st emap_eq_Inr_iff)
  have li: "linv l" using assms(1) by (simp add: st)
  have "ul_notify_at L l' \<noteq> Inr None" if "ic = IcRetain" "sched \<noteq> None"
    using eof_asks [OF li] i(1) that assms(1) by (auto simp: st)
  moreover have "linv l'" using eof [OF li] i(1) by auto
  ultimately show ?thesis unfolding i(2) by (intro in_course_after)
next
  case False
  then have "st' = st" using assms(2) by (cases "(L, ended, st)" rule: solo_eof.cases) auto
  with assms(1) show ?thesis by simp
qed

lemma solo_resched_rest:
  assumes "at_rest st0" and "in_course st0 st" and "solo_resched L st = Inr st'"
  shows "at_rest st' \<and> (\<not> snd (snd st') \<longrightarrow> st' = st0)"
proof -
  obtain lo sched aw where st: "st = (lo, sched, aw)" by (metis prod.exhaust)
  show ?thesis using assms by (cases lo; cases aw) (auto simp: st emap_eq_Inr_iff split: option.splits)
qed

lemma solo_epoch_rest:
  assumes "at_rest st0" and "\<forall>v \<in> set vs. ok v" and "solo_epoch L now ended st0 vs = Inr (st', rs)"
  shows "at_rest st' \<and> (\<not> snd (snd st') \<longrightarrow> st' = st0)"
proof -
  from assms(3) obtain st1 rs1 st2 rs2 st3 rs3 where
    s: "sfold (solo_item L now) st0 vs = Inr (st1, rs1)" "solo_notify L now st1 = Inr (st2, rs2)"
      "solo_eof L ended st2 = Inr (st3, rs3)" "solo_resched L st3 = Inr st'"
    by (auto simp: solo_epoch_def emap_eq_Inr_iff elim!: ebind_InrE)
  show ?thesis
    by (rule solo_resched_rest [OF assms(1) solo_eof_course [OF solo_notify_course [OF solo_items_course [OF
            in_course_start [OF assms(1)] assms(2) s(1)] s(2)] s(3)] s(4)])
qed

lemma at_rest_un_at: "un_ok linv c \<Longrightarrow> un_sync L c \<Longrightarrow> at_rest (un_at c k)"
  by (cases "bt_get (un_logics c) k") (auto simp: un_ok_def un_sync_def un_at_def)

lemma un_calls_sync:
  assumes c: "un_ok linv c" "un_sync L c" and items: "\<forall>x \<in> set items. item_ok ok this x"
    and run: "un_calls L this now ended items c = Inr (c', out)"
  shows "un_sync L c'" and "k \<notin> set (un_awoken c') \<Longrightarrow> un_at c' k = un_at c k"
proof -
  have vs: "\<forall>v \<in> set (key_items k items). ok v" for k using items by (auto simp: key_items_def item_ok_def)
  note one = solo_epoch_rest [OF at_rest_un_at [OF c] vs un_calls_solo [OF unary_logic_axioms c(1) items run]]
  show "un_sync L c'" unfolding un_sync_def
  proof (intro allI impI)
    fix k l assume "bt_get (un_logics c') k = Some l"
    with one [of k] show "ul_notify_at L l = Inr (bt_get (sched_cache c') k)" by (simp add: un_at_def)
  qed
  assume "k \<notin> set (un_awoken c')"
  then have "\<not> snd (snd (un_at c' k))" by (simp add: un_at_def)
  with one [of k] show "un_at c' k = un_at c k" by blast
qed

lemma un_change_kept: "un_ok linv c \<Longrightarrow> un_kept L linv (un_change L c k)"
  by (auto simp: un_ok_def un_kept_def un_change_def split: option.splits sum.splits) blast

lemma un_tracks_snaps:
  assumes "\<And>k. k \<notin> set (un_awoken c) \<Longrightarrow> un_change L c k = stored m k"
  shows "un_tracks L (apply_snaps m (map (\<lambda>k. Snapshot step k (un_change L c k)) (un_awoken c))) (c\<lparr>un_awoken := []\<rparr>)"
  using assms by (simp add: un_tracks_def stored_snapshots)

text \<open>An epoch without loads: the snapshots it emits, if any, and what the store knows afterwards.\<close>

lemma un_epoch_tracks:
  assumes core: "un_ok linv (un_core s)" "un_sync L (un_core s)" and caps: "kv_downstream_cap s = Some cap" "snap_cap s = Some cap" "cap \<le> e"
    and items: "\<forall>x \<in> set (inbuf_items (un_inbuf s) e). item_ok ok this x" and loads: "inbuf_items (un_loads s) e = []"
    and run: "un_epoch L this step now fr (s, out, chg) e = Inr (s', out', chg')"
  shows "un_sync L (un_core s') \<and> (\<exists>sns. chg' = chg @ map (Pair e) sns \<and> (\<forall>x \<in> set sns. un_kept L linv (sn_change x)) \<and>
    (\<forall>m. un_tracks L m (un_core s) \<longrightarrow> un_tracks L (apply_snaps m sns) (un_core s')))"
proof -
  have down: "downgrade_all e [cap] = Inr [e]" using caps(3) by (simp add: downgrade_one)
  have its: "(case bt_get (un_inbuf s) e of None \<Rightarrow> [] | Some xs \<Rightarrow> xs) = inbuf_items (un_inbuf s) e"
    and lds: "(case bt_get (un_loads s) e of None \<Rightarrow> [] | Some ls \<Rightarrow> ls) = []"
    using loads by (simp_all add: inbuf_items_def)
  from un_calls_ok [OF core(1) items] obtain c rs where
    c: "un_calls L this now (is_eof fr) (inbuf_items (un_inbuf s) e) (un_core s) = Inr (c, rs)" "un_ok linv c" by blast
  note sync = un_calls_sync [OF core items c(1)]
  have tr: "un_change L c k = stored m k" if "un_tracks L m (un_core s)" "k \<notin> set (un_awoken c)" for m k
  proof -
    note same = sync(2) [OF that(2)]
    then have "k \<notin> set (un_awoken (un_core s))" using that(2) by (simp add: un_at_def)
    with that(1) show ?thesis unfolding un_tracks_def un_change_at [OF same] by blast
  qed
  show ?thesis
  proof (cases "is_closed fr e")
    case False
    with run have "un_core s' = c" "chg' = chg" by (auto simp: un_epoch_def caps down inbuf_remove_def its c(1))
    with sync(1) tr show ?thesis by (intro conjI exI [of _ "[]"]) (auto simp: un_tracks_def)
  next
    case True
    obtain sns where sns: "emapM (un_snap L step c) (un_awoken c) = Inr sns"
      using un_snaps_ok [OF c(2), of step "un_awoken c"] by (elim exE conjE)
    note eq = un_snaps_eq [OF unary_logic_axioms c(2) sns]
    from run True have s': "un_core s' = c\<lparr>un_awoken := []\<rparr>" "chg' = chg @ map (Pair e) sns"
      by (auto simp: un_epoch_def caps down inbuf_remove_def its lds c(1) sns)
    have "un_tracks L (apply_snaps m sns) (un_core s')" if "un_tracks L m (un_core s)" for m
      unfolding s'(1) eq by (rule un_tracks_snaps) (rule tr [OF that])
    moreover have "\<forall>x \<in> set sns. un_kept L linv (sn_change x)" using un_change_kept [OF c(2)] by (auto simp: eq)
    ultimately show ?thesis using s' sync(1) by auto
  qed
qed

lemma un_loop_tracks:
  assumes "un_ok linv (un_core s)" and "un_sync L (un_core s)" and "kv_downstream_cap s = Some cap" and "snap_cap s = Some cap"
    and "sorted_wrt (<) es" and "\<forall>e \<in> set es. cap \<le> e"
    and "\<forall>e. \<forall>x \<in> set (inbuf_items (un_inbuf s) e). item_ok ok this x" and "un_loads s = []"
    and "efold (un_epoch L this step now fr) (s, out, chg) es = Inr (s', out', chg')"
  shows "un_sync L (un_core s') \<and> un_loads s' = [] \<and> (\<exists>sns. chg' = chg @ sns \<and> (\<forall>x \<in> set sns. un_kept L linv (sn_change (snd x))) \<and>
    (\<forall>m. un_tracks L m (un_core s) \<longrightarrow> un_tracks L (apply_snaps m (map snd sns)) (un_core s')))"
  using assms
proof (induction es arbitrary: s cap out chg)
  case Nil
  then show ?case by simp
next
  case (Cons e es)
  from Cons.prems(9) obtain s1 o1 c1 where ep: "un_epoch L this step now fr (s, out, chg) e = Inr (s1, o1, c1)"
    and rest: "efold (un_epoch L this step now fr) (s1, o1, c1) es = Inr (s', out', chg')" by (auto elim!: ebind_InrE)
  have le: "cap \<le> e" and it: "\<forall>x \<in> set (inbuf_items (un_inbuf s) e). item_ok ok this x"
    and ld: "inbuf_items (un_loads s) e = []" using Cons.prems(6-8) by (simp_all add: inbuf_items_def)
  then have "\<forall>x \<in> set (inbuf_items (un_loads s) e). unload_ok L linv this x" by simp
  from un_epoch_ok [OF Cons.prems(1,3,4) le it this, of step now fr out chg] ep
  have s1: "kv_downstream_cap s1 = Some e" "snap_cap s1 = Some e" "un_ok linv (un_core s1)" "un_inbuf s1 = bt_remove e (un_inbuf s)"
    "un_loads s1 = (if is_closed fr e then bt_remove e (un_loads s) else un_loads s)" by auto
  from un_epoch_tracks [OF Cons.prems(1-4) le it ld ep] obtain sns where sync: "un_sync L (un_core s1)"
    and sns: "c1 = chg @ map (Pair e) sns" "\<forall>x \<in> set sns. un_kept L linv (sn_change x)"
      "\<forall>m. un_tracks L m (un_core s) \<longrightarrow> un_tracks L (apply_snaps m sns) (un_core s1)" by blast
  have items: "\<forall>e. \<forall>x \<in> set (inbuf_items (un_inbuf s1) e). item_ok ok this x"
    using Cons.prems(7) unfolding s1(4) by (simp add: inbuf_items_def)
  from Cons.prems(5) have srt: "sorted_wrt (<) es" and ge: "\<forall>e' \<in> set es. e \<le> e'" by auto
  have none: "un_loads s1 = []" using s1(5) Cons.prems(8) by (simp add: bt_remove_def)
  from Cons.IH [OF s1(3) sync s1(1,2) srt ge items none rest] obtain sns2 where
    r: "un_sync L (un_core s')" "un_loads s' = []" "chg' = c1 @ sns2" "\<forall>x \<in> set sns2. un_kept L linv (sn_change (snd x))"
      "\<forall>m. un_tracks L m (un_core s1) \<longrightarrow> un_tracks L (apply_snaps m (map snd sns2)) (un_core s')" by blast
  show ?case using r sns
    by (intro conjI exI [of _ "map (Pair e) sns @ sns2"]) (auto simp: comp_def apply_snaps_append)
qed

lemma un_activate_tracks:
  assumes inv: "un_inv this lo s" and t: "un_timely (item_ok ok this) (unload_ok L linv this) lo (m # acts)"
    and none: "un_loads s = []" "un_load_msgs m = []" and sync: "un_sync L (un_core s)"
    and act: "un_activate L this step resume s m = Inr (s', out, chg, nx)"
  shows "un_sync L (un_core s') \<and> un_loads s' = [] \<and> (\<forall>x \<in> set chg. un_kept L linv (sn_change (snd x))) \<and>
    (\<forall>m. un_tracks L m (un_core s) \<longrightarrow> un_tracks L (apply_snaps m (map snd chg)) (un_core s'))"
proof -
  let ?fr = "simplify (un_frontiers m)" and ?buf = "buffer_all (un_items m) (un_inbuf s)" and ?loads = "buffer_all (un_load_msgs m) (un_loads s)"
  from inv obtain cap where cap: "cap \<le> lo" "kv_downstream_cap s = Some cap" "snap_cap s = Some cap"
    and s: "un_ok linv (un_core s)" by (auto simp: un_inv_def)
  let ?es = "un_epochs resume ?fr cap ?buf ?loads" and ?s = "s\<lparr>un_inbuf := ?buf, un_loads := ?loads\<rparr>"
  have buf: "buf_ok (item_ok ok this) lo ?buf" using inv t by (auto simp: un_inv_def intro!: buf_ok_all)
  have ld: "?loads = []" by (simp add: none buffer_all_def)
  have fr: "case ?fr of Some f \<Rightarrow> lo \<le> f | None \<Rightarrow> True" using t by (simp split: option.splits)
  have "\<forall>e \<in> set (inbuf_epochs ?loads). lo \<le> e" by (simp add: ld inbuf_epochs_def)
  note es = su_epochs_props [OF buf_ok_epochs [OF buf] this cap(1) fr, of resume, folded un_epochs_eq]
  from act obtain s1 where run: "efold (un_epoch L this step (un_now m) ?fr) (?s, [], []) ?es = Inr (s1, out, chg)"
    and s': "un_core s' = un_core s1" "un_loads s' = un_loads s1"
    by (auto simp: un_activate_def cap(2,3) Let_def emap_eq_Inr_iff elim!: ebind_InrE split: if_splits)
  have ge: "\<forall>e \<in> set ?es. cap \<le> e" using es(2) by blast
  have s0: "un_ok linv (un_core ?s)" "un_sync L (un_core ?s)" "kv_downstream_cap ?s = Some cap" "snap_cap ?s = Some cap"
    "\<forall>e. \<forall>x \<in> set (inbuf_items (un_inbuf ?s) e). item_ok ok this x" "un_loads ?s = []"
    using s sync cap buf_ok_items [OF buf] ld by simp_all
  from un_loop_tracks [OF s0(1-4) es(1) ge s0(5,6) run] show ?thesis unfolding s' by auto
qed

lemma un_run_tracks:
  assumes "un_inv this lo s" and "un_timely (item_ok ok this) (unload_ok L linv this) lo acts"
    and "un_loads s = []" and "\<forall>m \<in> set acts. un_load_msgs m = []" and "un_sync L (un_core s)"
    and "un_run L this step resume s acts = Inr (s', out, chg)"
  shows "un_sync L (un_core s') \<and> (\<forall>x \<in> set chg. un_kept L linv (sn_change (snd x))) \<and>
    (\<forall>m. un_tracks L m (un_core s) \<longrightarrow> un_tracks L (apply_snaps m (map snd chg)) (un_core s'))"
  using assms
proof (induction acts arbitrary: s lo out chg)
  case Nil
  then show ?case by simp
next
  case (Cons m acts)
  from Cons.prems(6) obtain s1 o1 c1 nx o2 c2 where a: "un_activate L this step resume s m = Inr (s1, o1, c1, nx)"
    and r: "un_run L this step resume s1 acts = Inr (s', o2, c2)" "chg = c1 @ c2" by (auto simp: emap_eq_Inr_iff elim!: ebind_InrE)
  have "un_load_msgs m = []" using Cons.prems(4) by simp
  note tr = un_activate_tracks [OF Cons.prems(1,2,3) this Cons.prems(5) a]
  from un_activate_ok [OF Cons.prems(1,2), of step resume] a
  have st: "case simplify (un_frontiers m) of Some f \<Rightarrow> un_inv this f s1 | None \<Rightarrow> un_done s1" by auto
  show ?case
  proof (cases "simplify (un_frontiers m)")
    case None
    with st Cons.prems(2) have dn: "un_done s1" and fin: "\<forall>m \<in> set acts. simplify (un_frontiers m) = None" by auto
    from un_run_done [OF dn fin, of this step resume] r tr show ?thesis by simp
  next
    case (Some f)
    with st Cons.prems(2) have "un_inv this f s1" and t: "un_timely (item_ok ok this) (unload_ok L linv this) f acts" by simp_all
    from Cons.IH [OF this _ _ _ r(1)] tr Cons.prems(4) r(2) show ?thesis by (simp add: apply_snaps_append ball_Un)
  qed
qed

end

section \<open>The snapshots of a run are in the order of their epochs\<close>

lemma un_epoch_change:
  assumes "un_epoch L this step now fr (s, out, chg) e = Inr (s', out', chg')"
    and "kv_downstream_cap s = Some c" and "snap_cap s = kv_downstream_cap s \<and> un_init_caps s = []"
  shows "c \<le> e \<and> kv_downstream_cap s' = Some e \<and> (snap_cap s' = kv_downstream_cap s' \<and> un_init_caps s' = []) \<and>
    (\<exists>sns. chg' = chg @ map (Pair e) sns \<and> (\<not> is_closed fr e \<longrightarrow> sns = []))"
  using assms
  by (auto simp: un_epoch_def Let_def downgrade_one emap_eq_Inr_iff split: prod.splits if_splits elim!: ebind_InrE) (rule exI, rule refl)

lemma un_activate_change:
  assumes act: "un_activate L this step resume s m = Inr (s', out, chg, nx)"
    and c: "kv_downstream_cap s = Some c" "snap_cap s = kv_downstream_cap s \<and> un_init_caps s = []"
    and es: "sorted_wrt (<) (su_epochs resume (simplify (un_frontiers m)) c (buffer_all (un_items m) (un_inbuf s)) (buffer_all (un_load_msgs m) (un_loads s)))"
  shows "sorted (map fst chg) \<and> (\<forall>x \<in> set chg. c \<le> fst x \<and> is_closed (simplify (un_frontiers m)) (fst x)) \<and>
    (case simplify (un_frontiers m) of None \<Rightarrow> kv_downstream_cap s' = None
      | Some f \<Rightarrow> \<exists>c'. kv_downstream_cap s' = Some c' \<and> c \<le> c' \<and> (\<forall>x \<in> set chg. fst x \<le> c') \<and> (resume \<le> f \<longrightarrow> f \<le> c'))"
proof -
  let ?fr = "simplify (un_frontiers m)"
  let ?es = "su_epochs resume ?fr c (buffer_all (un_items m) (un_inbuf s)) (buffer_all (un_load_msgs m) (un_loads s))"
  let ?s = "s\<lparr>un_inbuf := buffer_all (un_items m) (un_inbuf s), un_loads := buffer_all (un_load_msgs m) (un_loads s)\<rparr>"
  have "snap_cap s = Some c" using c by simp
  with act c(1) obtain s1 where
    run: "efold (un_epoch L this step (un_now m) ?fr) (?s, [], []) ?es = Inr (s1, out, chg)"
    and s1: "\<exists>caps. (if is_eof (simplify_one (un_frontiers m ! 1)) then downgrade_all resume (un_init_caps s1) else Inr (un_init_caps s1)) = Inr caps \<and>
      s' = (if is_eof ?fr then s1\<lparr>un_init_caps := caps, kv_downstream_cap := None, snap_cap := None\<rparr> else s1\<lparr>un_init_caps := caps\<rparr>)"
    by (auto simp: un_activate_def un_epochs_eq Let_def emap_eq_Inr_iff elim!: ebind_InrE split: if_splits)
  from s1 have s': "kv_downstream_cap s' = (if is_eof ?fr then None else kv_downstream_cap s1)" by auto
  have c': "kv_downstream_cap ?s = Some c" "snap_cap ?s = kv_downstream_cap ?s \<and> un_init_caps ?s = []" using c by simp_all
  have "\<exists>sns. chg = [] @ sns \<and> kv_downstream_cap s1 = Some (last (c # ?es)) \<and> (snap_cap s1 = kv_downstream_cap s1 \<and> un_init_caps s1 = []) \<and>
      c \<le> last (c # ?es) \<and> sorted (map fst sns) \<and> (\<forall>x \<in> set sns. c \<le> fst x \<and> fst x \<le> last (c # ?es) \<and> is_closed ?fr (fst x))"
    by (rule epochs_in_order [where P = "\<lambda>s. snap_cap s = kv_downstream_cap s \<and> un_init_caps s = []" and cap = kv_downstream_cap and fr = ?fr,
          OF _ run c' es]) (erule (2) un_epoch_change)
  then have l: "kv_downstream_cap s1 = Some (last (c # ?es))" "c \<le> last (c # ?es)" "sorted (map fst chg)"
    "\<forall>x \<in> set chg. c \<le> fst x \<and> fst x \<le> last (c # ?es) \<and> is_closed ?fr (fst x)" by simp_all
  with su_epochs_last [OF es] s' show ?thesis by (cases ?fr) (auto simp: is_eof_def)
qed

context unary_logic
begin

lemma un_activate_order:
  assumes inv: "un_inv this lo s" and t: "un_timely (item_ok ok this) (unload_ok L linv this) lo (m # acts)"
    and act: "un_activate L this step resume s m = Inr (s', out, chg, nx)" and c: "kv_downstream_cap s = Some c"
  shows "sorted (map fst chg) \<and> (\<forall>x \<in> set chg. c \<le> fst x \<and> is_closed (simplify (un_frontiers m)) (fst x)) \<and>
    (case simplify (un_frontiers m) of None \<Rightarrow> kv_downstream_cap s' = None
      | Some f \<Rightarrow> un_inv this f s' \<and> (\<exists>c'. kv_downstream_cap s' = Some c' \<and> c \<le> c' \<and> (\<forall>x \<in> set chg. fst x \<le> c') \<and> (resume \<le> f \<longrightarrow> f \<le> c')))"
proof -
  let ?fr = "simplify (un_frontiers m)"
  have caps: "snap_cap s = kv_downstream_cap s \<and> un_init_caps s = []" "c \<le> lo" using inv c by (auto simp: un_inv_def)
  have "buf_ok (item_ok ok this) lo (buffer_all (un_items m) (un_inbuf s))" "buf_ok (unload_ok L linv this) lo (buffer_all (un_load_msgs m) (un_loads s))"
    using inv t by (auto simp: un_inv_def intro!: buf_ok_all)
  note b = buf_ok_epochs [OF this(1)] buf_ok_epochs [OF this(2)]
  have fr: "case ?fr of Some f \<Rightarrow> lo \<le> f | None \<Rightarrow> True" using t by (simp split: option.splits)
  note o = un_activate_change [OF act c caps(1) su_epochs_props(1) [OF b caps(2) fr]]
  from un_activate_ok [OF inv t, of step resume] act have "case ?fr of Some f \<Rightarrow> un_inv this f s' | None \<Rightarrow> un_done s'" by auto
  with o show ?thesis by (cases ?fr) auto
qed

lemma un_epoch_order:
  "epoch_order (un_activate L this step resume) (un_run L this step resume) kv_downstream_cap (\<lambda>m. simplify (un_frontiers m)) resume
    (un_inv this) (un_timely (item_ok ok this) (unload_ok L linv this))"
proof (unfold_locales, goal_cases)
  case (3 s m s' out chg n)
  then show ?case by (auto simp: un_activate_def Let_def)
next
  case (4 lo m acts)
  then show ?case by (auto split: option.splits)
next
  case (5 lo s m acts s' out chg n c)
  then show ?case by (rule un_activate_order)
qed simp_all

lemmas un_run_split = epoch_order.run_split [OF un_epoch_order] and un_run_order = epoch_order.run_order [OF un_epoch_order]

end

interpretation collect_order: epoch_order "un_activate (collect_ops timeout max_size) this step resume"
    "un_run (collect_ops timeout max_size) this step resume" kv_downstream_cap "\<lambda>m. simplify (un_frontiers m)" resume
    "unary_logic.un_inv (collect_ops timeout max_size) (\<lambda>_. True) (\<lambda>_. True) this"
    "un_timely (item_ok (\<lambda>_. True) this) (unload_ok (collect_ops timeout max_size) (\<lambda>_. True) this)"
  for timeout max_size this step resume
  by (rule collect.un_epoch_order)

section \<open>Loads\<close>

text \<open>No notification is due, and none that a loaded logic asks for.\<close>

definition un_quiet :: "time \<Rightarrow> ('k::linorder, 'l) un_core \<Rightarrow> bool" where
  "un_quiet now c \<longleftrightarrow> (\<forall>k t. bt_get (sched_cache c) k = Some t \<longrightarrow> now < t)"

definition un_asleep :: "('l, 'v, 'r, 'q) unary_ops \<Rightarrow> time \<Rightarrow> 'q state_change \<Rightarrow> bool" where
  "un_asleep L now ch \<longleftrightarrow> (\<forall>q l t. ch = Upsert q \<and> ul_build L now (Some q) = Inr l \<and> ul_notify_at L l = Inr (Some t) \<longrightarrow> now < t)"

text \<open>An operator between two activations at frontier \<open>R\<close>, with nothing buffered and nothing left to snapshot.\<close>

definition un_idle_at :: "('l, 'v, 'r, 'q) unary_ops \<Rightarrow> ('l \<Rightarrow> bool) \<Rightarrow> epoch \<Rightarrow> ('k::linorder, 'v, 'l, 'q) un_state \<Rightarrow> bool" where
  "un_idle_at L linv R s \<longleftrightarrow> (\<exists>cap \<le> R. kv_downstream_cap s = Some cap \<and> snap_cap s = Some cap) \<and> un_init_caps s = [] \<and>
     un_ok linv (un_core s) \<and> un_sync L (un_core s) \<and> un_awoken (un_core s) = [] \<and> un_inbuf s = [] \<and> un_loads s = []"

lemma un_idle_start: "un_idle_at L linv 0 (un_start [0, 0])"
  by (simp add: un_idle_at_def un_start_def inbuf_new_def un_sync_def un_new_def un_ok_new [unfolded un_new_def])

lemma un_quiet_due: "un_ok linv c \<Longrightarrow> un_quiet now c \<Longrightarrow> un_due now c = []"
  by (fastforce simp: un_ok_def un_quiet_def un_due_def bt_get_eq_Some_iff filter_empty_conv)

context durable_logic
begin

lemma un_idle_inv: "un_idle_at L linv lo s \<Longrightarrow> un_inv this lo s"
  by (auto simp: un_idle_at_def un_inv_def buf_ok_def)

lemma un_load_restores:
  assumes c: "un_ok linv c" "un_sync L c" "un_quiet now c" and fresh: "un_change L c k = state_change.Discard"
    and ch: "un_kept L linv ch" "un_asleep L now ch"
  shows "\<exists>c'. un_load L this now c (this, k, ch) = Inr c' \<and> un_ok linv c' \<and> un_sync L c' \<and> un_quiet now c' \<and>
    un_awoken c' = un_awoken c \<and> un_change L c' k = ch \<and> (\<forall>k'. k' \<noteq> k \<longrightarrow> un_at c' k' = un_at c k')"
proof (cases ch)
  case Discard
  let ?c = "un_forget k c"
  have "un_sync L ?c" "un_quiet now ?c" using c(2,3) by (auto simp: un_sync_def un_quiet_def un_forget_def)
  moreover have "un_change L ?c k = ch" "un_awoken ?c = un_awoken c" by (simp_all add: un_change_def un_forget_def Discard)
  moreover have "\<forall>k'. k' \<noteq> k \<longrightarrow> un_at ?c k' = un_at c k'" by (simp add: un_at_forget)
  ultimately show ?thesis using un_ok_forget [OF c(1)] by (intro exI [of _ ?c]) (simp add: un_load_def Discard)
next
  case (Upsert q)
  with ch(1) obtain l where l: "linv l" "ul_snapshot L l = Inr q" by (auto simp: un_kept_def)
  from notify_at [OF l(1)] obtain t where t: "ul_notify_at L l = Inr t" by blast
  have gone: "bt_get (un_logics c) k = None"
  proof (rule ccontr)
    assume "bt_get (un_logics c) k \<noteq> None"
    then obtain l' where l': "bt_get (un_logics c) k = Some l'" by blast
    with c(1) have "linv l'" by (simp add: un_ok_def)
    from snapshot [OF this, of 0] obtain q where "ul_snapshot L l' = Inr q" by blast
    with l' fresh show False by (simp add: un_change_def)
  qed
  with c(1) have gone': "bt_get (sched_cache c) k = None" by (auto simp: un_ok_def)
  let ?c = "c\<lparr>sched_cache := (case t of Some t \<Rightarrow> bt_insert k t (sched_cache c) | None \<Rightarrow> sched_cache c),
      un_logics := bt_insert k l (un_logics c)\<rparr>"
  have "un_load L this now c (this, k, ch) = Inr ?c" by (simp add: un_load_def Upsert rebuild [OF l] t)
  moreover have "un_ok linv ?c" using c(1) l(1) by (auto simp: un_ok_def split: option.split)
  moreover have "un_sync L ?c" using c(2) t gone' by (auto simp: un_sync_def split: option.split)
  moreover have "un_quiet now ?c" using c(3) t ch(2) rebuild [OF l] by (auto simp: un_quiet_def un_asleep_def Upsert split: option.split)
  moreover have "un_change L ?c k = ch" by (simp add: un_change_def Upsert l(2))
  moreover have "\<forall>k'. k' \<noteq> k \<longrightarrow> un_at ?c k' = un_at c k'" by (simp add: un_at_def split: option.split)
  ultimately show ?thesis by (intro exI [of _ ?c]) simp
qed

lemma un_loads_restore:
  assumes "un_ok linv c" and "un_sync L c" and "un_quiet now c"
    and "\<forall>(w, k, ch) \<in> set loads. w = this \<and> un_kept L linv ch \<and> un_asleep L now ch \<and> un_change L c k = state_change.Discard"
    and "distinct (map (\<lambda>x. fst (snd x)) loads)"
  shows "\<exists>c'. efold (un_load L this now) c loads = Inr c' \<and> un_ok linv c' \<and> un_sync L c' \<and> un_quiet now c' \<and>
    un_awoken c' = un_awoken c \<and>
    (\<forall>k. un_change L c' k = (case map_of (map snd loads) k of Some ch \<Rightarrow> ch | None \<Rightarrow> un_change L c k))"
  using assms
proof (induction loads arbitrary: c)
  case Nil
  then show ?case by simp
next
  case (Cons x loads)
  obtain w k ch where x: "x = (w, k, ch)" by (metis prod.exhaust)
  from Cons.prems(4) have h: "w = this" "un_kept L linv ch" "un_asleep L now ch" "un_change L c k = state_change.Discard"
    by (simp_all add: x)
  from un_load_restores [OF Cons.prems(1-3) h(4,2,3), of this] obtain c1 where
    c1: "un_load L this now c x = Inr c1" "un_ok linv c1" "un_sync L c1" "un_quiet now c1" "un_awoken c1 = un_awoken c"
      "un_change L c1 k = ch" "\<forall>k'. k' \<noteq> k \<longrightarrow> un_at c1 k' = un_at c k'" unfolding x h(1) by blast
  have same: "un_change L c1 k' = un_change L c k'" if "k' \<noteq> k" for k'
    by (rule un_change_at) (use c1(7) that in simp)
  have later: "\<forall>(w, k, ch) \<in> set loads. w = this \<and> un_kept L linv ch \<and> un_asleep L now ch \<and> un_change L c1 k = state_change.Discard"
  proof clarify
    fix w' k' ch' assume y: "(w', k', ch') \<in> set loads"
    then have "k' \<in> set (map (\<lambda>x. fst (snd x)) loads)" by force
    then have "k' \<noteq> k" using Cons.prems(5) by (auto simp: x)
    from same [OF this] Cons.prems(4) y
    show "w' = this \<and> un_kept L linv ch' \<and> un_asleep L now ch' \<and> un_change L c1 k' = state_change.Discard" by auto
  qed
  from Cons.IH [OF c1(2-4) later] Cons.prems(5) obtain c' where
    c': "efold (un_load L this now) c1 loads = Inr c'" "un_ok linv c'" "un_sync L c'" "un_quiet now c'" "un_awoken c' = un_awoken c1"
      "\<forall>k. un_change L c' k = (case map_of (map snd loads) k of Some ch \<Rightarrow> ch | None \<Rightarrow> un_change L c1 k)" by auto
  have "map_of (map snd loads) k = None" using Cons.prems(5) by (simp add: x map_of_eq_None_iff image_image)
  with c' c1 same show ?case by (auto simp: x split: option.split)
qed

lemma un_epoch_load:
  assumes core: "un_ok linv (un_core s)" "un_sync L (un_core s)" "un_quiet now (un_core s)"
    and caps: "snap_cap s = kv_downstream_cap s" "un_init_caps s = []" "kv_downstream_cap s = Some c" "c \<le> e"
    and idle: "un_awoken (un_core s) = []" "un_inbuf s = []"
    and ok: "\<forall>(w, k, ch) \<in> set (inbuf_items (un_loads s) e). w = this \<and> un_kept L linv ch \<and> un_asleep L now ch \<and>
      un_change L (un_core s) k = state_change.Discard"
    and d: "distinct (map (\<lambda>x. fst (snd x)) (inbuf_items (un_loads s) e))"
  shows "\<exists>s'. un_epoch L this step now (Some R) (s, out, chg) e = Inr (s', out, chg) \<and>
    un_ok linv (un_core s') \<and> un_sync L (un_core s') \<and> un_quiet now (un_core s') \<and> snap_cap s' = kv_downstream_cap s' \<and>
    un_init_caps s' = [] \<and> un_awoken (un_core s') = [] \<and> un_inbuf s' = [] \<and> kv_downstream_cap s' = Some e \<and>
    un_loads s' = (if e < R then bt_remove e (un_loads s) else un_loads s) \<and>
    (\<forall>k. un_change L (un_core s') k = (case map_of (if e < R then map snd (inbuf_items (un_loads s) e) else []) k of
       Some ch \<Rightarrow> ch | None \<Rightarrow> un_change L (un_core s) k))"
proof -
  have down: "downgrade_all e [c] = Inr [e]" and scap: "snap_cap s = Some c" using caps by (simp_all add: downgrade_one)
  have calls: "un_calls L this now (is_eof (Some R)) [] (un_core s) = Inr (un_core s, [])"
    using un_quiet_due [OF core(1,3)] idle(1) by (simp add: un_calls_def un_eof_all_def is_eof_def)
  have lds: "(case bt_get (un_loads s) e of None \<Rightarrow> [] | Some ls \<Rightarrow> ls) = inbuf_items (un_loads s) e" by (simp add: inbuf_items_def)
  have same: "un_core s\<lparr>un_awoken := []\<rparr> = un_core s" using idle(1) by simp
  let ?s = "s\<lparr>kv_downstream_cap := Some e, snap_cap := Some e, un_inbuf := []\<rparr>"
  show ?thesis
  proof (cases "e < R")
    case False
    then have "un_epoch L this step now (Some R) (s, out, chg) e = Inr (?s\<lparr>un_core := un_core s\<rparr>, out, chg)"
      by (simp add: un_epoch_def caps(3) scap down inbuf_remove_def idle(2) calls bt_remove_def is_closed_def)
    with False core caps idle show ?thesis by (intro exI [of _ "?s\<lparr>un_core := un_core s\<rparr>"]) simp
  next
    case True
    from un_loads_restore [OF core ok d] obtain c' where
      c': "efold (un_load L this now) (un_core s) (inbuf_items (un_loads s) e) = Inr c'" "un_ok linv c'" "un_sync L c'" "un_quiet now c'"
        "un_awoken c' = un_awoken (un_core s)"
        "\<forall>k. un_change L c' k = (case map_of (map snd (inbuf_items (un_loads s) e)) k of Some ch \<Rightarrow> ch | None \<Rightarrow> un_change L (un_core s) k)" by blast
    let ?s' = "?s\<lparr>un_core := c', un_loads := bt_remove e (un_loads s)\<rparr>"
    have "un_epoch L this step now (Some R) (s, out, chg) e = Inr (?s', out, chg)"
      using True by (simp add: un_epoch_def caps(3) scap down inbuf_remove_def idle calls bt_remove_def is_closed_def lds same c'(1))
    with True c' caps(2) idle(1) show ?thesis by (intro exI [of _ ?s']) simp
  qed
qed

lemma un_epoch_loads:
  "epoch_loads (un_epoch L this step now (Some R)) R kv_downstream_cap un_loads
    (\<lambda>s. un_ok linv (un_core s) \<and> un_sync L (un_core s) \<and> un_quiet now (un_core s) \<and> snap_cap s = kv_downstream_cap s \<and>
      un_init_caps s = [] \<and> un_awoken (un_core s) = [] \<and> un_inbuf s = [])
    (\<lambda>(w, k, ch). w = this \<and> un_kept L linv ch \<and> un_asleep L now ch) (\<lambda>s. un_change L (un_core s))"
proof (unfold_locales, goal_cases)
  case (1 s c e out chg)
  then have "\<forall>(w, k, ch) \<in> set (inbuf_items (un_loads s) e). w = this \<and> un_kept L linv ch \<and> un_asleep L now ch \<and>
      un_change L (un_core s) k = state_change.Discard" by auto
  from un_epoch_load [of s now c e this step R out chg] 1 this show ?case by simp
qed

lemmas un_loading = epoch_loads.loading [OF un_epoch_loads]

text \<open>The activation that closes the epochs of all loads leaves the operator with nothing buffered.\<close>

lemma un_activate_load:
  assumes it: "un_items m = []" and fr: "simplify (un_frontiers m) = Some R"
    and ld: "\<forall>(e, w, k, ch) \<in> set (msg_items (un_load_msgs m)). e < R \<and> w = this \<and> un_kept L linv ch \<and> un_asleep L (un_now m) ch"
    and d: "distinct (map (\<lambda>(e, w, k, ch). k) (msg_items (un_load_msgs m)))"
    and some: "\<forall>(e, xs) \<in> set (un_load_msgs m). xs \<noteq> []"
  shows "\<exists>s' nx. un_activate L this step resume (un_start [0, 0]) m = Inr (s', [], [], nx) \<and> un_idle_at L linv R s' \<and>
    (\<forall>k. un_change L (un_core s') k = (case map_of (map (\<lambda>(e, w, kc). kc) (msg_items (un_load_msgs m))) k of
       Some ch \<Rightarrow> ch | None \<Rightarrow> state_change.Discard))"
proof -
  let ?ib = "buffer_all (un_items m) []" and ?lb = "buffer_all (un_load_msgs m) []"
  let ?s = "(un_start [0, 0])\<lparr>un_inbuf := ?ib, un_loads := ?lb\<rparr>"
  have ib: "?ib = []" by (simp add: it buffer_all_def)
  have s: "un_ok linv (un_core ?s) \<and> un_sync L (un_core ?s) \<and> un_quiet (un_now m) (un_core ?s) \<and> snap_cap ?s = kv_downstream_cap ?s \<and>
      un_init_caps ?s = [] \<and> un_awoken (un_core ?s) = [] \<and> un_inbuf ?s = []"
    "kv_downstream_cap ?s = Some 0" "un_loads ?s = ?lb" "\<forall>k. un_change L (un_core ?s) k = state_change.Discard"
    by (simp_all add: ib un_start_def un_quiet_def un_sync_def un_change_def un_new_def un_ok_new [unfolded un_new_def])
  have ld': "\<forall>(e, x) \<in> set (msg_items (un_load_msgs m)). e < R \<and> (case x of (w, k, ch) \<Rightarrow> w = this \<and> un_kept L linv ch \<and> un_asleep L (un_now m) ch)"
    using ld by auto
  from un_loading [where s = ?s and now = "un_now m" and this = this and step = step and R = R and
      msgs = "un_load_msgs m" and ib = ?ib and out = "[]" and chg = "[]" and resume = resume, OF s ld' d some ib] obtain s' c where
    s': "efold (un_epoch L this step (un_now m) (Some R)) (?s, [], []) (su_epochs resume (Some R) 0 ?ib ?lb) = Inr (s', [], [])"
      "un_ok linv (un_core s')" "un_sync L (un_core s')" "snap_cap s' = kv_downstream_cap s'" "un_init_caps s' = []"
      "un_awoken (un_core s') = []" "un_inbuf s' = []" "c \<le> R" "kv_downstream_cap s' = Some c" "un_loads s' = []"
      "\<forall>k. un_change L (un_core s') k = (case map_of (map (\<lambda>(e, w, kc). kc) (msg_items (un_load_msgs m))) k of
         Some ch \<Rightarrow> ch | None \<Rightarrow> state_change.Discard)" by (elim exE conjE) (rule that)
  have "un_activate L this step resume (un_start [0, 0]) m = Inr (s'\<lparr>un_init_caps := []\<rparr>, [], [], un_next_activation (un_now m) (un_core s'))"
    using s'(1,5) by (simp add: un_activate_def un_epochs_eq Let_def fr it un_start_def inbuf_new_def buffer_all_def [of "[]"] is_eof_def downgrade_all_def)
  moreover have "un_idle_at L linv R (s'\<lparr>un_init_caps := []\<rparr>)" using s' by (simp add: un_idle_at_def)
  ultimately show ?thesis using s'(11) by (intro exI) (rule conjI, assumption, simp)
qed

end

interpretation collect_loads: epoch_loads "un_epoch (collect_ops timeout max_size) this step now (Some R)" R kv_downstream_cap un_loads
    "\<lambda>s. un_ok (\<lambda>_. True) (un_core s) \<and> un_sync (collect_ops timeout max_size) (un_core s) \<and> un_quiet now (un_core s) \<and>
      snap_cap s = kv_downstream_cap s \<and> un_init_caps s = [] \<and> un_awoken (un_core s) = [] \<and> un_inbuf s = []"
    "\<lambda>(w, k, ch). w = this \<and> un_kept (collect_ops timeout max_size) (\<lambda>_. True) ch \<and> un_asleep (collect_ops timeout max_size) now ch"
    "\<lambda>s. un_change (collect_ops timeout max_size) (un_core s)"
  for timeout max_size this step now R
  by (rule collect_durable.un_epoch_loads)

end
