(* ===== verification/Unary_Restart.thy ===== *)
theory Unary_Restart
  imports Step_Restart Unary_Load
begin

text \<open>
  The \<^verbatim>\<open>unary\<close> operator (\<^verbatim>\<open>src/src/operators/mod.rs\<close>) across a crash of the cluster: it meets the contract of
  theory \<open>Durable_Step\<close>, so recovery restores the logic of each key, and the notification it had asked for.
\<close>

section \<open>The state after a crash\<close>

text \<open>
  The operator on worker \<open>this\<close> had loaded and was in state \<open>s0\<close>; it ran up to an activation at frontier \<open>R\<close>,
  where its state was \<open>s\<close> and it had emitted \<open>chg\<close>, and then went on and emitted \<open>later\<close>.
\<close>

definition un_ran_past where
  "un_ran_past L linv ok this step resume R s0 s chg later \<longleftrightarrow>
     (\<exists>lo acts acts' out s2 out2. un_idle_at L linv lo s0 \<and>
       un_timely (item_ok ok this) (unload_ok L linv this) lo (acts @ acts') \<and>
       acts \<noteq> [] \<and> (\<forall>m \<in> set acts. un_load_msgs m = []) \<and> simplify (un_frontiers (last acts)) = Some R \<and>
       un_run L this step resume s0 acts = Inr (s, out, chg) \<and>
       un_run L this step resume s0 (acts @ acts') = Inr (s2, out2, chg @ later))"

lemma un_timely_prefix: "un_timely P Q lo (acts @ acts') \<Longrightarrow> un_timely P Q lo acts"
  by (induction acts arbitrary: lo) (auto split: option.splits)

lemma un_ran_past_ok:
  assumes L: "durable_logic L linv ok"
    and ran: "un_ran_past L linv ok this step resume R s0 s chg later" and "resume \<le> R"
  shows "un_ok linv (un_core s0) \<and> un_sync L (un_core s0)" and "un_ok linv (un_core s) \<and> un_sync L (un_core s)"
    and "un_tracks L (apply_snaps (\<lambda>k. Some (un_change L (un_core s0) k)) (map snd chg)) (un_core s)"
    and "\<forall>x \<in> set chg. un_kept L linv (sn_change (snd x))"
    and "sorted (map fst chg)" and "\<forall>x \<in> set chg. fst x < R" and "\<forall>x \<in> set later. R \<le> fst x"
proof -
  have U: "unary_logic L linv ok" using L by (rule durable_logic.axioms(1))
  from ran obtain lo acts acts' out s2 out2 where
    idle: "un_idle_at L linv lo s0" and t: "un_timely (item_ok ok this) (unload_ok L linv this) lo (acts @ acts')" and
    a: "acts \<noteq> []" "\<forall>m \<in> set acts. un_load_msgs m = []" "simplify (un_frontiers (last acts)) = Some R" and
    r: "un_run L this step resume s0 acts = Inr (s, out, chg)"
      "un_run L this step resume s0 (acts @ acts') = Inr (s2, out2, chg @ later)"
    unfolding un_ran_past_def by (elim exE conjE) (rule that)
  note start = durable_logic.un_idle_inv [OF L idle] and t1 = un_timely_prefix [OF t]
  from idle obtain c where c: "kv_downstream_cap s0 = Some c" "un_loads s0 = []"
    and core: "un_ok linv (un_core s0)" "un_sync L (un_core s0)" by (auto simp: un_idle_at_def)
  then show "un_ok linv (un_core s0) \<and> un_sync L (un_core s0)" by blast
  have tr: "un_tracks L (\<lambda>k. Some (un_change L (un_core s0) k)) (un_core s0)" by (simp add: un_tracks_def stored_def)
  from unary_logic.un_run_ok [OF U start t1, of step resume] r(1) have "un_ok linv (un_core s)" by auto
  with durable_logic.un_run_tracks [OF L start t1 c(2) a(2) core(2) r(1)] tr
  show "un_ok linv (un_core s) \<and> un_sync L (un_core s)"
    "un_tracks L (apply_snaps (\<lambda>k. Some (un_change L (un_core s0) k)) (map snd chg)) (un_core s)"
    "\<forall>x \<in> set chg. un_kept L linv (sn_change (snd x))" by blast+
  show "sorted (map fst chg)" using unary_logic.un_run_order [OF U start t1 r(1) c(1)] by blast
  from unary_logic.un_run_split [OF U start t a(1,3) \<open>resume \<le> R\<close> r(1) c(1) r(2)]
  show "\<forall>x \<in> set chg. fst x < R" "\<forall>x \<in> set later. R \<le> fst x" by auto
qed

text \<open>The first activation of a new operator: it emits nothing and is then idle.\<close>

definition un_begun_idle where
  "un_begun_idle L linv step w R m s \<longleftrightarrow>
     (\<exists>nx. un_activate L w step R (un_start [0, 0]) m = Inr (s, [], [], nx)) \<and> un_idle_at L linv R s"

lemma un_durable:
  assumes L: "durable_logic L linv ok"
  shows "durable_operator (\<lambda>s. un_change L (un_core s)) (\<lambda>s. set (un_awoken (un_core s)))
    (\<lambda>s. un_ok linv (un_core s) \<and> un_sync L (un_core s)) (un_kept L linv) (\<lambda>v. un_ran_past L linv ok v step)
    un_load_msgs (\<lambda>m R. un_items m = [] \<and> simplify (un_frontiers m) = Some R) (\<lambda>m. un_asleep L (un_now m)) (un_begun_idle L linv step)"
proof (unfold_locales, goal_cases)
  case (1 v res R s0 s chg later)
  show ?case using un_ran_past_ok(1,2) [OF L 1] by (rule conjI)
next
  case (2 v res R s0 s chg later)
  show ?case by (rule un_ran_past_ok(4) [OF L 2])
next
  case (3 v res R s0 s chg later)
  show ?case using un_ran_past_ok(5-7) [OF L 3] by (intro conjI)
next
  case (4 v res R s0 s chg later k)
  from un_ran_past_ok(3) [OF L 4(1,2)] 4(3) show ?case by (simp add: un_tracks_def)
next
  case (5 s k)
  then show ?case by (intro durable_logic.un_change_kept [OF L]) simp
next
  case (6 m R w)
  from durable_logic.un_activate_load [OF L conjunct1 [OF 6(1)] conjunct2 [OF 6(1)] 6(3,4,2), of step R]
  show ?case unfolding un_begun_idle_def by (auto simp: un_idle_at_def)
qed

text \<open>A logic at rest is known from its snapshot, and its notification with it.\<close>

lemma un_change_inj:
  assumes L: "durable_logic L linv ok" and c: "un_ok linv c" "un_sync L c" and d: "un_ok linv d" "un_sync L d"
    and same: "un_change L c k = un_change L d k"
  shows "bt_get (un_logics c) k = bt_get (un_logics d) k \<and> bt_get (sched_cache c) k = bt_get (sched_cache d) k"
proof -
  have U: "unary_logic L linv ok" using L by (rule durable_logic.axioms(1))
  have key: "(case bt_get (un_logics c) k of None \<Rightarrow> un_change L c k = state_change.Discard \<and> bt_get (sched_cache c) k = None
      | Some l \<Rightarrow> \<exists>q. un_change L c k = Upsert q \<and> ul_build L 0 (Some q) = Inr l \<and> ul_notify_at L l = Inr (bt_get (sched_cache c) k))"
    if c: "un_ok linv c" "un_sync L c" for c
  proof (cases "bt_get (un_logics c) k")
    case None
    with c(1) show ?thesis by (auto simp: un_change_def un_ok_def)
  next
    case (Some l)
    with c(1) have l: "linv l" by (simp add: un_ok_def)
    from unary_logic.snapshot [OF U l] obtain q where q: "ul_snapshot L l = Inr q" by blast
    with durable_logic.rebuild [OF L l q, of 0] Some c(2) show ?thesis by (simp add: un_change_def un_sync_def)
  qed
  from key [OF c] key [OF d] same show ?thesis by (auto split: option.splits)
qed


text \<open>The collectors of theory \<open>Unary_Runs\<close> are such logics.\<close>

interpretation collect_operator: durable_operator "\<lambda>s. un_change (collect_ops timeout max_size) (un_core s)" "\<lambda>s. set (un_awoken (un_core s))"
    "\<lambda>s. un_ok (\<lambda>_. True) (un_core s) \<and> un_sync (collect_ops timeout max_size) (un_core s)" "un_kept (collect_ops timeout max_size) (\<lambda>_. True)"
    "\<lambda>v. un_ran_past (collect_ops timeout max_size) (\<lambda>_. True) (\<lambda>_. True) v step" un_load_msgs
    "\<lambda>m R. un_items m = [] \<and> simplify (un_frontiers m) = Some R" "\<lambda>m. un_asleep (collect_ops timeout max_size) (un_now m)"
    "un_begun_idle (collect_ops timeout max_size) (\<lambda>_. True) step"
  for timeout max_size step
  by (rule un_durable [OF collect_durable.durable_logic_axioms])

text \<open>A collector on one worker is given an item in epoch 1 and another in epoch 2, where the cluster stops.\<close>

abbreviation batch_ser :: "unit list \<times> time option \<Rightarrow> string res" where
  "batch_ser \<equiv> (\<lambda>(vs, at). if at = Some (10 + int (length vs)) then Inr (map (\<lambda>_. CHR ''x'') vs) else Inl (PanicMsg ''not a batch''))"

abbreviation batch_at :: "nat \<Rightarrow> time \<Rightarrow> unit list \<Rightarrow> (nat, unit, unit list \<times> time option, unit list \<times> time option) un_state" where
  "batch_at n t vs \<equiv> (un_start [0, 0])\<lparr>kv_downstream_cap := Some (Suc n), snap_cap := Some (Suc n),
     un_core := \<lparr>un_logics = [(8, (vs, Some t))], sched_cache = [(8, t)], un_awoken = []\<rparr>\<rparr>"

abbreviation batch_items :: "nat \<Rightarrow> time \<Rightarrow> (nat, unit, unit list \<times> time option) un_msgs" where
  "batch_items n t \<equiv> \<lparr>un_items = [(n, [(0, 8, ())])], un_load_msgs = [], un_now = t, un_frontiers = [[Suc n], [Suc n]]\<rparr>"

lemma batch_run:
  "un_run (collect_ops 10 3) 0 (7 :: nat) 1 (un_start [0, 0]) [batch_items 1 1] =
    Inr (batch_at 1 11 [()], [], [(1, Snapshot 7 8 (Upsert ([()], Some 11)))])"
  "un_run (collect_ops 10 3) 0 (7 :: nat) 1 (un_start [0, 0]) [batch_items 1 1, batch_items 2 2] =
    Inr (batch_at 2 12 [(), ()], [], [(1, Snapshot 7 8 (Upsert ([()], Some 11))), (2, Snapshot 7 8 (Upsert ([(), ()], Some 12)))])"
  by (simp_all add: un_eval collect_ops_def)


end
