(* ===== verification/Inputs.thy ===== *)
theory Inputs
  imports Py_Errors Recovery_Ops
begin

text \<open>
  The input operators of \<^verbatim>\<open>src/src/inputs.rs\<close>: \<^verbatim>\<open>partitioned_input\<close>, which builds the partitions this
  worker is the primary of, from loaded state or fresh, and polls each for batches, and
  \<^verbatim>\<open>dynamic_input\<close>, with one stateless partition per worker. Each partition has its own epoch, which
  advances when the epoch interval has elapsed, with a snapshot; nothing is read while the probe
  shows that an earlier epoch is still in progress. A Python source is a record of functions.
  Metrics, trace spans and \<^verbatim>\<open>close\<close> are left out.
\<close>

section \<open>Epoch interval and awake times\<close>

text \<open>
  \<^verbatim>\<open>EpochInterval::epochs_per\<close> divides whole milliseconds as floats and rounds up; the float-to-int
  cast saturates and maps NaN to 0. The quotient is exact here, as it is in floats while both
  durations are below \<open>2 ^ 53\<close> ms and not more than \<open>2 ^ 53\<close> apart in ratio.
\<close>

definition epochs_per :: "dur \<Rightarrow> dur \<Rightarrow> nat" where
  "epochs_per interval other =
     (let o_ms = trunc_div other 1000000; i_ms = trunc_div interval 1000000
      in if i_ms = 0 then (if 0 < o_ms then 2 ^ 64 - 1 else 0)
         else min (nat (- ((- (if 0 < i_ms then o_ms else - o_ms)) div \<bar>i_ms\<bar>))) (2 ^ 64 - 1))"

definition default_cooldown :: dur where
  "default_cooldown = 1000000"

definition default_next_awake :: "time option \<Rightarrow> nat \<Rightarrow> time \<Rightarrow> time option" where
  "default_next_awake res batch_len now = (case res of
       Some t \<Rightarrow> Some t
     | None \<Rightarrow> if 0 < batch_len then None else Some (now + default_cooldown))"

definition awake_due :: "time option \<Rightarrow> time \<Rightarrow> bool" where
  "awake_due next_awake now = (case next_awake of None \<Rightarrow> True | Some t \<Rightarrow> t \<le> now)"

text \<open>\<^verbatim>\<open>ProbeHandle::less_than\<close>: is an epoch before \<open>e\<close> still in progress.\<close>

definition probe_less_than :: "frontier \<Rightarrow> epoch \<Rightarrow> bool" where
  "probe_less_than probe e \<longleftrightarrow> (\<exists>f \<in> set probe. f < e)"

section \<open>Sources\<close>

datatype 'x batch_result = Eof | Abort | Batch "'x list"

text \<open>
  \<^verbatim>\<open>StatefulPartition::next_batch\<close> and \<^verbatim>\<open>StatelessPartition::next_batch\<close>: two exceptions are answers. The
  Python call gives the partition as it is after the call, and its outcome.
\<close>

definition part_next_batch ::
  "('m \<Rightarrow> 'x res list res) \<Rightarrow> ('p \<Rightarrow> time option \<Rightarrow> 'p \<times> 'm res) \<Rightarrow> 'p \<Rightarrow> time option \<Rightarrow>
    ('p \<times> 'x batch_result) res" where
  "part_next_batch py_iter call p sched =
     (let (p', r) = call p sched in case r of
        Inl (PyErr ty) \<Rightarrow>
          if ty = ''StopIteration'' then Inr (p', Eof) else if ty = ''AbortExecution'' then Inr (p', Abort) else Inl (PyErr ty)
      | Inl e \<Rightarrow> Inl e
      | Inr obj \<Rightarrow> ebind (reraise (py_iter obj)) (\<lambda>it. emap (\<lambda>b. (p', Batch b)) (reraise (emapM id it))))"

text \<open>A \<^verbatim>\<open>FixedPartitionedSource\<close>, or with no use of its snapshots a \<^verbatim>\<open>DynamicSource\<close>.\<close>

record ('p, 'x, 'k, 'q) source_ops =
  so_build :: "time \<Rightarrow> 'k \<Rightarrow> 'q option \<Rightarrow> 'p res"
  so_next_batch :: "'p \<Rightarrow> time option \<Rightarrow> ('p \<times> 'x batch_result) res"
  so_next_awake :: "'p \<Rightarrow> time option res"
  so_snapshot :: "'p \<Rightarrow> 'q res"

section \<open>\<^verbatim>\<open>partitioned_input\<close>\<close>

record 'p part_state =
  ps_part :: 'p
  downstream_cap :: epoch
  ps_snap_cap :: epoch
  epoch_started :: time
  ps_next_awake :: "time option"

record ('k, 'p) input_state =
  in_init_caps :: "(epoch \<times> epoch) option"
  in_parts :: "('k, 'p part_state) btree"
  primary_parts :: "'k bset"
  primaries_inbuf :: "('k \<times> worker) in_buffer"

definition in_start :: "epoch \<Rightarrow> epoch list \<Rightarrow> ('k, 'p) input_state res" where
  "in_start start_at caps =
     ebind (downgrade_all start_at caps) (\<lambda>caps.
     ebind (expect ''init_caps.pop()'' (if caps = [] then None else Some (last caps))) (\<lambda>snap.
     ebind (expect ''init_caps.pop()'' (if butlast caps = [] then None else Some (last (butlast caps)))) (\<lambda>down.
     Inr \<lparr>in_init_caps = Some (down, snap), in_parts = [], primary_parts = [], primaries_inbuf = inbuf_new\<rparr>)))"

text \<open>Building a partition, loaded or fresh.\<close>

definition build_state ::
  "('p, 'x, 'k, 'q) source_ops \<Rightarrow> time \<Rightarrow> 'k \<Rightarrow> 'q option \<Rightarrow> epoch \<Rightarrow> epoch \<Rightarrow> 'p part_state res" where
  "build_state S now key st down snap =
     ebind (reraise (so_build S now key st)) (\<lambda>p.
     emap (\<lambda>next_awake. \<lparr>ps_part = p, downstream_cap = down, ps_snap_cap = snap, epoch_started = now,
         ps_next_awake = next_awake\<rparr>)
       (reraise (so_next_awake S p)))"

text \<open>\<^verbatim>\<open>delayed_for_output\<close> panics for a time that is not in the capability's future.\<close>

definition in_load ::
  "('p, 'x, 'k::linorder, 'q) source_ops \<Rightarrow> worker \<Rightarrow> time \<Rightarrow> epoch \<Rightarrow> epoch \<Rightarrow>
    ('k, 'p part_state) btree \<Rightarrow> worker \<times> 'k \<times> 'q state_change \<Rightarrow> ('k, 'p part_state) btree res" where
  "in_load S this now start_at load_epoch pts = (\<lambda>(w, key, change).
     ebind (eguard (w = this) (AssertFail ''worker == this_worker'')) (\<lambda>_. case change of
       Upsert st \<Rightarrow>
         (let emit_epoch = max load_epoch start_at
          in ebind (cap_downgrade load_epoch emit_epoch) (\<lambda>down.
             ebind (cap_downgrade load_epoch emit_epoch) (\<lambda>snap.
             emap (\<lambda>p. bt_insert key p pts) (build_state S now key (Some st) down snap))))
     | state_change.Discard \<Rightarrow> Inr pts))"

definition in_loads where
  "in_loads S this now start_at msgs pts =
     efold (\<lambda>ps (e, xs). efold (in_load S this now start_at e) ps xs) pts msgs"

text \<open>The primary assignments of the closed epochs, in epoch order.\<close>

definition in_primaries ::
  "worker \<Rightarrow> frontier \<Rightarrow> ('k::linorder \<times> worker) in_buffer \<Rightarrow> 'k bset \<Rightarrow> ('k \<times> worker) in_buffer \<times> 'k bset" where
  "in_primaries this primaries_frontier buf primary =
     foldl (\<lambda>(buf, primary) e. let (buf', items) = inbuf_remove buf e in
         (buf', foldl (\<lambda>pr (part, w). if w = this then bs_insert part pr else pr) primary
            (case items of None \<Rightarrow> [] | Some xs \<Rightarrow> xs)))
       (buf, primary) (filter (is_closed (simplify_one primaries_frontier)) (inbuf_epochs buf))"

text \<open>At the end of the loads, primary partitions without state are built fresh.\<close>

definition in_init ::
  "('p, 'x, 'k::linorder, 'q) source_ops \<Rightarrow> time \<Rightarrow> epoch \<times> epoch \<Rightarrow> 'k bset \<Rightarrow>
    ('k, 'p part_state) btree \<Rightarrow> ('k, 'p part_state) btree res" where
  "in_init S now = (\<lambda>(down, snap) primary pts.
     ebind (eguard (down = snap) (AssertFail ''*init_downstream_cap.time() == *init_snap_cap.time()'')) (\<lambda>_.
     efold (\<lambda>ps key. if bt_get ps key \<noteq> None then Inr ps
         else emap (\<lambda>p. bt_insert key p ps) (build_state S now key None down snap))
       pts primary))"

text \<open>Polling one partition: its new state, items and snapshot with their epochs, and its answer.\<close>

definition advance ::
  "('p, 'x, 'k, 'q) source_ops \<Rightarrow> time \<Rightarrow> dur \<Rightarrow> bool \<Rightarrow> 'p part_state \<Rightarrow> ('p part_state \<times> (epoch \<times> 'q) list) res" where
  "advance S now interval ended s =
     (if interval \<le> now - epoch_started s \<or> ended then
        ebind (reraise (so_snapshot S (ps_part s))) (\<lambda>q.
        let next_epoch = downstream_cap s + 1
        in ebind (cap_downgrade (downstream_cap s) next_epoch) (\<lambda>down.
           emap (\<lambda>snap. (s\<lparr>downstream_cap := down, ps_snap_cap := snap, epoch_started := now\<rparr>, [(ps_snap_cap s, q)]))
             (cap_downgrade (ps_snap_cap s) next_epoch)))
      else Inr (s, []))"

record ('x, 'q) polled =
  po_items :: "(epoch \<times> 'x) list"
  po_snaps :: "(epoch \<times> 'q) list"
  po_eof :: bool
  po_abort :: bool

definition part_poll ::
  "('p, 'x, 'k, 'q) source_ops \<Rightarrow> time \<Rightarrow> frontier \<Rightarrow> dur \<Rightarrow> 'p part_state \<Rightarrow> ('p part_state \<times> ('x, 'q) polled) res" where
  "part_poll S now probe interval s =
     ebind (eguard (downstream_cap s = ps_snap_cap s)
       (AssertFail ''*part_state.downstream_cap.time() == *part_state.snap_cap.time()'')) (\<lambda>_.
     let epoch = downstream_cap s
     in if \<not> probe_less_than probe epoch \<and> awake_due (ps_next_awake s) now then
          ebind (reraise (so_next_batch S (ps_part s) (ps_next_awake s))) (\<lambda>(p, batch_res).
          ebind (case batch_res of
              Batch batch \<Rightarrow> emap (\<lambda>next_awake_res.
                  (s\<lparr>ps_part := p, ps_next_awake := default_next_awake next_awake_res (length batch) now\<rparr>,
                   map (Pair epoch) batch, False, False)) (reraise (so_next_awake S p))
            | Eof \<Rightarrow> Inr (s\<lparr>ps_part := p\<rparr>, [], True, False)
            | Abort \<Rightarrow> Inr (s\<lparr>ps_part := p\<rparr>, [], False, True)) (\<lambda>(s', items, ended, aborted).
          emap (\<lambda>(s'', snaps'). (s'', \<lparr>po_items = items, po_snaps = snaps', po_eof = ended, po_abort = aborted\<rparr>))
            (advance S now interval ended s')))
        else Inr (s, \<lparr>po_items = [], po_snaps = [], po_eof = False, po_abort = False\<rparr>))"

record ('k, 'x, 'q, 's) in_result =
  ir_items :: "(epoch \<times> 'x) list"
  ir_snaps :: "(epoch \<times> ('s, 'k, 'q) snapshot) list"
  ir_eofd :: "'k list"
  ir_abort :: bool

text \<open>The loop over the partitions; the results come in the order of the keys.\<close>

definition poll_parts ::
  "('p, 'x, 'k, 'q) source_ops \<Rightarrow> 's \<Rightarrow> time \<Rightarrow> frontier \<Rightarrow> dur \<Rightarrow> ('k, 'p part_state) btree \<Rightarrow>
    (('k, 'p part_state) btree \<times> ('k, 'x, 'q, 's) in_result) res" where
  "poll_parts S step now probe interval pts =
     efold (\<lambda>(ps, r) (key, s).
       emap (\<lambda>(s', po). (ps @ [(key, s')],
           \<lparr>ir_items = ir_items r @ po_items po,
            ir_snaps = ir_snaps r @ map (\<lambda>(e, q). (e, Snapshot step key (Upsert q))) (po_snaps po),
            ir_eofd = ir_eofd r @ (if po_eof po then [key] else []),
            ir_abort = (ir_abort r \<or> po_abort po)\<rparr>))
         (part_poll S now probe interval s))
       ([], \<lparr>ir_items = [], ir_snaps = [], ir_eofd = [], ir_abort = False\<rparr>) pts"

definition in_next_activation :: "time \<Rightarrow> ('k, 'p part_state) btree \<Rightarrow> dur option" where
  "in_next_activation now pts =
     (if pts = [] then None
      else Some (max 0 (min_list (map (\<lambda>(_, s). case ps_next_awake s of None \<Rightarrow> now | Some t \<Rightarrow> t) pts) - now)))"

record ('k, 'q) in_msgs =
  im_primaries :: "(epoch \<times> ('k \<times> worker) list) list"
  im_loads :: "(epoch \<times> (worker \<times> 'k \<times> 'q state_change) list) list"
  im_now :: time
  im_probe :: frontier
  im_frontiers :: "frontier list"

definition in_activate ::
  "('p, 'x, 'k::linorder, 'q) source_ops \<Rightarrow> worker \<Rightarrow> 's \<Rightarrow> epoch \<Rightarrow> dur \<Rightarrow> ('k, 'p) input_state \<Rightarrow> ('k, 'q) in_msgs \<Rightarrow>
    (('k, 'p) input_state \<times> ('k, 'x, 'q, 's) in_result \<times> dur option) res" where
  "in_activate S this step start_at interval s m =
     (let now = im_now m;
          buf = foldl (\<lambda>b (e, xs). inbuf_extend b e xs) (primaries_inbuf s) (im_primaries m)
      in ebind (in_loads S this now start_at (im_loads m) (in_parts s)) (\<lambda>parts1.
         let (buf', primary) = in_primaries this (im_frontiers m ! 1) buf (primary_parts s);
             loaded = is_eof (simplify_one (im_frontiers m ! 0))
         in ebind (case in_init_caps s of
               Some caps \<Rightarrow> if loaded then emap (\<lambda>ps. (None, ps)) (in_init S now caps primary parts1)
                             else Inr (Some caps, parts1)
             | None \<Rightarrow> Inr (None, parts1)) (\<lambda>(caps, parts2).
         emap (\<lambda>(parts3, r).
           let parts4 = foldl (\<lambda>ps key. bt_remove key ps) parts3 (ir_eofd r)
           in (\<lparr>in_init_caps = caps, in_parts = parts4, primary_parts = primary, primaries_inbuf = buf'\<rparr>, r,
               if loaded then in_next_activation now parts4 else None))
           (poll_parts S step now (im_probe m) interval parts2))))"

section \<open>\<^verbatim>\<open>dynamic_input\<close>\<close>

record 'p dyn_state =
  dy_part :: 'p
  dy_cap :: epoch
  dy_started :: time
  dy_next_awake :: "time option"

definition dyn_start ::
  "('p, 'x, 'k, 'q) source_ops \<Rightarrow> time \<Rightarrow> epoch \<Rightarrow> 'p \<Rightarrow> epoch list \<Rightarrow> 'p dyn_state option res" where
  "dyn_start S now start_at p caps =
     ebind (downgrade_all start_at caps) (\<lambda>caps.
     ebind (expect ''init_caps.pop()'' (if caps = [] then None else Some (last caps))) (\<lambda>cap.
     emap (\<lambda>next_awake. Some \<lparr>dy_part = p, dy_cap = cap, dy_started = now, dy_next_awake = next_awake\<rparr>)
       (reraise (so_next_awake S p))))"

text \<open>One activation: the new state, the items, whether to abort, and when to be activated again.\<close>

definition dyn_activate ::
  "('p, 'x, 'k, 'q) source_ops \<Rightarrow> time \<Rightarrow> frontier \<Rightarrow> dur \<Rightarrow> 'p dyn_state option \<Rightarrow>
    ('p dyn_state option \<times> (epoch \<times> 'x) list \<times> bool \<times> dur option) res" where
  "dyn_activate S now probe interval st = (case st of
       None \<Rightarrow> Inr (None, [], False, None)
     | Some s \<Rightarrow>
         ebind (if \<not> probe_less_than probe (dy_cap s) \<and> awake_due (dy_next_awake s) now then
             ebind (reraise (so_next_batch S (dy_part s) (dy_next_awake s))) (\<lambda>(p, r).
             ebind (case r of
                 Batch batch \<Rightarrow> emap (\<lambda>next_awake_res.
                     (s\<lparr>dy_part := p, dy_next_awake := default_next_awake next_awake_res (length batch) now\<rparr>,
                      map (Pair (dy_cap s)) batch, False, False)) (reraise (so_next_awake S p))
               | Eof \<Rightarrow> Inr (s\<lparr>dy_part := p\<rparr>, [], True, False)
               | Abort \<Rightarrow> Inr (s\<lparr>dy_part := p\<rparr>, [], False, True)) (\<lambda>(s', items, ended, aborted).
             if interval \<le> now - dy_started s' then
               emap (\<lambda>cap. (s'\<lparr>dy_started := now, dy_cap := cap\<rparr>, items, ended, aborted))
                 (cap_downgrade (dy_cap s') (dy_cap s' + 1))
             else Inr (s', items, ended, aborted)))
           else Inr (s, [], False, False)) (\<lambda>(s', items, ended, aborted).
         Inr (if ended then (None, items, aborted, None)
              else (Some s', items, aborted,
                Some (case dy_next_awake s' of Some t \<Rightarrow> max 0 (t - now) | None \<Rightarrow> 0)))))"

end
