(* ===== verification/Input_Runs.thy ===== *)
theory Input_Runs
  imports Inputs
begin

text \<open>
  Properties of the input operators (\<^verbatim>\<open>src/src/inputs.rs\<close>): no activation of \<^verbatim>\<open>partitioned_input\<close>
  panics when the source raises nothing but its answers, nothing is emitted ahead of the probe, and
  what a partition emits together with its snapshots loses and repeats no item: resumed from the
  snapshot of an epoch, it goes on exactly after the items of that epoch. The contract of a source
  (locale \<open>source\<close>) is interpreted on \<^verbatim>\<open>_IterSourcePartition\<close> of \<^verbatim>\<open>src/pysrc/bytewax/testing.py\<close>.
\<close>

section \<open>The contract of a source\<close>

fun batch_items :: "'x batch_result \<Rightarrow> 'x list" where
  "batch_items (Batch xs) = xs"
| "batch_items Eof = []"
| "batch_items Abort = []"

text \<open>
  \<open>remaining\<close> is what the partition has still to give, in this and later executions; a partition
  built from a snapshot has the same.
\<close>

locale source =
  fixes S :: "('p, 'x, 'k::linorder, 'q) source_ops" and sinv :: "'p \<Rightarrow> bool" and remaining :: "'p \<Rightarrow> 'x list"
  assumes build_fresh: "\<exists>p. so_build S now k None = Inr p \<and> sinv p"
    and next_batch: "sinv p \<Longrightarrow> \<exists>p' r. so_next_batch S p sched = Inr (p', r) \<and> sinv p' \<and>
      remaining p = batch_items r @ remaining p'"
    and next_awake: "sinv p \<Longrightarrow> \<exists>t. so_next_awake S p = Inr t"
    and snapshot: "sinv p \<Longrightarrow> \<exists>q. so_snapshot S p = Inr q \<and>
      (\<forall>now k. \<exists>p'. so_build S now k (Some q) = Inr p' \<and> sinv p' \<and> remaining p' = remaining p)"

text \<open>A state of a partition between polls, and a snapshot that can be loaded.\<close>

definition part_ok :: "('p \<Rightarrow> bool) \<Rightarrow> epoch \<Rightarrow> 'p part_state \<Rightarrow> bool" where
  "part_ok sinv start_at s \<longleftrightarrow> sinv (ps_part s) \<and> downstream_cap s = ps_snap_cap s \<and> start_at \<le> downstream_cap s"

definition snap_ok :: "('p, 'x, 'k, 'q) source_ops \<Rightarrow> ('p \<Rightarrow> bool) \<Rightarrow> 'q \<Rightarrow> bool" where
  "snap_ok S sinv q \<longleftrightarrow> (\<forall>now k. \<exists>p. so_build S now k (Some q) = Inr p \<and> sinv p)"

definition in_load_ok ::
  "('p, 'x, 'k, 'q) source_ops \<Rightarrow> ('p \<Rightarrow> bool) \<Rightarrow> worker \<Rightarrow> worker \<times> 'k \<times> 'q state_change \<Rightarrow> bool" where
  "in_load_ok S sinv this = (\<lambda>(w, k, ch). w = this \<and> (\<forall>q. ch = Upsert q \<longrightarrow> snap_ok S sinv q))"

text \<open>The polls of one partition, as long as it is not at its end.\<close>

fun poll_run ::
  "('p, 'x, 'k, 'q) source_ops \<Rightarrow> dur \<Rightarrow> 'p part_state \<Rightarrow> (time \<times> frontier) list \<Rightarrow>
    ('p part_state \<times> (epoch \<times> 'x) list \<times> (epoch \<times> 'q) list) res" where
  "poll_run S interval s [] = Inr (s, [], [])"
| "poll_run S interval s ((now, probe) # polls) =
     ebind (part_poll S now probe interval s) (\<lambda>(s', po).
       if po_eof po then Inr (s', po_items po, po_snaps po)
       else emap (\<lambda>(s'', items, sns). (s'', po_items po @ items, po_snaps po @ sns)) (poll_run S interval s' polls))"

context source
begin

lemma advance_ok:
  assumes "part_ok sinv start s"
  shows "\<exists>s' sns. advance S now interval ended s = Inr (s', sns) \<and> part_ok sinv start s' \<and> ps_part s' = ps_part s \<and>
    (sns = [] \<and> downstream_cap s' = downstream_cap s \<or>
     (\<exists>q. sns = [(downstream_cap s, q)] \<and> downstream_cap s' = downstream_cap s + 1 \<and>
       (\<forall>now k. \<exists>p. so_build S now k (Some q) = Inr p \<and> sinv p \<and> remaining p = remaining (ps_part s))))"
proof (cases "interval \<le> now - epoch_started s \<or> ended")
  case False
  with assms show ?thesis by (simp add: advance_def)
next
  case True
  from assms have "sinv (ps_part s)" by (simp add: part_ok_def)
  from snapshot [OF this] obtain q where q: "so_snapshot S (ps_part s) = Inr q"
    "\<forall>now k. \<exists>p'. so_build S now k (Some q) = Inr p' \<and> sinv p' \<and> remaining p' = remaining (ps_part s)" by blast
  let ?s = "s\<lparr>downstream_cap := downstream_cap s + 1, ps_snap_cap := downstream_cap s + 1, epoch_started := now\<rparr>"
  have "advance S now interval ended s = Inr (?s, [(downstream_cap s, q)])"
    using True q(1) assms by (simp add: advance_def cap_downgrade_def part_ok_def Let_def)
  moreover have "part_ok sinv start ?s" using assms by (simp add: part_ok_def)
  ultimately show ?thesis using q(2) by (intro exI [of _ ?s] exI [of _ "[(downstream_cap s, q)]"]) simp
qed

lemma part_poll_ok:
  assumes "part_ok sinv start s"
  shows "\<exists>s' po. part_poll S now probe interval s = Inr (s', po) \<and> part_ok sinv start s' \<and>
    (\<forall>x \<in> set (po_items po). fst x = downstream_cap s \<and> \<not> probe_less_than probe (fst x)) \<and>
    remaining (ps_part s) = map snd (po_items po) @ remaining (ps_part s') \<and>
    (po_snaps po = [] \<and> downstream_cap s' = downstream_cap s \<or>
     (\<exists>q. po_snaps po = [(downstream_cap s, q)] \<and> \<not> probe_less_than probe (downstream_cap s) \<and>
       downstream_cap s' = downstream_cap s + 1 \<and>
       (\<forall>now k. \<exists>p. so_build S now k (Some q) = Inr p \<and> sinv p \<and> remaining p = remaining (ps_part s'))))"
proof (cases "\<not> probe_less_than probe (downstream_cap s) \<and> awake_due (ps_next_awake s) now")
  case False
  with assms show ?thesis by (auto simp: part_poll_def part_ok_def)
next
  case True
  have caps: "downstream_cap s = ps_snap_cap s" and si: "sinv (ps_part s)" using assms by (simp_all add: part_ok_def)
  from next_batch [OF si, of "ps_next_awake s"] obtain p r where
    r: "so_next_batch S (ps_part s) (ps_next_awake s) = Inr (p, r)" "sinv p" "remaining (ps_part s) = batch_items r @ remaining p"
    by blast
  from next_awake [OF r(2)] obtain t where t: "so_next_awake S p = Inr t" by blast
  define res where "res = (case r of
      Batch batch \<Rightarrow> (s\<lparr>ps_part := p, ps_next_awake := default_next_awake t (length batch) now\<rparr>,
        map (Pair (downstream_cap s)) batch, False, False)
    | Eof \<Rightarrow> (s\<lparr>ps_part := p\<rparr>, [], True, False)
    | Abort \<Rightarrow> (s\<lparr>ps_part := p\<rparr>, [], False, True))"
  obtain s1 items ended aborted where res1: "res = (s1, items, ended, aborted)" by (metis prod.exhaust)
  have s1: "part_ok sinv start s1" "ps_part s1 = p" "downstream_cap s1 = downstream_cap s"
    "items = map (Pair (downstream_cap s)) (batch_items r)"
    using res1 assms r(2) by (auto simp: res_def part_ok_def split: batch_result.splits)
  from advance_ok [OF s1(1), of now interval ended] obtain s' sns where
    a: "advance S now interval ended s1 = Inr (s', sns)" "part_ok sinv start s'" "ps_part s' = ps_part s1"
    "sns = [] \<and> downstream_cap s' = downstream_cap s1 \<or>
     (\<exists>q. sns = [(downstream_cap s1, q)] \<and> downstream_cap s' = downstream_cap s1 + 1 \<and>
       (\<forall>now k. \<exists>p. so_build S now k (Some q) = Inr p \<and> sinv p \<and> remaining p = remaining (ps_part s1)))" by blast
  let ?po = "\<lparr>po_items = items, po_snaps = sns, po_eof = ended, po_abort = aborted\<rparr>"
  have "part_poll S now probe interval s = Inr (s', ?po)"
    using True r(1) t a(1) res1 caps
    by (auto simp: part_poll_def res_def Let_def split: batch_result.splits)
  moreover have "map snd items = batch_items r" by (simp add: s1(4) comp_def)
  ultimately show ?thesis using a(2,3,4) s1(2,3) r(3) True
    by (intro exI [of _ s'] exI [of _ ?po]) (auto simp: s1(4))
qed

lemma poll_run_ok:
  assumes "part_ok sinv start s"
  shows "\<exists>s' items sns. poll_run S interval s polls = Inr (s', items, sns) \<and> part_ok sinv start s' \<and>
    (\<forall>x \<in> set items. downstream_cap s \<le> fst x) \<and> sorted (map fst items) \<and>
    remaining (ps_part s) = map snd items @ remaining (ps_part s') \<and>
    (\<forall>(e, q) \<in> set sns. downstream_cap s \<le> e \<and>
      (\<forall>now k. \<exists>p. so_build S now k (Some q) = Inr p \<and>
        remaining (ps_part s) = map snd (filter (\<lambda>x. fst x \<le> e) items) @ remaining p))"
  using assms
proof (induction polls arbitrary: s)
  case Nil
  then show ?case by simp
next
  case (Cons a polls)
  obtain now probe where a: "a = (now, probe)" by fastforce
  from part_poll_ok [OF Cons.prems, of now probe interval] obtain s1 po where
    1: "part_poll S now probe interval s = Inr (s1, po)" "part_ok sinv start s1"
    "\<forall>x \<in> set (po_items po). fst x = downstream_cap s \<and> \<not> probe_less_than probe (fst x)"
    "remaining (ps_part s) = map snd (po_items po) @ remaining (ps_part s1)"
    "po_snaps po = [] \<and> downstream_cap s1 = downstream_cap s \<or>
     (\<exists>q. po_snaps po = [(downstream_cap s, q)] \<and> \<not> probe_less_than probe (downstream_cap s) \<and>
       downstream_cap s1 = downstream_cap s + 1 \<and>
       (\<forall>now k. \<exists>p. so_build S now k (Some q) = Inr p \<and> sinv p \<and> remaining p = remaining (ps_part s1)))" by blast
  have srt1: "sorted (map fst (po_items po))" using 1(3) by (auto simp: sorted_iff_nth_mono)
  show ?case
  proof (cases "po_eof po")
    case True
    have f: "filter (\<lambda>x. fst x \<le> downstream_cap s) (po_items po) = po_items po" using 1(3) by (simp add: filter_id_conv)
    from True have "poll_run S interval s (a # polls) = Inr (s1, po_items po, po_snaps po)" by (simp add: a 1(1))
    moreover have "\<forall>(e, q) \<in> set (po_snaps po). downstream_cap s \<le> e \<and>
      (\<forall>now k. \<exists>p. so_build S now k (Some q) = Inr p \<and>
        remaining (ps_part s) = map snd (filter (\<lambda>x. fst x \<le> e) (po_items po)) @ remaining p)"
      using 1(5)
    proof
      assume "\<exists>q. po_snaps po = [(downstream_cap s, q)] \<and> \<not> probe_less_than probe (downstream_cap s) \<and>
        downstream_cap s1 = downstream_cap s + 1 \<and>
        (\<forall>now k. \<exists>p. so_build S now k (Some q) = Inr p \<and> sinv p \<and> remaining p = remaining (ps_part s1))"
      then obtain q where q: "po_snaps po = [(downstream_cap s, q)]"
        "\<forall>now k. \<exists>p. so_build S now k (Some q) = Inr p \<and> sinv p \<and> remaining p = remaining (ps_part s1)" by blast
      have "\<forall>now k. \<exists>p. so_build S now k (Some q) = Inr p \<and>
        remaining (ps_part s) = map snd (po_items po) @ remaining p"
        using q(2) unfolding 1(4) by fastforce
      then show ?thesis by (simp add: q(1) f)
    qed simp
    ultimately show ?thesis using 1(2-4) srt1 by (intro exI [of _ s1] exI [of _ "po_items po"] exI [of _ "po_snaps po"]) simp
  next
    case False
    from Cons.IH [OF 1(2)] obtain s' items sns where
      2: "poll_run S interval s1 polls = Inr (s', items, sns)" "part_ok sinv start s'"
      "\<forall>x \<in> set items. downstream_cap s1 \<le> fst x" "sorted (map fst items)"
      "remaining (ps_part s1) = map snd items @ remaining (ps_part s')"
      "\<forall>(e, q) \<in> set sns. downstream_cap s1 \<le> e \<and>
      (\<forall>now k. \<exists>p. so_build S now k (Some q) = Inr p \<and>
        remaining (ps_part s1) = map snd (filter (\<lambda>x. fst x \<le> e) items) @ remaining p)"
      by (elim exE conjE) (rule that)
    have le: "downstream_cap s \<le> downstream_cap s1" using 1(5) by auto
    have f1: "filter (\<lambda>x. fst x \<le> e) (po_items po) = po_items po" if "downstream_cap s \<le> e" for e
      using 1(3) that by (simp add: filter_id_conv)
    have f2: "filter (\<lambda>x. fst x \<le> downstream_cap s) items = []" if "downstream_cap s1 = downstream_cap s + 1"
      using 2(3) that by (fastforce simp: filter_empty_conv)
    have old: "\<forall>(e, q) \<in> set (po_snaps po). downstream_cap s \<le> e \<and>
      (\<forall>now k. \<exists>p. so_build S now k (Some q) = Inr p \<and>
        remaining (ps_part s) = map snd (filter (\<lambda>x. fst x \<le> e) (po_items po @ items)) @ remaining p)"
      using 1(5)
    proof
      assume "\<exists>q. po_snaps po = [(downstream_cap s, q)] \<and> \<not> probe_less_than probe (downstream_cap s) \<and>
        downstream_cap s1 = downstream_cap s + 1 \<and>
        (\<forall>now k. \<exists>p. so_build S now k (Some q) = Inr p \<and> sinv p \<and> remaining p = remaining (ps_part s1))"
      then obtain q where q: "po_snaps po = [(downstream_cap s, q)]" "downstream_cap s1 = downstream_cap s + 1"
        "\<forall>now k. \<exists>p. so_build S now k (Some q) = Inr p \<and> sinv p \<and> remaining p = remaining (ps_part s1)" by blast
      have "\<forall>now k. \<exists>p. so_build S now k (Some q) = Inr p \<and>
        remaining (ps_part s) = map snd (po_items po) @ remaining p"
        using q(3) unfolding 1(4) by fastforce
      then show ?thesis by (simp add: q(1) f1 f2 [OF q(2)])
    qed simp
    have new: "\<forall>(e, q) \<in> set sns. downstream_cap s \<le> e \<and>
      (\<forall>now k. \<exists>p. so_build S now k (Some q) = Inr p \<and>
        remaining (ps_part s) = map snd (filter (\<lambda>x. fst x \<le> e) (po_items po @ items)) @ remaining p)"
    proof clarify
      fix e q assume "(e, q) \<in> set sns"
      with 2(6) have e: "downstream_cap s1 \<le> e" and
        r: "\<forall>now k. \<exists>p. so_build S now k (Some q) = Inr p \<and>
          remaining (ps_part s1) = map snd (filter (\<lambda>x. fst x \<le> e) items) @ remaining p" by auto
      from e le have "downstream_cap s \<le> e" by simp
      with r 1(4) f1 show "downstream_cap s \<le> e \<and> (\<forall>now k. \<exists>p. so_build S now k (Some q) = Inr p \<and>
        remaining (ps_part s) = map snd (filter (\<lambda>x. fst x \<le> e) (po_items po @ items)) @ remaining p)" by simp
    qed
    have "poll_run S interval s (a # polls) = Inr (s', po_items po @ items, po_snaps po @ sns)"
      using False by (simp add: a 1(1) 2(1))
    moreover have "sorted (map fst (po_items po @ items))"
      using srt1 2(3,4) 1(3) le by (auto simp: sorted_append)
    moreover have "\<forall>x \<in> set (po_items po @ items). downstream_cap s \<le> fst x" using 1(3) 2(3) le by auto
    moreover have "remaining (ps_part s) = map snd (po_items po @ items) @ remaining (ps_part s')" using 1(4) 2(5) by simp
    moreover have "\<forall>(e, q) \<in> set (po_snaps po @ sns). downstream_cap s \<le> e \<and>
      (\<forall>now k. \<exists>p. so_build S now k (Some q) = Inr p \<and>
        remaining (ps_part s) = map snd (filter (\<lambda>x. fst x \<le> e) (po_items po @ items)) @ remaining p)"
      unfolding set_append ball_Un using old new by blast
    ultimately show ?thesis using 2(2)
      by (intro exI [of _ s'] exI [of _ "po_items po @ items"] exI [of _ "po_snaps po @ sns"]) blast
  qed
qed

text \<open>All partitions good, and the emitted allowed by the probe.\<close>

definition parts_ok :: "epoch \<Rightarrow> ('k::linorder, 'p part_state) btree \<Rightarrow> bool" where
  "parts_ok start_at ps \<longleftrightarrow> bt_wf ps \<and> (\<forall>x \<in> set ps. part_ok sinv start_at (snd x))"

definition released :: "frontier \<Rightarrow> epoch \<Rightarrow> (epoch \<times> 'a) list \<Rightarrow> bool" where
  "released probe start_at xs \<longleftrightarrow> (\<forall>x \<in> set xs. start_at \<le> fst x \<and> \<not> probe_less_than probe (fst x))"

lemma parts_ok_insert: "parts_ok st ps \<Longrightarrow> part_ok sinv st p \<Longrightarrow> parts_ok st (bt_insert k p ps)"
  unfolding parts_ok_def by (auto simp: bt_get_eq_Some_iff [symmetric] split: if_splits)

lemma parts_ok_remove: "parts_ok st ps \<Longrightarrow> parts_ok st (bt_remove k ps)"
  by (simp add: parts_ok_def bt_remove_def)

lemma build_state_ok:
  assumes "st = None \<or> (\<exists>q. st = Some q \<and> snap_ok S sinv q)" and "start \<le> e"
  shows "\<exists>s. build_state S now key st e e = Inr s \<and> part_ok sinv start s"
proof -
  obtain p where p: "so_build S now key st = Inr p" "sinv p"
    using assms(1) build_fresh [of now key] by (auto simp: snap_ok_def)
  from next_awake [OF p(2)] obtain t where "so_next_awake S p = Inr t" by blast
  with p assms(2) show ?thesis by (simp add: build_state_def part_ok_def)
qed

lemma in_load_ok:
  assumes "parts_ok start ps" and "in_load_ok S sinv this x"
  shows "\<exists>ps'. in_load S this now start e ps x = Inr ps' \<and> parts_ok start ps'"
proof -
  obtain k ch where x: "x = (this, k, ch)" "\<forall>q. ch = Upsert q \<longrightarrow> snap_ok S sinv q"
    using assms(2) by (auto simp: in_load_ok_def)
  show ?thesis
  proof (cases ch)
    case Discard
    with assms(1) show ?thesis by (simp add: in_load_def x(1))
  next
    case (Upsert q)
    with x(2) have "Some q = None \<or> (\<exists>q'. Some q = Some q' \<and> snap_ok S sinv q')" by simp
    from build_state_ok [OF this, of start "max e start" now k] obtain s where
      "build_state S now k (Some q) (max e start) (max e start) = Inr s" "part_ok sinv start s" by auto
    then show ?thesis using parts_ok_insert [OF assms(1)]
      by (simp add: in_load_def x(1) Upsert cap_downgrade_def)
  qed
qed

lemma in_loads_ok:
  assumes "parts_ok start ps" and "\<forall>(e, xs) \<in> set msgs. \<forall>x \<in> set xs. in_load_ok S sinv this x"
  shows "\<exists>ps'. in_loads S this now start msgs ps = Inr ps' \<and> parts_ok start ps'"
  unfolding in_loads_def
proof (rule efold_total [where P = "parts_ok start", OF assms(1)])
  fix ps m assume ps: "parts_ok start ps" and m: "m \<in> set msgs"
  obtain e xs where exs: "m = (e, xs)" by fastforce
  have "\<exists>ps'. efold (in_load S this now start e) ps xs = Inr ps' \<and> parts_ok start ps'"
    by (rule efold_total [where P = "parts_ok start", OF ps]) (use in_load_ok assms(2) m exs in auto)
  then show "\<exists>ps'. (case m of (e, xs) \<Rightarrow> efold (in_load S this now start e) ps xs) = Inr ps' \<and> parts_ok start ps'"
    by (simp add: exs)
qed

lemma in_init_ok:
  assumes "parts_ok start ps"
  shows "\<exists>ps'. in_init S now (start, start) primary ps = Inr ps' \<and> parts_ok start ps' \<and>
    fst ` set ps' = fst ` set ps \<union> set primary"
proof -
  have "\<exists>ps'. efold (\<lambda>ps key. if bt_get ps key \<noteq> None then Inr ps
      else emap (\<lambda>p. bt_insert key p ps) (build_state S now key None start start)) ps primary = Inr ps' \<and>
    parts_ok start ps' \<and> fst ` set ps' = fst ` set ps \<union> set primary"
    using assms
  proof (induction primary arbitrary: ps)
    case Nil
    then show ?case by simp
  next
    case (Cons k primary)
    show ?case
    proof (cases "bt_get ps k")
      case (Some p)
      then have "k \<in> fst ` set ps" unfolding bt_dom by blast
      with Cons.IH [OF Cons.prems] Some show ?thesis by (simp add: insert_absorb)
    next
      case None
      from build_state_ok [of None start start now k] obtain p where
        p: "build_state S now k None start start = Inr p" "part_ok sinv start p" by auto
      from Cons.IH [OF parts_ok_insert [OF Cons.prems p(2)], of k] None p(1) show ?thesis by simp
    qed
  qed
  then show ?thesis by (simp add: in_init_def)
qed

lemma poll_parts_ok:
  assumes "parts_ok start ps"
  shows "\<exists>ps' r. poll_parts S step now probe interval ps = Inr (ps', r) \<and> parts_ok start ps' \<and>
    map fst ps' = map fst ps \<and> released probe start (ir_items r) \<and> released probe start (ir_snaps r)"
proof -
  let ?f = "\<lambda>(ps, r) (key, s).
       emap (\<lambda>(s', po). (ps @ [(key, s')],
           \<lparr>ir_items = ir_items r @ po_items po,
            ir_snaps = ir_snaps r @ map (\<lambda>(e, q). (e, Snapshot step key (Upsert q))) (po_snaps po),
            ir_eofd = ir_eofd r @ (if po_eof po then [key] else []),
            ir_abort = (ir_abort r \<or> po_abort po)\<rparr>))
         (part_poll S now probe interval s)"
  have "\<exists>ps' r'. efold ?f (acc, r) ps = Inr (acc @ ps', r') \<and> (\<forall>x \<in> set ps'. part_ok sinv start (snd x)) \<and>
      map fst ps' = map fst ps \<and> released probe start (ir_items r') \<and> released probe start (ir_snaps r')"
    if "\<forall>x \<in> set ps. part_ok sinv start (snd x)" "released probe start (ir_items r)" "released probe start (ir_snaps r)"
    for acc r
    using that
  proof (induction ps arbitrary: acc r)
    case Nil
    then show ?case by simp
  next
    case (Cons a ps)
    obtain key s where a: "a = (key, s)" by fastforce
    from Cons.prems(1) have "part_ok sinv start s" by (simp add: a)
    from part_poll_ok [OF this, of now probe interval] obtain s' po where
      p: "part_poll S now probe interval s = Inr (s', po)" "part_ok sinv start s'"
      "\<forall>x \<in> set (po_items po). fst x = downstream_cap s \<and> \<not> probe_less_than probe (fst x)"
      "po_snaps po = [] \<or> (\<exists>q. po_snaps po = [(downstream_cap s, q)] \<and> \<not> probe_less_than probe (downstream_cap s))"
      by blast
    have "start \<le> downstream_cap s" using \<open>part_ok sinv start s\<close> by (simp add: part_ok_def)
    then have rel: "released probe start (po_items po)"
      "released probe start (map (\<lambda>(e, q). (e, Snapshot step key (Upsert q))) (po_snaps po))"
      using p(3,4) by (auto simp: released_def)
    let ?r = "\<lparr>ir_items = ir_items r @ po_items po,
            ir_snaps = ir_snaps r @ map (\<lambda>(e, q). (e, Snapshot step key (Upsert q))) (po_snaps po),
            ir_eofd = ir_eofd r @ (if po_eof po then [key] else []), ir_abort = (ir_abort r \<or> po_abort po)\<rparr>"
    have "released probe start (ir_items ?r)" "released probe start (ir_snaps ?r)"
      using rel Cons.prems(2,3) unfolding released_def by (simp_all only: in_result.select_convs set_append ball_Un simp_thms)
    from Cons.IH [OF _ this, of "acc @ [(key, s')]"] Cons.prems(1) obtain ps' r' where
      "efold ?f (acc @ [(key, s')], ?r) ps = Inr ((acc @ [(key, s')]) @ ps', r')"
      "\<forall>x \<in> set ps'. part_ok sinv start (snd x)" "map fst ps' = map fst ps"
      "released probe start (ir_items r')" "released probe start (ir_snaps r')" by auto
    then show ?case using p(1,2) by (intro exI [of _ "(key, s') # ps'"] exI [of _ r']) (simp add: a)
  qed
  from this [of "\<lparr>ir_items = [], ir_snaps = [], ir_eofd = [], ir_abort = False\<rparr>" "[]"] assms
  show ?thesis by (auto simp: poll_parts_def parts_ok_def released_def bt_wf_def)
qed

text \<open>The state of the operator between activations.\<close>

definition in_inv :: "epoch \<Rightarrow> ('k::linorder, 'p) input_state \<Rightarrow> bool" where
  "in_inv start_at s \<longleftrightarrow> (in_init_caps s = None \<or> in_init_caps s = Some (start_at, start_at)) \<and>
     parts_ok start_at (in_parts s)"

lemma in_inv_start: "\<exists>s. in_start start [0, 0] = Inr s \<and> in_inv start s \<and> in_init_caps s \<noteq> None"
  by (simp add: in_start_def downgrade_all_def cap_downgrade_def in_inv_def parts_ok_def)

lemma in_activate_ok:
  assumes "in_inv start s" and "\<forall>(e, xs) \<in> set (im_loads m). \<forall>x \<in> set xs. in_load_ok S sinv this x"
  shows "\<exists>s' r nx. in_activate S this step start interval s m = Inr (s', r, nx) \<and> in_inv start s' \<and>
    released (im_probe m) start (ir_items r) \<and> released (im_probe m) start (ir_snaps r) \<and>
    (simplify_one (im_frontiers m ! 0) = None \<longrightarrow> in_init_caps s' = None \<and>
      (in_init_caps s \<noteq> None \<longrightarrow> set (primary_parts s') \<subseteq> fst ` set (in_parts s') \<union> set (ir_eofd r)))"
proof -
  define now where "now = im_now m"
  define loaded where "loaded = is_eof (simplify_one (im_frontiers m ! 0))"
  from assms(1) have ps: "parts_ok start (in_parts s)" by (simp add: in_inv_def)
  from in_loads_ok [OF ps assms(2), of now] obtain ps1 where
    1: "in_loads S this now start (im_loads m) (in_parts s) = Inr ps1" "parts_ok start ps1" by blast
  obtain buf' primary where pr: "in_primaries this (im_frontiers m ! 1)
      (foldl (\<lambda>b (e, xs). inbuf_extend b e xs) (primaries_inbuf s) (im_primaries m)) (primary_parts s) = (buf', primary)"
    by fastforce
  define init where "init = (case in_init_caps s of
      Some caps \<Rightarrow> if loaded then emap (\<lambda>ps. (None, ps)) (in_init S now caps primary ps1) else Inr (Some caps, ps1)
    | None \<Rightarrow> Inr (None, ps1))"
  obtain caps ps2 where 2: "init = Inr (caps, ps2)" "parts_ok start ps2" "caps = None \<or> caps = Some (start, start)"
    "loaded \<longrightarrow> caps = None" "loaded \<and> in_init_caps s \<noteq> None \<longrightarrow> set primary \<subseteq> fst ` set ps2"
  proof (cases "in_init_caps s = None \<or> \<not> loaded")
    case True
    with assms(1) 1(2) show ?thesis
      by (intro that [of "in_init_caps s" ps1]) (auto simp: init_def in_inv_def)
  next
    case False
    from in_init_ok [OF 1(2), of now primary] obtain ps' where
      i: "in_init S now (start, start) primary ps1 = Inr ps'" "parts_ok start ps'" "set primary \<subseteq> fst ` set ps'" by blast
    with False assms(1) show ?thesis by (intro that [of None ps']) (auto simp: init_def in_inv_def)
  qed
  from poll_parts_ok [OF 2(2), of step now "im_probe m" interval] obtain ps3 r where
    3: "poll_parts S step now (im_probe m) interval ps2 = Inr (ps3, r)" "parts_ok start ps3" "map fst ps3 = map fst ps2"
      "released (im_probe m) start (ir_items r)" "released (im_probe m) start (ir_snaps r)" by blast
  define ps4 where "ps4 = foldl (\<lambda>ps key. bt_remove key ps) ps3 (ir_eofd r)"
  have rem: "parts_ok start (foldl (\<lambda>ps key. bt_remove key ps) ps ks) \<and>
      fst ` set (foldl (\<lambda>ps key. bt_remove key ps) ps ks) = fst ` set ps - set ks" if "parts_ok start ps" for ps ks
    using that by (induction ks arbitrary: ps) (auto simp: parts_ok_remove)
  note 4 = rem [OF 3(2), of "ir_eofd r", folded ps4_def]
  have "set (map fst ps3) = set (map fst ps2)" by (simp only: 3(3))
  then have keys: "fst ` set ps3 = fst ` set ps2" by simp
  let ?s' = "\<lparr>in_init_caps = caps, in_parts = ps4, primary_parts = primary, primaries_inbuf = buf'\<rparr>"
  have "in_activate S this step start interval s m =
      Inr (?s', r, if loaded then in_next_activation now ps4 else None)"
    by (simp only: in_activate_def Let_def now_def [symmetric] 1(1) ebind_Inr loaded_def [symmetric] pr prod.case
        init_def [symmetric] 2(1) 3(1) emap_Inr ps4_def)
  moreover have "in_inv start ?s'" using 2(3) 4 by (simp add: in_inv_def)
  moreover have "simplify_one (im_frontiers m ! 0) = None \<longrightarrow> in_init_caps ?s' = None \<and>
      (in_init_caps s \<noteq> None \<longrightarrow> set (primary_parts ?s') \<subseteq> fst ` set (in_parts ?s') \<union> set (ir_eofd r))"
    using 2(4,5) 4 keys by (auto simp: loaded_def is_eof_def)
  ultimately show ?thesis using 3(4,5) by (intro exI conjI) assumption+
qed

end

text \<open>Activations of the operator, with what each emitted and the probe it saw.\<close>

fun in_run where
  "in_run S this step start_at interval s [] = Inr (s, [])"
| "in_run S this step start_at interval s (m # acts) =
     ebind (in_activate S this step start_at interval s m) (\<lambda>(s', r, _).
     emap (\<lambda>(s'', rs). (s'', (im_probe m, r) # rs)) (in_run S this step start_at interval s' acts))"

context source
begin

lemma in_run_ok:
  assumes "in_inv start s" and "\<forall>m \<in> set acts. \<forall>(e, xs) \<in> set (im_loads m). \<forall>x \<in> set xs. in_load_ok S sinv this x"
  shows "\<exists>s' rs. in_run S this step start interval s acts = Inr (s', rs) \<and> in_inv start s' \<and>
    (\<forall>(probe, r) \<in> set rs. released probe start (ir_items r) \<and> released probe start (ir_snaps r))"
  using assms
proof (induction acts arbitrary: s)
  case Nil
  then show ?case by simp
next
  case (Cons m acts)
  have m: "\<forall>(e, xs) \<in> set (im_loads m). \<forall>x \<in> set xs. in_load_ok S sinv this x"
    and acts: "\<forall>m \<in> set acts. \<forall>(e, xs) \<in> set (im_loads m). \<forall>x \<in> set xs. in_load_ok S sinv this x"
    using Cons.prems(2) by simp_all
  obtain s1 r nx where 1: "in_activate S this step start interval s m = Inr (s1, r, nx)" "in_inv start s1"
    "released (im_probe m) start (ir_items r)" "released (im_probe m) start (ir_snaps r)"
    using in_activate_ok [OF Cons.prems(1) m, of step interval] by (elim exE conjE)
  obtain s' rs where "in_run S this step start interval s1 acts = Inr (s', rs)" "in_inv start s'"
    "\<forall>(probe, r) \<in> set rs. released probe start (ir_items r) \<and> released probe start (ir_snaps r)"
    using Cons.IH [OF 1(2) acts] by (elim exE conjE)
  with 1 show ?case by (intro exI [of _ s'] exI [of _ "(im_probe m, r) # rs"]) simp
qed

end

section \<open>A source of the program\<close>

text \<open>
  \<^verbatim>\<open>_IterSourcePartition\<close> behind \<^verbatim>\<open>TestingSource\<close>, over an iterable of items and \<^verbatim>\<open>EOF\<close> marks (\<^verbatim>\<open>ABORT\<close>
  marks, which are shared between executions, are not modelled): what is left of the iterable, the
  index to resume from, whether the end is to be raised.
\<close>

datatype 'x ts_item = TsItem 'x | TsEof

record 'x iter_part =
  it_rest :: "'x ts_item list"
  start_idx :: nat
  it_raise :: bool

fun ts_read :: "nat \<Rightarrow> 'x list \<Rightarrow> 'x ts_item list \<Rightarrow> 'x list \<times> 'x ts_item list \<times> bool" where
  "ts_read n batch [] = (batch, [], False)"
| "ts_read n batch (TsEof # it) = (batch, it, True)"
| "ts_read n batch (TsItem x # it) =
     (let batch' = batch @ [x] in if n \<le> length batch' then (batch', it, False) else ts_read n batch' it)"

definition ts_call :: "nat \<Rightarrow> 'x iter_part \<Rightarrow> time option \<Rightarrow> 'x iter_part \<times> 'x list res" where
  "ts_call n p sched =
     (if it_raise p then (p, Inl (PyErr ''StopIteration''))
      else let (batch, rest, r) = ts_read n [] (it_rest p);
               idx = (if r then start_idx p + 1 else start_idx p)
           in if batch \<noteq> [] \<or> r
              then (\<lparr>it_rest = rest, start_idx = idx + length batch, it_raise = r\<rparr>, Inr batch)
              else (\<lparr>it_rest = rest, start_idx = idx, it_raise = r\<rparr>, Inl (PyErr ''StopIteration'')))"

definition testing_source :: "'x ts_item list \<Rightarrow> nat \<Rightarrow> ('x iter_part, 'x, 'k, nat) source_ops" where
  "testing_source ib n =
     \<lparr>so_build = (\<lambda>now key st. let i = (case st of None \<Rightarrow> 0 | Some i \<Rightarrow> i)
        in Inr \<lparr>it_rest = drop i ib, start_idx = i, it_raise = False\<rparr>),
      so_next_batch = part_next_batch (\<lambda>b. Inr (map Inr b)) (ts_call n),
      so_next_awake = (\<lambda>p. Inr None),
      so_snapshot = (\<lambda>p. Inr (start_idx p))\<rparr>"

definition ts_items :: "'x ts_item list \<Rightarrow> 'x list" where
  "ts_items it = concat (map (\<lambda>x. case x of TsItem x \<Rightarrow> [x] | TsEof \<Rightarrow> []) it)"

lemma ts_read_props:
  assumes "ts_read n batch it = (batch', rest, r)"
  shows "\<exists>k xs. batch' = batch @ xs \<and> rest = drop k it \<and> k = length xs + (if r then 1 else 0) \<and>
    ts_items it = xs @ ts_items rest"
  using assms
proof (induction n batch it rule: ts_read.induct)
  case (1 n batch)
  then show ?case by (simp add: ts_items_def)
next
  case (2 n batch it)
  then show ?case by (intro exI [of _ 1] exI [of _ "[]"]) (auto simp: ts_items_def)
next
  case (3 n batch x it)
  show ?case
  proof (cases "n \<le> length (batch @ [x])")
    case True
    with 3(2) show ?thesis by (intro exI [of _ 1] exI [of _ "[x]"]) (auto simp: ts_items_def)
  next
    case False
    with 3(2) have "ts_read n (batch @ [x]) it = (batch', rest, r)" by simp
    from 3(1) [OF refl False this] obtain k xs where "batch' = (batch @ [x]) @ xs" "rest = drop k it"
      "k = length xs + (if r then 1 else 0)" "ts_items it = xs @ ts_items rest" by blast
    then show ?thesis by (intro exI [of _ "Suc k"] exI [of _ "x # xs"]) (auto simp: ts_items_def)
  qed
qed

lemma emapM_id_Inr [simp]: "emapM id (map Inr xs) = Inr xs"
  by (induction xs) simp_all

lemma ts_call_ok:
  assumes "it_rest p = drop (start_idx p) ib"
  shows "\<exists>p' r. part_next_batch (\<lambda>b. Inr (map Inr b)) (ts_call n) p sched = Inr (p', r) \<and>
    it_rest p' = drop (start_idx p') ib \<and> ts_items (it_rest p) = batch_items r @ ts_items (it_rest p')"
proof -
  obtain batch rest r where r: "ts_read n [] (it_rest p) = (batch, rest, r)" by (metis prod.exhaust)
  from ts_read_props [OF r] have rest: "rest = drop (length batch + (if r then 1 else 0)) (it_rest p)"
    and items: "ts_items (it_rest p) = batch @ ts_items rest" by auto
  have dr: "rest = drop (start_idx p + length batch + (if r then 1 else 0)) ib"
    unfolding rest assms by (simp add: add.commute add.left_commute)
  show ?thesis
  proof (cases "it_raise p")
    case True
    with assms show ?thesis by (simp add: part_next_batch_def ts_call_def)
  next
    case False
    show ?thesis
    proof (cases "batch \<noteq> [] \<or> r")
      case True
      have "it_rest q = drop (start_idx q) ib" if "q = \<lparr>it_rest = rest,
          start_idx = (if r then start_idx p + 1 else start_idx p) + length batch, it_raise = r\<rparr>" for q
        using dr that by (cases r) (simp_all add: add.commute add.left_commute)
      then show ?thesis using True False items by (simp add: part_next_batch_def ts_call_def r)
    next
      case f2: False
      then have "rest = drop (start_idx p) ib" using dr by simp
      then show ?thesis using f2 False items by (simp add: part_next_batch_def ts_call_def r)
    qed
  qed
qed

interpretation testing: source "testing_source ib n" "\<lambda>p. it_rest p = drop (start_idx p) ib" "\<lambda>p. ts_items (it_rest p)"
  for ib n
  by unfold_locales (use ts_call_ok in \<open>fastforce simp: testing_source_def\<close>)+

section \<open>Properties\<close>

text \<open>Claim C19. No activation of the input operator panics, and it keeps the promises the rest of the
  dataflow relies on: with any source that raises only its answers, from the start, whatever loads,
  primary assignments, frontiers and times there are, no item or snapshot is emitted before the
  resume epoch, nor in an epoch while the probe shows an earlier one still in progress.\<close>

theorem input_backpressure:
  fixes S :: "('p, 'x, 'k::linorder, 'q) source_ops"
  assumes "source S sinv remaining"
    and "\<forall>m \<in> set acts. \<forall>(e, xs) \<in> set (im_loads m). \<forall>x \<in> set xs. in_load_ok S sinv this x"
  shows "\<exists>s s' rs. in_start start_at [0, 0] = Inr s \<and> in_run S this step start_at interval s acts = Inr (s', rs) \<and>
    (\<forall>(probe, r) \<in> set rs. (\<forall>x \<in> set (ir_items r). start_at \<le> fst x \<and> \<not> probe_less_than probe (fst x)) \<and>
      (\<forall>x \<in> set (ir_snaps r). start_at \<le> fst x \<and> \<not> probe_less_than probe (fst x)))"
proof -
  obtain s :: "('k, 'p) input_state" where s: "in_start start_at [0, 0] = Inr s" "source.in_inv sinv start_at s"
    using source.in_inv_start [OF assms(1), of start_at] by blast
  obtain s' rs where r: "in_run S this step start_at interval s acts = Inr (s', rs)"
    "\<forall>(probe, r) \<in> set rs. source.released probe start_at (ir_items r) \<and> source.released probe start_at (ir_snaps r)"
    using source.in_run_ok [OF assms(1) s(2) assms(2), of step interval] by (elim exE conjE)
  show ?thesis
    by (rule exI [of _ s], rule exI [of _ s'], rule exI [of _ rs])
      (use s(1) r in \<open>simp add: source.released_def [OF assms(1)]\<close>)
qed

text \<open>Three items, polled twice; the second time an earlier epoch is still in progress.\<close>

abbreviation three_items where
  "three_items \<equiv> [TsItem (5 :: int), TsItem 6, TsItem 7]"

abbreviation input_acts where
  "input_acts \<equiv>
     [\<lparr>im_primaries = [(0, [(1 :: nat, 3)])], im_loads = [(0, [(3, 2, Upsert 1)])], im_now = 0, im_probe = [2],
       im_frontiers = [[0], [0]]\<rparr>,
      \<lparr>im_primaries = [], im_loads = [], im_now = 1, im_probe = [2], im_frontiers = [[], []]\<rparr>]"

theorem input_backpressure_witness:
  "\<exists>s s' rs. in_start 2 [0, 0] = Inr s \<and>
    in_run (testing_source three_items 1) 3 ''input'' 2 10 s input_acts = Inr (s', rs)"
proof -
  have "\<forall>m \<in> set input_acts. \<forall>(e, xs) \<in> set (im_loads m). \<forall>x \<in> set xs.
      in_load_ok (testing_source three_items 1) (\<lambda>p. it_rest p = drop (start_idx p) three_items) 3 x"
    by (simp add: in_load_ok_def snap_ok_def testing_source_def)
  from input_backpressure [where start_at = 2 and step = "''input''" and interval = 10,
      OF testing.source_axioms this] show ?thesis by blast
qed

text \<open>Claim C5. Exactly once: for every snapshot a partition emits, the items emitted in that epoch and
  before, followed by what a partition built from the snapshot gives, are all the items the partition
  had; so an execution that resumes after that epoch neither loses nor repeats an item. The polls
  succeed and the epochs of the items never go back.\<close>

theorem input_exactly_once:
  assumes "source S sinv remaining" and "sinv (ps_part s)" and "downstream_cap s = ps_snap_cap s"
  shows "\<exists>s' items sns. poll_run S interval s polls = Inr (s', items, sns) \<and> sorted (map fst items) \<and>
    remaining (ps_part s) = map snd items @ remaining (ps_part s') \<and>
    (\<forall>(e, q) \<in> set sns. \<forall>now k. \<exists>p. so_build S now k (Some q) = Inr p \<and>
      remaining (ps_part s) = map snd (filter (\<lambda>x. fst x \<le> e) items) @ remaining p)"
proof -
  have "part_ok sinv 0 s" using assms(2,3) by (simp add: part_ok_def)
  from source.poll_run_ok [OF assms(1) this, of interval polls] obtain s' items sns where
    r: "poll_run S interval s polls = Inr (s', items, sns)" "sorted (map fst items)"
    "remaining (ps_part s) = map snd items @ remaining (ps_part s')"
    and sn: "\<forall>(e, q) \<in> set sns. downstream_cap s \<le> e \<and>
      (\<forall>now k. \<exists>p. so_build S now k (Some q) = Inr p \<and>
        remaining (ps_part s) = map snd (filter (\<lambda>x. fst x \<le> e) items) @ remaining p)"
    by (elim exE conjE) (rule that)
  have "\<forall>(e, q) \<in> set sns. \<forall>now k. \<exists>p. so_build S now k (Some q) = Inr p \<and>
      remaining (ps_part s) = map snd (filter (\<lambda>x. fst x \<le> e) items) @ remaining p"
    using sn by fast
  with r show ?thesis by (intro exI conjI)
qed

theorem input_exactly_once_witness:
  "\<exists>s' items sns. poll_run (testing_source three_items 1 :: (int iter_part, int, nat, nat) source_ops) 10
      \<lparr>ps_part = \<lparr>it_rest = three_items, start_idx = 0, it_raise = False\<rparr>, downstream_cap = 2, ps_snap_cap = 2,
       epoch_started = 0, ps_next_awake = None\<rparr> [(0, [2]), (20, [2]), (21, [2]), (22, [3])] = Inr (s', items, sns) \<and>
    sorted (map fst items) \<and> [5, 6, 7] = map snd items @ ts_items (it_rest (ps_part s'))"
proof -
  let ?s = "\<lparr>ps_part = \<lparr>it_rest = three_items, start_idx = 0, it_raise = False\<rparr>, downstream_cap = 2, ps_snap_cap = 2,
       epoch_started = 0, ps_next_awake = None\<rparr>"
  have "it_rest (ps_part ?s) = drop (start_idx (ps_part ?s)) three_items" "downstream_cap ?s = ps_snap_cap ?s" by simp_all
  from input_exactly_once [where interval = 10 and polls = "[(0, [2]), (20, [2]), (21, [2]), (22, [3])]",
      OF testing.source_axioms [where n = 1] this]
  have "\<exists>s' items sns. poll_run (testing_source three_items 1 :: (int iter_part, int, nat, nat) source_ops) 10 ?s
      [(0, [2]), (20, [2]), (21, [2]), (22, [3])] = Inr (s', items, sns) \<and>
    sorted (map fst items) \<and> ts_items (it_rest (ps_part ?s)) = map snd items @ ts_items (it_rest (ps_part s'))"
    by (elim exE conjE) (intro exI conjI)
  then show ?thesis by (simp add: ts_items_def)
qed

text \<open>Every partition this worker is the primary of is built: the activation that finds the
  loads at their end, with the assignments it has by then, leaves each of its primary partitions
  built or already at its end, and gives up the initial capabilities.\<close>

theorem primary_partitions_built:
  fixes S :: "('p, 'x, 'k::linorder, 'q) source_ops"
  assumes "source S sinv remaining"
    and "in_init_caps s = Some (start_at, start_at)" and "bt_wf (in_parts s)"
    and "\<forall>x \<in> set (in_parts s). part_ok sinv start_at (snd x)"
    and "\<forall>(e, xs) \<in> set (im_loads m). \<forall>x \<in> set xs. in_load_ok S sinv this x"
    and "simplify_one (im_frontiers m ! 0) = None"
  shows "\<exists>s' r nx. in_activate S this step start_at interval s m = Inr (s', r, nx) \<and> in_init_caps s' = None \<and>
    set (primary_parts s') \<subseteq> dom (bt_get (in_parts s')) \<union> set (ir_eofd r)"
proof -
  have "source.in_inv sinv start_at s"
    using assms(2-4) by (simp add: source.in_inv_def [OF assms(1)] source.parts_ok_def [OF assms(1)])
  from source.in_activate_ok [OF assms(1) this assms(5), of step interval] obtain s' :: "('k, 'p) input_state" and r nx where
    "in_activate S this step start_at interval s m = Inr (s', r, nx)"
    "simplify_one (im_frontiers m ! 0) = None \<longrightarrow> in_init_caps s' = None \<and>
      (in_init_caps s \<noteq> None \<longrightarrow> set (primary_parts s') \<subseteq> fst ` set (in_parts s') \<union> set (ir_eofd r))"
    by (elim exE conjE)
  with assms(2,6) show ?thesis unfolding bt_dom [symmetric]
    by (intro exI [of _ s'] exI [of _ r] exI [of _ nx]) simp
qed

theorem primary_partitions_built_witness:
  "\<exists>s' r nx. in_activate (testing_source three_items 1) 3 ''input'' 2 10
      \<lparr>in_init_caps = Some (2, 2), in_parts = [], primary_parts = [1 :: nat], primaries_inbuf = [(0, [(7, 3)])]\<rparr>
      \<lparr>im_primaries = [], im_loads = [(0, [(3, 2, Upsert 1)])], im_now = 0, im_probe = [2], im_frontiers = [[], [1]]\<rparr>
        = Inr (s', r, nx) \<and>
    in_init_caps s' = None \<and> set (primary_parts s') \<subseteq> dom (bt_get (in_parts s')) \<union> set (ir_eofd r)"
  by (rule primary_partitions_built [OF testing.source_axioms])
    (simp_all add: simplify_one_def in_load_ok_def snap_ok_def testing_source_def)

end
