(* ===== verification/Outputs.thy ===== *)
theory Outputs
  imports Py_Errors Recovery_Ops
begin

text \<open>
  The output operators of \<^verbatim>\<open>src/src/outputs.rs\<close>: \<^verbatim>\<open>partitioned_output\<close>, which writes the items routed to
  a partition in epoch order, builds partitions from loaded state or on their first item, and snapshots
  at the end of an epoch the partitions written in it, and \<^verbatim>\<open>dynamic_output\<close>, with one stateless
  partition per worker. A Python sink is a record of functions that pass the outside world \<open>'w\<close> (the
  files it writes, say) along. Metrics, trace spans and \<^verbatim>\<open>close\<close> are left out.
\<close>

section \<open>Sinks\<close>

text \<open>A \<^verbatim>\<open>FixedPartitionedSink\<close> and its \<^verbatim>\<open>StatefulPartition\<close>.\<close>

record ('w, 'p, 'v, 'k, 'q) sink_ops =
  sk_build :: "'w \<Rightarrow> 'k \<Rightarrow> 'q option \<Rightarrow> ('w \<times> 'p) res"
  sk_write :: "'w \<Rightarrow> 'p \<Rightarrow> 'v list \<Rightarrow> ('w \<times> 'p) res"
  sk_snapshot :: "'w \<Rightarrow> 'p \<Rightarrow> 'q res"

section \<open>\<^verbatim>\<open>partitioned_output\<close>\<close>

text \<open>The items of an epoch by partition, each with its routing key.\<close>

type_synonym ('k, 'v) out_inbuf = "(epoch, ('k, ('k \<times> 'v) list) btree) btree"

text \<open>What the closures capture; the notificator owns the partitions and the awoken ones.\<close>

record ('k, 'v, 'q, 'w) out_bufs =
  ob_items :: "('k, 'v) out_inbuf"
  ob_loads :: "(worker \<times> 'k \<times> 'q state_change) in_buffer"
  ob_world :: 'w

type_synonym ('k, 'p) out_parts = "('k, 'p) btree \<times> 'k bset"

type_synonym ('k, 'v, 'q, 'w, 'p) out_state = "('k, 'p) out_parts notificator \<times> ('k, 'v, 'q, 'w) out_bufs"

datatype ('s, 'k, 'q) out_event = Tick epoch | Snap epoch "('s, 'k, 'q) snapshot"

definition out_start :: "epoch list \<Rightarrow> 'w \<Rightarrow> ('k, 'v, 'q, 'w, 'p) out_state" where
  "out_start caps w = (nc_new caps ([], []), \<lparr>ob_items = [], ob_loads = inbuf_new, ob_world = w\<rparr>)"

definition out_push :: "epoch \<Rightarrow> 'k::linorder \<Rightarrow> 'k \<times> 'v \<Rightarrow> ('k, 'v) out_inbuf \<Rightarrow> ('k, 'v) out_inbuf" where
  "out_push e part kv buf =
     bt_entry e (bt_entry part (\<lambda>xs. xs @ [kv]) [kv]) (bt_entry part (\<lambda>xs. xs @ [kv]) [kv] []) buf"

definition out_receive ::
  "worker \<Rightarrow> ('k::linorder, 'v) out_inbuf \<times> 'd notificator \<Rightarrow> epoch \<times> (worker \<times> 'k \<times> 'k \<times> 'v) list \<Rightarrow>
    (('k, 'v) out_inbuf \<times> 'd notificator) res" where
  "out_receive this = (\<lambda>(buf, nc) (e, incoming).
     ebind (efold (\<lambda>b (w, part, kv). ebind (eguard (w = this) (AssertFail ''worker == this_worker''))
         (\<lambda>_. Inr (out_push e part kv b))) buf incoming) (\<lambda>buf'.
     emap (\<lambda>nc'. (buf', nc')) (notify_at nc e)))"

text \<open>The items of one partition: built lazily, then written and marked as awoken.\<close>

definition out_write ::
  "('w, 'p, 'v, 'k::linorder, 'q) sink_ops \<Rightarrow> ('k, 'p) out_parts \<times> 'w \<Rightarrow> 'k \<times> ('k \<times> 'v) list \<Rightarrow>
    (('k, 'p) out_parts \<times> 'w) res" where
  "out_write S = (\<lambda>((pts, awk), w) (part_key, items).
     ebind (case bt_get pts part_key of
         Some p \<Rightarrow> Inr (w, p)
       | None \<Rightarrow> reraise (sk_build S w part_key None)) (\<lambda>(w1, p).
     emap (\<lambda>(w2, p'). ((bt_insert part_key p' pts, bs_insert part_key awk), w2))
       (sk_write S w1 p (map snd items))))"

definition out_eager ::
  "('w, 'p, 'v, 'k::linorder, 'q) sink_ops \<Rightarrow>
    (('k, 'p) out_parts, ('k, 'v, 'q, 'w) out_bufs, ('s, 'k, 'q) out_event) epoch_logic" where
  "out_eager S caps = (\<lambda>(d, b). case bt_get (ob_items b) (caps ! 0) of
       None \<Rightarrow> Inr ((d, b), [])
     | Some part_to_items \<Rightarrow>
         emap (\<lambda>(d', w). ((d', b\<lparr>ob_items := bt_remove (caps ! 0) (ob_items b), ob_world := w\<rparr>), []))
           (efold (out_write S) (d, ob_world b) part_to_items))"

text \<open>The snapshots of the awoken partitions, popped in order.\<close>

definition out_snapshot ::
  "('w, 'p, 'v, 'k, 'q) sink_ops \<Rightarrow> 's \<Rightarrow> epoch \<Rightarrow> 'w \<Rightarrow> ('k, 'p) btree \<Rightarrow> 'k \<Rightarrow> ('s, 'k, 'q) out_event res" where
  "out_snapshot S step e w pts part_key =
     ebind (expect ''parts.get(&part_key)'' (bt_get pts part_key)) (\<lambda>p.
     emap (\<lambda>q. Snap e (Snapshot step part_key (Upsert q))) (reraise (sk_snapshot S w p)))"

definition out_load ::
  "('w, 'p, 'v, 'k::linorder, 'q) sink_ops \<Rightarrow> worker \<Rightarrow> ('k, 'p) btree \<times> 'w \<Rightarrow> worker \<times> 'k \<times> 'q state_change \<Rightarrow>
    (('k, 'p) btree \<times> 'w) res" where
  "out_load S this = (\<lambda>(pts, w) (wk, part_key, change).
     if wk = this then (case change of
         Upsert q \<Rightarrow> emap (\<lambda>(w', p). (bt_insert part_key p pts, w')) (reraise (sk_build S w part_key (Some q)))
       | state_change.Discard \<Rightarrow> Inr (bt_remove part_key pts, w))
     else Inr (bt_remove part_key pts, w))"

definition out_close ::
  "('w, 'p, 'v, 'k::linorder, 'q) sink_ops \<Rightarrow> worker \<Rightarrow> 's \<Rightarrow>
    (('k, 'p) out_parts, ('k, 'v, 'q, 'w) out_bufs, ('s, 'k, 'q) out_event) epoch_logic" where
  "out_close S this step caps = (\<lambda>((pts, awk), b).
     ebind (emapM (out_snapshot S step (caps ! 1) (ob_world b) pts) awk) (\<lambda>sns.
     let (loads', loads) = inbuf_remove (ob_loads b) (caps ! 0)
     in emap (\<lambda>(pts', w). (((pts', []), b\<lparr>ob_loads := loads', ob_world := w\<rparr>), Tick (caps ! 0) # sns))
          (efold (out_load S this) (pts, ob_world b) (case loads of None \<Rightarrow> [] | Some xs \<Rightarrow> xs))))"

record ('k, 'v, 'q) out_msgs =
  om_items :: "(epoch \<times> (worker \<times> 'k \<times> 'k \<times> 'v) list) list"
  om_loads :: "(epoch \<times> (worker \<times> 'k \<times> 'q state_change) list) list"
  om_frontiers :: "frontier list"

definition out_activate ::
  "('w, 'p, 'v, 'k::linorder, 'q) sink_ops \<Rightarrow> worker \<Rightarrow> 's \<Rightarrow> ('k, 'v, 'q, 'w, 'p) out_state \<Rightarrow> ('k, 'v, 'q) out_msgs \<Rightarrow>
    (('k, 'v, 'q, 'w, 'p) out_state \<times> ('s, 'k, 'q) out_event list) res" where
  "out_activate S this step = (\<lambda>(nc, b) m.
     ebind (efold (out_receive this) (ob_items b, nc) (om_items m)) (\<lambda>(items, nc1).
     ebind (buffer_notify (om_loads m) (ob_loads b) nc1) (\<lambda>(loads, nc2).
     emap (\<lambda>(nc', b', out). ((nc', b'), out))
       (for_each (out_eager S) (out_close S this step) (om_frontiers m) nc2
         (b\<lparr>ob_items := items, ob_loads := loads\<rparr>)))))"

fun out_run where
  "out_run S this step st [] = Inr (st, [])"
| "out_run S this step st (m # ms) =
     ebind (out_activate S this step st m) (\<lambda>(st', out).
     emap (\<lambda>(st'', out'). (st'', out @ out')) (out_run S this step st' ms))"

section \<open>\<^verbatim>\<open>dynamic_output\<close>\<close>

definition dynout_start :: "('w \<Rightarrow> worker \<Rightarrow> nat \<Rightarrow> ('w \<times> 'p) res) \<Rightarrow> 'w \<Rightarrow> worker \<Rightarrow> nat \<Rightarrow> ('w \<times> 'p option) res" where
  "dynout_start build w this workers = emap (\<lambda>(w', p). (w', Some p)) (build w this workers)"

text \<open>One activation: each message is a batch of its epoch, and a tick of the clock in that epoch.\<close>

definition dynout_activate ::
  "('w \<Rightarrow> 'p \<Rightarrow> 'v list \<Rightarrow> ('w \<times> 'p) res) \<Rightarrow> 'w \<times> 'p option \<Rightarrow> (epoch \<times> 'v list) list \<Rightarrow> frontier \<Rightarrow>
    (('w \<times> 'p option) \<times> epoch list) res" where
  "dynout_activate write = (\<lambda>(w, part) msgs frontier. case part of
       None \<Rightarrow> Inr ((w, None), [])
     | Some sink \<Rightarrow>
         emap (\<lambda>(w', sink', ticks). ((w', if frontier = [] then None else Some sink'), ticks))
           (efold (\<lambda>(w, p, ticks) (e, batch).
               emap (\<lambda>(w', p'). (w', p', ticks @ [e])) (reraise (write w p batch))) (w, sink, []) msgs))"

fun dynout_run where
  "dynout_run write st [] = Inr (st, [])"
| "dynout_run write st ((msgs, frontier) # acts) =
     ebind (dynout_activate write st msgs frontier) (\<lambda>(st', ticks).
     emap (\<lambda>(st'', ticks'). (st'', ticks @ ticks')) (dynout_run write st' acts))"

section \<open>The file sink\<close>

text \<open>
  \<^verbatim>\<open>_FileSinkPartition\<close> of \<^verbatim>\<open>src/pysrc/bytewax/connectors/files.py\<close>: the world is the contents of the
  files by partition, a missing file is created, and truncating beyond the end pads with zero bytes. In
  append mode a write goes to the end of the file and leaves the position there.
\<close>

record 'k file_part =
  fp_path :: 'k
  fp_pos :: nat

type_synonym 'k disk = "'k \<Rightarrow> string option"

definition file_text :: "'k disk \<Rightarrow> 'k \<Rightarrow> string" where
  "file_text d k = (case d k of None \<Rightarrow> '''' | Some t \<Rightarrow> t)"

definition truncated :: "nat \<Rightarrow> string \<Rightarrow> string" where
  "truncated n t = take n t @ replicate (n - length t) (CHR 0x00)"

definition file_build :: "'k disk \<Rightarrow> 'k \<Rightarrow> nat option \<Rightarrow> ('k disk \<times> 'k file_part) res" where
  "file_build d path resume_state =
     (let offset = (case resume_state of None \<Rightarrow> 0 | Some n \<Rightarrow> n)
      in Inr (d(path \<mapsto> truncated offset (file_text d path)), \<lparr>fp_path = path, fp_pos = offset\<rparr>))"

definition file_write :: "string \<Rightarrow> 'k disk \<Rightarrow> 'k file_part \<Rightarrow> string list \<Rightarrow> ('k disk \<times> 'k file_part) res" where
  "file_write ending d p values =
     (let t = foldl (\<lambda>t v. t @ v @ ending) (file_text d (fp_path p)) values
      in Inr (d(fp_path p \<mapsto> t), if values = [] then p else p\<lparr>fp_pos := length t\<rparr>))"

definition file_snapshot :: "'k disk \<Rightarrow> 'k file_part \<Rightarrow> nat res" where
  "file_snapshot d p = Inr (fp_pos p)"

definition file_sink :: "string \<Rightarrow> ('k disk, 'k file_part, string, 'k, nat) sink_ops" where
  "file_sink ending = \<lparr>sk_build = file_build, sk_write = file_write ending, sk_snapshot = file_snapshot\<rparr>"

text \<open>\<^verbatim>\<open>_ListSinkPartition\<close> of \<^verbatim>\<open>src/pysrc/bytewax/testing.py\<close>: the world is the list.\<close>

definition list_write :: "'v list \<Rightarrow> unit \<Rightarrow> 'v list \<Rightarrow> ('v list \<times> unit) res" where
  "list_write ls p items = Inr (ls @ items, ())"

end
