(* ===== verification/Output_Runs.thy ===== *)
theory Output_Runs
  imports Outputs
begin

text \<open>
  Runs of the output operators (\<^verbatim>\<open>src/src/outputs.rs\<close>). The contract of a sink (locale \<open>sink\<close>): a
  partition's contents grow by what is written, a snapshot is an offset into them, and building from a
  snapshot cuts them back to it. Under Timely's promises a run of \<^verbatim>\<open>partitioned_output\<close> then does not
  panic, writes the items of each partition in epoch order, each once, and snapshots exactly the
  partitions written in a closed epoch at exactly the contents of that epoch's end. The contract is
  interpreted on the file sink in \<open>File_Sink\<close>.
\<close>

section \<open>The contract of a sink\<close>

text \<open>
  \<open>contents\<close> is what the world holds for a partition, whether it is built or not; \<open>live\<close> says that a
  partition object belongs to it; \<open>untouched\<close> that nothing of the other partitions has changed.
\<close>

definition untouched :: "('w \<Rightarrow> 'k \<Rightarrow> 'p \<Rightarrow> bool) \<Rightarrow> ('w \<Rightarrow> 'k \<Rightarrow> 'c list) \<Rightarrow> 'k \<Rightarrow> 'w \<Rightarrow> 'w \<Rightarrow> bool" where
  "untouched live contents k w w' \<longleftrightarrow>
     (\<forall>j. j \<noteq> k \<longrightarrow> contents w' j = contents w j \<and> (\<forall>p. live w j p \<longrightarrow> live w' j p))"

locale sink =
  fixes S :: "('w, 'p, 'v, 'k::linorder, 'q) sink_ops"
    and live :: "'w \<Rightarrow> 'k \<Rightarrow> 'p \<Rightarrow> bool" and contents :: "'w \<Rightarrow> 'k \<Rightarrow> 'c list"
    and enc :: "'v \<Rightarrow> 'c list" and offset :: "'q \<Rightarrow> nat"
  assumes build_fresh: "\<exists>w' p. sk_build S w k None = Inr (w', p) \<and> live w' k p \<and> contents w' k = [] \<and>
      untouched live contents k w w'"
    and build_from: "offset q \<le> length (contents w k) \<Longrightarrow>
      \<exists>w' p. sk_build S w k (Some q) = Inr (w', p) \<and> live w' k p \<and>
        contents w' k = take (offset q) (contents w k) \<and> untouched live contents k w w'"
    and write_appends: "live w k p \<Longrightarrow> \<exists>w' p'. sk_write S w p vs = Inr (w', p') \<and> live w' k p' \<and>
      contents w' k = contents w k @ concat (map enc vs) \<and> untouched live contents k w w'"
    and snapshot_offset: "live w k p \<Longrightarrow> \<exists>q. sk_snapshot S w p = Inr q \<and> offset q = length (contents w k)"

section \<open>Buffers of one key\<close>

text \<open>The values of an epoch in a list of items, and in the buffer of a partition.\<close>

definition vals :: "epoch \<Rightarrow> (epoch \<times> 'v) list \<Rightarrow> 'v list" where
  "vals e xs = map snd (filter (\<lambda>x. fst x = e) xs)"

definition pending :: "('k, 'v) out_inbuf \<Rightarrow> 'k \<Rightarrow> epoch \<Rightarrow> 'v list" where
  "pending buf k e = (case bt_get buf e of None \<Rightarrow> []
     | Some m \<Rightarrow> (case bt_get m k of None \<Rightarrow> [] | Some xs \<Rightarrow> map snd xs))"

text \<open>What arrives for a partition in a message.\<close>

definition for_part :: "'k \<Rightarrow> (epoch \<times> (worker \<times> 'k \<times> 'k \<times> 'v) list) list \<Rightarrow> (epoch \<times> 'v) list" where
  "for_part k msgs = concat (map (\<lambda>(e, xs). map (\<lambda>(_, _, _, v). (e, v)) (filter (\<lambda>(_, part, _, _). part = k) xs)) msgs)"

lemma vals_Nil [simp]: "vals e [] = []"
  by (simp add: vals_def)

lemma vals_append [simp]: "vals e (xs @ ys) = vals e xs @ vals e ys"
  by (simp add: vals_def)

lemma vals_pair [simp]: "vals e (map (Pair e') vs) = (if e = e' then vs else [])"
  by (auto simp: vals_def filter_map comp_def)

lemma vals_eq_Nil_iff: "vals e xs = [] \<longleftrightarrow> (\<forall>x \<in> set xs. fst x \<noteq> e)"
  by (auto simp: vals_def filter_empty_conv)

text \<open>A list sorted by epoch is determined by its values in each epoch.\<close>

lemma filter_eq_vals: "filter (\<lambda>x. fst x = e) xs = map (Pair e) (vals e xs)"
  by (induction xs) (auto simp: vals_def)

lemma count_filter_fst: "count (mset xs) x = count (mset (filter (\<lambda>y. fst y = fst x) xs)) x"
  by (induction xs) auto

lemma sorted_vals:
  assumes "sorted (map fst ys)" and "\<And>e. vals e ys = vals e xs"
  shows "sort_key fst xs = ys"
proof (rule properties_for_sort_key [OF _ _ assms(1)])
  show "filter (\<lambda>x. fst k = fst x) ys = filter (\<lambda>x. fst k = fst x) xs" for k
    using filter_eq_vals [of "fst k" ys] filter_eq_vals [of "fst k" xs] assms(2) by (simp add: eq_commute)
  show "mset ys = mset xs"
    by (rule multiset_eqI) (subst (1 2) count_filter_fst, simp add: filter_eq_vals assms(2))
qed

lemma filter_vals: "vals e (filter (\<lambda>x. P (fst x)) xs) = (if P e then vals e xs else [])"
  by (induction xs) (auto simp: vals_def)

text \<open>Items in epochs from \<open>lo\<close> and from the resume epoch on, no empty lists.\<close>

definition lists_ok :: "('k::linorder, 'a list) btree \<Rightarrow> bool" where
  "lists_ok m \<longleftrightarrow> bt_wf m \<and> (\<forall>k xs. bt_get m k = Some xs \<longrightarrow> xs \<noteq> [])"

definition inbuf_ok :: "epoch \<Rightarrow> epoch \<Rightarrow> ('k::linorder, 'v) out_inbuf \<Rightarrow> bool" where
  "inbuf_ok lo resume buf \<longleftrightarrow> bt_wf buf \<and>
     (\<forall>e m. bt_get buf e = Some m \<longrightarrow> lo \<le> e \<and> resume \<le> e \<and> lists_ok m)"

lemma inbuf_ok_Nil [simp]: "inbuf_ok lo resume []"
  by (simp add: inbuf_ok_def)

lemma lists_ok_push: "lists_ok m \<Longrightarrow> lists_ok (bt_entry part (\<lambda>xs. xs @ [kv]) [kv] m)"
  by (auto simp: lists_ok_def bt_entry_def split: option.splits if_splits)

lemma out_push_ok:
  assumes "inbuf_ok lo resume buf" and "lo \<le> e" and "resume \<le> e"
  shows "inbuf_ok lo resume (out_push e part kv buf)"
proof -
  have "lists_ok (bt_entry part (\<lambda>xs. xs @ [kv]) [kv] [])" by (rule lists_ok_push) (simp add: lists_ok_def)
  with assms show ?thesis
    unfolding inbuf_ok_def out_push_def bt_entry_def [of e]
    by (auto simp: lists_ok_push split: option.splits if_splits)
qed

lemma pending_push:
  "pending (out_push e part (key, v) buf) k e' = pending buf k e' @ (if k = part \<and> e' = e then [v] else [])"
  by (auto simp: pending_def out_push_def bt_entry_def split: option.splits)

text \<open>The loads that are still to come for a partition.\<close>

definition changes_for :: "'k \<Rightarrow> (epoch \<times> (worker \<times> 'k \<times> 'q state_change) list) list \<Rightarrow> 'q state_change list" where
  "changes_for k msgs = concat (map (\<lambda>(e, xs). map (\<lambda>(_, _, ch). ch) (filter (\<lambda>(_, key, _). key = k) xs)) msgs)"

lemma changes_for_simps [simp]: "changes_for k [] = []" "changes_for k (xs @ ys) = changes_for k xs @ changes_for k ys"
  by (simp_all add: changes_for_def)

lemma for_part_simps [simp]: "for_part k [] = []" "for_part k (xs @ ys) = for_part k xs @ for_part k ys"
  by (simp_all add: for_part_def)

text \<open>Receiving the messages of an activation.\<close>

lemma efold_push_ok:
  assumes "inbuf_ok lo resume buf" and "lo \<le> e" and "resume \<le> e" and "\<forall>x \<in> set xs. fst x = this"
  shows "\<exists>buf'. efold (\<lambda>b (w, part, kv). ebind (eguard (w = this) (AssertFail ''worker == this_worker''))
         (\<lambda>_. Inr (out_push e part kv b))) buf xs = Inr buf' \<and> inbuf_ok lo resume buf' \<and>
    (\<forall>k e'. pending buf' k e' = pending buf k e' @ vals e' (for_part k [(e, xs)])) \<and>
    fst ` set buf' \<subseteq> insert e (fst ` set buf)"
  using assms(1,4)
proof (induction xs arbitrary: buf)
  case Nil
  then show ?case by (auto simp: for_part_def)
next
  case (Cons x xs)
  obtain part key v where x: "x = (this, part, key, v)" using Cons.prems(2) by (cases x) auto
  let ?b = "out_push e part (key, v) buf"
  have "fst ` set ?b \<subseteq> insert e (fst ` set buf)" by (simp add: out_push_def bt_entry_def)
  moreover have "inbuf_ok lo resume ?b" using Cons.prems(1) assms(2,3) by (rule out_push_ok)
  moreover have "vals e' (for_part k [(e, x # xs)]) = (if k = part \<and> e' = e then [v] else []) @ vals e' (for_part k [(e, xs)])"
    for k e' by (simp add: for_part_def x vals_def)
  ultimately have b: "inbuf_ok lo resume ?b" "fst ` set ?b \<subseteq> insert e (fst ` set buf)"
    "\<And>k e'. vals e' (for_part k [(e, x # xs)]) = (if k = part \<and> e' = e then [v] else []) @ vals e' (for_part k [(e, xs)])"
    by blast+
  have "\<forall>x \<in> set xs. fst x = this" using Cons.prems(2) by simp
  from Cons.IH [OF b(1) this] show ?case
  proof (elim exE conjE)
    fix b' assume r: "efold (\<lambda>b (w, part, kv). ebind (eguard (w = this) (AssertFail ''worker == this_worker''))
         (\<lambda>_. Inr (out_push e part kv b))) ?b xs = Inr b'" "inbuf_ok lo resume b'"
      "\<forall>k e'. pending b' k e' = pending ?b k e' @ vals e' (for_part k [(e, xs)])"
      "fst ` set b' \<subseteq> insert e (fst ` set ?b)"
    show ?thesis
    proof (intro exI conjI)
      show "efold (\<lambda>b (w, part, kv). ebind (eguard (w = this) (AssertFail ''worker == this_worker''))
         (\<lambda>_. Inr (out_push e part kv b))) buf (x # xs) = Inr b'" using r(1) by (simp add: x)
      show "\<forall>k e'. pending b' k e' = pending buf k e' @ vals e' (for_part k [(e, x # xs)])"
        using r(3) by (simp only: pending_push b(3)) simp
      show "fst ` set b' \<subseteq> insert e (fst ` set buf)" using r(4) b(2) by auto
    qed (rule r(2))
  qed
qed

lemma out_receive_ok:
  assumes "inbuf_ok lo resume buf" and "caps_state nc \<noteq> None"
    and "\<forall>(e, xs) \<in> set msgs. lo \<le> e \<and> resume \<le> e \<and> (\<forall>x \<in> set xs. fst x = this)"
  shows "\<exists>buf'. efold (out_receive this) (buf, nc) msgs = Inr (buf', nc\<lparr>queue := bs_extend (queue nc) (map fst msgs)\<rparr>) \<and>
    inbuf_ok lo resume buf' \<and> (\<forall>k e. pending buf' k e = pending buf k e @ vals e (for_part k msgs)) \<and>
    fst ` set buf' \<subseteq> fst ` set msgs \<union> fst ` set buf"
  using assms
proof (induction msgs arbitrary: buf nc)
  case Nil
  then show ?case by simp
next
  case (Cons m msgs)
  obtain e xs where m: "m = (e, xs)" by fastforce
  have "lo \<le> e" "resume \<le> e" "\<forall>x \<in> set xs. fst x = this" using Cons.prems(3) by (auto simp: m)
  from efold_push_ok [OF Cons.prems(1) this] obtain b where b:
    "efold (\<lambda>b (w, part, kv). ebind (eguard (w = this) (AssertFail ''worker == this_worker''))
         (\<lambda>_. Inr (out_push e part kv b))) buf xs = Inr b" "inbuf_ok lo resume b"
    "\<forall>k e'. pending b k e' = pending buf k e' @ vals e' (for_part k [(e, xs)])"
    "fst ` set b \<subseteq> insert e (fst ` set buf)" by blast
  let ?nc = "nc\<lparr>queue := bs_insert e (queue nc)\<rparr>"
  have step: "out_receive this (buf, nc) m = Inr (b, ?nc)"
    using b(1) Cons.prems(2) by (simp add: out_receive_def m notify_at_def)
  have nc: "caps_state ?nc \<noteq> None" using Cons.prems(2) by simp
  have ms: "\<forall>(e, xs) \<in> set msgs. lo \<le> e \<and> resume \<le> e \<and> (\<forall>x \<in> set xs. fst x = this)" using Cons.prems(3) by auto
  have fp: "for_part k (m # msgs) = for_part k [(e, xs)] @ for_part k msgs" for k by (simp add: for_part_def m)
  from Cons.IH [OF b(2) nc ms] show ?case
  proof (elim exE conjE)
    fix b' assume r: "efold (out_receive this) (b, ?nc) msgs = Inr (b', ?nc\<lparr>queue := bs_extend (queue ?nc) (map fst msgs)\<rparr>)"
      "inbuf_ok lo resume b'" "\<forall>k e. pending b' k e = pending b k e @ vals e (for_part k msgs)"
      "fst ` set b' \<subseteq> fst ` set msgs \<union> fst ` set b"
    show ?thesis
    proof (intro exI conjI)
      show "efold (out_receive this) (buf, nc) (m # msgs) = Inr (b', nc\<lparr>queue := bs_extend (queue nc) (map fst (m # msgs))\<rparr>)"
        using r(1) step by (simp add: m)
      show "\<forall>k e. pending b' k e = pending buf k e @ vals e (for_part k (m # msgs))"
        using r(3) b(3) by (simp add: fp)
      show "fst ` set b' \<subseteq> fst ` set (m # msgs) \<union> fst ` set buf" using r(4) b(4) by (auto simp: m)
    qed (rule r(2))
  qed
qed

text \<open>Receiving loads.\<close>

definition loads_ok :: "worker \<Rightarrow> epoch \<Rightarrow> epoch \<Rightarrow> (worker \<times> 'k \<times> 'q state_change) in_buffer \<Rightarrow> bool" where
  "loads_ok this lo resume buf \<longleftrightarrow> bt_wf buf \<and>
     (\<forall>e xs. bt_get buf e = Some xs \<longrightarrow> lo \<le> e \<and> e < resume \<and> (\<forall>x \<in> set xs. fst x = this))"

lemma loads_ok_Nil [simp]: "loads_ok this lo resume []"
  by (simp add: loads_ok_def)

lemma loads_ok_extend:
  "loads_ok this lo resume buf \<Longrightarrow> lo \<le> e \<Longrightarrow> e < resume \<Longrightarrow> \<forall>x \<in> set xs. fst x = this \<Longrightarrow>
    loads_ok this lo resume (inbuf_extend buf e xs)"
  unfolding loads_ok_def inbuf_extend_def bt_entry_def
  by (auto split: option.splits if_splits)

lemma changes_for_Cons: "changes_for k ((e, xs) # ys) = changes_for k [(e, xs)] @ changes_for k ys"
  by (simp add: changes_for_def)

lemma changes_for_extend:
  assumes "bt_wf buf"
  shows "mset (changes_for k (inbuf_extend buf e xs)) = mset (changes_for k buf) + mset (changes_for k [(e, xs)])"
proof (cases "bt_get buf e")
  case None
  from bt_insert_new [OF None, of xs] obtain ys zs where s: "buf = ys @ zs" "bt_insert e xs buf = ys @ (e, xs) # zs" by blast
  have "inbuf_extend buf e xs = ys @ (e, xs) # zs" using None s(2) by (simp add: inbuf_extend_def bt_entry_def)
  then show ?thesis by (simp add: s(1) changes_for_Cons [of k e xs zs])
next
  case (Some old)
  from bt_split [OF assms Some, of "old @ xs"] obtain ys zs where
    s: "buf = ys @ (e, old) # zs" "bt_insert e (old @ xs) buf = ys @ (e, old @ xs) # zs" by blast
  have "changes_for k [(e, old @ xs)] = changes_for k [(e, old)] @ changes_for k [(e, xs)]" by (simp add: changes_for_def)
  moreover have "inbuf_extend buf e xs = ys @ (e, old @ xs) # zs"
    using Some s(2) by (simp add: inbuf_extend_def bt_entry_def)
  ultimately show ?thesis by (simp add: s(1) changes_for_Cons [of k e _ zs])
qed

lemma changes_for_remove:
  assumes "bt_wf buf"
  shows "mset (changes_for k buf) = mset (changes_for k [(e, inbuf_items buf e)]) + mset (changes_for k (bt_remove e buf))"
proof (cases "bt_get buf e")
  case None
  then have "bt_remove e buf = buf" by (auto simp: bt_remove_def filter_id_conv map_of_eq_None_iff)
  with None show ?thesis by (simp add: inbuf_items_def changes_for_def)
next
  case (Some xs)
  from bt_split [OF assms Some, of xs] obtain ys zs where "buf = ys @ (e, xs) # zs" "bt_remove e buf = ys @ zs" by blast
  with Some show ?thesis by (simp add: inbuf_items_def changes_for_Cons [of k e xs zs])
qed

lemma loads_receive_ok:
  assumes "loads_ok this lo resume buf" and "caps_state nc \<noteq> None"
    and "\<forall>(e, xs) \<in> set msgs. lo \<le> e \<and> e < resume \<and> (\<forall>x \<in> set xs. fst x = this)"
  shows "\<exists>buf'. buffer_notify msgs buf nc = Inr (buf', nc\<lparr>queue := bs_extend (queue nc) (map fst msgs)\<rparr>) \<and>
    loads_ok this lo resume buf' \<and>
    (\<forall>k. mset (changes_for k buf') = mset (changes_for k buf) + mset (changes_for k msgs)) \<and>
    fst ` set buf' \<subseteq> fst ` set msgs \<union> fst ` set buf"
  using assms
proof (induction msgs arbitrary: buf nc)
  case Nil
  then show ?case by (simp add: buffer_notify_def)
next
  case (Cons m msgs)
  obtain e xs where m: "m = (e, xs)" by fastforce
  let ?b = "inbuf_extend buf e xs" and ?nc = "nc\<lparr>queue := bs_insert e (queue nc)\<rparr>"
  have b: "loads_ok this lo resume ?b" using Cons.prems(1,3) by (intro loads_ok_extend) (auto simp: m)
  have ms: "\<forall>(e, xs) \<in> set msgs. lo \<le> e \<and> e < resume \<and> (\<forall>x \<in> set xs. fst x = this)" using Cons.prems(3) by auto
  have nc: "caps_state ?nc \<noteq> None" using Cons.prems(2) by simp
  have wf: "bt_wf buf" using Cons.prems(1) by (simp add: loads_ok_def)
  have keys: "fst ` set ?b \<subseteq> insert e (fst ` set buf)" by (simp add: inbuf_extend_def bt_entry_def)
  have step: "buffer_step (buf, nc) m = Inr (?b, ?nc)" using Cons.prems(2) by (simp add: buffer_step_def m notify_at_def)
  from Cons.IH [OF b nc ms] show ?case
  proof (elim exE conjE)
    fix b' assume r: "buffer_notify msgs ?b ?nc = Inr (b', ?nc\<lparr>queue := bs_extend (queue ?nc) (map fst msgs)\<rparr>)"
      "loads_ok this lo resume b'"
      "\<forall>k. mset (changes_for k b') = mset (changes_for k ?b) + mset (changes_for k msgs)"
      "fst ` set b' \<subseteq> fst ` set msgs \<union> fst ` set ?b"
    show ?thesis
    proof (intro exI conjI)
      show "buffer_notify (m # msgs) buf nc = Inr (b', nc\<lparr>queue := bs_extend (queue nc) (map fst (m # msgs))\<rparr>)"
        using r(1) step by (simp add: buffer_notify_def m)
      show "\<forall>k. mset (changes_for k b') = mset (changes_for k buf) + mset (changes_for k (m # msgs))"
        using r(3) by (simp add: changes_for_extend [OF wf] m changes_for_Cons [of _ e xs msgs] union_assoc)
      show "fst ` set b' \<subseteq> fst ` set (m # msgs) \<union> fst ` set buf" using r(4) keys by (auto simp: m)
    qed (rule r(2))
  qed
qed

text \<open>What a run of calls emits does not depend on what was emitted before.\<close>

lemma run_calls_out:
  "run_calls E C n (s, out) calls = emap (\<lambda>(s', o'). (s', out @ o')) (run_calls E C n (s, []) calls)"
proof (induction calls arbitrary: s out)
  case Nil
  then show ?case by (simp add: run_calls_def)
next
  case (Cons c calls)
  have step: "run_calls E C n (s, out) (c # calls) =
    ebind (run_call E C n (s, out) c) (\<lambda>(s', o'). run_calls E C n (s', o') calls)" for s out
    by (simp add: run_calls_def split_def)
  have one: "run_call E C n (s, out) c = emap (\<lambda>(s', o'). (s', out @ o')) (run_call E C n (s, []) c)" for s out
    by (cases c) (auto simp: emap_def ebind_def split: sum.splits)
  show ?case
  proof (cases "run_call E C n (s, []) c")
    case (Inl x)
    then show ?thesis by (simp add: step one [of s out])
  next
    case (Inr r)
    obtain s1 o1 where r: "r = (s1, o1)" by fastforce
    show ?thesis using Inr Cons.IH [of s1 "out @ o1"] Cons.IH [of s1 o1]
      by (cases "run_calls E C n (s1, []) calls") (auto simp: step one [of s out] r)
  qed
qed

section \<open>The partitions\<close>

text \<open>What a run writes: \<open>'p outs\<close> as snapshots with their epoch and partition.\<close>

definition snaps_in :: "('s, 'k, 'q) out_event list \<Rightarrow> (epoch \<times> 'k \<times> 'q) list" where
  "snaps_in outs = List.map_filter (\<lambda>ev. case ev of
       Snap e (Snapshot _ k (Upsert q)) \<Rightarrow> Some (e, k, q)
     | _ \<Rightarrow> None) outs"

lemma snaps_in_simps [simp]:
  "snaps_in [] = []" "snaps_in (xs @ ys) = snaps_in xs @ snaps_in ys" "snaps_in (Tick e # xs) = snaps_in xs"
  "snaps_in (map (\<lambda>k. Snap e (Snapshot step k (Upsert (q k)))) ks) = map (\<lambda>k. (e, k, q k)) ks"
  by (simp_all add: snaps_in_def List.map_filter_def comp_def)

definition written :: "('v \<Rightarrow> 'c list) \<Rightarrow> (epoch \<times> 'v) list \<Rightarrow> 'c list" where
  "written enc wr = concat (map (\<lambda>(_, v). enc v) wr)"

lemma written_simps [simp]:
  "written enc [] = []" "written enc (xs @ ys) = written enc xs @ written enc ys"
  "written enc (map (Pair e) vs) = concat (map enc vs)"
  by (simp_all add: written_def comp_def)

text \<open>The contents a partition starts from: those loaded, if any.\<close>

definition loaded :: "'c list option \<Rightarrow> 'c list" where
  "loaded base = (case base of None \<Rightarrow> [] | Some t \<Rightarrow> t)"

lemma loaded_simps [simp]: "loaded None = []" "loaded (Some t) = t"
  by (simp_all add: loaded_def)

context sink
begin

text \<open>A change that will be loaded for a partition and lead to the contents \<open>base\<close>.\<close>

definition load_fit :: "'w \<Rightarrow> 'k \<Rightarrow> 'q state_change \<Rightarrow> 'c list option \<Rightarrow> bool" where
  "load_fit w k ch base = (case ch of
       Upsert q \<Rightarrow> offset q \<le> length (contents w k) \<and> base = Some (take (offset q) (contents w k))
     | state_change.Discard \<Rightarrow> base = None)"

text \<open>
  One partition while the calls are for epoch \<open>c\<close> and later ones: \<open>wr\<close> is what has been written to it
  on top of \<open>base\<close>, \<open>rem\<close> the changes still to be loaded.
\<close>

definition part_inv ::
  "epoch \<Rightarrow> ('k, 'p) btree \<Rightarrow> 'k bset \<Rightarrow> 'w \<Rightarrow> 'c list option \<Rightarrow> (epoch \<times> 'v) list \<Rightarrow> 'q state_change multiset \<Rightarrow> 'k \<Rightarrow> bool" where
  "part_inv c pts awk w base wr rem k \<longleftrightarrow>
     sorted (map fst wr) \<and> (\<forall>x \<in> set wr. fst x \<le> c) \<and> (k \<in> set awk \<longleftrightarrow> (\<exists>x \<in> set wr. fst x = c)) \<and>
     (case bt_get pts k of
        Some p \<Rightarrow> live w k p \<and> contents w k = loaded base @ written enc wr \<and> rem = {#}
      | None \<Rightarrow> wr = [] \<and> (rem = {#} \<and> base = None \<or> (\<exists>ch. rem = {#ch#} \<and> load_fit w k ch base)))"

definition parts_inv where
  "parts_inv base c pts awk w wr rem \<longleftrightarrow>
     bt_wf pts \<and> bs_wf awk \<and> (\<forall>k. part_inv c pts awk w (base k) (wr k) (rem k) k)"

lemma part_inv_other:
  assumes "part_inv c pts awk w base wr rem j" and "untouched live contents k w w'" and "j \<noteq> k"
    and "bt_get pts' j = bt_get pts j" and "j \<in> set awk' \<longleftrightarrow> j \<in> set awk"
  shows "part_inv c pts' awk' w' base wr rem j"
proof -
  have "contents w' j = contents w j" "\<And>p. live w j p \<Longrightarrow> live w' j p"
    using assms(2,3) by (auto simp: untouched_def)
  with assms(1,4,5) show ?thesis
    by (auto simp: part_inv_def load_fit_def split: option.splits state_change.splits)
qed

lemma untouched_trans: "untouched live contents k w w' \<Longrightarrow> untouched live contents k w' w'' \<Longrightarrow> untouched live contents k w w''"
  by (simp add: untouched_def)

lemma out_write_ok:
  assumes I: "parts_inv base c pts awk w wr rem" and r: "rem key = {#}" and ne: "items \<noteq> []"
  shows "\<exists>pts' awk' w'. out_write S ((pts, awk), w) (key, items) = Inr ((pts', awk'), w') \<and>
    parts_inv base c pts' awk' w' (wr(key := wr key @ map (Pair c) (map snd items))) rem"
proof -
  have K: "part_inv c pts awk w (base key) (wr key) (rem key) key" using I by (simp add: parts_inv_def)
  have "\<exists>w1 p. (case bt_get pts key of Some p \<Rightarrow> Inr (w, p) | None \<Rightarrow> reraise (sk_build S w key None)) = Inr (w1, p) \<and>
      live w1 key p \<and> contents w1 key = loaded (base key) @ written enc (wr key) \<and> untouched live contents key w w1"
  proof (cases "bt_get pts key")
    case (Some p)
    with K show ?thesis by (simp add: part_inv_def untouched_def)
  next
    case None
    with K r have "wr key = []" "base key = None" by (auto simp: part_inv_def)
    with None build_fresh [of w key] show ?thesis by force
  qed
  then obtain w1 p where b: "(case bt_get pts key of Some p \<Rightarrow> Inr (w, p) | None \<Rightarrow> reraise (sk_build S w key None)) = Inr (w1, p)"
    "live w1 key p" "contents w1 key = loaded (base key) @ written enc (wr key)" "untouched live contents key w w1" by blast
  from write_appends [OF b(2), of "map snd items"] obtain w2 p' where
    w: "sk_write S w1 p (map snd items) = Inr (w2, p')" "live w2 key p'"
    "contents w2 key = contents w1 key @ concat (map enc (map snd items))" "untouched live contents key w1 w2" by blast
  let ?pts = "bt_insert key p' pts" and ?awk = "bs_insert key awk"
    and ?wr = "wr(key := wr key @ map (Pair c) (map snd items))"
  have u: "untouched live contents key w w2" by (rule untouched_trans [OF b(4) w(4)])
  have "part_inv c ?pts ?awk w2 (base j) (?wr j) (rem j) j" for j
  proof (cases "j = key")
    case True
    have "sorted (map fst (wr key))" "\<forall>x \<in> set (wr key). fst x \<le> c" using K by (simp_all add: part_inv_def)
    then have "sorted (map fst (?wr key))" by (auto simp: sorted_append comp_def map_replicate_const)
    moreover have "\<exists>x \<in> set (?wr key). fst x = c" using ne by (cases items) auto
    moreover have "\<forall>x \<in> set (?wr key). fst x \<le> c" using \<open>\<forall>x \<in> set (wr key). fst x \<le> c\<close> by auto
    moreover have "contents w2 key = loaded (base key) @ written enc (?wr key)" unfolding fun_upd_same written_simps w(3) b(3) by simp
    ultimately show ?thesis using w(2) r by (simp add: part_inv_def True)
  next
    case False
    have "part_inv c ?pts ?awk w2 (base j) (wr j) (rem j) j"
      by (rule part_inv_other [OF _ u False]) (use I False in \<open>auto simp: parts_inv_def\<close>)
    with False show ?thesis by simp
  qed
  then have "parts_inv base c ?pts ?awk w2 ?wr rem" using I by (simp add: parts_inv_def)
  moreover have "out_write S ((pts, awk), w) (key, items) = Inr ((?pts, ?awk), w2)"
    using b(1) w(1) by (simp add: out_write_def)
  ultimately show ?thesis by blast
qed

lemma out_writes_ok:
  assumes "parts_inv base c pts awk w wr rem" and "distinct (map fst m)" and "\<forall>x \<in> set m. snd x \<noteq> [] \<and> rem (fst x) = {#}"
  shows "\<exists>pts' awk' w'. efold (out_write S) ((pts, awk), w) m = Inr ((pts', awk'), w') \<and>
    parts_inv base c pts' awk' w' (\<lambda>k. wr k @ map (Pair c) (case bt_get m k of None \<Rightarrow> [] | Some xs \<Rightarrow> map snd xs)) rem"
  using assms
proof (induction m arbitrary: pts awk w wr)
  case Nil
  then show ?case by simp
next
  case (Cons x m)
  obtain key items where x: "x = (key, items)" by fastforce
  have "rem key = {#}" "items \<noteq> []" using Cons.prems(3) by (auto simp: x)
  from out_write_ok [OF Cons.prems(1) this] obtain pts1 awk1 w1 where
    a: "out_write S ((pts, awk), w) (key, items) = Inr ((pts1, awk1), w1)"
    "parts_inv base c pts1 awk1 w1 (wr(key := wr key @ map (Pair c) (map snd items))) rem" by blast
  let ?wr = "wr(key := wr key @ map (Pair c) (map snd items))"
  have e: "(\<lambda>k. ?wr k @ map (Pair c) (case bt_get m k of None \<Rightarrow> [] | Some xs \<Rightarrow> map snd xs)) =
    (\<lambda>k. wr k @ map (Pair c) (case bt_get (x # m) k of None \<Rightarrow> [] | Some xs \<Rightarrow> map snd xs))"
  proof
    fix k
    have "bt_get m key = None" using Cons.prems(2) by (simp add: x map_of_eq_None_iff)
    then show "?wr k @ map (Pair c) (case bt_get m k of None \<Rightarrow> [] | Some xs \<Rightarrow> map snd xs) =
      wr k @ map (Pair c) (case bt_get (x # m) k of None \<Rightarrow> [] | Some xs \<Rightarrow> map snd xs)" by (simp add: x)
  qed
  have "\<exists>pts' awk' w'. efold (out_write S) ((pts1, awk1), w1) m = Inr ((pts', awk'), w') \<and>
    parts_inv base c pts' awk' w' (\<lambda>k. ?wr k @ map (Pair c) (case bt_get m k of None \<Rightarrow> [] | Some xs \<Rightarrow> map snd xs)) rem"
    using Cons.prems(2,3) by (intro Cons.IH [OF a(2)]) auto
  then show ?case unfolding e using a(1) by (simp add: x)
qed

lemma out_snapshots_ok:
  assumes I: "parts_inv base c pts awk w wr rem"
  shows "\<exists>q. emapM (out_snapshot S step e w pts) awk = Inr (map (\<lambda>k. Snap e (Snapshot step k (Upsert (q k)))) awk) \<and>
    (\<forall>k \<in> set awk. offset (q k) = length (loaded (base k) @ written enc (wr k)))"
proof -
  have "\<exists>q. out_snapshot S step e w pts k = Inr (Snap e (Snapshot step k (Upsert q))) \<and>
      offset q = length (loaded (base k) @ written enc (wr k))" if "k \<in> set awk" for k
  proof -
    have K: "part_inv c pts awk w (base k) (wr k) (rem k) k" using I by (simp add: parts_inv_def)
    with that obtain p where p: "bt_get pts k = Some p" "live w k p" "contents w k = loaded (base k) @ written enc (wr k)"
      by (auto simp: part_inv_def split: option.splits)
    from snapshot_offset [OF p(2)] p show ?thesis by (force simp: out_snapshot_def)
  qed
  then obtain q where q: "\<forall>k \<in> set awk. out_snapshot S step e w pts k = Inr (Snap e (Snapshot step k (Upsert (q k)))) \<and>
      offset (q k) = length (loaded (base k) @ written enc (wr k))" by metis
  then have "emapM (out_snapshot S step e w pts) awk = Inr (map (\<lambda>k. Snap e (Snapshot step k (Upsert (q k)))) awk)"
    by (intro emapM_total) simp
  with q show ?thesis by blast
qed

text \<open>Loads come before any item of the partition.\<close>

lemma out_load_ok:
  assumes I: "parts_inv base c pts awk w wr rem" and r: "rem key = add_mset ch R"
  shows "\<exists>pts' w'. out_load S this (pts, w) (this, key, ch) = Inr (pts', w') \<and>
    parts_inv base c pts' awk w' wr (rem(key := R))"
proof -
  have K: "part_inv c pts awk w (base key) (wr key) (rem key) key" using I by (simp add: parts_inv_def)
  with r have k: "bt_get pts key = None" "wr key = []" "R = {#}" "load_fit w key ch (base key)"
    by (auto simp: part_inv_def split: option.splits)
  have na: "key \<notin> set awk" using K k(2) by (simp add: part_inv_def)
  show ?thesis
  proof (cases ch)
    case (Upsert q)
    with k(4) have "offset q \<le> length (contents w key)" "base key = Some (take (offset q) (contents w key))"
      by (simp_all add: load_fit_def)
    with build_from [OF this(1)] obtain w' p where b: "sk_build S w key (Some q) = Inr (w', p)" "live w' key p"
      "contents w' key = loaded (base key)" "untouched live contents key w w'" by auto
    let ?pts = "bt_insert key p pts"
    have "part_inv c ?pts awk w' (base j) (wr j) ((rem(key := R)) j) j" for j
    proof (cases "j = key")
      case True
      with b k na show ?thesis by (simp add: part_inv_def)
    next
      case False
      have "part_inv c ?pts awk w' (base j) (wr j) (rem j) j"
        by (rule part_inv_other [OF _ b(4) False]) (use I False in \<open>auto simp: parts_inv_def\<close>)
      with False show ?thesis by simp
    qed
    then have "parts_inv base c ?pts awk w' wr (rem(key := R))" using I by (simp add: parts_inv_def)
    then show ?thesis using b(1) by (intro exI [of _ ?pts] exI [of _ w']) (simp add: out_load_def Upsert)
  next
    case Discard
    let ?pts = "bt_remove key pts"
    have base: "base key = None" using k(4) Discard by (simp add: load_fit_def)
    have "part_inv c ?pts awk w (base j) (wr j) ((rem(key := R)) j) j" for j
    proof (cases "j = key")
      case True
      with k na base show ?thesis by (simp add: part_inv_def)
    next
      case False
      have "part_inv c ?pts awk w (base j) (wr j) (rem j) j"
        by (rule part_inv_other [OF _ _ False]) (use I False in \<open>auto simp: parts_inv_def untouched_def\<close>)
      with False show ?thesis by simp
    qed
    then have "parts_inv base c ?pts awk w wr (rem(key := R))" using I by (simp add: parts_inv_def)
    then show ?thesis by (intro exI [of _ ?pts] exI [of _ w]) (simp add: out_load_def Discard)
  qed
qed

lemma out_loads_ok:
  assumes "parts_inv base c pts awk w wr (\<lambda>k. mset (changes_for k [(e, xs)]) + rem k)" and "\<forall>x \<in> set xs. fst x = this"
  shows "\<exists>pts' w'. efold (out_load S this) (pts, w) xs = Inr (pts', w') \<and> parts_inv base c pts' awk w' wr rem"
  using assms
proof (induction xs arbitrary: pts w)
  case Nil
  then show ?case by (simp add: changes_for_def)
next
  case (Cons x xs)
  obtain key ch where x: "x = (this, key, ch)" using Cons.prems(2) by (cases x) auto
  let ?rem = "\<lambda>k. mset (changes_for k [(e, x # xs)]) + rem k"
  have "?rem key = add_mset ch (mset (changes_for key [(e, xs)]) + rem key)" by (simp add: changes_for_def x)
  from out_load_ok [OF Cons.prems(1) this] obtain pts1 w1 where
    a: "out_load S this (pts, w) (this, key, ch) = Inr (pts1, w1)"
    "parts_inv base c pts1 awk w1 wr (?rem(key := mset (changes_for key [(e, xs)]) + rem key))" by blast
  have "?rem(key := mset (changes_for key [(e, xs)]) + rem key) = (\<lambda>k. mset (changes_for k [(e, xs)]) + rem k)"
    by (auto simp: changes_for_def x)
  with a(2) have "parts_inv base c pts1 awk w1 wr (\<lambda>k. mset (changes_for k [(e, xs)]) + rem k)" by simp
  from Cons.IH [OF this] Cons.prems(2) a(1) show ?case by (simp add: x)
qed

section \<open>The calls of the notificator\<close>

text \<open>A snapshot for each partition written in a closed epoch, of all that was written up to it.\<close>

definition outs_inv where
  "outs_inv base c wr outs \<longleftrightarrow>
     (\<forall>k e. (\<exists>q. (e, k, q) \<in> set (snaps_in outs)) \<longleftrightarrow> e < c \<and> (\<exists>x \<in> set (wr k). fst x = e)) \<and>
     (\<forall>e k q. (e, k, q) \<in> set (snaps_in outs) \<longrightarrow>
        offset q = length (loaded (base k) @ written enc (filter (\<lambda>x. fst x \<le> e) (wr k))))"

text \<open>
  The state between calls: \<open>recv\<close> are all items received so far, \<open>fut\<close> the changes that are still to
  arrive.
\<close>

definition call_inv where
  "call_inv this resume base recv fut c pts awk b wr outs \<longleftrightarrow>
     parts_inv base c pts awk (ob_world b) wr (\<lambda>k. mset (changes_for k (ob_loads b)) + fut k) \<and>
     inbuf_ok c resume (ob_items b) \<and> loads_ok this c resume (ob_loads b) \<and>
     (\<forall>k e. vals e (wr k) @ pending (ob_items b) k e = vals e (recv k)) \<and>
     outs_inv base c wr outs"

definition waiting :: "('k, 'v, 'q, 'w) out_bufs \<Rightarrow> epoch set" where
  "waiting b = fst ` set (ob_items b) \<union> fst ` set (ob_loads b)"

lemma waiting_ge: "call_inv this resume base recv fut c pts awk b wr outs \<Longrightarrow> \<forall>e \<in> waiting b. c \<le> e"
  by (auto simp: waiting_def call_inv_def inbuf_ok_def loads_ok_def bt_dom)

lemma pending_remove: "pending (bt_remove c buf) k e = (if e = c then [] else pending buf k e)"
  by (simp add: pending_def)

lemma inbuf_ok_remove: "inbuf_ok lo resume buf \<Longrightarrow> inbuf_ok lo resume (bt_remove e buf)"
  by (auto simp: inbuf_ok_def)

lemma loads_ok_remove: "loads_ok this lo resume buf \<Longrightarrow> loads_ok this lo resume (bt_remove e buf)"
  by (auto simp: loads_ok_def split: if_splits)

lemma inbuf_ok_mono: "inbuf_ok lo resume buf \<Longrightarrow> \<forall>e \<in> fst ` set buf. lo' \<le> e \<Longrightarrow> inbuf_ok lo' resume buf"
  by (auto simp: inbuf_ok_def bt_get_eq_Some_iff)

lemma loads_ok_mono: "loads_ok this lo resume buf \<Longrightarrow> \<forall>e \<in> fst ` set buf. lo' \<le> e \<Longrightarrow> loads_ok this lo' resume buf"
  by (force simp: loads_ok_def bt_get_eq_Some_iff)

lemma no_loads:
  assumes "loads_ok this lo resume buf" and "resume \<le> lo"
  shows "buf = []"
proof (cases buf)
  case (Cons x xs)
  obtain e ys where "x = (e, ys)" by fastforce
  with Cons have "bt_get buf e = Some ys" by simp
  with assms have "lo \<le> e" "e < resume" by (auto simp: loads_ok_def)
  with assms(2) show ?thesis by simp
qed simp

lemma outs_inv_append:
  assumes "outs_inv base c wr outs"
  shows "outs_inv base c (\<lambda>k. wr k @ map (Pair c) (f k)) outs"
proof -
  have "filter (\<lambda>x. fst x \<le> e) (map (Pair c) (f k)) = []" if "e < c" for e k using that by (simp add: filter_empty_conv)
  moreover have "e < c" if "(e, k, q) \<in> set (snaps_in outs)" for e k q using assms that by (auto simp: outs_inv_def)
  ultimately show ?thesis using assms by (auto simp: outs_inv_def)
qed

lemma eager_ok:
  fixes outs :: "('s, 'k, 'q) out_event list"
  assumes I: "call_inv this resume base recv fut c pts awk b wr outs" and fut: "\<forall>k. fut k \<noteq> {#} \<longrightarrow> c < resume"
  shows "\<exists>pts' awk' b' wr'. out_eager S (replicate 2 c) ((pts, awk), b) = Inr (((pts', awk'), b'), [] :: ('s, 'k, 'q) out_event list) \<and>
    call_inv this resume base recv fut c pts' awk' b' wr' outs \<and>
    ob_items b' = bt_remove c (ob_items b) \<and> ob_loads b' = ob_loads b"
proof (cases "bt_get (ob_items b) c")
  case None
  then have "bt_remove c (ob_items b) = ob_items b" by (auto simp: bt_remove_def filter_id_conv map_of_eq_None_iff)
  with None I show ?thesis
    by (intro exI [of _ pts] exI [of _ awk] exI [of _ b] exI [of _ wr]) (simp add: out_eager_def)
next
  case (Some m)
  from I Some have m: "resume \<le> c" "lists_ok m" by (auto simp: call_inv_def inbuf_ok_def)
  with I no_loads have l: "ob_loads b = []" by (auto simp: call_inv_def)
  have f: "fut k = {#}" for k using fut m(1) by auto
  have P: "parts_inv base c pts awk (ob_world b) wr (\<lambda>k. {#})"
    using I by (simp add: call_inv_def l f)
  have "distinct (map fst m)" using m(2) by (simp add: lists_ok_def bt_wf_distinct)
  moreover have "\<forall>x \<in> set m. snd x \<noteq> [] \<and> {#} = {#}"
    using m(2) by (auto simp: lists_ok_def bt_get_eq_Some_iff)
  ultimately obtain pts' awk' w' where w: "efold (out_write S) ((pts, awk), ob_world b) m = Inr ((pts', awk'), w')"
    "parts_inv base c pts' awk' w' (\<lambda>k. wr k @ map (Pair c) (case bt_get m k of None \<Rightarrow> [] | Some xs \<Rightarrow> map snd xs)) (\<lambda>k. {#})"
    using out_writes_ok [OF P, of m] by blast
  have pe: "(case bt_get m k of None \<Rightarrow> [] | Some xs \<Rightarrow> map snd xs) = pending (ob_items b) k c" for k
    by (simp add: pending_def Some)
  let ?b = "b\<lparr>ob_items := bt_remove c (ob_items b), ob_world := w'\<rparr>"
  let ?wr = "\<lambda>k. wr k @ map (Pair c) (pending (ob_items b) k c)"
  have "\<forall>k e. vals e (wr k) @ pending (ob_items b) k e = vals e (recv k)" using I by (simp add: call_inv_def)
  then have v: "\<forall>k e. vals e (?wr k) @ pending (ob_items ?b) k e = vals e (recv k)" by (simp add: pending_remove)
  have "call_inv this resume base recv fut c pts' awk' ?b ?wr outs"
    unfolding call_inv_def
  proof (intro conjI)
    show "parts_inv base c pts' awk' (ob_world ?b) ?wr (\<lambda>k. mset (changes_for k (ob_loads ?b)) + fut k)"
      using w(2) by (simp add: pe l f)
    show "outs_inv base c ?wr outs" using I by (simp add: call_inv_def outs_inv_append)
  qed (use I v in \<open>auto simp: call_inv_def inbuf_ok_remove\<close>)
  moreover have "out_eager S (replicate 2 c) ((pts, awk), b) = Inr (((pts', awk'), ?b), [])"
    using w(1) by (simp add: out_eager_def Some numeral_2_eq_2)
  ultimately show ?thesis
    by (intro exI [of _ pts'] exI [of _ awk'] exI [of _ ?b] exI [of _ ?wr]) simp
qed

text \<open>Moving on to a later epoch.\<close>

lemma parts_inv_advance:
  assumes "parts_inv base c pts [] w wr rem" and "c \<le> c'"
  shows "parts_inv base c' pts [] w wr rem"
proof -
  have "part_inv c' pts [] w (base k) (wr k) (rem k) k" for k
  proof -
    have K: "part_inv c pts [] w (base k) (wr k) (rem k) k" using assms(1) by (simp add: parts_inv_def)
    then have "fst x < c" if "x \<in> set (wr k)" for x using that by (auto simp: part_inv_def le_less)
    with K assms(2) show ?thesis by (fastforce simp: part_inv_def)
  qed
  with assms(1) show ?thesis by (simp add: parts_inv_def)
qed

lemma advance_calls:
  assumes I: "call_inv this resume base recv fut c pts [] b wr outs" and c: "c \<le> c'" and w: "\<forall>e \<in> waiting b. c' \<le> e"
  shows "call_inv this resume base recv fut c' pts [] b wr outs"
proof -
  have P: "parts_inv base c pts [] (ob_world b) wr (\<lambda>k. mset (changes_for k (ob_loads b)) + fut k)"
    using I by (simp add: call_inv_def)
  have lt: "fst x < c" if "x \<in> set (wr k)" for x k
    using P that by (auto simp: parts_inv_def part_inv_def le_less)
  have "e < c' \<and> (\<exists>x \<in> set (wr k). fst x = e) \<longleftrightarrow> e < c \<and> (\<exists>x \<in> set (wr k). fst x = e)" for e k
    using lt c by force
  then have "outs_inv base c' wr outs" using I by (simp add: call_inv_def outs_inv_def)
  with I parts_inv_advance [OF P c] w show ?thesis
    by (auto simp: call_inv_def waiting_def intro: inbuf_ok_mono loads_ok_mono)
qed

lemma close_ok:
  assumes I: "call_inv this resume base recv fut c pts awk b wr outs" and c: "c \<notin> fst ` set (ob_items b)"
  shows "\<exists>pts' b' o'. out_close S this step (replicate 2 c) ((pts, awk), b) = Inr (((pts', []), b'), o') \<and>
    call_inv this resume base recv fut (Suc c) pts' [] b' wr (outs @ o') \<and>
    ob_items b' = ob_items b \<and> ob_loads b' = bt_remove c (ob_loads b)"
proof -
  let ?rem = "\<lambda>k. mset (changes_for k (bt_remove c (ob_loads b))) + fut k"
  have P: "parts_inv base c pts awk (ob_world b) wr (\<lambda>k. mset (changes_for k (ob_loads b)) + fut k)"
    and L: "loads_ok this c resume (ob_loads b)" and O: "outs_inv base c wr outs"
    using I by (simp_all add: call_inv_def)
  have wf: "bt_wf (ob_loads b)" using L by (simp add: loads_ok_def)
  from out_snapshots_ok [OF P, of step c] obtain q where
    s: "emapM (out_snapshot S step c (ob_world b) pts) awk = Inr (map (\<lambda>k. Snap c (Snapshot step k (Upsert (q k)))) awk)"
    "\<forall>k \<in> set awk. offset (q k) = length (loaded (base k) @ written enc (wr k))" by blast
  have P': "parts_inv base c pts awk (ob_world b) wr
      (\<lambda>k. mset (changes_for k [(c, inbuf_items (ob_loads b) c)]) + ?rem k)"
    using P by (simp only: changes_for_remove [OF wf, of _ c] union_assoc)
  have "\<forall>x \<in> set (inbuf_items (ob_loads b) c). fst x = this"
    using L by (cases "bt_get (ob_loads b) c") (simp_all add: loads_ok_def inbuf_items_def)
  from out_loads_ok [OF P' this] obtain pts' w' where
    l: "efold (out_load S this) (pts, ob_world b) (inbuf_items (ob_loads b) c) = Inr (pts', w')"
    "parts_inv base c pts' awk w' wr ?rem" by blast
  let ?b = "b\<lparr>ob_loads := bt_remove c (ob_loads b), ob_world := w'\<rparr>"
  let ?o = "Tick c # map (\<lambda>k. Snap c (Snapshot step k (Upsert (q k)))) awk"
  have k: "part_inv c pts' awk w' (base k) (wr k) (?rem k) k" for k using l(2) by (simp add: parts_inv_def)
  then have le: "fst x \<le> c" if "x \<in> set (wr k)" for x k using that by (auto simp: part_inv_def)
  have "part_inv (Suc c) pts' [] w' (base k) (wr k) (?rem k) k" for k
    using k [of k] le [of _ k] by (force simp: part_inv_def)
  then have P2: "parts_inv base (Suc c) pts' [] w' wr ?rem" using l(2) by (simp add: parts_inv_def)
  have awk: "k \<in> set awk \<longleftrightarrow> (\<exists>x \<in> set (wr k). fst x = c)" for k using k [of k] by (simp add: part_inv_def)
  have all: "filter (\<lambda>x. fst x \<le> c) (wr k) = wr k" for k using le by (auto simp: filter_id_conv)
  have O2: "outs_inv base (Suc c) wr (outs @ ?o)"
    unfolding outs_inv_def
  proof (intro conjI allI impI)
    fix k e
    have o: "(\<exists>q. (e, k, q) \<in> set (snaps_in outs)) \<longleftrightarrow> e < c \<and> (\<exists>x \<in> set (wr k). fst x = e)"
      using O by (simp add: outs_inv_def)
    show "(\<exists>q. (e, k, q) \<in> set (snaps_in (outs @ ?o))) \<longleftrightarrow> e < Suc c \<and> (\<exists>x \<in> set (wr k). fst x = e)"
      using o awk [of k] by (auto simp: less_Suc_eq)
  next
    fix e k q' assume "(e, k, q') \<in> set (snaps_in (outs @ ?o))"
    then consider "(e, k, q') \<in> set (snaps_in outs)" | "e = c" "k \<in> set awk" "q' = q k" by auto
    then show "offset q' = length (loaded (base k) @ written enc (filter (\<lambda>x. fst x \<le> e) (wr k)))"
      by cases (use O s(2) all in \<open>auto simp: outs_inv_def\<close>)
  qed
  have keys: "\<forall>e \<in> waiting ?b. Suc c \<le> e"
  proof
    fix e assume "e \<in> waiting ?b"
    then have "e \<in> waiting b" "e \<noteq> c" using c by (auto simp: waiting_def simp flip: bt_dom)
    with waiting_ge [OF I] show "Suc c \<le> e" by fastforce
  qed
  have "inbuf_ok (Suc c) resume (ob_items ?b)"
    by (rule inbuf_ok_mono [of c]) (use I keys in \<open>auto simp: call_inv_def waiting_def\<close>)
  moreover have "loads_ok this (Suc c) resume (ob_loads ?b)"
    by (rule loads_ok_mono [of this c]) (use L keys in \<open>auto simp: waiting_def loads_ok_remove\<close>)
  ultimately have "call_inv this resume base recv fut (Suc c) pts' [] ?b wr (outs @ ?o)"
    using I P2 O2 by (simp add: call_inv_def)
  moreover have "out_close S this step (replicate 2 c) ((pts, awk), b) = Inr (((pts', []), ?b), ?o)"
    using s(1) l(1) by (simp add: out_close_def inbuf_remove_def inbuf_items_def numeral_2_eq_2)
  ultimately show ?thesis by (intro exI [of _ pts'] exI [of _ ?b] exI [of _ ?o]) simp
qed

text \<open>The closed epochs, then the frontier.\<close>

lemma closed_epochs_ok:
  fixes outs :: "('s, 'k, 'q) out_event list"
  assumes "call_inv this resume base recv fut c pts awk b wr outs" and "bs_wf (es @ R)"
    and "\<forall>e \<in> set es. c \<le> e \<and> e < f" and "waiting b \<subseteq> set (es @ R)" and "awk \<noteq> [] \<longrightarrow> c \<in> set (es @ R)"
    and "c \<le> f" and fut: "\<forall>k. fut k \<noteq> {#} \<longrightarrow> f < resume"
  shows "\<exists>c' pts' awk' b' wr' o'. run_calls (out_eager S) (out_close S this step) 2 (((pts, awk), b), outs)
        (concat (map (\<lambda>e. [Eager e, Close e]) es)) = Inr (((pts', awk'), b'), outs @ o') \<and>
    call_inv this resume base recv fut c' pts' awk' b' wr' (outs @ o') \<and> c' \<le> f \<and> waiting b' \<subseteq> set R \<and>
    (awk' \<noteq> [] \<longrightarrow> c' \<in> set R)"
  using assms(1-6)
proof (induction es arbitrary: c pts awk b wr outs)
  case Nil
  then show ?case
    by (intro exI [of _ c] exI [of _ pts] exI [of _ awk] exI [of _ b] exI [of _ wr] exI [of _ "[]"])
      (simp add: run_calls_def)
next
  case (Cons e es)
  have e: "c \<le> e" "e < f" using Cons.prems(3) by simp_all
  have gt: "\<forall>x \<in> set (es @ R). e < x" using Cons.prems(2) by (simp add: bs_wf_Cons)
  have I: "call_inv this resume base recv fut e pts awk b wr outs"
  proof (cases "awk = []")
    case True
    have "\<forall>x \<in> waiting b. e \<le> x"
    proof
      fix x assume "x \<in> waiting b"
      with Cons.prems(4) have "x \<in> set ((e # es) @ R)" by (rule subsetD)
      then have "x = e \<or> x \<in> set (es @ R)" by simp
      then show "e \<le> x"
      proof
        assume "x \<in> set (es @ R)"
        with gt have "e < x" by (rule bspec)
        then show ?thesis by simp
      qed simp
    qed
    moreover have "call_inv this resume base recv fut c pts [] b wr outs" using Cons.prems(1) by (simp add: True)
    ultimately show ?thesis unfolding True using e(1) by (blast intro: advance_calls)
  next
    case False
    with Cons.prems(5) have "c = e \<or> c \<in> set (es @ R)" by simp
    moreover have "c \<notin> set (es @ R)" using bspec [OF gt, of c] e(1) by (meson leD)
    ultimately have "c = e" by blast
    with Cons.prems(1) show ?thesis by simp
  qed
  have "\<forall>k. fut k \<noteq> {#} \<longrightarrow> e < resume" using fut e(2) by (meson less_trans)
  from eager_ok [OF I this] obtain pts1 awk1 b1 wr1 where E:
    "out_eager S (replicate 2 e) ((pts, awk), b) = Inr (((pts1, awk1), b1), [] :: ('s, 'k, 'q) out_event list)"
    "call_inv this resume base recv fut e pts1 awk1 b1 wr1 outs"
    "ob_items b1 = bt_remove e (ob_items b)" "ob_loads b1 = ob_loads b" by blast
  have "e \<notin> fst ` set (ob_items b1)" by (simp add: E(3))
  from close_ok [OF E(2) this, of step] obtain pts2 b2 o2 where C:
    "out_close S this step (replicate 2 e) ((pts1, awk1), b1) = Inr (((pts2, []), b2), o2)"
    "call_inv this resume base recv fut (Suc e) pts2 [] b2 wr1 (outs @ o2)"
    "ob_items b2 = ob_items b1" "ob_loads b2 = bt_remove e (ob_loads b1)" by blast
  have "waiting b2 \<subseteq> waiting b - {e}" by (auto simp: waiting_def C(3,4) E(3,4) simp flip: bt_dom)
  moreover have "waiting b - {e} \<subseteq> set (es @ R)" using Cons.prems(4) by (simp add: Diff_subset_conv)
  ultimately have w: "waiting b2 \<subseteq> set (es @ R)" by (rule subset_trans)
  have "\<forall>x \<in> set es. Suc e \<le> x \<and> x < f" using gt Cons.prems(3) by (simp add: Suc_le_eq)
  moreover have "bs_wf (es @ R)" using Cons.prems(2) by (simp add: bs_wf_Cons)
  ultimately obtain c' pts' awk' b' wr' o' where r:
    "run_calls (out_eager S) (out_close S this step) 2 (((pts2, []), b2), outs @ o2)
        (concat (map (\<lambda>e. [Eager e, Close e]) es)) = Inr (((pts', awk'), b'), (outs @ o2) @ o')"
    "call_inv this resume base recv fut c' pts' awk' b' wr' ((outs @ o2) @ o')" "c' \<le> f" "waiting b' \<subseteq> set R"
    "awk' \<noteq> [] \<longrightarrow> c' \<in> set R"
    using Cons.IH [OF C(2) _ _ w] e(2) by (simp only: Suc_le_eq) blast
  then show ?case using E(1) C(1)
    by (intro exI [of _ c'] exI [of _ pts'] exI [of _ awk'] exI [of _ b'] exI [of _ wr'] exI [of _ "o2 @ o'"])
      (simp add: run_calls_def)
qed

section \<open>Activations\<close>

text \<open>The state between activations, \<open>lo\<close> being the frontier of the last one.\<close>

definition act_inv where
  "act_inv this resume base lo recv fut nc b wr outs \<longleftrightarrow>
     (\<exists>caps pts awk q. nc = \<lparr>caps_state = Some (caps, pts, awk), queue = q\<rparr> \<and> length caps = 2 \<and>
        (\<forall>c \<in> set caps. c \<le> lo) \<and> bs_wf q \<and> (\<forall>e \<in> set q. lo \<le> e) \<and>
        call_inv this resume base recv fut lo pts awk b wr outs \<and> waiting b \<subseteq> set q \<and> (awk \<noteq> [] \<longrightarrow> lo \<in> set q))"

text \<open>What Timely and the routing promise of the messages of an activation.\<close>

definition msgs_ok :: "worker \<Rightarrow> epoch \<Rightarrow> epoch \<Rightarrow> ('k, 'v, 'q) out_msgs \<Rightarrow> bool" where
  "msgs_ok this resume lo m \<longleftrightarrow>
     (\<forall>(e, xs) \<in> set (om_items m). lo \<le> e \<and> resume \<le> e \<and> (\<forall>x \<in> set xs. fst x = this)) \<and>
     (\<forall>(e, xs) \<in> set (om_loads m). lo \<le> e \<and> e < resume \<and> (\<forall>x \<in> set xs. fst x = this))"

lemma receive_ok:
  assumes A: "act_inv this resume base lo recv (\<lambda>k. mset (changes_for k (om_loads m)) + fut k) nc b wr outs"
    and m: "msgs_ok this resume lo m"
  shows "\<exists>items loads nc1 nc2. efold (out_receive this) (ob_items b, nc) (om_items m) = Inr (items, nc1) \<and>
    buffer_notify (om_loads m) (ob_loads b) nc1 = Inr (loads, nc2) \<and>
    act_inv this resume base lo (\<lambda>k. recv k @ for_part k (om_items m)) fut nc2 (b\<lparr>ob_items := items, ob_loads := loads\<rparr>) wr outs"
proof -
  from A obtain caps pts awk q where a: "nc = \<lparr>caps_state = Some (caps, pts, awk), queue = q\<rparr>" "length caps = 2"
    "\<forall>c \<in> set caps. c \<le> lo" "bs_wf q" "\<forall>e \<in> set q. lo \<le> e"
    "call_inv this resume base recv (\<lambda>k. mset (changes_for k (om_loads m)) + fut k) lo pts awk b wr outs"
    "waiting b \<subseteq> set q" "awk \<noteq> [] \<longrightarrow> lo \<in> set q" unfolding act_inv_def by (elim exE conjE)
  have I: "inbuf_ok lo resume (ob_items b)" and L: "loads_ok this lo resume (ob_loads b)"
    using a(6) by (simp_all add: call_inv_def)
  have cs: "caps_state nc \<noteq> None" by (simp add: a(1))
  have mi: "\<forall>(e, xs) \<in> set (om_items m). lo \<le> e \<and> resume \<le> e \<and> (\<forall>x \<in> set xs. fst x = this)"
    and ml: "\<forall>(e, xs) \<in> set (om_loads m). lo \<le> e \<and> e < resume \<and> (\<forall>x \<in> set xs. fst x = this)"
    using m by (simp_all add: msgs_ok_def)
  from out_receive_ok [OF I cs mi] obtain items where r1:
    "efold (out_receive this) (ob_items b, nc) (om_items m) = Inr (items, nc\<lparr>queue := bs_extend (queue nc) (map fst (om_items m))\<rparr>)"
    "inbuf_ok lo resume items" "\<forall>k e. pending items k e = pending (ob_items b) k e @ vals e (for_part k (om_items m))"
    "fst ` set items \<subseteq> fst ` set (om_items m) \<union> fst ` set (ob_items b)" by blast
  let ?nc1 = "nc\<lparr>queue := bs_extend (queue nc) (map fst (om_items m))\<rparr>"
  have cs1: "caps_state ?nc1 \<noteq> None" by (simp add: a(1))
  from loads_receive_ok [OF L cs1 ml] obtain loads where r2:
    "buffer_notify (om_loads m) (ob_loads b) ?nc1 = Inr (loads, ?nc1\<lparr>queue := bs_extend (queue ?nc1) (map fst (om_loads m))\<rparr>)"
    "loads_ok this lo resume loads"
    "\<forall>k. mset (changes_for k loads) = mset (changes_for k (ob_loads b)) + mset (changes_for k (om_loads m))"
    "fst ` set loads \<subseteq> fst ` set (om_loads m) \<union> fst ` set (ob_loads b)" by blast
  let ?q = "bs_extend (bs_extend q (map fst (om_items m))) (map fst (om_loads m))"
  let ?b = "b\<lparr>ob_items := items, ob_loads := loads\<rparr>"
  have C: "call_inv this resume base (\<lambda>k. recv k @ for_part k (om_items m)) fut lo pts awk ?b wr outs"
    unfolding call_inv_def
  proof (intro conjI)
    show "parts_inv base lo pts awk (ob_world ?b) wr (\<lambda>k. mset (changes_for k (ob_loads ?b)) + fut k)"
      using a(6) r2(3) by (simp add: call_inv_def union_assoc)
    have "\<forall>k e. vals e (wr k) @ pending (ob_items b) k e = vals e (recv k)" using a(6) by (simp add: call_inv_def)
    then have "vals e (recv k) = vals e (wr k) @ pending (ob_items b) k e" for k e by simp
    then show "\<forall>k e. vals e (wr k) @ pending (ob_items ?b) k e = vals e (recv k @ for_part k (om_items m))"
      using r1(3) by simp
  qed (use a(6) r1(2) r2(2) in \<open>simp_all add: call_inv_def\<close>)
  have qs: "\<forall>e \<in> set ?q. lo \<le> e" using a(5) mi ml by auto
  have sq: "fst ` set (ob_items b) \<subseteq> set q" "fst ` set (ob_loads b) \<subseteq> set q" using a(7) by (simp_all add: waiting_def)
  have "fst ` set items \<subseteq> set ?q" by (rule subset_trans [OF r1(4)]) (use sq(1) in \<open>simp add: le_supI1\<close>)
  moreover have "fst ` set loads \<subseteq> set ?q" by (rule subset_trans [OF r2(4)]) (use sq(2) in \<open>simp add: le_supI1\<close>)
  ultimately have ws: "waiting ?b \<subseteq> set ?q" by (simp add: waiting_def)
  have "act_inv this resume base lo (\<lambda>k. recv k @ for_part k (om_items m)) fut \<lparr>caps_state = Some (caps, pts, awk), queue = ?q\<rparr> ?b wr outs"
    unfolding act_inv_def using a(2-4,8) C qs ws
    by (intro exI [of _ caps] exI [of _ pts] exI [of _ awk] exI [of _ ?q]) simp
  with r1(1) r2(1) show ?thesis
    by (intro exI [of _ items] exI [of _ loads] exI [of _ ?nc1] exI [of _ "?nc1\<lparr>queue := ?q\<rparr>"]) (simp add: a(1))
qed

text \<open>The calls of one activation that does not see the end of its inputs.\<close>

lemma calls_ok:
  fixes outs :: "('s, 'k, 'q) out_event list"
  assumes A: "act_inv this resume base lo recv fut nc b wr outs" and f: "simplify fs = Some f" "lo \<le> f"
    and fut: "\<forall>k. fut k \<noteq> {#} \<longrightarrow> f < resume"
  shows "\<exists>nc' b' wr' o'. for_each (out_eager S) (out_close S this step) fs nc b = Inr (nc', b', o') \<and>
    act_inv this resume base f recv fut nc' b' wr' (outs @ o') \<and> f \<notin> fst ` set (ob_items b')"
proof -
  let ?E = "out_eager S" and ?C = "out_close S this step"
  from A obtain caps pts awk q where a: "nc = \<lparr>caps_state = Some (caps, pts, awk), queue = q\<rparr>" "length caps = 2"
    "\<forall>c \<in> set caps. c \<le> lo" "bs_wf q" "\<forall>e \<in> set q. lo \<le> e"
    "call_inv this resume base recv fut lo pts awk b wr outs"
    "waiting b \<subseteq> set q" "awk \<noteq> [] \<longrightarrow> lo \<in> set q" unfolding act_inv_def by (elim exE conjE)
  let ?es = "filter (\<lambda>e. e < f) q" and ?R = "filter (\<lambda>e. \<not> e < f) q"
  have split: "q = ?es @ ?R"
  proof (rule bs_ext)
    show "bs_wf (?es @ ?R)" using a(4) by (auto simp: bs_wf_def sorted_wrt_append sorted_wrt_filter)
  qed (use a(4) in auto)
  have wf: "bs_wf (?es @ ?R)" using a(4) split by simp
  have es: "\<forall>e \<in> set ?es. lo \<le> e \<and> e < f" using a(5) by auto
  have w: "waiting b \<subseteq> set (?es @ ?R)" using a(7) split by simp
  have aw: "awk \<noteq> [] \<longrightarrow> lo \<in> set (?es @ ?R)" using a(8) split by simp
  from closed_epochs_ok [OF a(6) wf es w aw f(2) fut, of step] obtain c pts1 awk1 b1 wr1 o1 where r:
    "run_calls ?E ?C 2 (((pts, awk), b), outs) (concat (map (\<lambda>e. [Eager e, Close e]) ?es)) = Inr (((pts1, awk1), b1), outs @ o1)"
    "call_inv this resume base recv fut c pts1 awk1 b1 wr1 (outs @ o1)" "c \<le> f" "waiting b1 \<subseteq> set ?R"
    "awk1 \<noteq> [] \<longrightarrow> c \<in> set ?R" by blast
  have r0: "run_calls ?E ?C 2 (((pts, awk), b), []) (concat (map (\<lambda>e. [Eager e, Close e]) ?es)) = Inr (((pts1, awk1), b1), o1)"
    using run_calls_out [of ?E ?C 2 "((pts, awk), b)" outs] r(1)
    by (auto simp: emap_eq_Inr_iff split: prod.splits)
  have ge: "\<forall>e \<in> set ?R. f \<le> e" by auto
  have I1: "call_inv this resume base recv fut f pts1 awk1 b1 wr1 (outs @ o1)"
  proof (cases "awk1 = []")
    case True
    with r(2) have "call_inv this resume base recv fut c pts1 [] b1 wr1 (outs @ o1)" by simp
    moreover have "\<forall>e \<in> waiting b1. f \<le> e" using r(4) ge by blast
    ultimately show ?thesis unfolding True using r(3) by (blast intro: advance_calls)
  next
    case False
    with r(5) ge r(3) have "c = f" by force
    with r(2) show ?thesis by simp
  qed
  have awf: "awk1 \<noteq> [] \<longrightarrow> f \<in> set ?R" using r(3,5) ge by force
  have sched: "schedule (Some f) q = concat (map (\<lambda>e. [Eager e, Close e]) ?es) @ (if f \<in> set q then [Eager f] else [])"
    by (simp add: schedule_def)
  have caps: "\<forall>c \<in> set caps. (\<forall>e \<in> set (queue nc). c \<le> e) \<and> (\<forall>f'. simplify fs = Some f' \<longrightarrow> c \<le> f')"
    using a(3,5) f by (auto simp: a(1) intro: order_trans)
  have fe: "for_each ?E ?C fs nc b = emap (\<lambda>((d', b'), out). (nc_after (Some f) 2 q d', b', out))
      (run_calls ?E ?C 2 (((pts, awk), b), []) (schedule (Some f) q))"
    using for_each_calls [of nc caps "(pts, awk)" fs ?E ?C b] a(1,2,4) caps f(1) by simp
  have after: "nc_after (Some f) 2 q d = \<lparr>caps_state = Some ([f, f], d), queue = ?R\<rparr>" for d :: "('k, 'p) out_parts"
    by (simp add: nc_after_def numeral_2_eq_2)
  have act: "act_inv this resume base f recv fut (nc_after (Some f) 2 q (pts2, awk2)) b2 wr2 (outs @ o2)"
    if "call_inv this resume base recv fut f pts2 awk2 b2 wr2 (outs @ o2)" "waiting b2 \<subseteq> set ?R" "awk2 \<noteq> [] \<longrightarrow> f \<in> set ?R"
    for pts2 awk2 b2 wr2 and o2 :: "('s, 'k, 'q) out_event list"
    unfolding act_inv_def after using that ge wf
    by (intro exI [of _ "[f, f]"] exI [of _ pts2] exI [of _ awk2] exI [of _ ?R]) (simp add: bs_wf_def sorted_wrt_append)
  show ?thesis
  proof (cases "f \<in> set q")
    case False
    then have "run_calls ?E ?C 2 (((pts, awk), b), []) (schedule (Some f) q) = Inr (((pts1, awk1), b1), o1)"
      using r0 by (simp add: sched)
    moreover have "f \<notin> fst ` set (ob_items b1)" using r(4) False by (auto simp: waiting_def)
    ultimately show ?thesis using act [OF I1 r(4) awf]
      by (intro exI [of _ "nc_after (Some f) 2 q (pts1, awk1)"] exI [of _ b1] exI [of _ wr1] exI [of _ o1]) (simp add: fe)
  next
    case True
    from eager_ok [OF I1 fut] obtain pts2 awk2 b2 wr2 where E:
      "?E (replicate 2 f) ((pts1, awk1), b1) = Inr (((pts2, awk2), b2), [] :: ('s, 'k, 'q) out_event list)"
      "call_inv this resume base recv fut f pts2 awk2 b2 wr2 (outs @ o1)"
      "ob_items b2 = bt_remove f (ob_items b1)" "ob_loads b2 = ob_loads b1" by blast
    have "run_calls ?E ?C 2 (((pts, awk), b), []) (schedule (Some f) q) = Inr (((pts2, awk2), b2), o1)"
      using r0 True E(1) by (simp add: sched run_calls_def efold_append)
    moreover have "f \<notin> fst ` set (ob_items b2)" by (simp add: E(3))
    moreover have "waiting b2 \<subseteq> set ?R" using r(4) by (auto simp: waiting_def E(3,4))
    ultimately show ?thesis using act [OF E(2)] True
      by (intro exI [of _ "nc_after (Some f) 2 q (pts2, awk2)"] exI [of _ b2] exI [of _ wr2] exI [of _ o1]) (simp add: fe)
  qed
qed

text \<open>The last calls.\<close>

lemma last_calls_ok:
  fixes outs :: "('s, 'k, 'q) out_event list"
  assumes A: "act_inv this resume base lo recv fut nc b wr outs" and f: "simplify fs = None" and fut: "\<forall>k. fut k = {#}"
  shows "\<exists>c pts b' wr' q o'. for_each (out_eager S) (out_close S this step) fs nc b =
      Inr (\<lparr>caps_state = None, queue = q\<rparr>, b', o') \<and>
    call_inv this resume base recv fut c pts [] b' wr' (outs @ o') \<and> waiting b' = {} \<and> lo \<le> c"
proof -
  let ?E = "out_eager S" and ?C = "out_close S this step"
  from A obtain caps pts awk q where a: "nc = \<lparr>caps_state = Some (caps, pts, awk), queue = q\<rparr>" "length caps = 2"
    "\<forall>c \<in> set caps. c \<le> lo" "bs_wf q" "\<forall>e \<in> set q. lo \<le> e"
    "call_inv this resume base recv fut lo pts awk b wr outs"
    "waiting b \<subseteq> set q" "awk \<noteq> [] \<longrightarrow> lo \<in> set q" unfolding act_inv_def by (elim exE conjE)
  obtain f where f': "lo \<le> f" "\<forall>e \<in> set q. e < f"
  proof
    show "lo \<le> lo + Suc (sum_list q)" by simp
    show "\<forall>e \<in> set q. e < lo + Suc (sum_list q)" using member_le_sum_list by fastforce
  qed
  have es: "\<forall>e \<in> set q. lo \<le> e \<and> e < f" using a(5) f'(2) by blast
  have w: "bs_wf (q @ [])" "waiting b \<subseteq> set (q @ [])" "awk \<noteq> [] \<longrightarrow> lo \<in> set (q @ [])"
    using a(4,7,8) by simp_all
  have fu: "\<forall>k. fut k \<noteq> {#} \<longrightarrow> f < resume" using fut by simp
  from closed_epochs_ok [OF a(6) w(1) es w(2,3) f'(1) fu, of step] obtain c pts1 awk1 b1 wr1 o1 where r:
    "run_calls ?E ?C 2 (((pts, awk), b), outs) (concat (map (\<lambda>e. [Eager e, Close e]) q)) = Inr (((pts1, awk1), b1), outs @ o1)"
    "call_inv this resume base recv fut c pts1 awk1 b1 wr1 (outs @ o1)" "c \<le> f" "waiting b1 \<subseteq> set []"
    "awk1 \<noteq> [] \<longrightarrow> c \<in> set []" by blast
  have r0: "run_calls ?E ?C 2 (((pts, awk), b), []) (concat (map (\<lambda>e. [Eager e, Close e]) q)) = Inr (((pts1, awk1), b1), o1)"
    using run_calls_out [of ?E ?C 2 "((pts, awk), b)" outs] r(1)
    by (auto simp: emap_eq_Inr_iff split: prod.splits)
  have fe: "for_each ?E ?C fs nc b = emap (\<lambda>((d', b'), out). (nc_after None 2 q d', b', out))
      (run_calls ?E ?C 2 (((pts, awk), b), []) (schedule None q))"
    using for_each_calls [of nc caps "(pts, awk)" fs ?E ?C b] a f by (auto intro: order_trans)
  have sc: "schedule None q = concat (map (\<lambda>e. [Eager e, Close e]) q)" by (simp add: schedule_def)
  show ?thesis
  proof (cases "awk1 = []")
    case True
    have "call_inv this resume base recv fut c pts1 [] b1 wr1 (outs @ o1)" using r(2) by (simp add: True)
    then have I: "call_inv this resume base recv fut (max lo c) pts1 [] b1 wr1 (outs @ o1)"
      by (rule advance_calls) (use r(4) in auto)
    with r(4) show ?thesis unfolding fe sc r0
      by (intro exI [of _ "max lo c"] exI [of _ pts1] exI [of _ b1] exI [of _ wr1] exI [of _ "[]"] exI [of _ o1])
        (simp add: nc_after_def)
  qed (use r(5) in simp)
qed

section \<open>Runs\<close>

end

definition received :: "'k \<Rightarrow> ('k, 'v, 'q) out_msgs list \<Rightarrow> (epoch \<times> 'v) list" where
  "received k ms = concat (map (\<lambda>m. for_part k (om_items m)) ms)"

definition changes :: "'k \<Rightarrow> ('k, 'v, 'q) out_msgs list \<Rightarrow> 'q state_change list" where
  "changes k ms = concat (map (\<lambda>m. changes_for k (om_loads m)) ms)"

definition out_acts :: "('k, 'v, 'q) out_msgs list \<Rightarrow> (epoch list \<times> frontier list) list" where
  "out_acts ms = map (\<lambda>m. (map fst (om_items m) @ map fst (om_loads m), om_frontiers m)) ms"

text \<open>
  The promises of Timely and of the routing: the items are of the resume epoch or later, the loads of
  earlier epochs, and all are for this worker.
\<close>

definition routed_ok :: "worker \<Rightarrow> epoch \<Rightarrow> ('k, 'v, 'q) out_msgs \<Rightarrow> bool" where
  "routed_ok this resume m \<longleftrightarrow>
     (\<forall>(e, xs) \<in> set (om_items m). resume \<le> e \<and> (\<forall>x \<in> set xs. fst x = this)) \<and>
     (\<forall>(e, xs) \<in> set (om_loads m). e < resume \<and> (\<forall>x \<in> set xs. fst x = this))"

definition out_timely :: "worker \<Rightarrow> epoch \<Rightarrow> epoch \<Rightarrow> ('k, 'v, 'q) out_msgs list \<Rightarrow> bool" where
  "out_timely this resume lo ms \<longleftrightarrow> timely_acts lo (out_acts ms) \<and> list_all (routed_ok this resume) ms"

text \<open>The items of an epoch that the frontier has reached are written.\<close>

definition reached :: "epoch option \<Rightarrow> epoch \<Rightarrow> bool" where
  "reached fr e = (case fr of None \<Rightarrow> True | Some f \<Rightarrow> e \<le> f)"

lemma reached_simps [simp]: "reached None e" "reached (Some f) e \<longleftrightarrow> e \<le> f"
  by (simp_all add: reached_def)

text \<open>The items of a partition up to an epoch, in the order of the epochs.\<close>

definition in_epochs :: "(epoch \<Rightarrow> bool) \<Rightarrow> (epoch \<times> 'v) list \<Rightarrow> (epoch \<times> 'v) list" where
  "in_epochs P xs = sort_key fst (filter (\<lambda>x. P (fst x)) xs)"

lemma received_Cons [simp]: "received k (m # ms) = for_part k (om_items m) @ received k ms"
  by (simp add: received_def)

lemma changes_Cons [simp]: "changes k (m # ms) = changes_for k (om_loads m) @ changes k ms"
  by (simp add: changes_def)

lemma received_Nil [simp]: "received k [] = []" "changes k [] = []"
  by (simp_all add: received_def changes_def)

lemma in_epochs_sort: "in_epochs P (in_epochs Q xs) = in_epochs (\<lambda>e. Q e \<and> P e) xs"
proof -
  have "sort_key fst (filter (\<lambda>x. P (fst x)) (sort_key fst ys)) = sort_key fst (filter (\<lambda>x. P (fst x)) ys)"
    for ys :: "(nat \<times> 'a) list" unfolding filter_sort by (rule sort_key_id_if_sorted) simp
  then show ?thesis by (simp add: in_epochs_def conj_commute)
qed

text \<open>After the end of its inputs the operator does nothing.\<close>

lemma for_each_dead: "caps_state nc = None \<Longrightarrow> for_each E C fs nc b = Inr (nc, b, [])"
  by (simp add: for_each_def)

lemma out_activate_dead:
  assumes "caps_state nc = None" and "om_items m = []" and "om_loads m = []"
  shows "out_activate S this step (nc, b) m = Inr ((nc, b), [])"
  unfolding out_activate_def prod.case assms efold.simps ebind_Inr buffer_notify_def for_each_dead [OF assms(1)]
    emap_Inr
  by simp

lemma out_dead:
  assumes "caps_state nc = None" and "\<forall>m \<in> set ms. om_items m = [] \<and> om_loads m = []"
  shows "out_run S this step (nc, b) ms = Inr ((nc, b), [])"
  using assms(2)
proof (induction ms)
  case (Cons m ms)
  have "out_activate S this step (nc, b) m = Inr ((nc, b), [])"
    by (rule out_activate_dead [OF assms(1)]) (use Cons.prems in simp_all)
  moreover have "out_run S this step (nc, b) ms = Inr ((nc, b), [])" by (rule Cons.IH) (use Cons.prems in simp)
  ultimately show ?case by simp
qed simp

context sink
begin

text \<open>What a run has done when its last frontier is \<open>fr\<close>.\<close>

definition run_result where
  "run_result base recv fr resume w outs \<longleftrightarrow>
     (\<forall>k. (in_epochs (reached fr) (recv k) \<noteq> [] \<or> base k \<noteq> None \<and> reached fr resume \<longrightarrow>
            contents w k = loaded (base k) @ written enc (in_epochs (reached fr) (recv k))) \<and>
        (\<forall>e. (\<exists>q. (e, k, q) \<in> set (snaps_in outs)) \<longleftrightarrow> is_closed fr e \<and> (\<exists>x \<in> set (recv k). fst x = e)) \<and>
        (\<forall>e q. (e, k, q) \<in> set (snaps_in outs) \<longrightarrow>
           offset q = length (loaded (base k) @ written enc (in_epochs (\<lambda>e'. e' \<le> e) (recv k)))))"

lemma run_result_intro:
  assumes I: "call_inv this resume base recv fut c pts awk b wr outs"
    and v: "\<And>k e. reached fr e \<Longrightarrow> pending (ob_items b) k e = []" "\<And>k x. x \<in> set (wr k) \<Longrightarrow> reached fr (fst x)"
    and o: "\<And>k x. x \<in> set (wr k) \<Longrightarrow> fst x < c \<longleftrightarrow> is_closed fr (fst x)" "\<And>e. is_closed fr e \<Longrightarrow> reached fr e"
    and r: "reached fr resume \<Longrightarrow> ob_loads b = [] \<and> (\<forall>k. fut k = {#})"
    and lt: "\<And>e e'. e' \<le> e \<Longrightarrow> is_closed fr e \<Longrightarrow> reached fr e'"
  shows "run_result base recv fr resume (ob_world b) outs"
  unfolding run_result_def
proof (intro allI conjI impI)
  fix k
  have eq: "\<forall>k e. vals e (wr k) @ pending (ob_items b) k e = vals e (recv k)" and O: "outs_inv base c wr outs"
    and P: "part_inv c pts awk (ob_world b) (base k) (wr k) (mset (changes_for k (ob_loads b)) + fut k) k"
    using I by (simp_all add: call_inv_def parts_inv_def)
  have vals: "vals e (wr k) = vals e (filter (\<lambda>x. reached fr (fst x)) (recv k))" for e
  proof (cases "reached fr e")
    case True
    with eq v(1) show ?thesis by (metis append_Nil2 filter_vals)
  next
    case False
    with v(2) have "vals e (wr k) = []" by (auto simp: vals_eq_Nil_iff)
    with False show ?thesis by (simp add: filter_vals)
  qed
  have wr: "in_epochs (reached fr) (recv k) = wr k"
    unfolding in_epochs_def by (rule sorted_vals) (use P vals in \<open>simp_all add: part_inv_def\<close>)
  show "contents (ob_world b) k = loaded (base k) @ written enc (in_epochs (reached fr) (recv k))"
    if h: "in_epochs (reached fr) (recv k) \<noteq> [] \<or> base k \<noteq> None \<and> reached fr resume"
  proof -
    from h P r have "bt_get pts k \<noteq> None" by (auto simp: wr part_inv_def changes_for_def split: option.splits)
    with P show ?thesis by (auto simp: wr part_inv_def)
  qed
  show "(\<exists>q. (e, k, q) \<in> set (snaps_in outs)) \<longleftrightarrow> is_closed fr e \<and> (\<exists>x \<in> set (recv k). fst x = e)" for e
  proof -
    have "(\<exists>q. (e, k, q) \<in> set (snaps_in outs)) \<longleftrightarrow> e < c \<and> (\<exists>x \<in> set (wr k). fst x = e)"
      using O by (simp add: outs_inv_def)
    also have "\<dots> \<longleftrightarrow> is_closed fr e \<and> (\<exists>x \<in> set (wr k). fst x = e)" using o(1) by blast
    also have "\<dots> \<longleftrightarrow> is_closed fr e \<and> (\<exists>x \<in> set (recv k). fst x = e)"
      unfolding wr [symmetric] in_epochs_def using o(2) by force
    finally show ?thesis .
  qed
  fix e q assume s: "(e, k, q) \<in> set (snaps_in outs)"
  then have off: "offset q = length (loaded (base k) @ written enc (filter (\<lambda>x. fst x \<le> e) (wr k)))"
    and ex: "e < c \<and> (\<exists>x \<in> set (wr k). fst x = e)" using O unfolding outs_inv_def by blast+
  then have "is_closed fr e" using o(1) by blast
  have "filter (\<lambda>x. fst x \<le> e) (wr k) = in_epochs (\<lambda>e'. e' \<le> e) (wr k)"
    using P by (simp add: in_epochs_def part_inv_def sorted_filter sort_key_id_if_sorted)
  also have "\<dots> = in_epochs (\<lambda>e'. reached fr e' \<and> e' \<le> e) (recv k)" by (simp add: in_epochs_sort flip: wr)
  also have "(\<lambda>e'. reached fr e' \<and> e' \<le> e) = (\<lambda>e'. e' \<le> e)" using lt \<open>is_closed fr e\<close> by blast
  finally show "offset q = length (loaded (base k) @ written enc (in_epochs (\<lambda>e'. e' \<le> e) (recv k)))"
    using off by simp
qed

lemma later_loads:
  assumes "out_timely this resume f ms" and "mset (changes k ms) \<noteq> {#}"
  shows "f < resume"
proof -
  from assms(2) obtain m where m: "m \<in> set ms" "changes_for k (om_loads m) \<noteq> []" by (force simp: changes_def)
  then obtain e xs where l: "(e, xs) \<in> set (om_loads m)" by (force simp: changes_for_def)
  with m(1) have "e \<in> notified (out_acts ms)" by (force simp: notified_def out_acts_def)
  moreover have "timely_acts f (out_acts ms)" using assms(1) by (simp add: out_timely_def)
  ultimately have "f \<le> e" using notified_ge by blast
  moreover have "e < resume" using assms(1) m(1) l by (auto simp: out_timely_def list_all_iff routed_ok_def)
  ultimately show ?thesis by simp
qed

lemma out_run_ok:
  fixes outs :: "('s, 'k, 'q) out_event list"
  assumes "act_inv this resume base lo recv (\<lambda>k. mset (changes k ms)) nc b wr outs" and "lo \<notin> fst ` set (ob_items b)"
    and "out_timely this resume lo ms"
  shows "\<exists>nc' b' o'. out_run S this step (nc, b) ms = Inr ((nc', b'), o') \<and>
    run_result base (\<lambda>k. recv k @ received k ms) (final_frontier (Some lo) (out_acts ms)) resume (ob_world b') (outs @ o')"
  using assms
proof (induction ms arbitrary: lo recv nc b wr outs)
  case Nil
  then obtain pts awk where C: "call_inv this resume base recv (\<lambda>k. {#}) lo pts awk b wr outs"
    by (auto simp: act_inv_def)
  have "run_result base recv (Some lo) resume (ob_world b) outs"
  proof (rule run_result_intro [OF C])
    fix k e assume "reached (Some lo) e"
    moreover have "lo \<le> e" if "bt_get (ob_items b) e \<noteq> None"
      using C that by (auto simp: call_inv_def inbuf_ok_def)
    moreover have "bt_get (ob_items b) lo = None" using Nil(2) by (simp add: map_of_eq_None_iff)
    ultimately have "bt_get (ob_items b) e = None" by (metis le_antisym reached_simps(2))
    then show "pending (ob_items b) k e = []" by (simp add: pending_def)
  next
    show "reached (Some lo) (fst x)" if "x \<in> set (wr k)" for k x
      using C that by (simp add: call_inv_def parts_inv_def part_inv_def)
  next
    show "ob_loads b = [] \<and> (\<forall>k. {#} = {#})" if "reached (Some lo) resume"
      using C that no_loads by (auto simp: call_inv_def)
  qed auto
  then show ?case by (simp add: out_acts_def)
next
  case (Cons m ms)
  have f0: "(\<lambda>k. mset (changes k (m # ms))) = (\<lambda>k. mset (changes_for k (om_loads m)) + mset (changes k ms))" by simp
  have acts: "out_acts (m # ms) = (map fst (om_items m) @ map fst (om_loads m), om_frontiers m) # out_acts ms"
    by (simp add: out_acts_def)
  have T: "timely_acts lo (out_acts (m # ms))" using Cons.prems(3) by (simp add: out_timely_def)
  have M: "msgs_ok this resume lo m"
  proof -
    have "\<forall>x \<in> set (om_items m). lo \<le> fst x" "\<forall>x \<in> set (om_loads m). lo \<le> fst x" using T by (simp_all add: acts)
    moreover have "routed_ok this resume m" using Cons.prems(3) by (simp add: out_timely_def)
    ultimately show ?thesis by (auto simp: msgs_ok_def routed_ok_def)
  qed
  let ?recv = "\<lambda>k. recv k @ for_part k (om_items m)"
  from receive_ok [OF Cons.prems(1) [unfolded f0] M] obtain items loads nc1 nc2 where r:
    "efold (out_receive this) (ob_items b, nc) (om_items m) = Inr (items, nc1)"
    "buffer_notify (om_loads m) (ob_loads b) nc1 = Inr (loads, nc2)"
    "act_inv this resume base lo ?recv (\<lambda>k. mset (changes k ms)) nc2 (b\<lparr>ob_items := items, ob_loads := loads\<rparr>) wr outs"
    by blast
  let ?b = "b\<lparr>ob_items := items, ob_loads := loads\<rparr>"
  have act: "out_activate S this step (nc, b) m = emap (\<lambda>(nc', b', out). ((nc', b'), out))
      (for_each (out_eager S) (out_close S this step) (om_frontiers m) nc2 ?b)"
    by (simp add: out_activate_def r(1,2))
  show ?case
  proof (cases "simplify (om_frontiers m)")
    case (Some f)
    with T have lo: "lo \<le> f" "timely_acts f (out_acts ms)" by (simp_all add: acts)
    then have tm: "out_timely this resume f ms" using Cons.prems(3) by (simp add: out_timely_def)
    have "\<forall>k. mset (changes k ms) \<noteq> {#} \<longrightarrow> f < resume" using later_loads [OF tm] by blast
    from calls_ok [OF r(3) Some lo(1) this, of step] obtain nc' b' wr' o' where c:
      "for_each (out_eager S) (out_close S this step) (om_frontiers m) nc2 ?b = Inr (nc', b', o')"
      "act_inv this resume base f ?recv (\<lambda>k. mset (changes k ms)) nc' b' wr' (outs @ o')"
      "f \<notin> fst ` set (ob_items b')" by blast
    from Cons.IH [OF c(2,3) tm] obtain nc'' b'' o'' where d:
      "out_run S this step (nc', b') ms = Inr ((nc'', b''), o'')"
      "run_result base (\<lambda>k. ?recv k @ received k ms) (final_frontier (Some f) (out_acts ms)) resume (ob_world b'')
         ((outs @ o') @ o'')" by blast
    then show ?thesis by (intro exI [of _ nc''] exI [of _ b''] exI [of _ "o' @ o''"]) (simp add: act c(1) acts Some)
  next
    case None
    with T have "\<forall>a \<in> set (out_acts ms). fst a = [] \<and> simplify (snd a) = None" by (simp add: acts)
    then have none: "\<forall>m \<in> set ms. om_items m = [] \<and> om_loads m = []" and ff: "final_frontier None (out_acts ms) = None"
      by (auto simp: out_acts_def final_None)
    have ch: "changes k ms = []" "received k ms = []" for k
      using none by (simp_all add: changes_def received_def)
    have "\<forall>k. mset (changes k ms) = {#}" by (simp add: ch)
    from last_calls_ok [OF r(3) None this, of step] obtain c pts b' wr' q o' where c:
      "for_each (out_eager S) (out_close S this step) (om_frontiers m) nc2 ?b = Inr (\<lparr>caps_state = None, queue = q\<rparr>, b', o')"
      "call_inv this resume base ?recv (\<lambda>k. mset (changes k ms)) c pts [] b' wr' (outs @ o')" "waiting b' = {}" by blast
    have lt: "fst x < c" if "x \<in> set (wr' k)" for x k
      using c(2) that by (auto simp: call_inv_def parts_inv_def part_inv_def le_less)
    have e: "ob_items b' = []" "ob_loads b' = []" using c(3) by (simp_all add: waiting_def)
    have "run_result base ?recv None resume (ob_world b') (outs @ o')"
      by (rule run_result_intro [OF c(2)]) (use lt in \<open>auto simp: e ch pending_def\<close>)
    moreover have "out_run S this step (\<lparr>caps_state = None, queue = q\<rparr>, b') ms = Inr ((\<lparr>caps_state = None, queue = q\<rparr>, b'), [])"
      by (rule out_dead [OF _ none]) simp
    ultimately show ?thesis
      by (intro exI [of _ "\<lparr>caps_state = None, queue = q\<rparr>"] exI [of _ b'] exI [of _ o']) (simp add: act c(1) acts None ff ch)
  qed
qed

text \<open>A run from its start; every partition is loaded at most once, from a snapshot of its contents.\<close>

lemma out_run_start:
  fixes w :: 'w
  assumes "out_timely this resume lo ms" and "length caps = 2" and "\<forall>c \<in> set caps. c \<le> lo"
    and "\<forall>k. changes k ms = [] \<and> base k = None \<or> (\<exists>ch. changes k ms = [ch] \<and> load_fit w k ch (base k))"
  shows "\<exists>nc b outs. out_run S this step (out_start caps w) ms = Inr ((nc, b), outs) \<and>
    run_result base (\<lambda>k. received k ms) (final_frontier (Some lo) (out_acts ms)) resume (ob_world b)
      (outs :: ('s, 'k, 'q) out_event list)"
proof -
  let ?b = "\<lparr>ob_items = [], ob_loads = [], ob_world = w\<rparr> :: ('k, 'v, 'q, 'w) out_bufs"
  have "part_inv lo [] [] w (base k) [] (mset (changes k ms)) k" for k
  proof (cases "changes k ms = []")
    case True
    with assms(4) show ?thesis by (auto simp: part_inv_def)
  next
    case False
    with assms(4) obtain ch where "changes k ms = [ch]" "load_fit w k ch (base k)" by blast
    then show ?thesis by (simp add: part_inv_def)
  qed
  then have "call_inv this resume base (\<lambda>k. []) (\<lambda>k. mset (changes k ms)) lo [] [] ?b (\<lambda>k. []) ([] :: ('s, 'k, 'q) out_event list)"
    by (simp add: call_inv_def parts_inv_def outs_inv_def pending_def)
  then have A: "act_inv this resume base lo (\<lambda>k. []) (\<lambda>k. mset (changes k ms)) (nc_new caps ([], [])) ?b (\<lambda>k. []) ([] :: ('s, 'k, 'q) out_event list)"
    using assms(2,3) by (simp add: act_inv_def nc_new_def waiting_def)
  have "lo \<notin> fst ` set (ob_items ?b)" by simp
  from out_run_ok [OF A this assms(1), of step] show ?thesis by (simp add: out_start_def inbuf_new_def)
qed

end

end
