(* ===== verification/Worker_Build.thy ===== *)
theory Worker_Build
  imports Py_Errors
begin

text \<open>
  Compiling a dataflow: \<^verbatim>\<open>src/src/dataflow.rs\<close>, the accessors of the Python \<^verbatim>\<open>Operator\<close> objects, and
  \<^verbatim>\<open>build_production_dataflow\<close> of \<^verbatim>\<open>src/src/worker.rs\<close>, which walks the nested steps depth first with a
  stack, builds a Timely operator for each core step, connects it to the streams its ports name and
  attaches the probe. The Timely graph is the list of the operators built, a stream an operator and
  the number of one of its outputs. What the Python calls made while an operator is built do (listing
  partitions, building a dynamic sink, building a clock) is the parameter \<open>py\<close>.
\<close>

section \<open>Operators as Python objects\<close>

type_synonym stream_id = string

text \<open>The classes that values are checked against when they are extracted.\<close>

datatype py_cls =
    Callable | ClockConfig | WindowConfig | Source | FixedPartitionedSource | DynamicSource
  | Sink | FixedPartitionedSink | DynamicSink

datatype attr = Port stream_id | MultiPort "stream_id list" | Value "py_cls list"

text \<open>\<^verbatim>\<open>Operator\<close>: \<open>op_core\<close> says whether it is a \<^verbatim>\<open>_CoreOperator\<close>, \<open>op_name\<close> is the name of its class.\<close>

datatype py_op =
  PyOp (op_name: string) (op_step_id: string) (op_core: bool) (op_attrs: "(string \<times> attr) list") (op_substeps: "py_op list")

definition getattr :: "py_op \<Rightarrow> string \<Rightarrow> attr res" where
  "getattr op name = (case map_of (op_attrs op) name of
       None \<Rightarrow> Inl (PyErr ''AttributeError'') | Some a \<Rightarrow> Inr a)"

definition get_port_stream :: "py_op \<Rightarrow> string \<Rightarrow> stream_id res" where
  "get_port_stream op port = ebind (reraise (getattr op port)) (\<lambda>a. case a of
       Port sid \<Rightarrow> Inr sid | _ \<Rightarrow> Inl (PyErr ''AttributeError''))"

definition get_multiport_streams :: "py_op \<Rightarrow> string \<Rightarrow> stream_id list res" where
  "get_multiport_streams op port = ebind (reraise (getattr op port)) (\<lambda>a. case a of
       MultiPort sids \<Rightarrow> Inr sids | _ \<Rightarrow> Inl (PyErr ''AttributeError''))"

text \<open>\<^verbatim>\<open>get_arg\<close> followed by \<^verbatim>\<open>extract\<close>: the classes of the value, if it is of the wanted one.\<close>

definition extract_as :: "py_cls \<Rightarrow> attr \<Rightarrow> py_cls list res" where
  "extract_as c a = (case a of
       Value cs \<Rightarrow> if c \<in> set cs then Inr cs else Inl (PyErr ''TypeError'')
     | _ \<Rightarrow> Inl (PyErr ''TypeError''))"

definition get_arg :: "py_op \<Rightarrow> string \<Rightarrow> py_cls \<Rightarrow> py_cls list res" where
  "get_arg op name c = ebind (getattr op name) (extract_as c)"

section \<open>The graph\<close>

datatype stream = Out nat nat

datatype built = Built (bt_op: string) (bt_step: string) (bt_ups: "stream list")

record builder =
  graph :: "built list"
  streams :: "stream_id \<Rightarrow> stream option"
  inputs :: "stream list"
  outputs :: "stream list"
  snap_streams :: "stream list"

definition add_op :: "string \<Rightarrow> string \<Rightarrow> stream list \<Rightarrow> builder \<Rightarrow> nat \<times> builder" where
  "add_op name step ups b = (length (graph b), b\<lparr>graph := graph b @ [Built name step ups]\<rparr>)"

section \<open>\<^verbatim>\<open>StreamCache\<close>\<close>

definition cache_get :: "builder \<Rightarrow> stream_id \<Rightarrow> stream res" where
  "cache_get b sid = (case streams b sid of None \<Rightarrow> Inl (PyErr ''ValueError'') | Some s \<Rightarrow> Inr s)"

definition get_upstream :: "builder \<Rightarrow> py_op \<Rightarrow> string \<Rightarrow> stream res" where
  "get_upstream b op port = ebind (get_port_stream op port) (cache_get b)"

definition get_upmultistream :: "builder \<Rightarrow> py_op \<Rightarrow> string \<Rightarrow> stream list res" where
  "get_upmultistream b op port = ebind (get_multiport_streams op port) (emapM (cache_get b))"

definition insert_downstream :: "py_op \<Rightarrow> string \<Rightarrow> stream \<Rightarrow> builder \<Rightarrow> builder res" where
  "insert_downstream op port s b = ebind (get_port_stream op port) (\<lambda>sid.
     if streams b sid \<noteq> None then Inl (PyErr ''ValueError'')
     else Inr (b\<lparr>streams := (streams b)(sid \<mapsto> s)\<rparr>))"

section \<open>The core operators\<close>

text \<open>The stream of the loaded snapshots is the first of the graph.\<close>

definition loads :: stream where
  "loads = Out 0 0"

definition build_noop :: "py_op \<Rightarrow> builder \<Rightarrow> builder res" where
  "build_noop op b = ebind (reraise (get_upstream b op ''up'')) (\<lambda>up. reraise (insert_downstream op ''down'' up b))"

definition build_branch :: "py_op \<Rightarrow> builder \<Rightarrow> builder res" where
  "build_branch op b =
     ebind (get_arg op ''predicate'' Callable) (\<lambda>_.
     ebind (reraise (get_upstream b op ''up'')) (\<lambda>up.
     let (i, b1) = add_op ''branch'' (op_step_id op) [up] b
     in ebind (reraise (insert_downstream op ''trues'' (Out i 0) b1)) (\<lambda>b2.
        reraise (insert_downstream op ''falses'' (Out i 1) b2))))"

definition build_flat_map_batch :: "py_op \<Rightarrow> builder \<Rightarrow> builder res" where
  "build_flat_map_batch op b =
     ebind (get_arg op ''mapper'' Callable) (\<lambda>_.
     ebind (reraise (get_upstream b op ''up'')) (\<lambda>up.
     let (i, b1) = add_op ''flat_map_batch'' (op_step_id op) [up] b
     in reraise (insert_downstream op ''down'' (Out i 0) b1)))"

definition build_fold_window :: "(py_op \<Rightarrow> string \<Rightarrow> unit res) \<Rightarrow> py_op \<Rightarrow> builder \<Rightarrow> builder res" where
  "build_fold_window py op b =
     ebind (get_arg op ''clock'' ClockConfig) (\<lambda>_.
     ebind (get_arg op ''windower'' WindowConfig) (\<lambda>_.
     ebind (get_arg op ''builder'' Callable) (\<lambda>_.
     ebind (get_arg op ''folder'' Callable) (\<lambda>_.
     ebind (get_upstream b op ''up'') (\<lambda>up.
     ebind (reraise (py op ''clock'')) (\<lambda>_.
     ebind (reraise (py op ''windower'')) (\<lambda>_.
     let (i, b1) = add_op ''fold_window'' (op_step_id op) [up, loads] b
     in insert_downstream op ''down'' (Out i 0) (b1\<lparr>snap_streams := snap_streams b1 @ [Out i 1]\<rparr>))))))))"

definition build_input :: "(py_op \<Rightarrow> string \<Rightarrow> unit res) \<Rightarrow> py_op \<Rightarrow> builder \<Rightarrow> builder res" where
  "build_input py op b =
     ebind (get_arg op ''source'' Source) (\<lambda>cs.
     if FixedPartitionedSource \<in> set cs then
       ebind (reraise (py op ''source'')) (\<lambda>_.
       let (i, b1) = add_op ''partitioned_input'' (op_step_id op) [loads] b
       in reraise (insert_downstream op ''down'' (Out i 0)
            (b1\<lparr>inputs := inputs b1 @ [Out i 0], snap_streams := snap_streams b1 @ [Out i 1]\<rparr>)))
     else if DynamicSource \<in> set cs then
       ebind (reraise (py op ''source'')) (\<lambda>_.
       let (i, b1) = add_op ''dynamic_input'' (op_step_id op) [] b
       in reraise (insert_downstream op ''down'' (Out i 0) (b1\<lparr>inputs := inputs b1 @ [Out i 0]\<rparr>)))
     else Inl (PyErr ''TypeError''))"

definition build_inspect_debug :: "py_op \<Rightarrow> builder \<Rightarrow> builder res" where
  "build_inspect_debug op b =
     ebind (get_arg op ''inspector'' Callable) (\<lambda>_.
     ebind (reraise (get_upstream b op ''up'')) (\<lambda>up.
     let (i, b1) = add_op ''inspect_debug'' (op_step_id op) [up] b
     in reraise (insert_downstream op ''down'' (Out i 0) (b1\<lparr>outputs := outputs b1 @ [Out i 1]\<rparr>))))"

definition build_merge :: "py_op \<Rightarrow> builder \<Rightarrow> builder res" where
  "build_merge op b =
     ebind (reraise (get_upmultistream b op ''ups'')) (\<lambda>ups.
     let (i, b1) = add_op ''merge'' (op_step_id op) ups b
     in reraise (insert_downstream op ''down'' (Out i 0) b1))"

definition build_output :: "(py_op \<Rightarrow> string \<Rightarrow> unit res) \<Rightarrow> py_op \<Rightarrow> builder \<Rightarrow> builder res" where
  "build_output py op b =
     ebind (get_arg op ''sink'' Sink) (\<lambda>cs.
     ebind (reraise (get_upstream b op ''up'')) (\<lambda>up.
     if FixedPartitionedSink \<in> set cs then
       ebind (reraise (py op ''sink'')) (\<lambda>_.
       let (i, b1) = add_op ''partitioned_output'' (op_step_id op) [up, loads] b
       in Inr (b1\<lparr>outputs := outputs b1 @ [Out i 0], snap_streams := snap_streams b1 @ [Out i 1]\<rparr>))
     else if DynamicSink \<in> set cs then
       ebind (reraise (py op ''sink'')) (\<lambda>_.
       let (i, b1) = add_op ''dynamic_output'' (op_step_id op) [up] b
       in Inr (b1\<lparr>outputs := outputs b1 @ [Out i 0]\<rparr>))
     else Inl (PyErr ''TypeError'')))"

definition build_redistribute :: "py_op \<Rightarrow> builder \<Rightarrow> builder res" where
  "build_redistribute op b =
     ebind (reraise (get_upstream b op ''up'')) (\<lambda>up.
     let (i, b1) = add_op ''redistribute'' (op_step_id op) [up] b
     in reraise (insert_downstream op ''down'' (Out i 0) b1))"

definition build_unary :: "py_op \<Rightarrow> builder \<Rightarrow> builder res" where
  "build_unary op b =
     ebind (get_arg op ''builder'' Callable) (\<lambda>_.
     ebind (reraise (get_upstream b op ''up'')) (\<lambda>up.
     let (i, b1) = add_op ''unary'' (op_step_id op) [up, loads] b
     in reraise (insert_downstream op ''down'' (Out i 0) (b1\<lparr>snap_streams := snap_streams b1 @ [Out i 1]\<rparr>))))"

definition build_core :: "(py_op \<Rightarrow> string \<Rightarrow> unit res) \<Rightarrow> py_op \<Rightarrow> builder \<Rightarrow> builder res" where
  "build_core py op b =
     (if op_name op = ''_noop'' then build_noop op b
      else if op_name op = ''branch'' then build_branch op b
      else if op_name op = ''flat_map_batch'' then build_flat_map_batch op b
      else if op_name op = ''fold_window'' then build_fold_window py op b
      else if op_name op = ''input'' then build_input py op b
      else if op_name op = ''inspect_debug'' then build_inspect_debug op b
      else if op_name op = ''merge'' then build_merge op b
      else if op_name op = ''output'' then build_output py op b
      else if op_name op = ''redistribute'' then build_redistribute op b
      else if op_name op = ''unary'' then build_unary op b
      else Inl (PyErr ''TypeError''))"

section \<open>The walk over the nested steps\<close>

fun op_size :: "py_op \<Rightarrow> nat" where
  "op_size (PyOp name step core attrs subs) = Suc (sum_list (map op_size subs))"

lemma op_size_subs: "sum_list (map op_size (op_substeps op)) < op_size op"
  by (cases op) simp

lemma sum_list_last: "stack \<noteq> [] \<Longrightarrow> sum_list (map op_size stack) = sum_list (map op_size (butlast stack)) + op_size (last stack)"
  by (induction stack rule: rev_induct) simp_all

text \<open>The stack is a vector: the next step is its last element.\<close>

function build_steps :: "(py_op \<Rightarrow> string \<Rightarrow> unit res) \<Rightarrow> py_op list \<Rightarrow> builder \<Rightarrow> builder res" where
  "build_steps py stack b =
     (if stack = [] then Inr b
      else if op_core (last stack) then ebind (build_core py (last stack) b) (build_steps py (butlast stack))
      else build_steps py (butlast stack @ rev (op_substeps (last stack))) b)"
  by pat_completeness auto

termination
proof (relation "measure (\<lambda>(py, stack, b). sum_list (map op_size stack))")
  fix py :: "py_op \<Rightarrow> string \<Rightarrow> unit res" and stack :: "py_op list" and b b' :: builder
  assume "stack \<noteq> []"
  then show "((py, butlast stack, b'), (py, stack, b)) \<in> measure (\<lambda>(py, stack, b). sum_list (map op_size stack))"
    by (cases "last stack") (simp add: sum_list_last)
next
  fix py :: "py_op \<Rightarrow> string \<Rightarrow> unit res" and stack :: "py_op list" and b :: builder
  assume "stack \<noteq> []"
  then show "((py, butlast stack @ rev (op_substeps (last stack)), b), (py, stack, b)) \<in>
      measure (\<lambda>(py, stack, b). sum_list (map op_size stack))"
    using op_size_subs [of "last stack"] by (simp add: sum_list_last rev_map [symmetric])
qed simp

declare build_steps.simps [simp del]

section \<open>\<^verbatim>\<open>build_production_dataflow\<close>\<close>

text \<open>
  The built graph and the stream the probe is attached to: the recovery writes of all snapshots, or
  without recovery the clocks of all outputs.
\<close>

definition build_start :: "bool \<Rightarrow> builder" where
  "build_start recovery =
     \<lparr>graph = [Built (if recovery then ''load_snaps'' else ''empty'') '''' []], streams = (\<lambda>_. None),
      inputs = [], outputs = [], snap_streams = []\<rparr>"

definition build_probe :: "bool \<Rightarrow> builder \<Rightarrow> built list \<times> stream" where
  "build_probe recovery b =
     (if recovery then
        let (i, b1) = add_op ''concatenate'' '''' (snap_streams b) b;
            (j, b2) = add_op ''write_recovery'' '''' [Out i 0] b1
        in (graph b2, Out j 0)
      else let (i, b1) = add_op ''concatenate'' '''' (outputs b) b in (graph b1, Out i 0))"

definition build_production :: "(py_op \<Rightarrow> string \<Rightarrow> unit res) \<Rightarrow> bool \<Rightarrow> py_op list \<Rightarrow> (built list \<times> stream) res" where
  "build_production py recovery flow =
     ebind (build_steps py (rev flow) (build_start recovery)) (\<lambda>b.
     ebind (eguard (inputs b \<noteq> []) (PyErr ''ValueError'')) (\<lambda>_.
     ebind (eguard (outputs b \<noteq> []) (PyErr ''ValueError'')) (\<lambda>_.
     Inr (build_probe recovery b))))"

end
