(* ===== verification/Worker_Graph.thy ===== *)
theory Worker_Graph
  imports Worker_Build
begin

text \<open>
  What the compilation of a dataflow (theory \<open>Worker_Build\<close>) gives: the walk ends and visits the core
  steps in the order a reader meets them; a flow whose steps have their arguments builds exactly when
  every stream is produced once and before it is used; the graph has no cycles, has one operator per
  step, and its probe watches the outputs, or with recovery the snapshots only.
\<close>

section \<open>The order of the walk\<close>

fun core_steps :: "py_op \<Rightarrow> py_op list" where
  "core_steps (PyOp name step core attrs subs) =
     (if core then [PyOp name step core attrs subs] else concat (map core_steps subs))"

definition flow_steps :: "py_op list \<Rightarrow> py_op list" where
  "flow_steps flow = concat (map core_steps flow)"

lemma core_steps_core: "op_core op \<Longrightarrow> core_steps op = [op]"
  by (cases op) simp

lemma core_steps_substeps: "\<not> op_core op \<Longrightarrow> core_steps op = flow_steps (op_substeps op)"
  by (cases op) (simp add: flow_steps_def)

lemma flow_steps_simps [simp]: "flow_steps [] = []" "flow_steps (op # ops) = core_steps op @ flow_steps ops"
  "flow_steps (xs @ ys) = flow_steps xs @ flow_steps ys"
  by (simp_all add: flow_steps_def)

lemma build_steps_stack:
  "build_steps py stack b = efold (\<lambda>b op. build_core py op b) b (flow_steps (rev stack))"
proof (induction py stack b rule: build_steps.induct)
  case (1 py stack b)
  show ?case
  proof (cases "stack = []")
    case True
    then show ?thesis by (simp add: build_steps.simps)
  next
    case False
    then have "rev stack = last stack # rev (butlast stack)" by (cases stack rule: rev_cases) simp_all
    then have fl: "flow_steps (rev stack) = core_steps (last stack) @ flow_steps (rev (butlast stack))"
      by (simp only: flow_steps_simps)
    show ?thesis
    proof (cases "op_core (last stack)")
      case True
      then show ?thesis using False 1
        by (subst build_steps.simps) (cases "build_core py (last stack) b"; simp add: core_steps_core fl)
    next
      case core: False
      then show ?thesis using False 1
        by (subst build_steps.simps) (simp add: core_steps_substeps fl efold_append)
    qed
  qed
qed

section \<open>Ports\<close>

definition port_id :: "py_op \<Rightarrow> string \<Rightarrow> stream_id option" where
  "port_id op port = (case map_of (op_attrs op) port of Some (Port sid) \<Rightarrow> Some sid | _ \<Rightarrow> None)"

definition multiport_ids :: "py_op \<Rightarrow> string \<Rightarrow> stream_id list option" where
  "multiport_ids op port = (case map_of (op_attrs op) port of Some (MultiPort sids) \<Rightarrow> Some sids | _ \<Rightarrow> None)"

lemma get_port_stream_eq:
  "get_port_stream op port = (case port_id op port of Some sid \<Rightarrow> Inr sid | None \<Rightarrow> Inl (PyErr ''AttributeError''))"
  by (simp add: get_port_stream_def getattr_def port_id_def reraise_def split: option.split attr.split)

lemma get_multiport_streams_eq:
  "get_multiport_streams op port =
     (case multiport_ids op port of Some sids \<Rightarrow> Inr sids | None \<Rightarrow> Inl (PyErr ''AttributeError''))"
  by (simp add: get_multiport_streams_def getattr_def multiport_ids_def reraise_def split: option.split attr.split)

lemma cache_get_eq_Inr_iff [simp]: "cache_get b sid = Inr s \<longleftrightarrow> streams b sid = Some s"
  by (simp add: cache_get_def split: option.split)

lemma get_upstream_eq_Inr_iff:
  "get_upstream b op port = Inr s \<longleftrightarrow> (\<exists>sid. port_id op port = Some sid \<and> streams b sid = Some s)"
  by (auto simp: get_upstream_def get_port_stream_eq ebind_eq_Inr_iff split: option.split)

lemma insert_downstream_eq_Inr_iff:
  "insert_downstream op port s b = Inr b' \<longleftrightarrow>
     (\<exists>sid. port_id op port = Some sid \<and> streams b sid = None \<and> b' = b\<lparr>streams := (streams b)(sid \<mapsto> s)\<rparr>)"
  by (auto simp: insert_downstream_def get_port_stream_eq ebind_eq_Inr_iff split: option.split)

lemma get_upmultistream_ran:
  "get_upmultistream b op port = Inr ups \<Longrightarrow> set ups \<subseteq> ran (streams b)"
  unfolding get_upmultistream_def by (elim ebind_InrE) (auto simp: emapM_Inr_set ran_def)

section \<open>One operator per step\<close>

text \<open>The number of the output an operator's clock or its snapshots go to.\<close>

definition clock_out :: "string \<Rightarrow> nat option" where
  "clock_out name = (if name \<in> {''partitioned_output'', ''dynamic_output''} then Some 0
     else if name = ''inspect_debug'' then Some 1 else None)"

definition snap_out :: "string \<Rightarrow> nat option" where
  "snap_out name = (if name \<in> {''fold_window'', ''partitioned_input'', ''partitioned_output'', ''unary''} then Some 1 else None)"

definition outs_of :: "(string \<Rightarrow> nat option) \<Rightarrow> built list \<Rightarrow> stream list" where
  "outs_of f g = concat (map (\<lambda>i. case f (bt_op (g ! i)) of None \<Rightarrow> [] | Some n \<Rightarrow> [Out i n]) [0..<length g])"

lemma outs_of_append: "outs_of f (g @ [x]) = outs_of f g @ (case f (bt_op x) of None \<Rightarrow> [] | Some n \<Rightarrow> [Out (length g) n])"
proof -
  have "map (\<lambda>i. case f (bt_op ((g @ [x]) ! i)) of None \<Rightarrow> [] | Some n \<Rightarrow> [Out i n]) [0..<length g] =
      map (\<lambda>i. case f (bt_op (g ! i)) of None \<Rightarrow> [] | Some n \<Rightarrow> [Out i n]) [0..<length g]"
    by (rule map_cong) (simp_all add: nth_append)
  moreover have "[0..<length (g @ [x])] = [0..<length g] @ [length g]" by simp
  ultimately show ?thesis
    unfolding outs_of_def by (simp only: map_append list.map concat_append concat.simps nth_append_length append_Nil2)
qed

text \<open>What a step adds: a name for a known stream, or an operator with new streams.\<close>

definition grows :: "string \<Rightarrow> stream list \<Rightarrow> py_op \<Rightarrow> builder \<Rightarrow> builder \<Rightarrow> bool" where
  "grows name ups op b b' \<longleftrightarrow>
     graph b' = graph b @ [Built name (op_step_id op) ups] \<and>
     (\<forall>sid s. streams b' sid = Some s \<longrightarrow> streams b sid = Some s \<or>
        name \<noteq> ''dynamic_output'' \<and> (\<exists>n. s = Out (length (graph b)) n)) \<and>
     outputs b' = outputs b @ (case clock_out name of None \<Rightarrow> [] | Some n \<Rightarrow> [Out (length (graph b)) n]) \<and>
     snap_streams b' = snap_streams b @ (case snap_out name of None \<Rightarrow> [] | Some n \<Rightarrow> [Out (length (graph b)) n])"

definition op_kinds :: "string set" where
  "op_kinds = {''branch'', ''flat_map_batch'', ''fold_window'', ''partitioned_input'', ''dynamic_input'', ''inspect_debug'',
     ''merge'', ''partitioned_output'', ''dynamic_output'', ''redistribute'', ''unary''}"

inductive adds :: "py_op \<Rightarrow> builder \<Rightarrow> builder \<Rightarrow> bool" for op b where
  noop: "op_name op = ''_noop'' \<Longrightarrow> s \<in> ran (streams b) \<Longrightarrow> adds op b (b\<lparr>streams := (streams b)(sid \<mapsto> s)\<rparr>)"
| operator: "op_name op \<noteq> ''_noop'' \<Longrightarrow> name \<in> op_kinds \<Longrightarrow> set ups \<subseteq> insert loads (ran (streams b)) \<Longrightarrow>
    grows name ups op b b' \<Longrightarrow> adds op b b'"

lemma grows_insert:
  assumes "insert_downstream op port (Out (length (graph b)) n) b1 = Inr b2" and "grows name ups op b b1"
    and "name \<noteq> ''dynamic_output''"
  shows "grows name ups op b b2"
proof -
  from assms(1) obtain sid' where e: "b2 = b1\<lparr>streams := (streams b1)(sid' \<mapsto> Out (length (graph b)) n)\<rparr>"
    by (auto simp: insert_downstream_eq_Inr_iff)
  have "streams b sid = Some s \<or> (\<exists>n. s = Out (length (graph b)) n)" if "streams b2 sid = Some s" for sid s
  proof (cases "sid = sid'")
    case True
    with that have "s = Out (length (graph b)) n" by (simp add: e)
    then show ?thesis by blast
  next
    case False
    with that have "streams b1 sid = Some s" by (simp add: e)
    with assms(2) show ?thesis unfolding grows_def by blast
  qed
  with assms(2,3) show ?thesis by (simp add: grows_def) (simp add: e)
qed

lemma get_upstream_ran: "get_upstream b op port = Inr s \<Longrightarrow> s \<in> ran (streams b)"
  by (auto simp: get_upstream_eq_Inr_iff ran_def)

lemma grows_base:
  assumes "graph b1 = graph b @ [Built name (op_step_id op) ups]" and "streams b1 = streams b"
    and "outputs b1 = outputs b @ (case clock_out name of None \<Rightarrow> [] | Some n \<Rightarrow> [Out (length (graph b)) n])"
    and "snap_streams b1 = snap_streams b @ (case snap_out name of None \<Rightarrow> [] | Some n \<Rightarrow> [Out (length (graph b)) n])"
  shows "grows name ups op b b1"
  using assms by (simp add: grows_def)

lemmas out_simps = clock_out_def snap_out_def op_kinds_def

text \<open>An operator with one output that is named by a port.\<close>

lemma adds_one:
  assumes "insert_downstream op port (Out (length (graph b)) n) b1 = Inr b'"
    and "grows name ups op b b1" and "name \<in> op_kinds - {''dynamic_output''}"
    and "set ups \<subseteq> insert loads (ran (streams b))" and "op_name op \<noteq> ''_noop''"
  shows "adds op b b'"
  using adds.operator [OF assms(5) _ assms(4) grows_insert [OF assms(1,2)]] assms(3) by blast

lemma build_noop_adds: "build_noop op b = Inr b' \<Longrightarrow> op_name op = ''_noop'' \<Longrightarrow> adds op b b'"
  unfolding build_noop_def
  by (elim ebind_InrE) (auto simp: insert_downstream_eq_Inr_iff dest!: get_upstream_ran intro: adds.noop)

lemma build_branch_adds:
  assumes "build_branch op b = Inr b'" and "op_name op = ''branch''"
  shows "adds op b b'"
proof -
  from assms(1) obtain up b2 where up: "get_upstream b op ''up'' = Inr up"
    and i: "insert_downstream op ''trues'' (Out (length (graph b)) 0)
        (b\<lparr>graph := graph b @ [Built ''branch'' (op_step_id op) [up]]\<rparr>) = Inr b2"
      "insert_downstream op ''falses'' (Out (length (graph b)) 1) b2 = Inr b'"
    by (auto simp: build_branch_def add_op_def elim!: ebind_InrE)
  have "grows ''branch'' [up] op b (b\<lparr>graph := graph b @ [Built ''branch'' (op_step_id op) [up]]\<rparr>)"
    by (rule grows_base) (simp_all add: out_simps)
  from adds_one [OF i(2) grows_insert [OF i(1) this]] assms(2) get_upstream_ran [OF up]
  show ?thesis by (simp add: out_simps)
qed

lemma build_flat_map_batch_adds:
  assumes "build_flat_map_batch op b = Inr b'" and "op_name op = ''flat_map_batch''"
  shows "adds op b b'"
proof -
  from assms(1) obtain up where up: "get_upstream b op ''up'' = Inr up"
    and i: "insert_downstream op ''down'' (Out (length (graph b)) 0)
        (b\<lparr>graph := graph b @ [Built ''flat_map_batch'' (op_step_id op) [up]]\<rparr>) = Inr b'"
    by (auto simp: build_flat_map_batch_def add_op_def elim!: ebind_InrE)
  from adds_one [OF i grows_base [where name = "''flat_map_batch''" and ups = "[up]"]] assms(2) get_upstream_ran [OF up]
  show ?thesis by (simp add: out_simps)
qed

lemma build_redistribute_adds:
  assumes "build_redistribute op b = Inr b'" and "op_name op = ''redistribute''"
  shows "adds op b b'"
proof -
  from assms(1) obtain up where up: "get_upstream b op ''up'' = Inr up"
    and i: "insert_downstream op ''down'' (Out (length (graph b)) 0)
        (b\<lparr>graph := graph b @ [Built ''redistribute'' (op_step_id op) [up]]\<rparr>) = Inr b'"
    by (auto simp: build_redistribute_def add_op_def elim!: ebind_InrE)
  from adds_one [OF i grows_base [where name = "''redistribute''" and ups = "[up]"]] assms(2) get_upstream_ran [OF up]
  show ?thesis by (simp add: out_simps)
qed

lemma build_merge_adds:
  assumes "build_merge op b = Inr b'" and "op_name op = ''merge''"
  shows "adds op b b'"
proof -
  from assms(1) obtain ups where ups: "get_upmultistream b op ''ups'' = Inr ups"
    and i: "insert_downstream op ''down'' (Out (length (graph b)) 0)
        (b\<lparr>graph := graph b @ [Built ''merge'' (op_step_id op) ups]\<rparr>) = Inr b'"
    by (auto simp: build_merge_def add_op_def elim!: ebind_InrE)
  from adds_one [OF i grows_base [where name = "''merge''" and ups = ups]] assms(2) get_upmultistream_ran [OF ups]
  show ?thesis by (auto simp: out_simps)
qed

lemma build_unary_adds:
  assumes "build_unary op b = Inr b'" and "op_name op = ''unary''"
  shows "adds op b b'"
proof -
  from assms(1) obtain up where up: "get_upstream b op ''up'' = Inr up"
    and i: "insert_downstream op ''down'' (Out (length (graph b)) 0)
        (b\<lparr>graph := graph b @ [Built ''unary'' (op_step_id op) [up, loads]],
           snap_streams := snap_streams b @ [Out (length (graph b)) 1]\<rparr>) = Inr b'"
    by (auto simp: build_unary_def add_op_def elim!: ebind_InrE)
  from adds_one [OF i grows_base [where name = "''unary''" and ups = "[up, loads]"]] assms(2) get_upstream_ran [OF up]
  show ?thesis by (simp add: out_simps)
qed

lemma build_fold_window_adds:
  assumes "build_fold_window py op b = Inr b'" and "op_name op = ''fold_window''"
  shows "adds op b b'"
proof -
  from assms(1) obtain up where up: "get_upstream b op ''up'' = Inr up"
    and i: "insert_downstream op ''down'' (Out (length (graph b)) 0)
        (b\<lparr>graph := graph b @ [Built ''fold_window'' (op_step_id op) [up, loads]],
           snap_streams := snap_streams b @ [Out (length (graph b)) 1]\<rparr>) = Inr b'"
    by (auto simp: build_fold_window_def add_op_def elim!: ebind_InrE)
  from adds_one [OF i grows_base [where name = "''fold_window''" and ups = "[up, loads]"]] assms(2) get_upstream_ran [OF up]
  show ?thesis by (simp add: out_simps)
qed

lemma build_inspect_debug_adds:
  assumes "build_inspect_debug op b = Inr b'" and "op_name op = ''inspect_debug''"
  shows "adds op b b'"
proof -
  from assms(1) obtain up where up: "get_upstream b op ''up'' = Inr up"
    and i: "insert_downstream op ''down'' (Out (length (graph b)) 0)
        (b\<lparr>graph := graph b @ [Built ''inspect_debug'' (op_step_id op) [up]],
           outputs := outputs b @ [Out (length (graph b)) 1]\<rparr>) = Inr b'"
    by (auto simp: build_inspect_debug_def add_op_def elim!: ebind_InrE)
  from adds_one [OF i grows_base [where name = "''inspect_debug''" and ups = "[up]"]] assms(2) get_upstream_ran [OF up]
  show ?thesis by (simp add: out_simps)
qed

lemma build_input_adds:
  assumes "build_input py op b = Inr b'" and "op_name op = ''input''"
  shows "adds op b b'"
proof -
  let ?f = "b\<lparr>graph := graph b @ [Built ''partitioned_input'' (op_step_id op) [loads]],
      inputs := inputs b @ [Out (length (graph b)) 0], snap_streams := snap_streams b @ [Out (length (graph b)) 1]\<rparr>"
  let ?d = "b\<lparr>graph := graph b @ [Built ''dynamic_input'' (op_step_id op) []], inputs := inputs b @ [Out (length (graph b)) 0]\<rparr>"
  from assms(1) consider "insert_downstream op ''down'' (Out (length (graph b)) 0) ?f = Inr b'"
    | "insert_downstream op ''down'' (Out (length (graph b)) 0) ?d = Inr b'"
    by (auto simp: build_input_def add_op_def elim!: ebind_InrE split: if_splits)
  then show ?thesis
  proof cases
    case 1
    from adds_one [OF this grows_base [where name = "''partitioned_input''" and ups = "[loads]"]] assms(2)
    show ?thesis by (simp add: out_simps)
  next
    case 2
    from adds_one [OF this grows_base [where name = "''dynamic_input''" and ups = "[]"]] assms(2)
    show ?thesis by (simp add: out_simps)
  qed
qed

lemma build_output_adds:
  assumes "build_output py op b = Inr b'" and "op_name op = ''output''"
  shows "adds op b b'"
proof -
  from assms(1) obtain up where up: "get_upstream b op ''up'' = Inr up"
    and c: "b' = b\<lparr>graph := graph b @ [Built ''partitioned_output'' (op_step_id op) [up, loads]],
        outputs := outputs b @ [Out (length (graph b)) 0], snap_streams := snap_streams b @ [Out (length (graph b)) 1]\<rparr> \<or>
      b' = b\<lparr>graph := graph b @ [Built ''dynamic_output'' (op_step_id op) [up]],
        outputs := outputs b @ [Out (length (graph b)) 0]\<rparr>"
    by (auto simp: build_output_def add_op_def elim!: ebind_InrE split: if_splits)
  from c show ?thesis
  proof
    assume e: "b' = b\<lparr>graph := graph b @ [Built ''partitioned_output'' (op_step_id op) [up, loads]],
        outputs := outputs b @ [Out (length (graph b)) 0], snap_streams := snap_streams b @ [Out (length (graph b)) 1]\<rparr>"
    show ?thesis
      by (rule adds.operator [where name = "''partitioned_output''" and ups = "[up, loads]"])
        (use assms(2) get_upstream_ran [OF up] in \<open>simp_all add: e out_simps grows_def\<close>)
  next
    assume e: "b' = b\<lparr>graph := graph b @ [Built ''dynamic_output'' (op_step_id op) [up]],
        outputs := outputs b @ [Out (length (graph b)) 0]\<rparr>"
    show ?thesis
      by (rule adds.operator [where name = "''dynamic_output''" and ups = "[up]"])
        (use assms(2) get_upstream_ran [OF up] in \<open>simp_all add: e out_simps grows_def\<close>)
  qed
qed

lemmas build_op_adds = build_noop_adds build_branch_adds build_flat_map_batch_adds build_fold_window_adds build_input_adds
  build_inspect_debug_adds build_merge_adds build_output_adds build_redistribute_adds build_unary_adds

lemma build_core_adds: "build_core py op b = Inr b' \<Longrightarrow> adds op b b'"
  unfolding build_core_def by (simp split: if_splits) (blast intro: build_op_adds)+

section \<open>The graph\<close>

definition acyclic_graph :: "built list \<Rightarrow> bool" where
  "acyclic_graph g \<longleftrightarrow> (\<forall>i < length g. \<forall>j n. Out j n \<in> set (bt_ups (g ! i)) \<longrightarrow> j < i)"

text \<open>No operator uses a stream of a dynamic output.\<close>

definition dynamic_unused :: "built list \<Rightarrow> bool" where
  "dynamic_unused g \<longleftrightarrow> (\<forall>x \<in> set g. \<forall>j n. Out j n \<in> set (bt_ups x) \<longrightarrow> bt_op (g ! j) \<noteq> ''dynamic_output'')"

definition graph_inv :: "py_op list \<Rightarrow> builder \<Rightarrow> bool" where
  "graph_inv ops b \<longleftrightarrow> graph b \<noteq> [] \<and> bt_op (graph b ! 0) \<noteq> ''dynamic_output'' \<and>
     acyclic_graph (graph b) \<and> dynamic_unused (graph b) \<and>
     (\<forall>s \<in> ran (streams b). \<exists>j n. s = Out j n \<and> j < length (graph b) \<and> bt_op (graph b ! j) \<noteq> ''dynamic_output'') \<and>
     outputs b = outs_of clock_out (graph b) \<and> snap_streams b = outs_of snap_out (graph b) \<and>
     map bt_step (tl (graph b)) = map op_step_id (filter (\<lambda>op. op_name op \<noteq> ''_noop'') ops)"

lemma acyclic_append:
  assumes "acyclic_graph g" and "\<forall>j n. Out j n \<in> set (bt_ups x) \<longrightarrow> j < length g"
  shows "acyclic_graph (g @ [x])"
  using assms unfolding acyclic_graph_def by (auto simp: nth_append less_Suc_eq)

lemma dynamic_unused_append:
  assumes "dynamic_unused g" and "acyclic_graph (g @ [x])"
    and "\<forall>j n. Out j n \<in> set (bt_ups x) \<longrightarrow> bt_op (g ! j) \<noteq> ''dynamic_output''"
  shows "dynamic_unused (g @ [x])"
  unfolding dynamic_unused_def
proof (intro ballI allI impI)
  fix y j n assume y: "y \<in> set (g @ [x])" and o: "Out j n \<in> set (bt_ups y)"
  from y obtain i where i: "i < length (g @ [x])" "y = (g @ [x]) ! i" by (metis in_set_conv_nth)
  with o assms(2) have "j < i" by (auto simp: acyclic_graph_def)
  with i(1) have j: "j < length g" by simp
  from y assms(1,3) o have "bt_op (g ! j) \<noteq> ''dynamic_output''" by (auto simp: dynamic_unused_def)
  with j show "bt_op ((g @ [x]) ! j) \<noteq> ''dynamic_output''" by (simp add: nth_append)
qed

lemma adds_graph_inv:
  assumes "adds op b b'" and I: "graph_inv ops b"
  shows "graph_inv (ops @ [op]) b'"
  using assms(1)
proof cases
  case (noop s sid)
  have "ran ((streams b)(sid \<mapsto> s)) \<subseteq> insert s (ran (streams b))" by (auto simp: ran_def split: if_splits)
  with noop I show ?thesis by (auto simp: graph_inv_def)
next
  case (operator name ups)
  let ?x = "Built name (op_step_id op) ups"
  have g: "graph b' = graph b @ [?x]" using operator(4) by (simp add: grows_def)
  have ne: "graph b \<noteq> []" and dy0: "bt_op (graph b ! 0) \<noteq> ''dynamic_output''" using I by (simp_all add: graph_inv_def)
  have known: "\<exists>j n. s = Out j n \<and> j < length (graph b) \<and> bt_op (graph b ! j) \<noteq> ''dynamic_output''"
    if "s \<in> insert loads (ran (streams b))" for s
    using that I dy0 ne by (auto simp: graph_inv_def loads_def)
  have ups: "\<forall>j n. Out j n \<in> set ups \<longrightarrow> j < length (graph b) \<and> bt_op (graph b ! j) \<noteq> ''dynamic_output''"
    using operator(3) known by blast
  have a: "acyclic_graph (graph b')" unfolding g
    by (rule acyclic_append) (use I ups in \<open>simp_all add: graph_inv_def\<close>)
  have d: "dynamic_unused (graph b')" unfolding g
    by (rule dynamic_unused_append) (use I ups a g in \<open>simp_all add: graph_inv_def\<close>)
  have s: "\<exists>j n. s = Out j n \<and> j < length (graph b') \<and> bt_op (graph b' ! j) \<noteq> ''dynamic_output''"
    if "s \<in> ran (streams b')" for s
  proof -
    from that operator(4) have "s \<in> ran (streams b) \<or> name \<noteq> ''dynamic_output'' \<and> (\<exists>n. s = Out (length (graph b)) n)"
      unfolding grows_def ran_def by blast
    then show ?thesis
    proof
      assume "s \<in> ran (streams b)"
      with known obtain j n where "s = Out j n" "j < length (graph b)" "bt_op (graph b ! j) \<noteq> ''dynamic_output''" by blast
      then show ?thesis by (simp add: g nth_append)
    qed (auto simp: g nth_append)
  qed
  have "tl (graph b') = tl (graph b) @ [?x]" using ne by (simp add: g)
  with I a d s operator(1,4) ne show ?thesis
    by (auto simp: graph_inv_def grows_def outs_of_append nth_append)
qed

lemma build_efold_inv:
  "efold (\<lambda>b op. build_core py op b) b ops' = Inr b' \<Longrightarrow> graph_inv ops b \<Longrightarrow> graph_inv (ops @ ops') b'"
proof (induction ops' arbitrary: b ops)
  case Nil
  then show ?case by simp
next
  case (Cons op ops')
  from Cons.prems(1) obtain b1 where b1: "build_core py op b = Inr b1"
    "efold (\<lambda>b op. build_core py op b) b1 ops' = Inr b'" by (auto elim: ebind_InrE)
  from Cons.IH [OF b1(2) adds_graph_inv [OF build_core_adds [OF b1(1)] Cons.prems(2)]] show ?case by simp
qed

lemma build_start_inv: "graph_inv [] (build_start recovery)"
  by (simp add: graph_inv_def build_start_def acyclic_graph_def dynamic_unused_def outs_of_def clock_out_def snap_out_def)

lemma build_production_inv:
  assumes "build_production py recovery flow = Inr (g, p)"
  obtains b where "graph_inv (flow_steps flow) b" and "build_probe recovery b = (g, p)"
    and "graph b ! 0 = Built (if recovery then ''load_snaps'' else ''empty'') '''' []"
proof -
  from assms obtain b where b: "build_steps py (rev flow) (build_start recovery) = Inr b" "build_probe recovery b = (g, p)"
    by (auto simp: build_production_def elim!: ebind_InrE)
  then have e: "efold (\<lambda>b op. build_core py op b) (build_start recovery) (flow_steps flow) = Inr b"
    by (simp add: build_steps_stack)
  have "graph b' ! 0 = graph b0 ! 0 \<and> graph b' \<noteq> []"
    if "efold (\<lambda>b op. build_core py op b) b0 ops = Inr b'" "graph b0 \<noteq> []" for ops b0 b'
    using that
  proof (induction ops arbitrary: b0)
    case (Cons op ops)
    from Cons.prems(1) obtain b1 where b1: "build_core py op b0 = Inr b1"
      "efold (\<lambda>b op. build_core py op b) b1 ops = Inr b'" by (auto elim: ebind_InrE)
    from build_core_adds [OF b1(1)] have "graph b1 ! 0 = graph b0 ! 0 \<and> graph b1 \<noteq> []"
      using Cons.prems(2) by cases (auto simp: grows_def nth_append)
    with Cons.IH [OF b1(2)] show ?case by simp
  qed simp
  from this [OF e] have "graph b ! 0 = Built (if recovery then ''load_snaps'' else ''empty'') '''' []"
    by (simp add: build_start_def)
  with b(2) build_efold_inv [OF e build_start_inv] show ?thesis by (auto intro: that)
qed

section \<open>When a flow builds\<close>

text \<open>The arguments of a core step with their classes, and its ports.\<close>

definition step_args :: "string \<Rightarrow> (string \<times> py_cls) list" where
  "step_args name =
     (if name = ''branch'' then [(''predicate'', Callable)]
      else if name = ''flat_map_batch'' then [(''mapper'', Callable)]
      else if name = ''fold_window'' then
        [(''clock'', ClockConfig), (''windower'', WindowConfig), (''builder'', Callable), (''folder'', Callable)]
      else if name = ''input'' then [(''source'', Source)]
      else if name = ''inspect_debug'' then [(''inspector'', Callable)]
      else if name = ''output'' then [(''sink'', Sink)]
      else if name = ''unary'' then [(''builder'', Callable)] else [])"

definition down_ports :: "string \<Rightarrow> string list" where
  "down_ports name =
     (if name = ''branch'' then [''trues'', ''falses''] else if name = ''output'' then [] else [''down''])"

definition core_names :: "string set" where
  "core_names = {''_noop'', ''branch'', ''flat_map_batch'', ''fold_window'', ''input'', ''inspect_debug'', ''merge'', ''output'',
     ''redistribute'', ''unary''}"

text \<open>A step that Python has checked: it has its arguments and ports, and they are what they should be.\<close>

definition has_arg :: "py_op \<Rightarrow> string \<Rightarrow> py_cls \<Rightarrow> bool" where
  "has_arg op name c \<longleftrightarrow> (case map_of (op_attrs op) name of Some (Value cs) \<Rightarrow> c \<in> set cs | _ \<Rightarrow> False)"

definition well_typed :: "py_op \<Rightarrow> bool" where
  "well_typed op \<longleftrightarrow> op_name op \<in> core_names \<and> list_all (\<lambda>(a, c). has_arg op a c) (step_args (op_name op)) \<and>
     (op_name op = ''input'' \<longrightarrow> has_arg op ''source'' FixedPartitionedSource \<or> has_arg op ''source'' DynamicSource) \<and>
     (op_name op = ''output'' \<longrightarrow> has_arg op ''sink'' FixedPartitionedSink \<or> has_arg op ''sink'' DynamicSink) \<and>
     (if op_name op = ''merge'' then multiport_ids op ''ups'' \<noteq> None
      else op_name op \<noteq> ''input'' \<longrightarrow> port_id op ''up'' \<noteq> None) \<and>
     list_all (\<lambda>p. port_id op p \<noteq> None) (down_ports (op_name op))"

text \<open>The streams a step takes and gives.\<close>

definition step_ups :: "py_op \<Rightarrow> stream_id list" where
  "step_ups op = (if op_name op = ''merge'' then the (multiport_ids op ''ups'')
     else if op_name op = ''input'' then [] else [the (port_id op ''up'')])"

definition step_downs :: "py_op \<Rightarrow> stream_id list" where
  "step_downs op = map (\<lambda>p. the (port_id op p)) (down_ports (op_name op))"

text \<open>Every stream is given before it is taken, and given once.\<close>

fun well_scoped :: "stream_id set \<Rightarrow> py_op list \<Rightarrow> bool" where
  "well_scoped known [] = True"
| "well_scoped known (op # ops) \<longleftrightarrow> set (step_ups op) \<subseteq> known \<and> distinct (step_downs op) \<and>
     set (step_downs op) \<inter> known = {} \<and> well_scoped (known \<union> set (step_downs op)) ops"

definition step_ok :: "py_op \<Rightarrow> builder \<Rightarrow> bool" where
  "step_ok op b \<longleftrightarrow> set (step_ups op) \<subseteq> dom (streams b) \<and> distinct (step_downs op) \<and>
     set (step_downs op) \<inter> dom (streams b) = {}"

lemma has_arg_get: "has_arg op a c \<Longrightarrow> \<exists>cs. get_arg op a c = Inr cs \<and> map_of (op_attrs op) a = Some (Value cs)"
  by (auto simp: has_arg_def get_arg_def getattr_def extract_as_def split: option.splits attr.splits)

lemma get_upstream_port:
  "port_id op port = Some sid \<Longrightarrow> get_upstream b op port = (case streams b sid of Some s \<Rightarrow> Inr s | None \<Rightarrow> Inl (PyErr ''ValueError''))"
  by (simp add: get_upstream_def get_port_stream_eq cache_get_def split: option.split)

lemma insert_downstream_port:
  "port_id op port = Some sid \<Longrightarrow> insert_downstream op port s b =
     (if streams b sid \<noteq> None then Inl (PyErr ''ValueError'') else Inr (b\<lparr>streams := (streams b)(sid \<mapsto> s)\<rparr>))"
  by (simp add: insert_downstream_def get_port_stream_eq)

lemma cache_gets:
  "emapM (cache_get b) sids = (if set sids \<subseteq> dom (streams b) then Inr (map (\<lambda>sid. the (streams b sid)) sids)
     else Inl (PyErr ''ValueError''))"
  by (induction sids) (auto simp: cache_get_def split: option.splits)

lemma reraise_ValueError [simp]: "reraise (Inl (PyErr ''ValueError'')) = Inl (PyErr ''ValueError'')"
  by (simp add: reraise_def)

text \<open>What building a well typed step gives.\<close>

definition step_result :: "py_op \<Rightarrow> builder \<Rightarrow> builder res \<Rightarrow> bool" where
  "step_result op b r \<longleftrightarrow>
     (if step_ok op b then
        \<exists>b'. r = Inr b' \<and> dom (streams b') = dom (streams b) \<union> set (step_downs op) \<and>
          (inputs b' \<noteq> [] \<longleftrightarrow> inputs b \<noteq> [] \<or> op_name op = ''input'') \<and>
          (outputs b' \<noteq> [] \<longleftrightarrow> outputs b \<noteq> [] \<or> op_name op \<in> {''output'', ''inspect_debug''})
      else r = Inl (PyErr ''ValueError''))"

lemmas typed_simps = step_result_def step_ok_def step_ups_def step_downs_def down_ports_def get_upstream_port
  insert_downstream_port add_op_def Let_def

lemma build_noop_result:
  assumes "op_name op = ''_noop''" and "port_id op ''up'' = Some u" and "port_id op ''down'' = Some d"
  shows "step_result op b (build_noop op b)"
  using assms by (cases "streams b u"; cases "streams b d") (auto simp: build_noop_def typed_simps)

lemma build_branch_result:
  assumes "op_name op = ''branch''" and "has_arg op ''predicate'' Callable" and "port_id op ''up'' = Some u"
    and "port_id op ''trues'' = Some d" and "port_id op ''falses'' = Some e"
  shows "step_result op b (build_branch op b)"
  using assms has_arg_get [OF assms(2)]
  by (cases "streams b u"; cases "streams b d"; cases "streams b e") (auto simp: build_branch_def typed_simps)

lemma build_flat_map_batch_result:
  assumes "op_name op = ''flat_map_batch''" and "has_arg op ''mapper'' Callable" and "port_id op ''up'' = Some u"
    and "port_id op ''down'' = Some d"
  shows "step_result op b (build_flat_map_batch op b)"
  using assms has_arg_get [OF assms(2)]
  by (cases "streams b u"; cases "streams b d") (auto simp: build_flat_map_batch_def typed_simps)

lemma build_fold_window_result:
  assumes "op_name op = ''fold_window''" and a: "has_arg op ''clock'' ClockConfig" "has_arg op ''windower'' WindowConfig"
    "has_arg op ''builder'' Callable" "has_arg op ''folder'' Callable"
    and "port_id op ''up'' = Some u" and "port_id op ''down'' = Some d" and "\<forall>c. py op c = Inr ()"
  shows "step_result op b (build_fold_window py op b)"
proof -
  from a [THEN has_arg_get] obtain c1 c2 c3 c4 where "get_arg op ''clock'' ClockConfig = Inr c1"
    "get_arg op ''windower'' WindowConfig = Inr c2" "get_arg op ''builder'' Callable = Inr c3"
    "get_arg op ''folder'' Callable = Inr c4" by blast
  then show ?thesis using assms(1,6-8)
    by (cases "streams b u"; cases "streams b d") (auto simp: build_fold_window_def typed_simps)
qed

lemma build_input_result:
  assumes "op_name op = ''input''" and a: "has_arg op ''source'' Source"
    "has_arg op ''source'' FixedPartitionedSource \<or> has_arg op ''source'' DynamicSource"
    and "port_id op ''down'' = Some d" and "\<forall>c. py op c = Inr ()"
  shows "step_result op b (build_input py op b)"
proof -
  from has_arg_get [OF a(1)] obtain cs where cs: "get_arg op ''source'' Source = Inr cs"
    "map_of (op_attrs op) ''source'' = Some (Value cs)" by blast
  from a(2) cs(2) have "FixedPartitionedSource \<in> set cs \<or> DynamicSource \<in> set cs" by (simp add: has_arg_def)
  with assms(1,4,5) cs(1) show ?thesis
    by (cases "streams b d"; cases "FixedPartitionedSource \<in> set cs") (auto simp: build_input_def typed_simps)
qed

lemma build_inspect_debug_result:
  assumes "op_name op = ''inspect_debug''" and "has_arg op ''inspector'' Callable" and "port_id op ''up'' = Some u"
    and "port_id op ''down'' = Some d"
  shows "step_result op b (build_inspect_debug op b)"
  using assms has_arg_get [OF assms(2)]
  by (cases "streams b u"; cases "streams b d") (auto simp: build_inspect_debug_def typed_simps)

lemma build_merge_result:
  assumes "op_name op = ''merge''" and "multiport_ids op ''ups'' = Some us" and "port_id op ''down'' = Some d"
  shows "step_result op b (build_merge op b)"
proof -
  have "get_upmultistream b op ''ups'' = emapM (cache_get b) us"
    using assms(2) by (simp add: get_upmultistream_def get_multiport_streams_eq)
  then show ?thesis using assms
    by (cases "streams b d"; cases "set us \<subseteq> dom (streams b)") (auto simp: build_merge_def typed_simps cache_gets)
qed

lemma build_output_result:
  assumes "op_name op = ''output''" and a: "has_arg op ''sink'' Sink"
    "has_arg op ''sink'' FixedPartitionedSink \<or> has_arg op ''sink'' DynamicSink"
    and "port_id op ''up'' = Some u" and "\<forall>c. py op c = Inr ()"
  shows "step_result op b (build_output py op b)"
proof -
  from has_arg_get [OF a(1)] obtain cs where cs: "get_arg op ''sink'' Sink = Inr cs"
    "map_of (op_attrs op) ''sink'' = Some (Value cs)" by blast
  from a(2) cs(2) have "FixedPartitionedSink \<in> set cs \<or> DynamicSink \<in> set cs" by (simp add: has_arg_def)
  with assms(1,4,5) cs(1) show ?thesis
    by (cases "streams b u"; cases "FixedPartitionedSink \<in> set cs") (auto simp: build_output_def typed_simps)
qed

lemma build_redistribute_result:
  assumes "op_name op = ''redistribute''" and "port_id op ''up'' = Some u" and "port_id op ''down'' = Some d"
  shows "step_result op b (build_redistribute op b)"
  using assms by (cases "streams b u"; cases "streams b d") (auto simp: build_redistribute_def typed_simps)

lemma build_unary_result:
  assumes "op_name op = ''unary''" and "has_arg op ''builder'' Callable" and "port_id op ''up'' = Some u"
    and "port_id op ''down'' = Some d"
  shows "step_result op b (build_unary op b)"
  using assms has_arg_get [OF assms(2)]
  by (cases "streams b u"; cases "streams b d") (auto simp: build_unary_def typed_simps)

lemmas build_op_results = build_noop_result build_branch_result build_flat_map_batch_result build_fold_window_result
  build_input_result build_inspect_debug_result build_merge_result build_output_result build_redistribute_result
  build_unary_result

lemma build_core_result:
  assumes w: "well_typed op" and py: "\<forall>c. py op c = Inr ()"
  shows "step_result op b (build_core py op b)"
proof -
  have n: "op_name op \<in> core_names" using w by (simp add: well_typed_def)
  show ?thesis
    using n unfolding core_names_def
    by (elim insertE emptyE)
      (use w py in \<open>auto simp: build_core_def well_typed_def step_args_def down_ports_def intro: build_op_results\<close>)
qed

lemma build_steps_result:
  assumes "\<forall>op \<in> set ops. well_typed op \<and> (\<forall>c. py op c = Inr ())"
  shows "if well_scoped (dom (streams b)) ops
    then \<exists>b'. efold (\<lambda>b op. build_core py op b) b ops = Inr b' \<and>
      (inputs b' \<noteq> [] \<longleftrightarrow> inputs b \<noteq> [] \<or> (\<exists>op \<in> set ops. op_name op = ''input'')) \<and>
      (outputs b' \<noteq> [] \<longleftrightarrow> outputs b \<noteq> [] \<or> (\<exists>op \<in> set ops. op_name op \<in> {''output'', ''inspect_debug''}))
    else efold (\<lambda>b op. build_core py op b) b ops = Inl (PyErr ''ValueError'')"
  using assms
proof (induction ops arbitrary: b)
  case Nil
  then show ?case by simp
next
  case (Cons op ops)
  have r: "step_result op b (build_core py op b)" using Cons.prems by (intro build_core_result) simp_all
  show ?case
  proof (cases "step_ok op b")
    case False
    then have "\<not> well_scoped (dom (streams b)) (op # ops)" by (auto simp: step_ok_def)
    moreover have "build_core py op b = Inl (PyErr ''ValueError'')" using r False by (simp add: step_result_def)
    ultimately show ?thesis by simp
  next
    case True
    with r obtain b1 where b1: "build_core py op b = Inr b1" "dom (streams b1) = dom (streams b) \<union> set (step_downs op)"
      "inputs b1 \<noteq> [] \<longleftrightarrow> inputs b \<noteq> [] \<or> op_name op = ''input''"
      "outputs b1 \<noteq> [] \<longleftrightarrow> outputs b \<noteq> [] \<or> op_name op \<in> {''output'', ''inspect_debug''}" by (auto simp: step_result_def)
    from True have s: "well_scoped (dom (streams b)) (op # ops) \<longleftrightarrow> well_scoped (dom (streams b1)) ops"
      by (simp add: step_ok_def b1(2))
    have "\<forall>op \<in> set ops. well_typed op \<and> (\<forall>c. py op c = Inr ())" using Cons.prems by simp
    from Cons.IH [OF this, of b1] show ?thesis unfolding s using b1(1,3,4) by (auto split: if_splits)
  qed
qed

section \<open>Properties\<close>

text \<open>A flow: an input, a step with one core step inside, a dynamic output.\<close>

definition demo_flow :: "py_op list" where
  "demo_flow =
     [PyOp ''input'' ''flow.inp'' True [(''source'', Value [Source, DynamicSource]), (''down'', Port ''inp.down'')] [],
      PyOp ''map'' ''flow.map'' False [(''up'', Port ''inp.down''), (''down'', Port ''map.down'')]
        [PyOp ''flat_map_batch'' ''flow.map.flat_map_batch'' True
           [(''mapper'', Value [Callable]), (''up'', Port ''inp.down''), (''down'', Port ''map.down'')] []],
      PyOp ''output'' ''flow.out'' True [(''sink'', Value [Sink, DynamicSink]), (''up'', Port ''map.down'')] []]"

lemma demo_steps: "flow_steps demo_flow = [demo_flow ! 0, op_substeps (demo_flow ! 1) ! 0, demo_flow ! 2]"
  by (simp add: flow_steps_def demo_flow_def)

lemmas demo_simps = demo_steps demo_flow_def well_typed_def core_names_def step_args_def down_ports_def has_arg_def
  port_id_def step_ups_def step_downs_def

lemma demo_typed: "\<forall>op \<in> set (flow_steps demo_flow). well_typed op \<and> (\<forall>c. (\<lambda>_ _. Inr ()) op c = (Inr () :: unit res))"
  by (simp add: demo_simps)

text \<open>Claim C15. If the core steps of a flow have their arguments and ports, and the Python calls made
  while building them raise nothing, then compiling it succeeds exactly when every stream is given by
  one step only, before any step takes it, and there are an input and an output or inspect step;
  otherwise it raises a \<^verbatim>\<open>ValueError\<close>. Only the order of the core steps counts, not their nesting.\<close>

theorem flow_builds_iff_scoped:
  assumes "\<forall>op \<in> set (flow_steps flow). well_typed op \<and> (\<forall>c. py op c = Inr ())"
  shows "if well_scoped {} (flow_steps flow) \<and> (\<exists>op \<in> set (flow_steps flow). op_name op = ''input'') \<and>
      (\<exists>op \<in> set (flow_steps flow). op_name op \<in> {''output'', ''inspect_debug''})
    then \<exists>g p. build_production py recovery flow = Inr (g, p)
    else build_production py recovery flow = Inl (PyErr ''ValueError'')"
proof -
  have b: "build_steps py (rev flow) (build_start recovery) =
      efold (\<lambda>b op. build_core py op b) (build_start recovery) (flow_steps flow)" by (simp add: build_steps_stack)
  have start: "dom (streams (build_start recovery)) = {}" "inputs (build_start recovery) = []"
    "outputs (build_start recovery) = []" by (simp_all add: build_start_def)
  have r: "\<exists>g p. build_probe recovery b = (g, p)" for b by (metis prod.exhaust)
  from build_steps_result [OF assms, of "build_start recovery"] r show ?thesis
    by (auto simp: build_production_def b start eguard_def split: if_splits)
qed

theorem flow_builds_iff_scoped_witness: "\<exists>g p. build_production (\<lambda>_ _. Inr ()) True demo_flow = Inr (g, p)"
  using flow_builds_iff_scoped [OF demo_typed, of True] by (simp add: demo_simps)

text \<open>Claim C32. The compiled graph: first the loads, then one operator for each core step but
  \<^verbatim>\<open>_noop\<close>, in the order in which the steps stand in the flow; at the end what the probe watches,
  without recovery the clocks of all outputs and inspections, with recovery the recovery writes of all
  snapshots. Every operator takes streams of earlier ones only, so there is no cycle.\<close>

theorem graph_in_flow_order:
  assumes "build_production py recovery flow = Inr (g, p)"
  shows "\<exists>ops. let loader = Built (if recovery then ''load_snaps'' else ''empty'') '''' [];
        core = loader # ops; n = length core
      in g = core @ (if recovery
            then [Built ''concatenate'' '''' (outs_of snap_out core), Built ''write_recovery'' '''' [Out n 0]]
            else [Built ''concatenate'' '''' (outs_of clock_out core)]) \<and>
         p = Out (length g - 1) 0 \<and>
         map bt_step ops = map op_step_id (filter (\<lambda>op. op_name op \<noteq> ''_noop'') (flow_steps flow)) \<and>
         acyclic_graph g"
proof -
  obtain b where b: "graph_inv (flow_steps flow) b" "build_probe recovery b = (g, p)"
    "graph b ! 0 = Built (if recovery then ''load_snaps'' else ''empty'') '''' []"
    using assms by (rule build_production_inv)
  have ne: "graph b \<noteq> []" and a: "acyclic_graph (graph b)" using b(1) by (simp_all add: graph_inv_def)
  then have core: "graph b = Built (if recovery then ''load_snaps'' else ''empty'') '''' [] # tl (graph b)"
    using b(3) by (metis hd_conv_nth list.collapse)
  have outs: "\<forall>j n. Out j n \<in> set (outs_of f (graph b)) \<longrightarrow> j < length (graph b)" for f
    by (auto simp: outs_of_def split: option.splits)
  have c: "acyclic_graph (graph b @ [Built ''concatenate'' '''' (outs_of f (graph b))])" for f
    by (rule acyclic_append) (use a outs in simp_all)
  have w: "acyclic_graph ((graph b @ [Built ''concatenate'' '''' (outs_of f (graph b))]) @ [Built ''write_recovery'' '''' [Out (length (graph b)) 0]])" for f
    by (rule acyclic_append) (use c in simp_all)
  have s: "outputs b = outs_of clock_out (graph b)" "snap_streams b = outs_of snap_out (graph b)"
    "map bt_step (tl (graph b)) = map op_step_id (filter (\<lambda>op. op_name op \<noteq> ''_noop'') (flow_steps flow))"
    using b(1) by (simp_all add: graph_inv_def)
  show ?thesis
  proof (intro exI [of _ "tl (graph b)"])
    show "let loader = Built (if recovery then ''load_snaps'' else ''empty'') '''' [];
        core = loader # tl (graph b); n = length core
      in g = core @ (if recovery
            then [Built ''concatenate'' '''' (outs_of snap_out core), Built ''write_recovery'' '''' [Out n 0]]
            else [Built ''concatenate'' '''' (outs_of clock_out core)]) \<and>
         p = Out (length g - 1) 0 \<and>
         map bt_step (tl (graph b)) = map op_step_id (filter (\<lambda>op. op_name op \<noteq> ''_noop'') (flow_steps flow)) \<and>
         acyclic_graph g"
      using b(2) s c [of clock_out] w [of snap_out]
      unfolding Let_def core [symmetric] build_probe_def add_op_def prod.case
      by (cases recovery) auto
  qed
qed

theorem graph_in_flow_order_witness:
  "\<exists>g p ops. build_production (\<lambda>_ _. Inr ()) False demo_flow = Inr (g, p) \<and> acyclic_graph g \<and>
     map bt_step ops = [''flow.inp'', ''flow.map.flat_map_batch'', ''flow.out''] \<and>
     g = Built ''empty'' '''' [] # ops @ [Built ''concatenate'' '''' (outs_of clock_out (Built ''empty'' '''' [] # ops))]"
proof -
  obtain g p where b: "build_production (\<lambda>_ _. Inr ()) False demo_flow = Inr (g, p)"
    using flow_builds_iff_scoped [OF demo_typed, of False] by (auto simp: demo_simps)
  from graph_in_flow_order [OF b] b show ?thesis by (auto simp: Let_def demo_simps)
qed

text \<open>With recovery the probe does not watch the dynamic outputs: no operator of the graph
  takes a stream of one, and the probe is not attached to one. So the worker can find the dataflow
  finished, and drop it, while items still wait in front of a dynamic output.\<close>

theorem probe_skips_dynamic_outputs:
  assumes "build_production py True flow = Inr (g, p)" and "i < length g" and "bt_op (g ! i) = ''dynamic_output''"
  shows "(\<forall>x \<in> set g. \<forall>n. Out i n \<notin> set (bt_ups x)) \<and> (\<forall>n. p \<noteq> Out i n)"
proof -
  obtain b where b: "graph_inv (flow_steps flow) b" "build_probe True b = (g, p)"
    using assms(1) by (rule build_production_inv)
  let ?c = "Built ''concatenate'' '''' (snap_streams b)" and ?w = "Built ''write_recovery'' '''' [Out (length (graph b)) 0]"
  from b(2) have g: "g = graph b @ [?c, ?w]" and p: "p = Out (Suc (length (graph b))) 0"
    by (simp_all add: build_probe_def add_op_def)
  from assms(2,3) have i: "i < length (graph b)" "bt_op (graph b ! i) = ''dynamic_output''"
    by (auto simp: g nth_append nth_Cons less_Suc_eq split: if_splits nat.splits)
  have d: "Out i n \<notin> set (bt_ups x)" if "x \<in> set (graph b)" for x n
    using b(1) i(2) that by (auto simp: graph_inv_def dynamic_unused_def)
  have "Out i n \<notin> set (snap_streams b)" for n
    using b(1) i(2) by (auto simp: graph_inv_def outs_of_def snap_out_def split: if_splits)
  with d i(1) show ?thesis by (auto simp: g p)
qed

theorem probe_skips_dynamic_outputs_witness:
  "\<exists>g p. build_production (\<lambda>_ _. Inr ()) True demo_flow = Inr (g, p) \<and> bt_op (g ! 3) = ''dynamic_output'' \<and>
     (\<forall>x \<in> set g. \<forall>n. Out 3 n \<notin> set (bt_ups x)) \<and> (\<forall>n. p \<noteq> Out 3 n)"
proof -
  have b: "build_production (\<lambda>_ _. Inr ()) True demo_flow =
    Inr ([Built ''load_snaps'' '''' [], Built ''dynamic_input'' ''flow.inp'' [],
        Built ''flat_map_batch'' ''flow.map.flat_map_batch'' [Out 1 0], Built ''dynamic_output'' ''flow.out'' [Out 2 0],
        Built ''concatenate'' '''' [], Built ''write_recovery'' '''' [Out 4 0]], Out 5 0)"
    by (simp add: build_production_def build_steps_stack demo_simps build_core_def build_input_def build_flat_map_batch_def
        build_output_def get_arg_def getattr_def extract_as_def get_upstream_def cache_get_def insert_downstream_def
        get_port_stream_def add_op_def build_start_def build_probe_def)
  from probe_skips_dynamic_outputs [OF b, of 3] b show ?thesis by simp
qed

end
