(* ===== verification/Worker_Run.thy ===== *)
theory Worker_Run
  imports Worker_Graph Resume
begin

text \<open>
  Running a worker: the loop of \<^verbatim>\<open>Worker::run\<close>, \<^verbatim>\<open>worker_main\<close> with its two dataflows
  (\<^verbatim>\<open>src/src/worker.rs\<close>), and the entry points of \<^verbatim>\<open>src/src/run.rs\<close> with their treatment of panics and
  signals. A step of the Timely worker is a parameter. The loop may run for ever; then the result of
  \<open>worker_run\<close> is \<open>None\<close>.
\<close>

section \<open>\<^verbatim>\<open>Worker::run\<close>\<close>

text \<open>
  \<open>abort\<close> is the flag the inputs set, \<open>interrupt\<close> the callback, which may panic, \<open>finished\<close> is \<^verbatim>\<open>probe.done()\<close>;
  they are asked in this order before each step.
\<close>

definition worker_stop :: "('w \<Rightarrow> bool) \<Rightarrow> ('w \<Rightarrow> bool res) \<Rightarrow> ('w \<Rightarrow> bool) \<Rightarrow> 'w \<Rightarrow> bool res" where
  "worker_stop abort interrupt finished w =
     (if abort w then Inr True else emap (\<lambda>i. i \<or> finished w) (interrupt w))"

partial_function (option) worker_run :: "('w \<Rightarrow> bool res) \<Rightarrow> ('w \<Rightarrow> 'w res) \<Rightarrow> 'w \<Rightarrow> 'w res option" where
  "worker_run stop step w = (case stop w of
       Inl e \<Rightarrow> Some (Inl e)
     | Inr ended \<Rightarrow> if ended then Some (Inr w)
         else (case step w of Inl e \<Rightarrow> Some (Inl e) | Inr w' \<Rightarrow> worker_run stop step w'))"

text \<open>\<^verbatim>\<open>Worker::shutdown\<close> drops every installed dataflow.\<close>

definition worker_shutdown :: "('w \<Rightarrow> 'd list) \<Rightarrow> ('d \<Rightarrow> 'w \<Rightarrow> 'w) \<Rightarrow> 'w \<Rightarrow> 'w" where
  "worker_shutdown installed drop_dataflow w = foldl (\<lambda>w d. drop_dataflow d w) w (installed w)"

section \<open>\<^verbatim>\<open>worker_main\<close>\<close>

definition rbind :: "'a res option \<Rightarrow> ('a \<Rightarrow> 'b res option) \<Rightarrow> 'b res option" where
  "rbind m f = (case m of None \<Rightarrow> None | Some (Inl e) \<Rightarrow> Some (Inl e) | Some (Inr x) \<Rightarrow> f x)"

lemma rbind_simps [simp]: "rbind None f = None" "rbind (Some (Inl e)) f = Some (Inl e)" "rbind (Some (Inr x)) f = f x"
  by (simp_all add: rbind_def)

text \<open>The exceptions of \<^verbatim>\<open>resume_from\<close> as Python exceptions.\<close>

definition resume_result :: "resume_error + resume_from \<Rightarrow> resume_from res" where
  "resume_result r = (case r of
       Inr rf \<Rightarrow> Inr rf
     | Inl NoPartitionsError \<Rightarrow> Inl (PyErr ''NoPartitionsError'')
     | Inl InconsistentCountsError \<Rightarrow> Inl (PyErr ''ValueError'')
     | Inl (MissingPartitionsError _ _) \<Rightarrow> Inl (PyErr ''MissingPartitionsError'')
     | Inl (InconsistentPartitionsError _ _) \<Rightarrow> Inl (PyErr ''InconsistentPartitionsError''))"

text \<open>
  What \<^verbatim>\<open>worker_main\<close> calls: building the recovery bundle, building the two dataflows (each gives the
  worker with the dataflow installed), running one until its probe is done, reading the in-memory
  database the first one filled, and dropping all dataflows.
\<close>

record ('w, 'c, 'b, 's, 'k) worker_ops =
  wo_config :: "'c \<Rightarrow> 'b res"
  wo_calc :: "'b \<Rightarrow> 'w \<Rightarrow> 'w res"
  wo_production :: "resume_from \<Rightarrow> 'b option \<Rightarrow> 'w \<Rightarrow> 'w res"
  wo_run :: "'w \<Rightarrow> 'w res option"
  wo_db :: "'w \<Rightarrow> ('s, 'k) recovery_part"
  wo_shutdown :: "'w \<Rightarrow> 'w"

definition worker_resume :: "('w, 'c, 'b, 's, 'k) worker_ops \<Rightarrow> 'b option \<Rightarrow> 'w \<Rightarrow> ('w \<times> resume_from) res option" where
  "worker_resume W recovery w = (case recovery of
       None \<Rightarrow> Some (Inr (w, resume_default))
     | Some b \<Rightarrow>
         rbind (Some (reraise (wo_calc W b w))) (\<lambda>w1.
         rbind (wo_run W w1) (\<lambda>w2.
         Some (emap (\<lambda>rf. (w2, rf)) (resume_result (part_resume_from (wo_db W w2)))))))"

definition worker_main :: "('w, 'c, 'b, 's, 'k) worker_ops \<Rightarrow> 'c option \<Rightarrow> 'w \<Rightarrow> 'w res option" where
  "worker_main W config w =
     rbind (Some (case config of None \<Rightarrow> Inr None | Some c \<Rightarrow> emap Some (wo_config W c))) (\<lambda>recovery.
     rbind (worker_resume W recovery w) (\<lambda>(w1, rf).
     rbind (Some (reraise (wo_production W rf recovery w1))) (\<lambda>w2.
     rbind (wo_run W w2) (\<lambda>w3. Some (Inr (wo_shutdown W w3))))))"

section \<open>\<^verbatim>\<open>run_main\<close>\<close>

text \<open>
  A panic of the worker is caught. Its payload is a Python exception, which is raised again (an
  interrupt with a message of its own), or else gives a \<^verbatim>\<open>RuntimeError\<close>.
\<close>

definition panic_to_err :: "panic \<Rightarrow> string" where
  "panic_to_err p = (case p of
       PyErr ty \<Rightarrow> if ty = ''KeyboardInterrupt'' then ''KeyboardInterrupt'' else ty
     | Expect _ \<Rightarrow> ''RuntimeError''
     | AssertFail _ \<Rightarrow> ''RuntimeError''
     | PanicMsg _ \<Rightarrow> ''RuntimeError'')"

definition run_main :: "('w \<Rightarrow> 'w res option) \<Rightarrow> 'w \<Rightarrow> (string + unit) option" where
  "run_main main w = map_option (\<lambda>r. case r of Inl p \<Rightarrow> Inl (panic_to_err p) | Inr _ \<Rightarrow> Inr ()) (main w)"

text \<open>Its interrupt callback panics with the exception of a signal, and never asks to stop.\<close>

definition check_signals :: "('w \<Rightarrow> unit res) \<Rightarrow> 'w \<Rightarrow> bool res" where
  "check_signals signals w = emap (\<lambda>_. False) (reraise (signals w))"

section \<open>\<^verbatim>\<open>cluster_main\<close> and \<^verbatim>\<open>cli_main\<close>\<close>

datatype comm_config = Process nat | Cluster nat nat "string list"

definition cluster_comm :: "string list option \<Rightarrow> nat \<Rightarrow> nat \<Rightarrow> comm_config" where
  "cluster_comm addresses proc_id worker_count =
     (let as = (case addresses of None \<Rightarrow> [] | Some as \<Rightarrow> as)
      in if as = [] then Process worker_count else Cluster worker_count proc_id as)"

text \<open>
  The main thread polls: as long as a worker thread runs it checks for signals, and one makes it set
  the shutdown flag and raise; each element is what one poll finds. Then the threads are joined.
\<close>

fun cluster_wait :: "(bool \<times> unit res) list \<Rightarrow> (bool \<times> unit res) option" where
  "cluster_wait [] = None"
| "cluster_wait ((running, signals) # polls) =
     (if running then (case signals of Inl e \<Rightarrow> Some (True, Inl e) | Inr _ \<Rightarrow> cluster_wait polls)
      else Some (False, Inr ()))"

definition cluster_join :: "'a res list \<Rightarrow> unit res" where
  "cluster_join results = efold (\<lambda>_ r. case r of Inl _ \<Rightarrow> Inl (PyErr ''RuntimeError'') | Inr _ \<Rightarrow> Inr ()) () results"

definition cluster_result :: "(bool \<times> unit res) list \<Rightarrow> 'a res list \<Rightarrow> unit res option" where
  "cluster_result polls results =
     map_option (\<lambda>(_, r). ebind r (\<lambda>_. cluster_join results)) (cluster_wait polls)"

datatype entry = RunMain | ClusterMain "string list option" nat nat

definition cli_main :: "nat option \<Rightarrow> nat option \<Rightarrow> string list option \<Rightarrow> entry" where
  "cli_main workers_per_process process_id addresses =
     (let n = (case workers_per_process of None \<Rightarrow> 1 | Some n \<Rightarrow> n)
      in if n = 1 \<and> addresses = None then RunMain
         else ClusterMain addresses (case process_id of None \<Rightarrow> 0 | Some p \<Rightarrow> p) n)"

section \<open>The loop\<close>

text \<open>The worker after a number of steps.\<close>

fun steps :: "('w \<Rightarrow> 'w res) \<Rightarrow> nat \<Rightarrow> 'w \<Rightarrow> 'w res" where
  "steps step 0 w = Inr w"
| "steps step (Suc n) w = ebind (step w) (steps step n)"

definition running :: "('w \<Rightarrow> bool res) \<Rightarrow> 'w res \<Rightarrow> bool" where
  "running stop r = (case r of Inl _ \<Rightarrow> False | Inr w \<Rightarrow> stop w = Inr False)"

text \<open>What the loop returns in a state in which it does not go on.\<close>

definition outcome :: "('w \<Rightarrow> bool res) \<Rightarrow> 'w res \<Rightarrow> 'w res" where
  "outcome stop r = ebind r (\<lambda>w. emap (\<lambda>_. w) (stop w))"

lemma worker_run_stopped: "\<not> running stop (Inr w) \<Longrightarrow> worker_run stop step w = Some (outcome stop (Inr w))"
  by (subst worker_run.simps) (auto simp: running_def outcome_def split: sum.split bool.split)

lemma worker_run_goes_on:
  "running stop (Inr w) \<Longrightarrow> worker_run stop step w = (case step w of Inl e \<Rightarrow> Some (Inl e) | Inr w' \<Rightarrow> worker_run stop step w')"
  by (subst worker_run.simps) (simp add: running_def)

lemma worker_run_steps:
  assumes "\<forall>i < n. running stop (steps step i w)" and "\<not> running stop (steps step n w)"
  shows "worker_run stop step w = Some (outcome stop (steps step n w))"
  using assms
proof (induction n arbitrary: w)
  case 0
  then show ?case by (simp add: worker_run_stopped)
next
  case (Suc n)
  have r: "running stop (Inr w)" using Suc.prems(1) by (force dest: spec [of _ 0])
  show ?case
  proof (cases "step w")
    case (Inl e)
    with r show ?thesis by (simp add: worker_run_goes_on outcome_def)
  next
    case (Inr w')
    have "\<forall>i < n. running stop (steps step i w')"
    proof (intro allI impI)
      fix i assume "i < n"
      with Suc.prems(1) have "running stop (steps step (Suc i) w)" by blast
      with Inr show "running stop (steps step i w')" by simp
    qed
    moreover have "\<not> running stop (steps step n w')" using Suc.prems(2) Inr by simp
    ultimately show ?thesis using Suc.IH [of w'] r Inr by (simp add: worker_run_goes_on)
  qed
qed

lemma worker_run_returns_steps:
  assumes "worker_run stop step w = Some r"
  shows "\<exists>n. (\<forall>i < n. running stop (steps step i w)) \<and> \<not> running stop (steps step n w)"
proof (rule worker_run.raw_induct [OF _ assms,
    where P = "\<lambda>stop step w r. \<exists>n. (\<forall>i < n. running stop (steps step i w)) \<and> \<not> running stop (steps step n w)"])
  fix run and stop :: "'a \<Rightarrow> bool res" and step w r
  assume IH: "\<And>stop step w r. run stop step w = Some r \<Longrightarrow>
      \<exists>n. (\<forall>i < n. running stop (steps step i w)) \<and> \<not> running stop (steps step n w)"
    and eq: "(case stop w of Inl e \<Rightarrow> Some (Inl e)
      | Inr ended \<Rightarrow> if ended then Some (Inr w)
          else (case step w of Inl e \<Rightarrow> Some (Inl e) | Inr w' \<Rightarrow> run stop step w')) = Some r"
  show "\<exists>n. (\<forall>i < n. running stop (steps step i w)) \<and> \<not> running stop (steps step n w)"
  proof (cases "running stop (Inr w)")
    case False
    then show ?thesis by (intro exI [of _ 0]) simp
  next
    case True
    show ?thesis
    proof (cases "step w")
      case (Inl e)
      then show ?thesis using True by (intro exI [of _ 1]) (auto simp: running_def)
    next
      case (Inr w')
      with eq True have "run stop step w' = Some r" by (simp add: running_def)
      from IH [OF this] obtain n where n: "\<forall>i < n. running stop (steps step i w')" "\<not> running stop (steps step n w')" by (elim exE conjE) (rule that)
      have "running stop (steps step i w)" if "i < Suc n" for i
      proof (cases i)
        case 0
        with True show ?thesis by simp
      next
        case (Suc m)
        with that n(1) have "running stop (steps step m w')" by simp
        then show ?thesis by (simp add: Suc Inr)
      qed
      moreover have "\<not> running stop (steps step (Suc n) w)" using n(2) by (simp add: Inr)
      ultimately show ?thesis by blast
    qed
  qed
qed

section \<open>Properties\<close>



end
