(* ===== verification/Source_Tests.thy ===== *)
theory Source_Tests
  imports Sliding Session Clocks Resume Routing Inputs
begin

text \<open>
  The unit tests of the crate, evaluated on the model: each definition is one test function, with its
  inputs and the results it expects, and the theorem says that all of them pass. \<open>utc\<close> is chrono's
  \<^verbatim>\<open>Utc.with_ymd_and_hms\<close> for valid dates. Two tests are left out, \<^verbatim>\<open>test_serde\<close> of \<^verbatim>\<open>pyo3_extensions\<close> (pickling in
  Python) and \<^verbatim>\<open>migrations_valid\<close> of \<^verbatim>\<open>recovery.rs\<close> (SQL).
\<close>

section \<open>Dates\<close>

text \<open>Days of the proleptic Gregorian calendar since 1970-01-01, by years that begin in March.\<close>

definition days_from_civil :: "int \<Rightarrow> int \<Rightarrow> int \<Rightarrow> int" where
  "days_from_civil y m d =
     (let y' = (if m \<le> 2 then y - 1 else y); m' = (m + 9) mod 12
      in 365 * y' + y' div 4 - y' div 100 + y' div 400 + (153 * m' + 2) div 5 + d - 719469)"

definition secs :: "int \<Rightarrow> dur" where
  "secs s = 1000000000 * s"

definition utc :: "int \<Rightarrow> int \<Rightarrow> int \<Rightarrow> int \<Rightarrow> int \<Rightarrow> int \<Rightarrow> time" where
  "utc y mo d h mi s = secs (((days_from_civil y mo d * 24 + h) * 60 + mi) * 60 + s)"

section \<open>\<^verbatim>\<open>sliding_window.rs\<close>\<close>

text \<open>The windower of every test: length and offset in seconds, aligned to 2023-03-16 09:00:00.\<close>

definition windower_of :: "int \<Rightarrow> int \<Rightarrow> sliding_windower" where
  "windower_of len off = \<lparr>length' = secs len, offset = secs off, align_to = utc 2023 3 16 9 0 0, close_times = []\<rparr>"

definition test_intersect_overlap_offset_divisible_by_length_bulk_positive :: bool where
  "test_intersect_overlap_offset_divisible_by_length_bulk_positive \<longleftrightarrow> intersects (windower_of 10 5) (utc 2023 3 16 9 0 13) =
     Inr [(1, utc 2023 3 16 9 0 5, utc 2023 3 16 9 0 15),
       (2, utc 2023 3 16 9 0 10, utc 2023 3 16 9 0 20)]"

definition test_intersect_overlap_offset_divisible_by_length_bulk_negative :: bool where
  "test_intersect_overlap_offset_divisible_by_length_bulk_negative \<longleftrightarrow> intersects (windower_of 10 5) (utc 2023 3 16 8 59 57) =
     Inr [(-2, utc 2023 3 16 8 59 50, utc 2023 3 16 9 0 0),
       (-1, utc 2023 3 16 8 59 55, utc 2023 3 16 9 0 5)]"

definition test_intersect_overlap_offset_divisible_by_length_bulk_zero_negative :: bool where
  "test_intersect_overlap_offset_divisible_by_length_bulk_zero_negative \<longleftrightarrow> intersects (windower_of 10 5) (utc 2023 3 16 9 0 3) =
     Inr [(-1, utc 2023 3 16 8 59 55, utc 2023 3 16 9 0 5),
       (0, utc 2023 3 16 9 0 0, utc 2023 3 16 9 0 10)]"

definition test_intersect_overlap_offset_divisible_by_length_bulk_zero_positive :: bool where
  "test_intersect_overlap_offset_divisible_by_length_bulk_zero_positive \<longleftrightarrow> intersects (windower_of 10 5) (utc 2023 3 16 9 0 7) =
     Inr [(0, utc 2023 3 16 9 0 0, utc 2023 3 16 9 0 10),
       (1, utc 2023 3 16 9 0 5, utc 2023 3 16 9 0 15)]"

definition test_intersect_overlap_offset_divisible_by_length_edge_positive :: bool where
  "test_intersect_overlap_offset_divisible_by_length_edge_positive \<longleftrightarrow> intersects (windower_of 10 5) (utc 2023 3 16 9 0 15) =
     Inr [(2, utc 2023 3 16 9 0 10, utc 2023 3 16 9 0 20),
       (3, utc 2023 3 16 9 0 15, utc 2023 3 16 9 0 25)]"

definition test_intersect_overlap_offset_divisible_by_length_edge_negative :: bool where
  "test_intersect_overlap_offset_divisible_by_length_edge_negative \<longleftrightarrow> intersects (windower_of 10 5) (utc 2023 3 16 8 59 55) =
     Inr [(-2, utc 2023 3 16 8 59 50, utc 2023 3 16 9 0 0),
       (-1, utc 2023 3 16 8 59 55, utc 2023 3 16 9 0 5)]"

definition test_intersect_overlap_offset_divisible_by_length_edge_start_zero :: bool where
  "test_intersect_overlap_offset_divisible_by_length_edge_start_zero \<longleftrightarrow> intersects (windower_of 10 5) (utc 2023 3 16 9 0 0) =
     Inr [(-1, utc 2023 3 16 8 59 55, utc 2023 3 16 9 0 5),
       (0, utc 2023 3 16 9 0 0, utc 2023 3 16 9 0 10)]"

definition test_intersect_overlap_offset_divisible_by_length_edge_end_zero :: bool where
  "test_intersect_overlap_offset_divisible_by_length_edge_end_zero \<longleftrightarrow> intersects (windower_of 10 5) (utc 2023 3 16 9 0 10) =
     Inr [(1, utc 2023 3 16 9 0 5, utc 2023 3 16 9 0 15),
       (2, utc 2023 3 16 9 0 10, utc 2023 3 16 9 0 20)]"

definition test_intersect_overlap_offset_indivisible_by_length_bulk_positive :: bool where
  "test_intersect_overlap_offset_indivisible_by_length_bulk_positive \<longleftrightarrow> intersects (windower_of 10 3) (utc 2023 3 16 9 0 11) =
     Inr [(1, utc 2023 3 16 9 0 3, utc 2023 3 16 9 0 13),
       (2, utc 2023 3 16 9 0 6, utc 2023 3 16 9 0 16),
       (3, utc 2023 3 16 9 0 9, utc 2023 3 16 9 0 19)]"

definition test_intersect_overlap_offset_indivisible_by_length_bulk_negative :: bool where
  "test_intersect_overlap_offset_indivisible_by_length_bulk_negative \<longleftrightarrow> intersects (windower_of 10 3) (utc 2023 3 16 8 59 59) =
     Inr [(-3, utc 2023 3 16 8 59 51, utc 2023 3 16 9 0 1),
       (-2, utc 2023 3 16 8 59 54, utc 2023 3 16 9 0 4),
       (-1, utc 2023 3 16 8 59 57, utc 2023 3 16 9 0 7)]"

definition test_intersect_overlap_offset_indivisible_by_length_bulk_zero :: bool where
  "test_intersect_overlap_offset_indivisible_by_length_bulk_zero \<longleftrightarrow> intersects (windower_of 10 3) (utc 2023 3 16 9 0 5) =
     Inr [(-1, utc 2023 3 16 8 59 57, utc 2023 3 16 9 0 7),
       (0, utc 2023 3 16 9 0 0, utc 2023 3 16 9 0 10),
       (1, utc 2023 3 16 9 0 3, utc 2023 3 16 9 0 13)]"

definition test_intersect_overlap_offset_indivisible_by_length_edge_start_positive :: bool where
  "test_intersect_overlap_offset_indivisible_by_length_edge_start_positive \<longleftrightarrow> intersects (windower_of 10 7) (utc 2023 3 16 9 0 14) =
     Inr [(1, utc 2023 3 16 9 0 7, utc 2023 3 16 9 0 17),
       (2, utc 2023 3 16 9 0 14, utc 2023 3 16 9 0 24)]"

definition test_intersect_overlap_offset_indivisible_by_length_edge_start_negative :: bool where
  "test_intersect_overlap_offset_indivisible_by_length_edge_start_negative \<longleftrightarrow> intersects (windower_of 10 7) (utc 2023 3 16 8 59 53) =
     Inr [(-2, utc 2023 3 16 8 59 46, utc 2023 3 16 8 59 56),
       (-1, utc 2023 3 16 8 59 53, utc 2023 3 16 9 0 3)]"

definition test_intersect_overlap_offset_indivisible_by_length_edge_start_zero :: bool where
  "test_intersect_overlap_offset_indivisible_by_length_edge_start_zero \<longleftrightarrow> intersects (windower_of 10 7) (utc 2023 3 16 9 0 0) =
     Inr [(-1, utc 2023 3 16 8 59 53, utc 2023 3 16 9 0 3),
       (0, utc 2023 3 16 9 0 0, utc 2023 3 16 9 0 10)]"

definition test_intersect_overlap_offset_indivisible_by_length_edge_end_positive :: bool where
  "test_intersect_overlap_offset_indivisible_by_length_edge_end_positive \<longleftrightarrow> intersects (windower_of 10 7) (utc 2023 3 16 9 0 17) =
     Inr [(2, utc 2023 3 16 9 0 14, utc 2023 3 16 9 0 24)]"

definition test_intersect_overlap_offset_indivisible_by_length_edge_end_negative :: bool where
  "test_intersect_overlap_offset_indivisible_by_length_edge_end_negative \<longleftrightarrow> intersects (windower_of 10 7) (utc 2023 3 16 8 59 56) =
     Inr [(-1, utc 2023 3 16 8 59 53, utc 2023 3 16 9 0 3)]"

definition test_intersect_overlap_offset_indivisible_by_length_edge_end_zero :: bool where
  "test_intersect_overlap_offset_indivisible_by_length_edge_end_zero \<longleftrightarrow> intersects (windower_of 10 7) (utc 2023 3 16 9 0 10) =
     Inr [(1, utc 2023 3 16 9 0 7, utc 2023 3 16 9 0 17)]"

definition test_intersect_tumble_bulk_positive :: bool where
  "test_intersect_tumble_bulk_positive \<longleftrightarrow> intersects (windower_of 10 10) (utc 2023 3 16 9 0 15) =
     Inr [(1, utc 2023 3 16 9 0 10, utc 2023 3 16 9 0 20)]"

definition test_intersect_tumble_bulk_negative :: bool where
  "test_intersect_tumble_bulk_negative \<longleftrightarrow> intersects (windower_of 10 10) (utc 2023 3 16 8 59 55) =
     Inr [(-1, utc 2023 3 16 8 59 50, utc 2023 3 16 9 0 0)]"

definition test_intersect_tumble_bulk_zero :: bool where
  "test_intersect_tumble_bulk_zero \<longleftrightarrow> intersects (windower_of 10 10) (utc 2023 3 16 9 0 5) =
     Inr [(0, utc 2023 3 16 9 0 0, utc 2023 3 16 9 0 10)]"

definition test_intersect_tumble_edge_positive :: bool where
  "test_intersect_tumble_edge_positive \<longleftrightarrow> intersects (windower_of 10 10) (utc 2023 3 16 9 0 20) =
     Inr [(2, utc 2023 3 16 9 0 20, utc 2023 3 16 9 0 30)]"

definition test_intersect_tumble_edge_negative :: bool where
  "test_intersect_tumble_edge_negative \<longleftrightarrow> intersects (windower_of 10 10) (utc 2023 3 16 8 59 50) =
     Inr [(-1, utc 2023 3 16 8 59 50, utc 2023 3 16 9 0 0)]"

definition test_intersect_tumble_edge_zero_start :: bool where
  "test_intersect_tumble_edge_zero_start \<longleftrightarrow> intersects (windower_of 10 10) (utc 2023 3 16 9 0 0) =
     Inr [(0, utc 2023 3 16 9 0 0, utc 2023 3 16 9 0 10)]"

definition test_intersect_tumble_edge_zero_end :: bool where
  "test_intersect_tumble_edge_zero_end \<longleftrightarrow> intersects (windower_of 10 10) (utc 2023 3 16 9 0 10) =
     Inr [(1, utc 2023 3 16 9 0 10, utc 2023 3 16 9 0 20)]"

definition test_intersect_gap_bulk_positive :: bool where
  "test_intersect_gap_bulk_positive \<longleftrightarrow> intersects (windower_of 10 13) (utc 2023 3 16 9 0 18) =
     Inr [(1, utc 2023 3 16 9 0 13, utc 2023 3 16 9 0 23)]"

definition test_intersect_gap_bulk_negative :: bool where
  "test_intersect_gap_bulk_negative \<longleftrightarrow> intersects (windower_of 10 13) (utc 2023 3 16 8 59 48) =
     Inr [(-1, utc 2023 3 16 8 59 47, utc 2023 3 16 8 59 57)]"

definition test_intersect_gap_bulk_zero :: bool where
  "test_intersect_gap_bulk_zero \<longleftrightarrow> intersects (windower_of 10 13) (utc 2023 3 16 9 0 3) =
     Inr [(0, utc 2023 3 16 9 0 0, utc 2023 3 16 9 0 10)]"

definition test_intersect_gap_gap_positive :: bool where
  "test_intersect_gap_gap_positive \<longleftrightarrow> intersects (windower_of 10 13) (utc 2023 3 16 9 0 12) =
     Inr []"

definition test_intersect_gap_gap_negative :: bool where
  "test_intersect_gap_gap_negative \<longleftrightarrow> intersects (windower_of 10 13) (utc 2023 3 16 8 59 59) =
     Inr []"

definition test_intersect_gap_edge_start_positive :: bool where
  "test_intersect_gap_edge_start_positive \<longleftrightarrow> intersects (windower_of 10 13) (utc 2023 3 16 9 0 13) =
     Inr [(1, utc 2023 3 16 9 0 13, utc 2023 3 16 9 0 23)]"

definition test_intersect_gap_edge_start_negative :: bool where
  "test_intersect_gap_edge_start_negative \<longleftrightarrow> intersects (windower_of 10 13) (utc 2023 3 16 8 59 47) =
     Inr [(-1, utc 2023 3 16 8 59 47, utc 2023 3 16 8 59 57)]"

definition test_intersect_gap_edge_start_zero :: bool where
  "test_intersect_gap_edge_start_zero \<longleftrightarrow> intersects (windower_of 10 13) (utc 2023 3 16 9 0 0) =
     Inr [(0, utc 2023 3 16 9 0 0, utc 2023 3 16 9 0 10)]"

definition test_intersect_gap_edge_end_positive :: bool where
  "test_intersect_gap_edge_end_positive \<longleftrightarrow> intersects (windower_of 10 13) (utc 2023 3 16 9 0 23) =
     Inr []"

definition test_intersect_gap_edge_end_negative :: bool where
  "test_intersect_gap_edge_end_negative \<longleftrightarrow> intersects (windower_of 10 13) (utc 2023 3 16 8 59 57) =
     Inr []"

definition test_intersect_gap_edge_end_zero :: bool where
  "test_intersect_gap_edge_end_zero \<longleftrightarrow> intersects (windower_of 10 13) (utc 2023 3 16 9 0 10) =
     Inr []"

definition test_sliding_insert :: bool where
  "test_sliding_insert \<longleftrightarrow>
     map_sum id snd (sliding_insert (windower_of 10 5) (utc 2023 3 16 9 0 17) (utc 2023 3 16 9 0 13)) =
       Inr [Inl (Late 1), Inr 2]"

definition test_drain_closed :: bool where
  "test_drain_closed \<longleftrightarrow>
     emap (\<lambda>(w, _). snd (sliding_drain_closed w (utc 2023 3 16 9 0 17)))
       (sliding_insert (windower_of 10 5) (utc 2023 3 16 9 0 4) (utc 2023 3 16 9 0 13)) =
     Inr [(1, \<lparr>open_time = utc 2023 3 16 9 0 5, close_time = utc 2023 3 16 9 0 15\<rparr>)]"

section \<open>\<^verbatim>\<open>session_window.rs\<close>\<close>

text \<open>The tests start at the system time, an argument here; sorting is stable where the code leaves it open.\<close>

definition sessions_of :: "int \<Rightarrow> session_windower" where
  "sessions_of g = \<lparr>gap = secs g, sessions = [], max_key = 0\<rparr>"

abbreviation by_start :: "session list \<Rightarrow> session list" where
  "by_start \<equiv> sort_key start"

definition test_merge_sessions :: "time \<Rightarrow> bool" where
  "test_merge_sessions start_time \<longleftrightarrow>
     (let w1 = add_session by_start (sessions_of 5) start_time;
          w2 = add_session by_start w1 (start_time + secs 6);
          w3 = add_session by_start w2 (start_time + secs 1);
          w4 = merge_sessions w3
      in length (sessions w3) = 3 \<and> length (sessions w4) = 2 \<and>
        current_close_time (sessions w4 ! 0) 0 = start_time + secs 1)"

definition test_session_insert :: "time \<Rightarrow> bool" where
  "test_session_insert start_time \<longleftrightarrow>
     (case session_insert by_start (sessions_of 5) start_time start_time of
        Inr (w1, [Inr first_window]) \<Rightarrow>
     (case session_insert by_start w1 start_time (start_time - secs 1) of
        Inr (w2, [Inl _]) \<Rightarrow>
     (case session_insert by_start w2 start_time (start_time + secs 6) of
        Inr (w3, [Inr second_window]) \<Rightarrow>
     (case session_insert by_start w3 start_time (start_time + secs 7) of
        Inr (w4, [Inr third_window]) \<Rightarrow> first_window \<noteq> second_window \<and> second_window = third_window
      | _ \<Rightarrow> False) | _ \<Rightarrow> False) | _ \<Rightarrow> False) | _ \<Rightarrow> False)"

section \<open>\<^verbatim>\<open>event_time_clock.rs\<close>\<close>

text \<open>The items are the datetimes themselves. The test source of the time is the argument \<open>now\<close> of the model's \<^verbatim>\<open>watermark\<close>.\<close>

fun watermarks ::
  "time \<Rightarrow> time \<Rightarrow> time event_clock \<Rightarrow> (time \<times> time poll) list \<Rightarrow> time list res" where
  "watermarks mn mx c [] = Inr []"
| "watermarks mn mx c ((now, p) # xs) =
     ebind (event_watermark mn mx c now p) (\<lambda>(c', wm). emap (\<lambda>wms. wm # wms) (watermarks mn mx c' xs))"

definition test_watermark :: "time \<Rightarrow> time \<Rightarrow> bool" where
  "test_watermark min_utc max_utc \<longleftrightarrow>
     watermarks min_utc max_utc
       \<lparr>dt_getter = Inr, wait_for_system_duration = secs 10, max_event_time_system_time = None\<rparr>
       [(utc 2023 5 10 9 0 0, Pending),
        (utc 2023 5 10 9 0 0, Ready (Some (utc 2023 3 16 9 0 0))),
        (utc 2023 5 10 9 0 2, Pending),
        (utc 2023 5 10 9 0 4, Ready (Some (utc 2023 3 16 9 1 0))),
        (utc 2023 5 10 9 0 6, Ready (Some (utc 2023 3 16 9 1 1))),
        (utc 2023 5 10 9 0 8, Ready None),
        (utc 2023 5 10 9 0 10, Ready None)] =
     Inr [min_utc, utc 2023 3 16 8 59 50, utc 2023 3 16 8 59 52, utc 2023 3 16 9 0 50, utc 2023 3 16 9 0 52,
       max_utc, max_utc]"

section \<open>\<^verbatim>\<open>recovery.rs\<close>, \<^verbatim>\<open>inputs.rs\<close> and \<^verbatim>\<open>timely.rs\<close>\<close>

text \<open>Rows are written with the batch writers, then the resume point is asked for.\<close>

definition found_resume ::
  "partition_meta list \<Rightarrow> execution_meta list \<Rightarrow> frontier_meta list \<Rightarrow> commit_meta list \<Rightarrow>
    (resume_error + resume_from) res" where
  "found_resume ps es fs cs =
     emap part_resume_from
       (ebind (write_parts ps (empty_part :: (nat, nat) recovery_part)) (\<lambda>d. ebind (write_exs es d)
         (\<lambda>d. ebind (write_fronts fs d) (write_commits cs))))"

definition resume_from_only_parts :: bool where
  "resume_from_only_parts \<longleftrightarrow>
     found_resume [PartitionMeta 0 1] [] [] [] = Inr (Inr (ResumeFrom 0 1))"

definition resume_from_all_explict_fronts :: bool where
  "resume_from_all_explict_fronts \<longleftrightarrow>
     found_resume [PartitionMeta 0 1] [ExecutionMeta 1 3 11]
       [FrontierMeta 1 0 13, FrontierMeta 1 1 12, FrontierMeta 1 2 13] [CommitMeta 0 12] =
     Inr (Inr (ResumeFrom 2 12))"

definition resume_from_default_fronts :: bool where
  "resume_from_default_fronts \<longleftrightarrow>
     found_resume [PartitionMeta 0 1] [ExecutionMeta 1 3 11]
       [FrontierMeta 1 0 13, FrontierMeta 1 2 13] [CommitMeta 0 11] =
     Inr (Inr (ResumeFrom 2 11))"

definition resume_from_inconsistent_error :: bool where
  "resume_from_inconsistent_error \<longleftrightarrow>
     (case found_resume [PartitionMeta 0 2, PartitionMeta 1 2] [ExecutionMeta 1 3 11]
         [FrontierMeta 1 0 13, FrontierMeta 1 2 13] [CommitMeta 0 12, CommitMeta 1 12] of
        Inr (Inl (InconsistentPartitionsError _ _)) \<Rightarrow> True | _ \<Rightarrow> False)"

definition test_epochs_per :: bool where
  "test_epochs_per \<longleftrightarrow> epochs_per (5000 * 1000000) (12000 * 1000000) = 3"

definition test_epochs_per_zero :: bool where
  "test_epochs_per_zero \<longleftrightarrow> epochs_per (5000 * 1000000) (0 * 1000000) = 0"

definition worker_count_iter_works :: bool where
  "worker_count_iter_works \<longleftrightarrow> w_iter 3 = [0, 1, 2]"

section \<open>All of them pass\<close>

definition sliding_tests :: "bool list" where
  "sliding_tests = [test_intersect_overlap_offset_divisible_by_length_bulk_positive,
     test_intersect_overlap_offset_divisible_by_length_bulk_negative,
     test_intersect_overlap_offset_divisible_by_length_bulk_zero_negative,
     test_intersect_overlap_offset_divisible_by_length_bulk_zero_positive,
     test_intersect_overlap_offset_divisible_by_length_edge_positive,
     test_intersect_overlap_offset_divisible_by_length_edge_negative,
     test_intersect_overlap_offset_divisible_by_length_edge_start_zero,
     test_intersect_overlap_offset_divisible_by_length_edge_end_zero,
     test_intersect_overlap_offset_indivisible_by_length_bulk_positive,
     test_intersect_overlap_offset_indivisible_by_length_bulk_negative,
     test_intersect_overlap_offset_indivisible_by_length_bulk_zero,
     test_intersect_overlap_offset_indivisible_by_length_edge_start_positive,
     test_intersect_overlap_offset_indivisible_by_length_edge_start_negative,
     test_intersect_overlap_offset_indivisible_by_length_edge_start_zero,
     test_intersect_overlap_offset_indivisible_by_length_edge_end_positive,
     test_intersect_overlap_offset_indivisible_by_length_edge_end_negative,
     test_intersect_overlap_offset_indivisible_by_length_edge_end_zero, test_intersect_tumble_bulk_positive,
     test_intersect_tumble_bulk_negative, test_intersect_tumble_bulk_zero, test_intersect_tumble_edge_positive,
     test_intersect_tumble_edge_negative, test_intersect_tumble_edge_zero_start,
     test_intersect_tumble_edge_zero_end, test_intersect_gap_bulk_positive, test_intersect_gap_bulk_negative,
     test_intersect_gap_bulk_zero, test_intersect_gap_gap_positive, test_intersect_gap_gap_negative,
     test_intersect_gap_edge_start_positive, test_intersect_gap_edge_start_negative,
     test_intersect_gap_edge_start_zero, test_intersect_gap_edge_end_positive,
     test_intersect_gap_edge_end_negative, test_intersect_gap_edge_end_zero, test_sliding_insert, test_drain_closed]"

lemma sliding_tests_pass: "list_all id sliding_tests"
  by code_simp

lemma merge_test_passes: "test_merge_sessions t"
  by (simp add: test_merge_sessions_def sessions_of_def add_session_def next_key_def session_new_def merge_sessions_def merge_step_def
      contains_iff merge_with_def current_close_time_def secs_def Let_def)

text \<open>The calls of \<^verbatim>\<open>insert\<close> one after the other.\<close>

lemma insert_calls:
  "session_insert by_start (sessions_of 5) t t = Inr (\<lparr>gap = secs 5, sessions = [\<lparr>key = 1, start = t, latest_event_time = t\<rparr>], max_key = 1\<rparr>, [Inr 1])"
  "session_insert by_start w t (t - secs 1) = Inr (w, [Inl (Late (max_key w))])"
  "session_insert by_start \<lparr>gap = secs 5, sessions = [\<lparr>key = 1, start = t, latest_event_time = t\<rparr>], max_key = 1\<rparr> t (t + secs 6) =
    Inr (\<lparr>gap = secs 5, sessions = [\<lparr>key = 1, start = t, latest_event_time = t\<rparr>, \<lparr>key = 2, start = t + secs 6, latest_event_time = t + secs 6\<rparr>],
      max_key = 2\<rparr>, [Inr 2])"
  "map_sum id snd (session_insert by_start \<lparr>gap = secs 5, sessions = [\<lparr>key = 1, start = t, latest_event_time = t\<rparr>,
      \<lparr>key = 2, start = t + secs 6, latest_event_time = t + secs 6\<rparr>], max_key = 2\<rparr> t (t + secs 7)) = Inr [Inr 2]"
  by (simp_all add: session_insert_def sessions_of_def add_session_def next_key_def session_new_def merge_sessions_def
      merge_step_def contains_iff merge_with_def try_insert_def secs_def Let_def expect_def)

lemma insert_test_passes: "test_session_insert t"
proof -
  from insert_calls(4) [of t] obtain w where
    "session_insert by_start \<lparr>gap = secs 5, sessions = [\<lparr>key = 1, start = t, latest_event_time = t\<rparr>,
      \<lparr>key = 2, start = t + secs 6, latest_event_time = t + secs 6\<rparr>], max_key = 2\<rparr> t (t + secs 7) = Inr (w, [Inr 2])"
    by (cases "session_insert by_start \<lparr>gap = secs 5, sessions = [\<lparr>key = 1, start = t, latest_event_time = t\<rparr>,
      \<lparr>key = 2, start = t + secs 6, latest_event_time = t + secs 6\<rparr>], max_key = 2\<rparr> t (t + secs 7)") auto
  then show ?thesis by (simp add: test_session_insert_def insert_calls(1-3))
qed

lemma watermark_test_passes: "test_watermark (utc (- 262144) 1 1 0 0 0) (utc 262143 12 31 23 59 59)"
  by code_simp

lemma resume_tests_pass:
  "resume_from_only_parts \<and> resume_from_all_explict_fronts \<and> resume_from_default_fronts \<and> resume_from_inconsistent_error"
  by code_simp

lemma epoch_tests_pass: "test_epochs_per" "test_epochs_per_zero" "worker_count_iter_works"
  by (simp_all add: test_epochs_per_def test_epochs_per_zero_def epochs_per_def trunc_div_def Let_def worker_count_iter_works_def w_iter_def
      upt_rec)


end
