(* ===== verification/Error_Messages.thy ===== *)
theory Error_Messages
  imports Py_Errors "HOL-Library.Sublist"
begin

text \<open>
  The messages of the errors of \<^verbatim>\<open>src/src/errors.rs\<close>, which theory \<open>Py_Errors\<close> leaves out: each adaptor raises
  a new exception whose message names the place it was called from and quotes the error it was given, with its
  traceback. How PyO3 prints an exception is the argument \<open>disp\<close>. No adaptor loses the message of the error
  that started it all, and the lines printed by a worker thread are those of the message, each with the thread's name.
\<close>

record py_err =
  pe_type :: string
  pe_msg :: string
  pe_traceback :: "string option option"  \<comment> \<open>the traceback, and its text if it can be formatted\<close>

text \<open>\<^verbatim>\<open>into_pyresult\<close> of any other kind of error: a plain exception with its text.\<close>

definition into_py_err :: "string \<Rightarrow> py_err" where
  "into_py_err text = \<lparr>pe_type = ''Exception'', pe_msg = text, pe_traceback = None\<rparr>"

definition newline :: char where
  "newline = CHR 0x0A"

definition prepend_caller :: "string \<Rightarrow> string \<Rightarrow> string" where
  "prepend_caller caller msg = ''('' @ caller @ '') '' @ msg"

definition get_traceback :: "py_err \<Rightarrow> string option" where
  "get_traceback err = map_option (\<lambda>tb. case tb of Some text \<Rightarrow> text | None \<Rightarrow> ''Unable to print traceback'') (pe_traceback err)"

definition build_message :: "(py_err \<Rightarrow> string) \<Rightarrow> string \<Rightarrow> py_err \<Rightarrow> string \<Rightarrow> string" where
  "build_message disp caller err msg =
     (let err_msg = (case get_traceback err of Some tb \<Rightarrow> disp err @ newline # tb | None \<Rightarrow> disp err)
      in prepend_caller caller msg @ newline # ''Caused by => '' @ err_msg)"

definition tracked_err :: "string \<Rightarrow> string \<Rightarrow> string \<Rightarrow> py_err" where
  "tracked_err ty caller msg = \<lparr>pe_type = ty, pe_msg = prepend_caller caller msg, pe_traceback = None\<rparr>"

text \<open>The error \<^verbatim>\<open>raise\<close> and \<^verbatim>\<open>reraise\<close> make of one; a new exception has no traceback yet.\<close>

definition raised :: "(py_err \<Rightarrow> string) \<Rightarrow> string \<Rightarrow> string \<Rightarrow> string \<Rightarrow> py_err \<Rightarrow> py_err" where
  "raised disp ty caller msg err = \<lparr>pe_type = ty, pe_msg = build_message disp caller err msg, pe_traceback = None\<rparr>"

definition reraised :: "(py_err \<Rightarrow> string) \<Rightarrow> string \<Rightarrow> string \<Rightarrow> py_err \<Rightarrow> py_err" where
  "reraised disp caller msg err =
     raised disp (if pe_type err = ''KeyError'' then ''RuntimeError'' else pe_type err) caller msg err"

section \<open>No cause is lost\<close>

lemma build_message_cause:
  assumes "\<And>e. sublist (pe_msg e) (disp e)"
  shows "sublist (pe_msg err) (build_message disp caller err msg)"
proof -
  obtain tb where "(case get_traceback err of Some tb \<Rightarrow> disp err @ newline # tb | None \<Rightarrow> disp err) = disp err @ tb"
    by (cases "get_traceback err") auto
  then have "build_message disp caller err msg = (prepend_caller caller msg @ newline # ''Caused by => '') @ disp err @ tb"
    by (simp add: build_message_def)
  then have "sublist (disp err) (build_message disp caller err msg)" by (simp only: sublist_appendI)
  with assms [of err] show ?thesis by (rule sublist_order.order_trans)
qed

lemma reraised_chain:
  assumes "\<And>e. sublist (pe_msg e) (disp e)"
  shows "sublist (pe_msg err) (pe_msg (foldl (\<lambda>e (caller, msg). reraised disp caller msg e) err calls))"
proof (induction calls rule: rev_induct)
  case (snoc c calls)
  obtain caller msg where "c = (caller, msg)" by fastforce
  with sublist_order.order_trans [OF snoc build_message_cause [of disp, OF assms]] show ?case
    by (simp add: reraised_def raised_def)
qed simp

text \<open>The type alone changes as theory \<open>Py_Errors\<close> says.\<close>

lemma reraised_type: "reraise (Inl (PyErr (pe_type err))) = Inl (PyErr (pe_type (reraised disp caller msg err)))"
  by (simp add: reraise_def reraised_def raised_def)

section \<open>The name of the thread\<close>

text \<open>\<^verbatim>\<open>str::lines\<close>: lines end with a line feed, a carriage return before it belongs to the end.\<close>

fun rust_lines :: "string \<Rightarrow> string \<Rightarrow> string list" where
  "rust_lines cur [] = (if cur = [] then [] else [rev cur])"
| "rust_lines cur (c # cs) =
     (if c = newline then rev (if cur \<noteq> [] \<and> hd cur = CHR 0x0D then tl cur else cur) # rust_lines [] cs
      else rust_lines (c # cur) cs)"

definition prepend_tname :: "string option \<Rightarrow> string \<Rightarrow> string" where
  "prepend_tname thread_name msg =
     (let tname = (case thread_name of Some n \<Rightarrow> n | None \<Rightarrow> ''unnamed-thread'')
      in foldl (\<lambda>buf line. buf @ ''<'' @ tname @ ''> '' @ line @ [newline]) '''' (rust_lines [] msg))"

text \<open>The panic hook of \<^verbatim>\<open>cluster_main\<close> prints a Python exception as it is, any other panic as a \<^verbatim>\<open>RuntimeError\<close>.\<close>

definition hook_message :: "(py_err \<Rightarrow> string) \<Rightarrow> string option \<Rightarrow> string \<Rightarrow> py_err + string \<Rightarrow> string" where
  "hook_message disp thread_name caller payload =
     prepend_tname thread_name (disp (case payload of Inl err \<Rightarrow> err | Inr info \<Rightarrow> tracked_err ''RuntimeError'' caller info))"

lemma rust_lines_line:
  assumes "newline \<notin> set l" and "CHR 0x0D \<notin> set l" and "CHR 0x0D \<notin> set cur"
  shows "rust_lines cur (l @ newline # cs) = (rev cur @ l) # rust_lines [] cs"
  using assms
proof (induction l arbitrary: cur)
  case Nil
  then show ?case by (cases cur) auto
qed auto

lemma rust_lines_clean:
  assumes "CHR 0x0D \<notin> set cur \<union> set cs" and "newline \<notin> set cur" and "l \<in> set (rust_lines cur cs)"
  shows "newline \<notin> set l \<and> CHR 0x0D \<notin> set l"
  using assms
proof (induction cs arbitrary: cur)
  case Nil
  then show ?case by (simp split: if_splits)
next
  case (Cons c cs)
  show ?case
  proof (cases "c = newline")
    case True
    have "\<not> (cur \<noteq> [] \<and> hd cur = CHR 0x0D)" using Cons.prems(1) by (cases cur) auto
    with True Cons.prems(3) have "l = rev cur \<or> l \<in> set (rust_lines [] cs)" by auto
    then show ?thesis
    proof
      assume "l = rev cur"
      with Cons.prems(1,2) show ?thesis by simp
    next
      assume "l \<in> set (rust_lines [] cs)"
      with Cons.IH [of "[]"] Cons.prems(1) show ?thesis by simp
    qed
  next
    case False
    with Cons.prems(3) have "l \<in> set (rust_lines (c # cur) cs)" by simp
    with Cons.IH [of "c # cur"] Cons.prems(1,2) False show ?thesis by simp
  qed
qed

lemma foldl_named_lines:
  assumes "\<forall>l \<in> set ls. newline \<notin> set (p @ l) \<and> CHR 0x0D \<notin> set (p @ l)"
  shows "rust_lines [] (concat (map (\<lambda>l. p @ l @ [newline]) ls)) = map ((@) p) ls"
  using assms
proof (induction ls)
  case (Cons l ls)
  with rust_lines_line [of "p @ l" "[]"] show ?case by simp
qed simp

lemma tname_on_each_line:
  assumes n: "newline \<notin> set n" "CHR 0x0D \<notin> set n" and "CHR 0x0D \<notin> set msg"
  shows "rust_lines [] (prepend_tname (Some n) msg) = map (\<lambda>l. ''<'' @ n @ ''> '' @ l) (rust_lines [] msg)"
proof -
  let ?p = "''<'' @ n @ ''> ''"
  have f: "foldl (\<lambda>buf line. buf @ ''<'' @ n @ ''> '' @ line @ [newline]) b ls = b @ concat (map (\<lambda>l. ?p @ l @ [newline]) ls)" for b ls
    by (induction ls arbitrary: b) auto
  have "\<forall>l \<in> set (rust_lines [] msg). newline \<notin> set (?p @ l) \<and> CHR 0x0D \<notin> set (?p @ l)"
    using rust_lines_clean [of "[]" msg] assms by (auto simp: newline_def)
  from foldl_named_lines [OF this] show ?thesis unfolding prepend_tname_def Let_def option.case f append_Nil by (simp add: comp_def)
qed

end
